(* ===== verification/FB_Prelude.thy ===== *)
theory FB_Prelude
  imports Main "HOL-Library.Word"
begin

section \<open>Shared types, automation and list lemmas\<close>

text \<open>
  What every component of the development uses: names for the machine types of
  \<^verbatim>\<open>src/include/fb_types.h\<close>, the two conversions C performs silently (assignment to an
  unsigned 16 bit variable, reading a byte as a signed character), the result type of
  operations that may raise, and generic lemmas on lists and words that the component
  proofs rely on through the simpset.
\<close>

type_synonym byte = "8 word"
type_synonym ushort = "16 word"
type_synonym ulong = "32 word"

text \<open>An operation either raises (\<^term>\<open>Inl e\<close>) or returns (\<^term>\<open>Inr x\<close>).\<close>

type_synonym ('e, 'a) result = "'e + 'a"

named_theorems fb_simps \<open>unfolding rules of small model constants\<close>

subsection \<open>Implicit conversions\<close>

text \<open>Assigning a non-negative quantity to a \<^verbatim>\<open>USHORT\<close> keeps its low 16 bits.\<close>

definition to_ushort :: "nat \<Rightarrow> nat" where
  "to_ushort n = n mod 65536"

text \<open>A \<^verbatim>\<open>SCHAR\<close> read into a wider signed variable: bit 7 is the sign.\<close>

definition schar :: "byte \<Rightarrow> int" where
  "schar b = sint b"

text \<open>Storing an integer into a \<^verbatim>\<open>SCHAR\<close> keeps its low 8 bits.\<close>

definition to_schar :: "int \<Rightarrow> byte" where
  "to_schar i = word_of_int i"

text \<open>A value that does not fit into an \<^verbatim>\<open>SLONG\<close> keeps its low 32 bits, read as signed.\<close>

definition to_slong :: "int \<Rightarrow> int" where
  "to_slong i = (i + 2 ^ 31) mod 2 ^ 32 - 2 ^ 31"

text \<open>The bit mask of \<^verbatim>\<open>ROUNDUP\<close> rounds up to a multiple.\<close>

definition ROUNDUP :: "nat \<Rightarrow> nat \<Rightarrow> nat" where
  "ROUNDUP n b = (n + b - 1) div b * b"

lemma to_ushort_small [simp]: "n < 65536 \<Longrightarrow> to_ushort n = n"
  by (simp add: to_ushort_def)

lemma to_ushort_less [simp]: "to_ushort n < 65536"
  by (simp add: to_ushort_def)

lemma to_ushort_le: "to_ushort n \<le> n"
  by (simp add: to_ushort_def)

lemma to_slong_small: "- (2 ^ 31) \<le> i \<Longrightarrow> i < 2 ^ 31 \<Longrightarrow> to_slong i = i"
  by (simp add: to_slong_def)

lemma to_slong_add: "to_slong (to_slong i + j) = to_slong (i + j)"
proof -
  have "(to_slong i + j + 2 ^ 31) mod 2 ^ 32 = ((i + 2 ^ 31) mod 2 ^ 32 + j) mod 2 ^ 32"
    by (simp add: to_slong_def)
  also have "\<dots> = (i + 2 ^ 31 + j) mod 2 ^ 32" by (rule mod_add_left_eq)
  also have "i + 2 ^ 31 + j = i + j + 2 ^ 31" by simp
  finally show ?thesis by (simp add: to_slong_def)
qed

lemma schar_to_schar: "- 128 \<le> i \<Longrightarrow> i \<le> 127 \<Longrightarrow> schar (to_schar i) = i"
  by (simp add: schar_def to_schar_def int_word_sint)

lemma schar_to_schar_nat [simp]: "n \<le> 127 \<Longrightarrow> schar (to_schar (int n)) = int n"
  by (simp add: schar_to_schar)

lemma schar_to_schar_neg [simp]: "n \<le> 128 \<Longrightarrow> schar (to_schar (- int n)) = - int n"
  by (simp add: schar_to_schar)

lemma schar_zero [simp]: "schar 0 = 0"
  by (simp add: schar_def)

lemma schar_range: "- 128 \<le> schar b" "schar b \<le> 127"
  using sint_greater_eq [of b] sint_less [of b] by (simp_all add: schar_def)

subsection \<open>Lists\<close>

lemma take_replicate_same [simp]: "take n (replicate n x) = replicate n x"
  by simp

lemma takeWhile_eq_replicate: "takeWhile (\<lambda>y. y = x) xs = replicate (length (takeWhile (\<lambda>y. y = x) xs)) x"
  by (induction xs) auto

lemma list_update_mid [simp]: "(xs @ y # ys)[length xs := z] = xs @ z # ys"
  by simp

lemma le_length_split: "n \<le> length xs \<Longrightarrow> \<exists>ys zs. xs = ys @ zs \<and> length ys = n"
  by (metis append_take_drop_id length_take min_absorb2)

text \<open>The three ways in which the code edits a growing buffer.\<close>

definition insert_at :: "nat \<Rightarrow> 'a list \<Rightarrow> 'a list \<Rightarrow> 'a list" where
  "insert_at i xs ys = take i ys @ xs @ drop i ys"

definition remove_at :: "nat \<Rightarrow> nat \<Rightarrow> 'a list \<Rightarrow> 'a list" where
  "remove_at i n ys = take i ys @ drop (i + n) ys"

lemma insert_at_append [simp]: "insert_at (length xs) ys (xs @ zs) = xs @ ys @ zs"
  by (simp add: insert_at_def)

lemma length_insert_at [simp]: "length (insert_at i xs ys) = length xs + length ys"
  by (simp add: insert_at_def)

lemma remove_at_append [simp]: "remove_at (length xs) (length ys) (xs @ ys @ zs) = xs @ zs"
  by (simp add: remove_at_def)

subsection \<open>Results\<close>

fun rbind :: "('e, 'a) result \<Rightarrow> ('a \<Rightarrow> ('e, 'b) result) \<Rightarrow> ('e, 'b) result" where
  "rbind (Inl e) f = Inl e"
| "rbind (Inr x) f = f x"

lemma rbind_eq_Inr_iff [simp]: "rbind m f = Inr y \<longleftrightarrow> (\<exists>x. m = Inr x \<and> f x = Inr y)"
  by (cases m) auto

lemma rbind_eq_Inl_iff: "rbind m f = Inl e \<longleftrightarrow> m = Inl e \<or> (\<exists>x. m = Inr x \<and> f x = Inl e)"
  by (cases m) auto

lemma rbind_cong [fundef_cong]: "m = m' \<Longrightarrow> (\<And>x. m' = Inr x \<Longrightarrow> f x = f' x) \<Longrightarrow> rbind m f = rbind m' f'"
  by (cases m') auto

subsection \<open>Little endian numbers\<close>

primrec le_bytes :: "nat \<Rightarrow> nat \<Rightarrow> byte list" where
  "le_bytes 0 n = []"
| "le_bytes (Suc k) n = word_of_nat n # le_bytes k (n div 256)"

fun le_val :: "byte list \<Rightarrow> nat" where
  "le_val [] = 0"
| "le_val (b # bs) = unat b + 256 * le_val bs"

lemma length_le_bytes [simp]: "length (le_bytes k n) = k"
  by (induction k arbitrary: n) auto

lemma le_val_le_bytes: "le_val (le_bytes k n) = n mod 256 ^ k"
proof (induction k arbitrary: n)
  case (Suc k)
  have "unat (word_of_nat n :: byte) = n mod 256" by (simp add: unat_of_nat)
  then show ?case using Suc by (simp add: mod_mult2_eq [of n 256 "256 ^ k"])
qed simp

lemma le_val_le_bytes_small [simp]: "n < 256 ^ k \<Longrightarrow> le_val (le_bytes k n) = n"
  by (simp add: le_val_le_bytes)

subsection \<open>Invariants of step relations\<close>

text \<open>What holds first and is kept by every step holds always.\<close>

locale step_invariant =
  fixes init :: "'s \<Rightarrow> bool" and step :: "'s \<Rightarrow> 's \<Rightarrow> bool" and inv :: "'s \<Rightarrow> bool"
  assumes base: "init s \<Longrightarrow> inv s" and keep: "step s t \<Longrightarrow> inv s \<Longrightarrow> inv t"
begin

lemma always:
  assumes "init s" and "step\<^sup>*\<^sup>* s t"
  shows "inv t"
  using assms(2) by (induction rule: rtranclp_induct) (auto intro: base [OF assms(1)] keep)

end

end
