(* ===== verification/FB_Sqz.thy ===== *)
theory FB_Sqz
  imports FB_Prelude
begin

section \<open>Record compression and difference records (\<^verbatim>\<open>src/src/jrd/sqz.cpp\<close>)\<close>

text \<open>
  Records are stored run-length encoded. \<^verbatim>\<open>SQZ_length\<close> scans a record once, builds a
  chain of 128-byte control blocks (\<^verbatim>\<open>DataComprControl\<close>) and returns the compressed
  length; \<^verbatim>\<open>SQZ_fast\<close> replays the control string into a large enough area,
  \<^verbatim>\<open>SQZ_compress\<close> into an area of known size, stopping when it is full;
  \<^verbatim>\<open>SQZ_decompress\<close> is their inverse. Old record versions are stored as difference
  records: \<^verbatim>\<open>SQZ_differences\<close> writes one, \<^verbatim>\<open>SQZ_apply_differences\<close> applies it.

  Buffers are byte lists. A pointer into a buffer is the rest of the list from there; the
  area behind an output pointer is the list written so far. A read behind the end of a
  modelled buffer is the error \<open>Fault\<close>, a \<^verbatim>\<open>BUGCHECK\<close> is \<open>Bugcheck\<close>
  with its message number.
\<close>

datatype sqz_error = Bugcheck nat | Fault

type_synonym dcc = "byte list list"

definition MAX_DIFFERENCES :: nat where
  "MAX_DIFFERENCES = 1024"

definition DCC_SIZE :: nat where
  "DCC_SIZE = 128"

subsection \<open>Applying a difference record\<close>

text \<open>
  The loop of \<^verbatim>\<open>SQZ_apply_differences\<close>: the record's data, the offset of \<open>p\<close> in
  it, and the bytes from \<open>differences\<close> to \<open>end\<close>.
\<close>

function apply_loop :: "byte list \<Rightarrow> nat \<Rightarrow> byte list \<Rightarrow> sqz_error + (byte list \<times> nat \<times> byte list)" where
  "apply_loop data p [] = Inr (data, p, [])"
| "apply_loop data p (c # ds) =
     (if \<not> p < length data then Inr (data, p, c # ds)
      else let l = schar c in
        if 0 < l then
          if length data < p + nat l then Inl (Bugcheck 177)
          else if length ds < nat l then Inl (Bugcheck 176)
          else apply_loop (take p data @ take (nat l) ds @ drop (p + nat l) data)
                 (p + nat l) (drop (nat l) ds)
        else apply_loop data (p + nat (- l)) ds)"
  by pat_completeness auto
termination
  by (relation "measure (\<lambda>(data, p, ds). length ds)") auto

definition SQZ_apply_differences :: "byte list \<Rightarrow> byte list \<Rightarrow> sqz_error + (byte list \<times> nat)" where
  "SQZ_apply_differences data differences =
     (if MAX_DIFFERENCES < length differences then Inl (Bugcheck 176)
      else case apply_loop data 0 differences of
        Inl e \<Rightarrow> Inl e
      | Inr (data', p, ds) \<Rightarrow>
          let len = to_ushort p in
          if length data < len \<or> ds \<noteq> [] then Inl (Bugcheck 177)
          else Inr (data', len))"

subsection \<open>Compression into an area of known length\<close>

text \<open>
  The state of the loops of \<^verbatim>\<open>SQZ_compress\<close>: the bytes from \<open>input\<close> on, the
  output written, the remaining space and \<open>input - start\<close>. The inner loop either
  leaves the function (\<open>True\<close>) or ends with the control string (\<open>False\<close>).
\<close>

record sqz_state =
  sq_input :: "byte list"
  sq_output :: "byte list"
  sq_space :: int
  sq_used :: nat

definition advance :: "nat \<Rightarrow> sqz_state \<Rightarrow> sqz_state" where
  "advance n s = s\<lparr>sq_input := drop n (sq_input s), sq_used := sq_used s + n\<rparr>"

definition emit :: "byte list \<Rightarrow> sqz_state \<Rightarrow> sqz_state" where
  "emit bs s = s\<lparr>sq_output := sq_output s @ bs\<rparr>"

fun compress_block :: "byte list \<Rightarrow> sqz_state \<Rightarrow> sqz_error + (bool \<times> sqz_state)" where
  "compress_block [] s = Inr (False, s)"
| "compress_block (c # control) s =
     (let space = sq_space s - 1; s = s\<lparr>sq_space := space\<rparr> in
      if space \<le> 0 then Inr (True, if space = 0 then emit [0] s else s)
      else let length' = schar c in
        if length' < 0 then
          let n = nat (- length') in
          if length (sq_input s) < n then Inl Fault
          else compress_block control
                 (advance n (emit [c, hd (sq_input s)] (s\<lparr>sq_space := space - 1\<rparr>)))
        else
          let space = space - length'; s = s\<lparr>sq_space := space\<rparr> in
          if space < 0 then
            let n = nat (length' + space) in
            if length (sq_input s) < n then Inl Fault
            else Inr (True, advance n (emit (to_schar (int n) # take n (sq_input s)) s))
          else
            let n = nat length' in
            if length (sq_input s) < n then Inl Fault
            else compress_block control (advance n (emit (c # take n (sq_input s)) s)))"

fun compress_chain :: "dcc \<Rightarrow> sqz_state \<Rightarrow> sqz_error + sqz_state" where
  "compress_chain [] s = Inl (Bugcheck 178)"
| "compress_chain (b # bs) s =
     (case compress_block b s of
        Inl e \<Rightarrow> Inl e
      | Inr (True, s') \<Rightarrow> Inr s'
      | Inr (False, s') \<Rightarrow> compress_chain bs s')"

text \<open>The value returned, and the bytes written to \<open>output\<close>.\<close>

definition SQZ_compress :: "dcc \<Rightarrow> byte list \<Rightarrow> int \<Rightarrow> sqz_error + (nat \<times> byte list)" where
  "SQZ_compress dcc input space =
     (case compress_chain dcc \<lparr>sq_input = input, sq_output = [], sq_space = space, sq_used = 0\<rparr> of
        Inl e \<Rightarrow> Inl e
      | Inr s \<Rightarrow> Inr (to_ushort (sq_used s), sq_output s))"

text \<open>
  \<^verbatim>\<open>SQZ_compress_length\<close> moves the pointer \<open>input\<close> only and never reads through it:
  its state is the offset \<open>input - start\<close> and the space left.
\<close>

fun compress_length_block :: "byte list \<Rightarrow> nat \<Rightarrow> int \<Rightarrow> bool \<times> nat \<times> int" where
  "compress_length_block [] used space = (False, used, space)"
| "compress_length_block (c # control) used space =
     (let space = space - 1 in
      if space \<le> 0 then (True, used, space)
      else let length' = schar c in
        if length' < 0 then compress_length_block control (used + nat (- length')) (space - 1)
        else let space = space - length' in
          if space < 0 then (True, used + nat (length' + space), space)
          else compress_length_block control (used + nat length') space)"

fun compress_length_chain :: "dcc \<Rightarrow> nat \<Rightarrow> int \<Rightarrow> sqz_error + nat" where
  "compress_length_chain [] used space = Inl (Bugcheck 178)"
| "compress_length_chain (b # bs) used space =
     (case compress_length_block b used space of
        (True, used', space') \<Rightarrow> Inr used'
      | (False, used', space') \<Rightarrow> compress_length_chain bs used' space')"

definition SQZ_compress_length :: "dcc \<Rightarrow> int \<Rightarrow> sqz_error + nat" where
  "SQZ_compress_length dcc space = map_sum id to_ushort (compress_length_chain dcc 0 space)"

subsection \<open>Decompression\<close>

text \<open>
  \<open>mem\<close> is the memory from \<open>input\<close> on, \<open>rest\<close> is \<open>last - input\<close>: the code
  tests only the control byte against \<open>last\<close>, so a literal run may read beyond it.
  \<open>out\<close> is what was written, \<open>cap\<close> the size of the output area.
\<close>

function decompress_loop :: "byte list \<Rightarrow> int \<Rightarrow> byte list \<Rightarrow> nat \<Rightarrow> sqz_error + byte list" where
  "decompress_loop mem rest out cap =
     (if \<not> 0 < rest then
        (if cap < length out then Inl (Bugcheck 179) else Inr out)
      else case mem of
        [] \<Rightarrow> Inl Fault
      | c # mem \<Rightarrow>
          let l = schar c; rest = rest - 1 in
          if l < 0 then
            if rest \<le> 0 \<or> cap < length out + nat (- l) then Inl (Bugcheck 179)
            else (case mem of
                [] \<Rightarrow> Inl Fault
              | b # mem \<Rightarrow> decompress_loop mem (rest - 1) (out @ replicate (nat (- l)) b) cap)
          else
            if cap < length out + nat l then Inl (Bugcheck 179)
            else if length mem < nat l then Inl Fault
            else decompress_loop (drop (nat l) mem) (rest - l) (out @ take (nat l) mem) cap)"
  by pat_completeness auto
termination
  by (relation "measure (\<lambda>(mem, rest, out, cap). length mem)") auto

definition SQZ_decompress :: "byte list \<Rightarrow> nat \<Rightarrow> nat \<Rightarrow> sqz_error + byte list" where
  "SQZ_decompress mem length' cap = decompress_loop mem (int (to_ushort length')) [] cap"

subsection \<open>Writing a difference record\<close>

function SQZ_no_differences :: "int \<Rightarrow> byte list" where
  "SQZ_no_differences length' =
     (if 127 < length' then to_schar (- 127) # SQZ_no_differences (length' - 127)
      else if length' \<noteq> 0 then [to_schar (- length')] else [])"
  by pat_completeness auto
termination
  by (relation "measure nat") auto

text \<open>
  \<^verbatim>\<open>STUFF\<close>: append a byte to \<open>out\<close> if the limit allows it; otherwise the function
  returns 32000, here \<open>None\<close>.
\<close>

definition STUFF :: "nat \<Rightarrow> byte \<Rightarrow> byte list \<Rightarrow> byte list option" where
  "STUFF lim v out = (if length out < lim then Some (out @ [v]) else None)"

fun heads_differ :: "byte list \<Rightarrow> byte list \<Rightarrow> bool" where
  "heads_differ (a # _) (b # _) = (a \<noteq> b)"
| "heads_differ _ _ = False"

text \<open>
  The literal loop: \<open>k\<close> is \<open>yellow + 1 - rec1\<close>, \<open>r1\<close> the bytes from \<open>rec1\<close> to
  \<open>end1\<close>, \<open>r2\<close> the bytes from \<open>rec2\<close> to \<open>end2\<close>.
\<close>

fun diff_literal :: "nat \<Rightarrow> nat \<Rightarrow> byte list \<Rightarrow> byte list \<Rightarrow> byte list \<Rightarrow>
    (byte list \<times> byte list \<times> byte list) option" where
  "diff_literal lim k (a # r1) (b # r2) out =
     (if 0 < k \<and> (a \<noteq> b \<or> (1 < k \<and> heads_differ r1 r2)) then
        (case STUFF lim b out of
           None \<Rightarrow> None
         | Some out' \<Rightarrow> diff_literal lim (k - 1) r1 r2 out')
      else Some (a # r1, b # r2, out))"
| "diff_literal lim k r1 r2 out = Some (r1, r2, out)"

text \<open>The empty \<open>for\<close> loop over equal bytes; the number of bytes it passes.\<close>

fun diff_equal :: "byte list \<Rightarrow> byte list \<Rightarrow> nat" where
  "diff_equal (a # r1) (b # r2) = (if a = b then Suc (diff_equal r1 r2) else 0)"
| "diff_equal _ _ = 0"

text \<open>Storing \<open>l = - n\<close>, at most 127 at a time.\<close>

function stuff_skip :: "nat \<Rightarrow> nat \<Rightarrow> byte list \<Rightarrow> byte list option" where
  "stuff_skip lim n out =
     (if 127 < n then
        (case STUFF lim (to_schar (- 127)) out of
           None \<Rightarrow> None
         | Some out' \<Rightarrow> stuff_skip lim (n - 127) out')
      else if n \<noteq> 0 then STUFF lim (to_schar (- int n)) out
      else Some out)"
  by pat_completeness auto
termination
  by (relation "measure (\<lambda>(lim, n, out). n)") auto

text \<open>
  \<open>p = out++\<close> reserves the control byte without a test; the first \<^verbatim>\<open>STUFF\<close> after
  it makes the test. \<open>*p = out - p - 1\<close> fills it in.
\<close>

definition patch_control :: "nat \<Rightarrow> byte list \<Rightarrow> byte list" where
  "patch_control p out = out[p := to_schar (int (length out - p - 1))]"

lemma diff_literal_length:
  assumes "diff_literal lim k r1 r2 out = Some (r1', r2', out')"
  shows "length r1' \<le> length r1" and "length r2' \<le> length r2"
  using assms
  by (induction lim k r1 r2 out rule: diff_literal.induct)
     (auto split: if_splits option.splits)

lemma diff_literal_progress:
  assumes "diff_literal lim k (a # r1) (b # r2) out = Some (r1', r2', out')"
    and "0 < k" and "a \<noteq> b \<or> (1 < k \<and> heads_differ r1 r2)"
  shows "length r1' < length (a # r1)"
  using assms diff_literal_length(1)
  by (fastforce split: if_splits option.splits)

lemma diff_equal_le: "diff_equal r1 r2 \<le> length r1" "diff_equal r1 r2 \<le> length r2"
  by (induction r1 r2 rule: diff_equal.induct) auto

function diff_loop :: "nat \<Rightarrow> byte list \<Rightarrow> byte list \<Rightarrow> byte list \<Rightarrow> (byte list \<times> byte list) option" where
  "diff_loop lim r1 r2 out =
     (case (r1, r2) of
        (a # a' # a'' # r, b # b' # s) \<Rightarrow>
          if a \<noteq> b \<or> a' \<noteq> b' then
            (case diff_literal lim (min (length r1) 127) r1 r2 (out @ [0]) of
               None \<Rightarrow> None
             | Some (r1', r2', out') \<Rightarrow> diff_loop lim r1' r2' (patch_control (length out) out'))
          else
            (let n = diff_equal r1 r2 in
             case stuff_skip lim n out of
               None \<Rightarrow> None
             | Some out' \<Rightarrow> diff_loop lim (drop n r1) (drop n r2) out')
      | _ \<Rightarrow> Some (r2, out))"
  by pat_completeness auto
termination
proof (relation "measure (\<lambda>(lim, r1, r2, out). length r1)", goal_cases)
  case 1
  show ?case by simp
next
  case (2 lim r1 r2 out)
  then show ?case
    by (auto dest!: diff_literal_progress)
next
  case (3 lim r1 r2 out)
  then show ?case by auto
qed

text \<open>The second loop stores what is left of the new record as literals of at most 127 bytes.\<close>

fun stuff_all :: "nat \<Rightarrow> byte list \<Rightarrow> byte list \<Rightarrow> byte list option" where
  "stuff_all lim [] out = Some out"
| "stuff_all lim (b # bs) out =
     (case STUFF lim b out of None \<Rightarrow> None | Some out' \<Rightarrow> stuff_all lim bs out')"

function diff_tail :: "nat \<Rightarrow> byte list \<Rightarrow> byte list \<Rightarrow> byte list option" where
  "diff_tail lim r2 out =
     (if r2 = [] then Some out
      else case stuff_all lim (take 127 r2) (out @ [0]) of
        None \<Rightarrow> None
      | Some out' \<Rightarrow> diff_tail lim (drop 127 r2) (patch_control (length out) out'))"
  by pat_completeness auto
termination
  by (relation "measure (\<lambda>(lim, r2, out). length r2)") auto

text \<open>
  The value returned and the difference record in the buffer (meaningless when the value
  is the overflow mark 32000).
\<close>

definition SQZ_differences :: "byte list \<Rightarrow> byte list \<Rightarrow> nat \<Rightarrow> nat \<times> byte list" where
  "SQZ_differences rec1 rec2 lim =
     (case diff_loop lim (take (min (length rec1) (length rec2)) rec1) rec2 [] of
        None \<Rightarrow> (32000, [])
      | Some (r2, out) \<Rightarrow>
          (case diff_tail lim r2 out of
             None \<Rightarrow> (32000, [])
           | Some out' \<Rightarrow> (to_ushort (length out'), out')))"

subsection \<open>Compression into a sufficiently large area\<close>

fun fast_block :: "byte list \<Rightarrow> byte list \<Rightarrow> byte list \<Rightarrow> sqz_error + (byte list \<times> byte list)" where
  "fast_block [] input out = Inr (input, out)"
| "fast_block (c # control) input out =
     (let length' = schar c in
      if length' < 0 then
        (if length input < nat (- length') then Inl Fault
         else fast_block control (drop (nat (- length')) input) (out @ [c, hd input]))
      else if 0 < length' then
        (if length input < nat length' then Inl Fault
         else fast_block control (drop (nat length') input) (out @ c # take (nat length') input))
      else fast_block control input (out @ [c]))"

fun fast_chain :: "dcc \<Rightarrow> byte list \<Rightarrow> byte list \<Rightarrow> sqz_error + byte list" where
  "fast_chain [] input out = Inr out"
| "fast_chain (b # bs) input out =
     (case fast_block b input out of
        Inl e \<Rightarrow> Inl e
      | Inr (input', out') \<Rightarrow> fast_chain bs input' out')"

definition SQZ_fast :: "dcc \<Rightarrow> byte list \<Rightarrow> sqz_error + byte list" where
  "SQZ_fast dcc input = fast_chain dcc input []"

subsection \<open>Computing the control string\<close>

text \<open>
  The state of \<^verbatim>\<open>SQZ_length\<close>: the filled blocks of the chain, the control string of
  the current block, the number of free blocks in the pool's list \<^verbatim>\<open>plb_dccs\<close> and the
  compressed length so far.
\<close>

record length_state =
  ln_blocks :: dcc
  ln_control :: "byte list"
  ln_dccs :: nat
  ln_length :: nat

text \<open>\<open>*control++ = v\<close>, and the next block when this one is full.\<close>

definition put_control :: "byte \<Rightarrow> length_state \<Rightarrow> length_state" where
  "put_control v s =
     (let control = ln_control s @ [v] in
      if length control = DCC_SIZE then
        s\<lparr>ln_blocks := ln_blocks s @ [control], ln_control := [], ln_dccs := ln_dccs s - 1\<rparr>
      else s\<lparr>ln_control := control\<rparr>)"

text \<open>
  The search for three equal bytes: \<open>Some k\<close> when it breaks at offset \<open>k\<close>. It is
  entered with \<open>max > 1\<close>, so three bytes are there.
\<close>

fun find_run :: "nat \<Rightarrow> nat \<Rightarrow> byte list \<Rightarrow> nat option" where
  "find_run mx k (a # b # c # r) =
     (if a \<noteq> b \<or> a \<noteq> c then
        (if 1 < mx - 1 then find_run (mx - 1) (Suc k) (b # c # r) else None)
      else Some k)"
| "find_run _ _ _ = None"

definition literal_count :: "byte list \<Rightarrow> nat" where
  "literal_count data =
     (let count = to_ushort (length data); mx = count - 1 in
      if 1 < mx then (case find_run mx 0 data of Some k \<Rightarrow> k | None \<Rightarrow> count) else count)"

text \<open>Non-compressible runs are limited to 127 bytes.\<close>

function put_literals :: "nat \<Rightarrow> length_state \<Rightarrow> length_state" where
  "put_literals count s =
     (if count = 0 then s
      else let m = min count 127 in
        put_literals (count - m)
          (put_control (to_schar (int m)) (s\<lparr>ln_length := ln_length s + (1 + m)\<rparr>)))"
  by pat_completeness auto
termination
  by (relation "measure fst") auto

text \<open>The run loop: how far \<open>data\<close> advances over bytes equal to \<open>c\<close>, at most \<open>max\<close>.\<close>

fun run_length :: "byte \<Rightarrow> nat \<Rightarrow> byte list \<Rightarrow> nat" where
  "run_length c 0 _ = 0"
| "run_length c (Suc mx) [] = 0"
| "run_length c (Suc mx) (d # data) = (if d \<noteq> c then 0 else Suc (run_length c mx data))"

definition run_count :: "byte list \<Rightarrow> nat" where
  "run_count data =
     (let mx = min 128 (length data) in
      if 3 \<le> mx then run_length (hd data) mx data else 0)"

definition put_run :: "nat \<Rightarrow> length_state \<Rightarrow> length_state" where
  "put_run n s =
     (if n = 0 then s
      else put_control (to_schar (- int n)) (s\<lparr>ln_length := ln_length s + 2\<rparr>))"

text \<open>Every round of the outer loop advances \<open>data\<close>, which is why it ends.\<close>

lemma find_run_Some_0: "find_run mx 0 data = Some 0 \<Longrightarrow> \<exists>a r. data = a # a # a # r"
proof -
  have shift: "find_run mx (Suc k) data \<noteq> Some 0" for mx k data
    by (induction mx "Suc k" data arbitrary: k rule: find_run.induct) auto
  show "find_run mx 0 data = Some 0 \<Longrightarrow> \<exists>a r. data = a # a # a # r"
    by (cases "(mx, 0 :: nat, data)" rule: find_run.cases) (auto split: if_splits simp: shift)
qed

lemma SQZ_length_progress:
  assumes "to_ushort (length data) \<noteq> 0"
  shows "0 < literal_count data + run_count (drop (literal_count data) data)"
proof (cases "literal_count data = 0")
  case True
  with assms have "find_run (to_ushort (length data) - 1) 0 data = Some 0"
    by (auto simp: literal_count_def Let_def split: if_splits option.splits)
  then obtain a r where "data = a # a # a # r"
    using find_run_Some_0 by blast
  with True show ?thesis
    by (simp add: run_count_def Let_def min_def eval_nat_numeral)
qed simp

function length_loop :: "byte list \<Rightarrow> length_state \<Rightarrow> length_state" where
  "length_loop data s =
     (if to_ushort (length data) = 0 then s
      else let n = literal_count data; data' = drop n data; m = run_count data' in
        length_loop (drop m data') (put_run m (put_literals n s)))"
  by pat_completeness auto
termination
proof (relation "measure (length \<circ> fst)", goal_cases)
  case 1
  show ?case by simp
next
  case (2 data s n data' m)
  then have "data \<noteq> []" by (auto simp: to_ushort_def)
  with 2 SQZ_length_progress [of data] show ?case by (cases "n = 0") auto
qed

text \<open>The compressed length, the control chain, and the pool's list of free blocks.\<close>

definition SQZ_length :: "nat \<Rightarrow> byte list \<Rightarrow> nat \<times> dcc \<times> nat" where
  "SQZ_length dccs data =
     (let s = length_loop data \<lparr>ln_blocks = [], ln_control = [], ln_dccs = dccs, ln_length = 0\<rparr>
      in (ln_length s, ln_blocks s @ [ln_control s], ln_dccs s))"

declare apply_loop.simps(2) [simp del]
declare decompress_loop.simps [simp del]
declare SQZ_no_differences.simps [simp del]
declare stuff_skip.simps [simp del]
declare diff_loop.simps [simp del]
declare diff_tail.simps [simp del]
declare put_literals.simps [simp del]
declare length_loop.simps [simp del]

subsection \<open>The compressed format\<close>

text \<open>
  \<open>enc control data out\<close>: the control string describes \<open>data\<close> completely and
  \<open>out\<close> is its compressed form. This is the abstract format that the four routines share.
\<close>

inductive enc :: "byte list \<Rightarrow> byte list \<Rightarrow> byte list \<Rightarrow> bool" where
  enc_nil: "enc [] [] []"
| enc_literal: "enc cs d w \<Longrightarrow> 0 < schar c \<Longrightarrow> length xs = nat (schar c) \<Longrightarrow>
     enc (c # cs) (xs @ d) (c # xs @ w)"
| enc_run: "enc cs d w \<Longrightarrow> schar c < 0 \<Longrightarrow>
     enc (c # cs) (replicate (nat (- schar c)) x @ d) (c # x # w)"

lemma enc_append:
  assumes "enc cs d w" and "enc cs' d' w'"
  shows "enc (cs @ cs') (d @ d') (w @ w')"
  using assms
  by (induction rule: enc.induct) (auto intro: enc_literal [simplified] enc_run [simplified])

lemma enc_single_literal:
  "xs \<noteq> [] \<Longrightarrow> length xs \<le> 127 \<Longrightarrow>
   enc [to_schar (int (length xs))] xs (to_schar (int (length xs)) # xs)"
  using enc_literal [OF enc_nil, of "to_schar (int (length xs))" xs] by simp

lemma enc_single_run:
  assumes "0 < n" and "n \<le> 128"
  shows "enc [to_schar (- int n)] (replicate n x) [to_schar (- int n), x]"
  using enc_run [OF enc_nil, of "to_schar (- int n)" x] assms by simp

subsection \<open>What the control string of \<^verbatim>\<open>SQZ_length\<close> describes\<close>

definition ctl :: "length_state \<Rightarrow> byte list" where
  "ctl s = concat (ln_blocks s) @ ln_control s"

lemma put_control_simps [simp]:
  "ctl (put_control v s) = ctl s @ [v]"
  "ln_length (put_control v s) = ln_length s"
  by (simp_all add: put_control_def ctl_def Let_def)

lemma ctl_length_update [simp]: "ctl (s\<lparr>ln_length := n\<rparr>) = ctl s"
  by (simp add: ctl_def)

text \<open>
  \<open>describes s s' data\<close>: the control bytes added between \<open>s\<close> and \<open>s'\<close> describe
  \<open>data\<close>, and the length counter has grown by the size of its compressed form.
\<close>

definition describes :: "length_state \<Rightarrow> length_state \<Rightarrow> byte list \<Rightarrow> bool" where
  "describes s s' data \<longleftrightarrow>
     (\<exists>cs w. ctl s' = ctl s @ cs \<and> enc cs data w \<and> ln_length s' = ln_length s + length w)"

lemma describes_refl: "describes s s []"
  unfolding describes_def by (auto intro!: exI enc_nil)

lemma describes_trans:
  "describes s s' d \<Longrightarrow> describes s' s'' d' \<Longrightarrow> describes s s'' (d @ d')"
  unfolding describes_def by (fastforce intro: enc_append)

lemma describes_put_control:
  assumes "enc [v] d w" and "n = ln_length s + length w"
  shows "describes s (put_control v (s\<lparr>ln_length := n\<rparr>)) d"
  using assms unfolding describes_def by (intro exI [of _ "[v]"] exI [of _ w]) simp

lemma describes_put_literals: "describes s (put_literals (length xs) s) xs"
proof (induction "length xs" s arbitrary: xs rule: put_literals.induct)
  case (1 s)
  show ?case
  proof (cases "xs = []")
    case True
    then show ?thesis by (simp add: put_literals.simps describes_refl)
  next
    case False
    let ?m = "min (length xs) 127"
    let ?s = "put_control (to_schar (int ?m)) (s\<lparr>ln_length := ln_length s + (1 + ?m)\<rparr>)"
    have "describes s ?s (take ?m xs)"
      using enc_single_literal [of "take ?m xs"] False by (intro describes_put_control) auto
    moreover have "describes ?s (put_literals (length (drop ?m xs)) ?s) (drop ?m xs)"
      using False by (intro "1.hyps") auto
    ultimately have "describes s (put_literals (length (drop ?m xs)) ?s) xs"
      using describes_trans by fastforce
    with False show ?thesis
      by (subst put_literals.simps) (simp add: Let_def)
  qed
qed

lemma run_length_replicate:
  "take (run_length c mx data) data = replicate (run_length c mx data) c"
  "run_length c mx data \<le> mx"
  by (induction c mx data rule: run_length.induct) auto

lemma run_count_replicate:
  "take (run_count data) data = replicate (run_count data) (hd data)"
  "run_count data \<le> 128" "run_count data \<le> length data"
proof -
  show "take (run_count data) data = replicate (run_count data) (hd data)"
    by (simp add: run_count_def Let_def run_length_replicate(1))
  show "run_count data \<le> 128" "run_count data \<le> length data"
    using run_length_replicate(2) [of "hd data" "min 128 (length data)" data]
    by (auto simp: run_count_def Let_def)
qed

lemma describes_put_run:
  "describes s (put_run (run_count data) s) (take (run_count data) data)"
proof (cases "run_count data = 0")
  case True
  then show ?thesis by (simp add: put_run_def describes_refl)
next
  case False
  then show ?thesis
    using enc_single_run [of "run_count data" "hd data"] run_count_replicate(1,2) [of data]
    by (auto simp: put_run_def intro: describes_put_control)
qed

lemma find_run_bound: "find_run mx k data = Some j \<Longrightarrow> j < k + length data"
  by (induction mx k data rule: find_run.induct) (auto split: if_splits)

lemma literal_count_le: "literal_count data \<le> length data"
  using find_run_bound [of "to_ushort (length data) - 1" 0 data] to_ushort_le [of "length data"]
  by (auto simp: literal_count_def Let_def split: option.splits)

lemma describes_length_loop:
  "length data < 65536 \<Longrightarrow> describes s (length_loop data s) data"
proof (induction data s rule: length_loop.induct)
  case (1 data s)
  show ?case
  proof (cases "data = []")
    case True
    then show ?thesis by (simp add: length_loop.simps describes_refl)
  next
    case False
    let ?n = "literal_count data"
    let ?d = "drop ?n data"
    let ?m = "run_count ?d"
    let ?s = "put_run ?m (put_literals ?n s)"
    have "describes s (put_literals ?n s) (take ?n data)"
      using describes_put_literals [of s "take ?n data"] literal_count_le [of data] by simp
    moreover have "describes (put_literals ?n s) ?s (take ?m ?d)"
      by (rule describes_put_run)
    moreover have "describes ?s (length_loop (drop ?m ?d) ?s) (drop ?m ?d)"
      using False "1.prems" by (intro "1.IH") auto
    ultimately have "describes s (length_loop (drop ?m ?d) ?s)
        ((take ?n data @ take ?m ?d) @ drop ?m ?d)"
      by (blast intro: describes_trans)
    moreover have "(take ?n data @ take ?m ?d) @ drop ?m ?d = data"
      by (simp del: drop_drop)
    ultimately have "describes s (length_loop (drop ?m ?d) ?s) data"
      by (simp del: drop_drop)
    with False "1.prems" show ?thesis
      by (subst length_loop.simps) (simp add: Let_def)
  qed
qed

lemma SQZ_length_enc:
  assumes "length data < 65536" and "SQZ_length dccs data = (len, dcc, dccs')"
  shows "\<exists>w. enc (concat dcc) data w \<and> length w = len"
proof -
  let ?s = "\<lparr>ln_blocks = [], ln_control = [], ln_dccs = dccs, ln_length = 0\<rparr>"
  have "describes ?s (length_loop data ?s) data"
    using assms(1) by (rule describes_length_loop)
  with assms(2) show ?thesis
    by (auto simp: describes_def SQZ_length_def Let_def ctl_def)
qed

subsection \<open>The routines on a described record\<close>

lemma fast_block_append:
  "fast_block (cs @ cs') input out =
     (case fast_block cs input out of
        Inl e \<Rightarrow> Inl e
      | Inr (input', out') \<Rightarrow> fast_block cs' input' out')"
  by (induction cs input out rule: fast_block.induct) (auto simp: Let_def)

lemma fast_chain_concat:
  "fast_chain bs input out = map_sum id snd (fast_block (concat bs) input out)"
  by (induction bs input out rule: fast_chain.induct)
     (auto simp: fast_block_append split: sum.splits)

lemma fast_block_enc: "enc cs d w \<Longrightarrow> fast_block cs (d @ rest) out = Inr (rest, out @ w)"
proof (induction arbitrary: out rule: enc.induct)
  case (enc_run cs d w c x)
  then have "nat (- schar c) = Suc (nat (- schar c) - 1)" by simp
  then have "hd (replicate (nat (- schar c)) x @ y) = x" for y
    by (metis append_Cons list.sel(1) replicate_Suc)
  with enc_run show ?case by (simp add: Let_def)
qed (auto simp: Let_def)

lemma decompress_loop_enc:
  assumes "enc cs d w" and "length out + length d \<le> cap" and "0 \<le> k"
  shows "decompress_loop (w @ mem) (int (length w) + k) out cap = decompress_loop mem k (out @ d) cap"
  using assms
proof (induction arbitrary: out rule: enc.induct)
  case enc_nil
  then show ?case by simp
next
  case (enc_literal cs d w c xs)
  have "decompress_loop ((c # xs @ w) @ mem) (int (length (c # xs @ w)) + k) out cap =
      decompress_loop (w @ mem) (int (length w) + k) (out @ xs) cap"
    using enc_literal by (subst decompress_loop.simps) (simp add: Let_def)
  with enc_literal show ?case by simp
next
  case (enc_run cs d w c x)
  have "decompress_loop ((c # x # w) @ mem) (int (length (c # x # w)) + k) out cap =
      decompress_loop (w @ mem) (int (length w) + k) (out @ replicate (nat (- schar c)) x) cap"
    using enc_run by (subst decompress_loop.simps) (simp add: Let_def)
  with enc_run show ?case by simp
qed

lemma decompress_loop_fill:
  "length out \<le> cap \<Longrightarrow> decompress_loop (replicate n 0 @ mem) (int n) out cap = Inr out"
proof (induction n)
  case 0
  then show ?case by (subst decompress_loop.simps) simp
next
  case (Suc n)
  then show ?case by (subst decompress_loop.simps) (simp add: Let_def)
qed

lemma compress_block_append:
  "compress_block (cs @ cs') s =
     (case compress_block cs s of
        Inl e \<Rightarrow> Inl e
      | Inr (stop, s') \<Rightarrow> if stop then Inr (True, s') else compress_block cs' s')"
  by (induction cs s rule: compress_block.induct) (auto simp: Let_def)

lemma compress_chain_concat:
  "compress_chain bs s =
     (case compress_block (concat bs) s of
        Inl e \<Rightarrow> Inl e
      | Inr (stop, s') \<Rightarrow> if stop then Inr s' else Inl (Bugcheck 178))"
  by (induction bs s rule: compress_chain.induct)
     (auto simp: compress_block_append split: sum.splits bool.splits)

text \<open>
  With room for the whole compressed form the block is exhausted; otherwise the routine
  stops after a prefix of the data, and what it wrote is the compressed form of that
  prefix, followed by a zero byte if there was room for nothing else, and fits.
\<close>

definition stopped_at :: "byte list \<Rightarrow> sqz_state \<Rightarrow> sqz_state \<Rightarrow> bool" where
  "stopped_at d s s' \<longleftrightarrow>
     (\<exists>k cs w fill. k \<le> length d \<and> enc cs (take k d) w \<and>
        int (length w + fill) \<le> max 0 (sq_space s) \<and>
        sq_used s' = sq_used s + k \<and> sq_output s' = sq_output s @ w @ replicate fill 0)"

lemma stopped_atI:
  "enc cs (take k d) w \<Longrightarrow> k \<le> length d \<Longrightarrow> int (length w + fill) \<le> max 0 (sq_space s) \<Longrightarrow>
   sq_used s' = sq_used s + k \<Longrightarrow> sq_output s' = sq_output s @ w @ replicate fill 0 \<Longrightarrow>
   stopped_at d s s'"
  unfolding stopped_at_def by blast

lemma stopped_at_Cons:
  assumes "stopped_at d (advance (length xs) (emit w (s\<lparr>sq_space := sq_space s - int (length w)\<rparr>))) s'"
    and "enc cs xs w" and "int (length w) \<le> sq_space s"
  shows "stopped_at (xs @ d) s s'"
proof -
  from assms(1) obtain k cs' w' fill where k: "k \<le> length d" and e: "enc cs' (take k d) w'"
    and l: "int (length w' + fill) \<le> max 0 (sq_space s - int (length w))"
    and u: "sq_used s' = sq_used s + (length xs + k)" and o: "sq_output s' = sq_output s @ w @ w' @ replicate fill 0"
    by (auto simp: stopped_at_def advance_def emit_def)
  have "enc (cs @ cs') (take (length xs + k) (xs @ d)) (w @ w')"
    using enc_append [OF assms(2) e] by simp
  with k l u o assms(3) show ?thesis
    unfolding stopped_at_def
    by (intro exI [of _ "length xs + k"] exI [of _ "cs @ cs'"] exI [of _ "w @ w'"] exI [of _ fill]) auto
qed

lemma stopped_at_start:
  "sq_space s = 1 \<Longrightarrow> stopped_at d s (emit [0] (s\<lparr>sq_space := 0\<rparr>))"
  "sq_space s < 1 \<Longrightarrow> stopped_at d s (s\<lparr>sq_space := space\<rparr>)"
  unfolding stopped_at_def
  using enc_nil by (force simp: emit_def intro: exI [of _ 0] exI [of _ "1 :: nat"])+

lemma compress_block_enc:
  assumes "enc cs d w" and "sq_input s = d @ rest"
  shows "if int (length w) \<le> max 0 (sq_space s)
    then \<exists>s'. compress_block cs s = Inr (False, s')
    else \<exists>s'. compress_block cs s = Inr (True, s') \<and> stopped_at d s s'"
  using assms
proof (induction arbitrary: s rule: enc.induct)
  case enc_nil
  then show ?case by simp
next
  case (enc_literal cs d w c xs)
  let ?s = "advance (length xs) (emit (c # xs) (s\<lparr>sq_space := sq_space s - int (length (c # xs))\<rparr>))"
  have e: "enc [c] xs (c # xs)"
    using enc.enc_literal [OF enc.enc_nil enc_literal.hyps(2,3)] by simp
  show ?case
  proof (cases "int (length (c # xs)) \<le> sq_space s")
    case True
    then have "compress_block (c # cs) s = compress_block cs ?s"
      using enc_literal by (auto simp: Let_def advance_def emit_def algebra_simps)
    moreover have "sq_input ?s = d @ rest"
      using enc_literal.prems by (simp add: advance_def emit_def)
    moreover have "int (length w) \<le> max 0 (sq_space ?s) \<longleftrightarrow>
        int (length (c # xs @ w)) \<le> max 0 (sq_space s)"
      using True by (auto simp: advance_def emit_def)
    ultimately show ?thesis
      using enc_literal.IH [of ?s] stopped_at_Cons [OF _ e True]
      by (auto simp del: compress_block.simps split: if_splits)
  next
    case False
    show ?thesis
    proof (cases "sq_space s \<le> 1")
      case True
      with False enc_literal.hyps show ?thesis
        by (auto simp: Let_def intro: stopped_at_start)
    next
      case short: False
      let ?n = "nat (sq_space s - 1)"
      from short False have n: "?n < length xs" "int ?n = sq_space s - 1" "length xs \<le> 127"
        using schar_range [of c] enc_literal.hyps by auto
      have en: "enc [to_schar (int ?n)] (take ?n (xs @ d)) (to_schar (int ?n) # take ?n xs)"
        using enc_single_literal [of "take ?n xs"] n short by fastforce
      have "compress_block (c # cs) s = Inr (True, advance ?n
          (emit (to_schar (int ?n) # take ?n xs) (s\<lparr>sq_space := sq_space s - 1 - schar c\<rparr>)))"
        using enc_literal n short by (auto simp: Let_def advance_def emit_def)
      moreover have "stopped_at (xs @ d) s (advance ?n
          (emit (to_schar (int ?n) # take ?n xs) (s\<lparr>sq_space := sq_space s - 1 - schar c\<rparr>)))"
        using n by (intro stopped_atI [OF en, where fill = 0]) (auto simp: advance_def emit_def)
      ultimately show ?thesis
        using False by (auto simp del: compress_block.simps)
    qed
  qed
next
  case (enc_run cs d w c x)
  let ?xs = "replicate (nat (- schar c)) x"
  let ?s = "advance (length ?xs) (emit [c, x] (s\<lparr>sq_space := sq_space s - int (length [c, x])\<rparr>))"
  have e: "enc [c] ?xs [c, x]"
    using enc.enc_run [OF enc.enc_nil enc_run.hyps(2)] by simp
  have h: "hd (sq_input s) = x"
    using enc_run by (cases "nat (- schar c)") auto
  show ?case
  proof (cases "2 \<le> sq_space s")
    case True
    then have "compress_block (c # cs) s = compress_block cs ?s"
      using enc_run h by (auto simp: Let_def advance_def emit_def)
    moreover have "sq_input ?s = d @ rest"
      using enc_run.prems by (simp add: advance_def emit_def)
    moreover have "int (length w) \<le> max 0 (sq_space ?s) \<longleftrightarrow>
        int (length (c # x # w)) \<le> max 0 (sq_space s)"
      using True by (auto simp: advance_def emit_def)
    ultimately show ?thesis
      using enc_run.IH [of ?s] stopped_at_Cons [OF _ e, of d s] True
      by (auto simp del: compress_block.simps split: if_splits)
  next
    case False
    then show ?thesis
      by (auto simp: Let_def intro: stopped_at_start)
  qed
qed

lemma compress_length_block_eq:
  "compress_block cs s = Inr (stop, s') \<Longrightarrow>
   compress_length_block cs (sq_used s) (sq_space s) = (stop, sq_used s', sq_space s')"
  by (induction cs s rule: compress_block.induct)
     (auto simp: Let_def advance_def emit_def split: if_splits)

lemma compress_length_chain_eq:
  "compress_chain bs s \<noteq> Inl Fault \<Longrightarrow>
   compress_length_chain bs (sq_used s) (sq_space s) = map_sum id sq_used (compress_chain bs s)"
proof (induction bs s rule: compress_chain.induct)
  case (2 b bs s)
  have nofault: "compress_block b s = Inl e \<Longrightarrow> e = Fault" for e
    by (induction b s rule: compress_block.induct) (auto simp: Let_def split: if_splits)
  show ?case
  proof (cases "compress_block b s")
    case (Inl e)
    with "2.prems" nofault show ?thesis by auto
  next
    case (Inr r)
    then obtain stop s' where "compress_block b s = Inr (stop, s')" by (cases r) auto
    with "2.IH" "2.prems" compress_length_block_eq [OF this] show ?thesis
      by (cases stop) auto
  qed
qed simp

lemma SQZ_fast_enc: "enc (concat dcc) data w \<Longrightarrow> SQZ_fast dcc data = Inr w"
  using fast_block_enc [of "concat dcc" data w "[]" "[]"]
  by (simp add: SQZ_fast_def fast_chain_concat)

lemma SQZ_decompress_enc:
  assumes "enc cs data w" and "length w + fill < 65536" and "length data \<le> cap"
  shows "SQZ_decompress (w @ replicate fill 0 @ mem) (length w + fill) cap = Inr data"
  using assms decompress_loop_enc [of cs data w "[]" cap "int fill" "replicate fill 0 @ mem"]
    decompress_loop_fill [of data cap fill mem]
  by (simp add: SQZ_decompress_def)

subsection \<open>The format of difference records\<close>

text \<open>
  \<open>dif ds R X\<close>: a difference record \<open>ds\<close>, applied to a record whose bytes from the
  current position on are \<open>R\<close>, makes the next \<open>length X\<close> bytes equal to \<open>X\<close>.
\<close>

inductive dif :: "byte list \<Rightarrow> byte list \<Rightarrow> byte list \<Rightarrow> bool" where
  dif_nil: "dif [] R []"
| dif_literal: "dif ds (drop (length xs) R) X \<Longrightarrow> 0 < schar c \<Longrightarrow> length xs = nat (schar c) \<Longrightarrow>
     dif (c # xs @ ds) R (xs @ X)"
| dif_skip: "dif ds (drop n R) X \<Longrightarrow> schar c < 0 \<Longrightarrow> n = nat (- schar c) \<Longrightarrow> n \<le> length R \<Longrightarrow>
     dif (c # ds) R (take n R @ X)"

lemma dif_append:
  assumes "dif ds R X" and "dif ds' (drop (length X) R) X'"
  shows "dif (ds @ ds') R (X @ X')"
  using assms
proof (induction rule: dif.induct)
  case (dif_nil R)
  then show ?case by simp
next
  case (dif_literal ds xs R X c)
  then show ?case using dif.dif_literal [of "ds @ ds'" xs R "X @ X'" c] by (simp add: add.commute)
next
  case (dif_skip ds n R X c)
  then show ?case using dif.dif_skip [of "ds @ ds'" n R "X @ X'" c] by (simp add: add.commute)
qed

lemma apply_loop_dif:
  assumes "dif ds R X" and "length X \<le> length R"
  shows "apply_loop (pre @ R) (length pre) (ds @ ds2) =
    apply_loop (pre @ X @ drop (length X) R) (length pre + length X) ds2"
  using assms
proof (induction arbitrary: pre rule: dif.induct)
  case (dif_nil R)
  then show ?case by simp
next
  case (dif_literal ds xs R X c)
  then have "apply_loop (pre @ R) (length pre) ((c # xs @ ds) @ ds2) =
      apply_loop ((pre @ xs) @ drop (length xs) R) (length (pre @ xs)) (ds @ ds2)"
    by (auto simp: apply_loop.simps(2) Let_def)
  with dif_literal show ?case
    using dif_literal.IH [of "pre @ xs"] by (simp add: ac_simps)
next
  case (dif_skip ds n R X c)
  then have "apply_loop (pre @ R) (length pre) ((c # ds) @ ds2) =
      apply_loop ((pre @ take n R) @ drop n R) (length (pre @ take n R)) (ds @ ds2)"
    by (auto simp: apply_loop.simps(2) Let_def)
  with dif_skip show ?case
    using dif_skip.IH [of "pre @ take n R"] by (simp add: ac_simps)
qed

lemma SQZ_apply_differences_dif:
  assumes "dif ds R X" and "length X \<le> length R" and "length R < 65536"
    and "length ds \<le> MAX_DIFFERENCES"
  shows "SQZ_apply_differences R ds = Inr (X @ drop (length X) R, length X)"
  using apply_loop_dif [OF assms(1,2), of "[]" "[]"] assms(2-4)
  by (simp add: SQZ_apply_differences_def Let_def)

subsection \<open>What \<^verbatim>\<open>SQZ_differences\<close> writes\<close>

lemma STUFF_eq_Some: "STUFF lim v out = Some out' \<longleftrightarrow> length out < lim \<and> out' = out @ [v]"
  by (auto simp: STUFF_def)

lemma diff_literal_spec:
  assumes "diff_literal lim k r1 r2 out = Some (r1', r2', out')"
  shows "\<exists>xs. r2 = xs @ r2' \<and> r1' = drop (length xs) r1 \<and> out' = out @ xs \<and>
    length xs \<le> k \<and> length xs \<le> length r1 \<and> (xs \<noteq> [] \<longrightarrow> length out' \<le> lim)"
  using assms
proof (induction lim k r1 r2 out rule: diff_literal.induct)
  case (1 lim k a r1 b r2 out)
  show ?case
  proof (cases "0 < k \<and> (a \<noteq> b \<or> (1 < k \<and> heads_differ r1 r2))")
    case True
    with "1.prems" have rec: "diff_literal lim (k - 1) r1 r2 (out @ [b]) = Some (r1', r2', out')"
      and fits: "length out < lim"
      by (auto simp: STUFF_eq_Some split: option.splits)
    from "1.IH" [OF True _ rec] fits obtain xs where
      "r2 = xs @ r2'" "r1' = drop (length xs) r1" "out' = (out @ [b]) @ xs"
      "length xs \<le> k - 1" "length xs \<le> length r1" "xs \<noteq> [] \<longrightarrow> length out' \<le> lim"
      by (auto simp: STUFF_def)
    with True fits show ?thesis by (intro exI [of _ "b # xs"]) auto
  next
    case False
    with "1.prems" show ?thesis by auto
  qed
qed auto

lemma patch_control_append:
  "patch_control (length out) (out @ v # xs) = out @ to_schar (int (length xs)) # xs"
  by (simp add: patch_control_def)

lemma dif_single_literal:
  "xs \<noteq> [] \<Longrightarrow> length xs \<le> 127 \<Longrightarrow> dif (to_schar (int (length xs)) # xs) R xs"
  using dif_literal [OF dif_nil, of "to_schar (int (length xs))" xs R] by simp

lemma dif_single_skip:
  assumes "0 < n" and "n \<le> 128" and "n \<le> length R"
  shows "dif [to_schar (- int n)] R (take n R)"
  using dif_skip [OF dif_nil, of "to_schar (- int n)" n R] assms by simp

lemma diff_equal_take: "take (diff_equal r1 r2) r1 = take (diff_equal r1 r2) r2"
  by (induction r1 r2 rule: diff_equal.induct) auto

lemma stuff_skip_spec:
  assumes "stuff_skip lim n out = Some out'"
  shows "\<exists>ds. out' = out @ ds \<and> (0 < n \<longrightarrow> length out' \<le> lim) \<and>
    (\<forall>R. n \<le> length R \<longrightarrow> dif ds R (take n R))"
  using assms
proof (induction lim n out rule: stuff_skip.induct)
  case (1 lim n out)
  show ?case
  proof (cases "127 < n")
    case True
    with "1.prems" have fits: "length out < lim"
      and rec: "stuff_skip lim (n - 127) (out @ [to_schar (- 127)]) = Some out'"
      by (auto simp: stuff_skip.simps [of lim n out] STUFF_eq_Some split: option.splits)
    from "1.IH" [OF True _ rec] fits True obtain ds where
      ds: "out' = (out @ [to_schar (- 127)]) @ ds" "length out' \<le> lim"
        "\<And>R. n - 127 \<le> length R \<Longrightarrow> dif ds R (take (n - 127) R)"
      by (auto simp: STUFF_def)
    have "dif ([to_schar (- 127)] @ ds) R (take 127 R @ take (n - 127) (drop 127 R))"
      if "n \<le> length R" for R
      using dif_single_skip [of 127 R] ds(3) [of "drop 127 R"] that True
      by (intro dif_append) auto
    moreover have "take 127 R @ take (n - 127) (drop 127 R) = take n R" for R :: "byte list"
      using True by (metis add_diff_inverse_nat not_less_iff_gr_or_eq take_add)
    ultimately show ?thesis
      using ds by (intro exI [of _ "to_schar (- 127) # ds"]) auto
  next
    case False
    with "1.prems" show ?thesis
      using dif_single_skip [of n] dif_nil
      by (auto simp: stuff_skip.simps [of lim n out] STUFF_eq_Some split: if_splits)
  qed
qed

lemma diff_loop_spec:
  assumes "diff_loop lim r1 r2 out = Some (r2', out')" and "length out \<le> lim"
  shows "\<exists>ds X. out' = out @ ds \<and> r2 = X @ r2' \<and> length out' \<le> lim \<and>
    (\<forall>R. take (length r1) R = r1 \<longrightarrow> dif ds R X)"
  using assms
proof (induction "length r1" arbitrary: r1 r2 out rule: less_induct)
  case less
  note step = diff_loop.simps [of lim r1 r2 out]
  consider (stop) "\<not> (\<exists>a a' a'' r b b' s. r1 = a # a' # a'' # r \<and> r2 = b # b' # s)"
    | (lit) a a' a'' r b b' s where "r1 = a # a' # a'' # r" "r2 = b # b' # s" "a \<noteq> b \<or> a' \<noteq> b'"
    | (eq) a a' a'' r s where "r1 = a # a' # a'' # r" "r2 = a # a' # s"
    by blast
  then show ?case
  proof cases
    case stop
    then have "diff_loop lim r1 r2 out = Some (r2, out)"
      by (subst step) (auto split: list.splits)
    with less.prems show ?thesis
      by (intro exI [of _ "[]"]) (auto intro: dif_nil)
  next
    case lit
    let ?k = "min (length r1) 127"
    obtain r1' r2'' o1 where dl: "diff_literal lim ?k r1 r2 (out @ [0]) = Some (r1', r2'', o1)"
      and rec: "diff_loop lim r1' r2'' (patch_control (length out) o1) = Some (r2', out')"
      using less.prems(1) lit by (subst (asm) step) (auto split: option.splits)
    from diff_literal_spec [OF dl] obtain xs where xs: "r2 = xs @ r2''" "r1' = drop (length xs) r1"
        "o1 = out @ 0 # xs" "length xs \<le> ?k" "xs \<noteq> [] \<longrightarrow> length o1 \<le> lim"
      by auto
    have shorter: "length r1' < length r1"
      using diff_literal_progress [of lim ?k a "a' # a'' # r" b "b' # s" "out @ [0]" r1' r2'' o1] dl lit
      by auto
    with xs have ne: "xs \<noteq> []" by auto
    let ?c = "to_schar (int (length xs)) # xs"
    have o1: "patch_control (length out) o1 = out @ ?c" "length (out @ ?c) \<le> lim"
      using xs ne by (auto simp: patch_control_append)
    obtain ds X where ih: "out' = (out @ ?c) @ ds" "r2'' = X @ r2'" "length out' \<le> lim"
        "\<And>R. take (length r1') R = r1' \<Longrightarrow> dif ds R X"
      using less.hyps [of r1' r2'' "out @ ?c"] shorter rec o1 by auto
    have "dif (?c @ ds) R (xs @ X)" if "take (length r1) R = r1" for R
    proof (rule dif_append)
      show "dif ?c R xs" using dif_single_literal [OF ne] xs(4) by simp
      have "take (length r1') (drop (length xs) R) = r1'"
        using that xs by (metis drop_take length_drop)
      then show "dif ds (drop (length xs) R) X" by (rule ih(4))
    qed
    with ih xs show ?thesis
      by (intro exI [of _ "?c @ ds"] exI [of _ "xs @ X"]) auto
  next
    case eq
    let ?n = "diff_equal r1 r2"
    have n: "0 < ?n" "?n \<le> length r1" "?n \<le> length r2"
      using eq diff_equal_le [of r1 r2] by simp_all
    then have shorter: "length (drop ?n r1) < length r1" by simp
    obtain o1 where sk: "stuff_skip lim ?n out = Some o1"
      and rec: "diff_loop lim (drop ?n r1) (drop ?n r2) o1 = Some (r2', out')"
      using less.prems(1) eq by (subst (asm) step) (auto simp: Let_def split: option.splits)
    from stuff_skip_spec [OF sk] n obtain ds0 where ds0: "o1 = out @ ds0" "length o1 \<le> lim"
        "\<And>R. ?n \<le> length R \<Longrightarrow> dif ds0 R (take ?n R)"
      by auto
    obtain ds X where ih: "out' = o1 @ ds" "drop ?n r2 = X @ r2'" "length out' \<le> lim"
        "\<And>R. take (length (drop ?n r1)) R = drop ?n r1 \<Longrightarrow> dif ds R X"
      using less.hyps [OF shorter rec] ds0 by auto
    have "dif (ds0 @ ds) R (take ?n r2 @ X)" if R: "take (length r1) R = r1" for R
    proof (rule dif_append)
      have len: "length r1 \<le> length R"
        using R by (metis length_take min.absorb_iff2 min.commute)
      have "take ?n R = take ?n r2"
        using R n by (metis diff_equal_take min.absorb1 take_take)
      then show "dif ds0 R (take ?n r2)"
        using ds0(3) [of R] n len by simp
      have "take (length (drop ?n r1)) (drop ?n R) = drop ?n r1"
        using R by (metis drop_take length_drop)
      then have "dif ds (drop ?n R) X" by (rule ih(4))
      with n show "dif ds (drop (length (take ?n r2)) R) X" by simp
    qed
    moreover have "r2 = (take ?n r2 @ X) @ r2'"
      using ih(2) by (metis append.assoc append_take_drop_id)
    ultimately show ?thesis
      using ih ds0 by (intro exI [of _ "ds0 @ ds"] exI [of _ "take ?n r2 @ X"]) auto
  qed
qed

lemma stuff_all_spec:
  "stuff_all lim xs out = Some out' \<Longrightarrow> out' = out @ xs \<and> (xs \<noteq> [] \<longrightarrow> length out' \<le> lim)"
  by (induction lim xs out rule: stuff_all.induct) (auto simp: STUFF_eq_Some split: option.splits)

lemma diff_tail_spec:
  assumes "diff_tail lim r2 out = Some out'" and "length out \<le> lim"
  shows "\<exists>ds. out' = out @ ds \<and> length out' \<le> lim \<and> (\<forall>R. dif ds R r2)"
  using assms
proof (induction lim r2 out rule: diff_tail.induct)
  case (1 lim r2 out)
  show ?case
  proof (cases "r2 = []")
    case True
    with "1.prems" show ?thesis by (auto simp: diff_tail.simps intro: dif_nil)
  next
    case False
    with "1.prems"(1) obtain o1 where sa: "stuff_all lim (take 127 r2) (out @ [0]) = Some o1"
      and rec: "diff_tail lim (drop 127 r2) (patch_control (length out) o1) = Some out'"
      by (subst (asm) diff_tail.simps) (auto split: option.splits)
    let ?c = "to_schar (int (length (take 127 r2))) # take 127 r2"
    from stuff_all_spec [OF sa] False have o1: "patch_control (length out) o1 = out @ ?c"
        "length (out @ ?c) \<le> lim"
      using patch_control_append [of out 0 "take 127 r2"] by auto
    obtain ds where ih: "out' = (out @ ?c) @ ds" "length out' \<le> lim" "\<And>R. dif ds R (drop 127 r2)"
      using "1.IH" [OF False sa rec] o1 by auto
    have "dif (?c @ ds) R (take 127 r2 @ drop 127 r2)" for R
      using False dif_single_literal [of "take 127 r2" R] ih(3) by (intro dif_append) auto
    with ih show ?thesis by (intro exI [of _ "?c @ ds"]) auto
  qed
qed

lemma SQZ_differences_spec:
  assumes "SQZ_differences rec1 rec2 lim = (n, ds)" and "n \<noteq> 32000"
    and "take (min (length rec1) (length rec2)) R = take (min (length rec1) (length rec2)) rec1"
  shows "dif ds R rec2 \<and> length ds \<le> lim \<and> n = to_ushort (length ds)"
proof -
  let ?r1 = "take (min (length rec1) (length rec2)) rec1"
  from assms(1,2) obtain r2 out where dl: "diff_loop lim ?r1 rec2 [] = Some (r2, out)"
    and dt: "diff_tail lim r2 out = Some ds" and n: "n = to_ushort (length ds)"
    by (auto simp: SQZ_differences_def split: option.splits)
  from diff_loop_spec [OF dl] obtain X where X: "rec2 = X @ r2" "length out \<le> lim"
      "\<And>R. take (length ?r1) R = ?r1 \<Longrightarrow> dif out R X"
    by auto
  from diff_tail_spec [OF dt X(2)] obtain ds' where ds': "ds = out @ ds'" "length ds \<le> lim"
      "\<And>R. dif ds' R r2"
    by auto
  have "dif out R X" using X(3) assms(3) by simp
  with ds' X(1) n show ?thesis using dif_append by blast
qed

lemma SQZ_no_differences_dif:
  "0 \<le> n \<Longrightarrow> nat n \<le> length R \<Longrightarrow> dif (SQZ_no_differences n) R (take (nat n) R)"
proof (induction n arbitrary: R rule: SQZ_no_differences.induct)
  case (1 n)
  show ?case
  proof (cases "127 < n")
    case True
    have "dif ([to_schar (- 127)] @ SQZ_no_differences (n - 127)) R
        (take 127 R @ take (nat (n - 127)) (drop 127 R))"
      using True "1.prems" "1.IH" [of "drop 127 R"] dif_single_skip [of 127 R]
      by (intro dif_append) auto
    moreover have "take 127 R @ take (nat (n - 127)) (drop 127 R) = take (nat n) R"
      using True take_add [of 127 "nat (n - 127)" R] by (simp add: nat_diff_distrib)
    ultimately show ?thesis
      using True by (subst SQZ_no_differences.simps) simp
  next
    case False
    with "1.prems" show ?thesis
      using dif_single_skip [of "nat n" R] dif_nil by (subst SQZ_no_differences.simps) auto
  qed
qed

lemma SQZ_no_differences_length: "0 \<le> n \<Longrightarrow> 127 * length (SQZ_no_differences n) \<le> nat n + 126"
proof (induction n rule: SQZ_no_differences.induct)
  case (1 n)
  then show ?case by (subst SQZ_no_differences.simps) auto
qed

subsection \<open>Properties\<close>

lemma run_length_numeral:
  "run_length c (numeral k) data =
     (case data of [] \<Rightarrow> 0 | d # ds \<Rightarrow> if d \<noteq> c then 0 else Suc (run_length c (pred_numeral k) ds))"
  by (simp add: numeral_eq_Suc split: list.split)

lemmas sqz_eval = SQZ_length_def length_loop.simps literal_count_def put_literals.simps put_control_def
  put_run_def run_count_def SQZ_compress_def SQZ_differences_def diff_loop.simps diff_tail.simps
  stuff_skip.simps patch_control_def STUFF_def advance_def emit_def schar_def to_schar_def
  DCC_SIZE_def Let_def to_ushort_def run_length_numeral

text \<open>
  C1. Storing and fetching a record. For a record shorter than 64K the control chain that
  \<^verbatim>\<open>SQZ_length\<close> builds lets \<^verbatim>\<open>SQZ_fast\<close> write exactly the announced number of
  bytes, and \<^verbatim>\<open>SQZ_decompress\<close> recovers the record from them, also when the record
  was padded with zero bytes on its page (as \<^verbatim>\<open>dpm.epp\<close> does) and whatever follows it
  there, for every output area that can hold the record.
\<close>

theorem sqz_store_fetch:
  assumes "length data < 65536" and "SQZ_length dccs data = (len, dcc, dccs')"
    and "len + fill < 65536" and "length data \<le> cap"
  shows "\<exists>out. SQZ_fast dcc data = Inr out \<and> length out = len \<and>
    SQZ_decompress (out @ replicate fill 0 @ mem) (len + fill) cap = Inr data"
proof -
  obtain w where "enc (concat dcc) data w" and "length w = len"
    using SQZ_length_enc [OF assms(1,2)] by blast
  with assms(3,4) show ?thesis
    using SQZ_fast_enc SQZ_decompress_enc by blast
qed

theorem sqz_store_fetch_witness:
  "SQZ_length 0 [1, 2, 7, 7, 7, 7, 3] = (7, [[2, - 4, 1]], 0) \<and>
   (\<exists>out. SQZ_fast [[2, - 4, 1]] [1, 2, 7, 7, 7, 7, 3] = Inr out \<and> length out = 7 \<and>
      SQZ_decompress (out @ replicate 2 0 @ [5]) (7 + 2) 10 = Inr [1, 2, 7, 7, 7, 7, 3])"
proof -
  have run: "SQZ_length 0 [1, 2, 7, 7, 7, 7, 3] = (7, [[2, - 4, 1]], 0)"
    by (simp add: sqz_eval)
  show ?thesis
    using sqz_store_fetch [OF _ run, of 2 10 "[5]"] run by simp
qed

text \<open>
  C2. Fragmenting a record. With less space than the compressed length
  \<^verbatim>\<open>SQZ_compress\<close> never writes beyond the area, and what it writes decompresses to
  exactly the prefix of the record whose length it returns; with enough space for the whole
  record it raises bug check 178, so it is for records that do not fit only.
\<close>

theorem sqz_compress_fragment:
  assumes "length data < 65536" and "SQZ_length dccs data = (len, dcc, dccs')" and "len < 65536"
  shows "if int len \<le> max 0 space then SQZ_compress dcc data space = Inl (Bugcheck 178)
    else \<exists>n out. SQZ_compress dcc data space = Inr (n, out) \<and> n \<le> length data \<and>
      int (length out) \<le> max 0 space \<and>
      (\<forall>mem. SQZ_decompress (out @ mem) (length out) n = Inr (take n data))"
proof -
  let ?s = "\<lparr>sq_input = data, sq_output = [], sq_space = space, sq_used = 0\<rparr>"
  obtain w where w: "enc (concat dcc) data w" "length w = len"
    using SQZ_length_enc [OF assms(1,2)] by blast
  show ?thesis
  proof (cases "int len \<le> max 0 space")
    case True
    then show ?thesis
      using compress_block_enc [OF w(1), of ?s "[]"] w(2)
      by (auto simp: SQZ_compress_def compress_chain_concat)
  next
    case False
    then obtain s' where s': "compress_block (concat dcc) ?s = Inr (True, s')" "stopped_at data ?s s'"
      using compress_block_enc [OF w(1), of ?s "[]"] w(2) by auto
    from s'(2) obtain k cs w' fill where k: "k \<le> length data" "enc cs (take k data) w'"
        "int (length w' + fill) \<le> max 0 space" "sq_used s' = k" "sq_output s' = w' @ replicate fill 0"
      by (auto simp: stopped_at_def)
    from k False assms(3) have small: "length w' + fill < 65536" by linarith
    have "SQZ_decompress ((w' @ replicate fill 0) @ mem) (length (w' @ replicate fill 0)) k =
        Inr (take k data)" for mem
      using SQZ_decompress_enc [OF k(2) small] k(1) by simp
    with s'(1) k False assms(1) show ?thesis
      by (auto simp: SQZ_compress_def compress_chain_concat)
  qed
qed

theorem sqz_compress_fragment_witness:
  "SQZ_length 0 [1, 2, 7, 7, 7, 7, 3] = (7, [[2, - 4, 1]], 0) \<and>
   (\<exists>n out. SQZ_compress [[2, - 4, 1]] [1, 2, 7, 7, 7, 7, 3] 6 = Inr (n, out) \<and>
      n \<le> length [1, 2, 7, 7, 7, 7, 3 :: byte] \<and> int (length out) \<le> 6 \<and>
      (\<forall>mem. SQZ_decompress (out @ mem) (length out) n = Inr (take n [1, 2, 7, 7, 7, 7, 3])))"
proof -
  have run: "SQZ_length 0 [1, 2, 7, 7, 7, 7, 3] = (7, [[2, - 4, 1]], 0)"
    by (simp add: sqz_eval)
  show ?thesis
    using sqz_compress_fragment [OF _ run, of 6] run by simp
qed

text \<open>
  C3. \<^verbatim>\<open>SQZ_compress_length\<close> predicts \<^verbatim>\<open>SQZ_compress\<close>: for every control chain,
  input and space on which the latter stays inside its buffers, both return the same
  number or raise the same bug check.
\<close>

theorem sqz_compress_length_agrees:
  assumes "SQZ_compress dcc input space \<noteq> Inl Fault"
  shows "SQZ_compress_length dcc space = map_sum id fst (SQZ_compress dcc input space)"
proof -
  let ?s = "\<lparr>sq_input = input, sq_output = [], sq_space = space, sq_used = 0\<rparr>"
  have "compress_chain dcc ?s \<noteq> Inl Fault"
    using assms by (auto simp: SQZ_compress_def)
  from compress_length_chain_eq [OF this] show ?thesis
    by (simp add: SQZ_compress_length_def SQZ_compress_def split: sum.splits)
qed

theorem sqz_compress_length_agrees_witness:
  "SQZ_compress_length [[4, - 3]] 4 = map_sum id fst (SQZ_compress [[4, - 3]] [1, 2, 3, 4, 9, 9, 9] 4) \<and>
   SQZ_compress [[4, - 3]] [1, 2, 3, 4, 9, 9, 9] 4 = Inr (3, [3, 1, 2, 3])"
proof -
  have run: "SQZ_compress [[4, - 3]] [1, 2, 3, 4, 9, 9, 9] 4 = Inr (3, [3, 1, 2, 3])"
    by (simp add: sqz_eval)
  show ?thesis
    using sqz_compress_length_agrees [of "[[4, - 3]]" "[1, 2, 3, 4, 9, 9, 9]" 4] run by simp
qed

text \<open>
  C4. Record versions. If \<^verbatim>\<open>SQZ_differences\<close> does not report an overflow, the
  difference record it wrote stays inside the given buffer, has the length it returns, and
  \<^verbatim>\<open>SQZ_apply_differences\<close> turns every record that starts with the common part of the
  first one, and is long enough, into the second one, leaving the bytes behind it alone.
\<close>

theorem sqz_differences_apply:
  assumes "SQZ_differences rec1 rec2 lim = (n, ds)" and "n \<noteq> 32000" and "lim \<le> MAX_DIFFERENCES"
    and "take (min (length rec1) (length rec2)) R = take (min (length rec1) (length rec2)) rec1"
    and "length rec2 \<le> length R" and "length R < 65536"
  shows "n = length ds \<and> n \<le> lim \<and>
    SQZ_apply_differences R ds = Inr (rec2 @ drop (length rec2) R, length rec2)"
proof -
  from SQZ_differences_spec [OF assms(1,2,4)]
  have d: "dif ds R rec2" "length ds \<le> lim" "n = to_ushort (length ds)" by auto
  with assms(3) have "length ds \<le> MAX_DIFFERENCES" "length ds < 65536"
    by (auto simp: MAX_DIFFERENCES_def)
  with d assms(5,6) show ?thesis
    using SQZ_apply_differences_dif by simp
qed

theorem sqz_differences_apply_witness:
  "SQZ_differences [1, 2, 3, 4, 5, 6] [1, 2, 3, 9, 9, 6, 7] 100 = (7, [- 3, 2, 9, 9, 2, 6, 7]) \<and>
   SQZ_apply_differences [1, 2, 3, 4, 5, 6, 0, 0] [- 3, 2, 9, 9, 2, 6, 7] =
     Inr ([1, 2, 3, 9, 9, 6, 7, 0], 7)"
proof -
  have run: "SQZ_differences [1, 2, 3, 4, 5, 6] [1, 2, 3, 9, 9, 6, 7] 100 = (7, [- 3, 2, 9, 9, 2, 6, 7])"
    by (simp add: sqz_eval)
  show ?thesis
    using sqz_differences_apply [OF run, of "[1, 2, 3, 4, 5, 6, 0, 0]"] run
    by (simp add: MAX_DIFFERENCES_def)
qed

text \<open>
  The record written when nothing changed: applied to any record of at least that
  length it changes nothing, and 1024 bytes hold it for every possible record length.
\<close>

theorem sqz_no_differences_apply:
  assumes "length R < 65536" and "n \<le> length R"
  shows "length (SQZ_no_differences (int n)) \<le> MAX_DIFFERENCES \<and>
    SQZ_apply_differences R (SQZ_no_differences (int n)) = Inr (R, n)"
proof -
  have "127 * length (SQZ_no_differences (int n)) \<le> n + 126"
    using SQZ_no_differences_length [of "int n"] by simp
  with assms have fits: "length (SQZ_no_differences (int n)) \<le> MAX_DIFFERENCES"
    by (simp add: MAX_DIFFERENCES_def)
  with assms show ?thesis
    using SQZ_apply_differences_dif [OF SQZ_no_differences_dif [of "int n" R]] by simp
qed

theorem sqz_no_differences_apply_witness:
  "length (SQZ_no_differences (int 130)) \<le> MAX_DIFFERENCES \<and>
   SQZ_apply_differences (replicate 131 7) (SQZ_no_differences (int 130)) = Inr (replicate 131 7, 130)"
  using sqz_no_differences_apply [of "replicate 131 7" 130] by simp

text \<open>
  C6. The final test of \<^verbatim>\<open>SQZ_apply_differences\<close> is made on a 16 bit length. A
  difference record that skips beyond a record of the largest size therefore passes the test
  when the offset wraps around, and a length smaller than the record is returned instead of
  bug check 177.
\<close>

lemma apply_loop_skips:
  "length data = 65535 \<Longrightarrow> p + 127 * k < 65535 \<Longrightarrow>
   apply_loop data p (replicate k (to_schar (- 127)) @ ds) = apply_loop data (p + 127 * k) ds"
proof (induction k arbitrary: p)
  case (Suc k)
  then show ?case
    using schar_to_schar [of "- 127"] by (simp add: apply_loop.simps(2) Let_def add.assoc)
qed simp

theorem sqz_apply_wraps:
  "SQZ_apply_differences (replicate 65535 0) (replicate 516 (to_schar (- 127)) @ [to_schar (- 128)]) =
     Inr (replicate 65535 0, 124)"
proof -
  have "apply_loop (replicate 65535 0) 0 (replicate 516 (to_schar (- 127)) @ [to_schar (- 128)]) =
      Inr (replicate 65535 0, 65660, [])"
    using apply_loop_skips [of "replicate 65535 0" 0 516 "[to_schar (- 128)]"] schar_to_schar [of "- 128"]
    by (simp add: apply_loop.simps(2) Let_def)
  then show ?thesis
    by (simp add: SQZ_apply_differences_def MAX_DIFFERENCES_def to_ushort_def)
qed

end
