(* ===== verification/FB_Vector.thy ===== *)
theory FB_Vector
  imports FB_Prelude
begin

section \<open>Vectors and arrays (\<^verbatim>\<open>src/src/common/classes/vector.h\<close>, \<^verbatim>\<open>array.h\<close>)\<close>

text \<open>
  \<^verbatim>\<open>Vector\<close> is a static array with a fill count, \<^verbatim>\<open>Array\<close> its dynamic
  counterpart, \<^verbatim>\<open>SortedVector\<close> and \<^verbatim>\<open>SortedArray\<close> keep their items ordered by
  a key and search them by bisection. The storage is modelled cell by cell: a cell that was
  never written is \<^term>\<open>None\<close>, a written one \<^term>\<open>Some x\<close>, and the elements below
  the count are the abstract list. An operation whose \<^verbatim>\<open>fb_assert\<close> fails, which is
  undefined behaviour in a production build, returns \<^term>\<open>None\<close>.
\<close>

type_synonym 'a cells = "'a option list"

definition memmove :: "nat \<Rightarrow> nat \<Rightarrow> nat \<Rightarrow> 'a list \<Rightarrow> 'a list" where
  "memmove dst src n xs = take dst xs @ take n (drop src xs) @ drop (dst + n) xs"

definition memcpy :: "nat \<Rightarrow> 'a list \<Rightarrow> 'a list \<Rightarrow> 'a list" where
  "memcpy dst ys xs = take dst xs @ ys @ drop (dst + length ys) xs"

definition items :: "nat \<Rightarrow> 'a cells \<Rightarrow> 'a list" where
  "items n xs = map the (take n xs)"

definition filled :: "nat \<Rightarrow> 'a cells \<Rightarrow> bool" where
  "filled n xs \<longleftrightarrow> n \<le> length xs \<and> None \<notin> set (take n xs)"

subsection \<open>\<^verbatim>\<open>Vector\<close>\<close>

record 'a vector =
  v_count :: nat
  v_data :: "'a cells"

abbreviation v_capacity :: "'a vector \<Rightarrow> nat" where
  "v_capacity v \<equiv> length (v_data v)"

definition vector_new :: "nat \<Rightarrow> 'a vector" where
  "vector_new capacity = \<lparr>v_count = 0, v_data = replicate capacity None\<rparr>"

definition vector_get :: "'a vector \<Rightarrow> nat \<Rightarrow> 'a option" where
  "vector_get v index = (if index < v_count v then v_data v ! index else None)"

definition vector_clear :: "'a vector \<Rightarrow> 'a vector" where
  "vector_clear v = v\<lparr>v_count := 0\<rparr>"

definition vector_insert :: "nat \<Rightarrow> 'a \<Rightarrow> 'a vector \<Rightarrow> 'a vector option" where
  "vector_insert index item v =
     (if index \<le> v_count v \<and> v_count v < v_capacity v then
        Some (v\<lparr>v_data := (memmove (index + 1) index (v_count v - index) (v_data v))[index := Some item],
                v_count := v_count v + 1\<rparr>)
      else None)"

definition vector_add :: "'a \<Rightarrow> 'a vector \<Rightarrow> 'a vector option" where
  "vector_add item v =
     (if v_count v < v_capacity v then
        Some (v\<lparr>v_data := (v_data v)[v_count v := Some item], v_count := v_count v + 1\<rparr>)
      else None)"

definition vector_remove :: "nat \<Rightarrow> 'a vector \<Rightarrow> 'a vector option" where
  "vector_remove index v =
     (if index < v_count v then
        Some (v\<lparr>v_data := memmove index (index + 1) (v_count v - 1 - index) (v_data v),
                v_count := v_count v - 1\<rparr>)
      else None)"

definition vector_shrink :: "nat \<Rightarrow> 'a vector \<Rightarrow> 'a vector option" where
  "vector_shrink newCount v =
     (if newCount \<le> v_count v then Some (v\<lparr>v_count := newCount\<rparr>) else None)"

definition vector_join :: "'a vector \<Rightarrow> 'a vector \<Rightarrow> 'a vector option" where
  "vector_join l v =
     (if v_count v + v_count l \<le> v_capacity v then
        Some (v\<lparr>v_data := memcpy (v_count v) (take (v_count l) (v_data l)) (v_data v),
                v_count := v_count v + v_count l\<rparr>)
      else None)"

definition vector_getBuffer :: "nat \<Rightarrow> 'a vector \<Rightarrow> 'a vector option" where
  "vector_getBuffer capacityL v =
     (if capacityL \<le> v_capacity v then Some (v\<lparr>v_count := capacityL\<rparr>) else None)"

text \<open>
  \<open>vector_items\<close> is the abstract list; \<open>vector_ok\<close> the class invariant: the count is
  within the capacity and every cell below it was written.
\<close>

definition vector_items :: "'a vector \<Rightarrow> 'a list" where
  "vector_items v = items (v_count v) (v_data v)"

definition vector_ok :: "'a vector \<Rightarrow> bool" where
  "vector_ok v \<longleftrightarrow> filled (v_count v) (v_data v)"

subsection \<open>Bisection\<close>

text \<open>
  The loop of \<^verbatim>\<open>SortedVector::find\<close> and \<^verbatim>\<open>SortedArray::find\<close>, which are the same
  text: \<open>xs\<close> are the items below the count, \<open>key\<close> is \<^verbatim>\<open>KeyOfValue::generate\<close>.
\<close>

function find_loop :: "('v \<Rightarrow> 'k::linorder) \<Rightarrow> 'v list \<Rightarrow> 'k \<Rightarrow> nat \<Rightarrow> nat \<Rightarrow> nat \<times> nat" where
  "find_loop key xs item lowBound highBound =
     (if lowBound < highBound then
        let temp = (highBound + lowBound) div 2 in
        if key (xs ! temp) < item then find_loop key xs item (temp + 1) highBound
        else find_loop key xs item lowBound temp
      else (lowBound, highBound))"
  by pat_completeness auto
termination
  by (relation "measure (\<lambda>(key, xs, item, lo, hi). hi - lo)") auto

declare find_loop.simps [simp del]

definition sorted_find :: "('v \<Rightarrow> 'k::linorder) \<Rightarrow> 'v list \<Rightarrow> 'k \<Rightarrow> bool \<times> nat" where
  "sorted_find key xs item =
     (case find_loop key xs item 0 (length xs) of
        (lowBound, highBound) \<Rightarrow>
          (highBound \<noteq> length xs \<and> \<not> item < key (xs ! lowBound), lowBound))"

definition sorted_vector_find :: "('v \<Rightarrow> 'k::linorder) \<Rightarrow> 'v vector \<Rightarrow> 'k \<Rightarrow> bool \<times> nat" where
  "sorted_vector_find key v item = sorted_find key (vector_items v) item"

definition sorted_vector_add :: "('v \<Rightarrow> 'k::linorder) \<Rightarrow> 'v \<Rightarrow> 'v vector \<Rightarrow> (nat \<times> 'v vector) option" where
  "sorted_vector_add key item v =
     (let pos = snd (sorted_vector_find key v (key item)) in
      map_option (Pair pos) (vector_insert pos item v))"

subsection \<open>\<^verbatim>\<open>Array\<close>\<close>

text \<open>\<open>a_storage\<close> is \<^verbatim>\<open>getStorageSize()\<close>, the size of the inline part.\<close>

record 'a array =
  a_count :: nat
  a_data :: "'a cells"
  a_storage :: nat

abbreviation a_capacity :: "'a array \<Rightarrow> nat" where
  "a_capacity a \<equiv> length (a_data a)"

definition ensureCapacity :: "nat \<Rightarrow> 'a array \<Rightarrow> 'a array" where
  "ensureCapacity newcapacity a =
     (if a_capacity a < newcapacity then
        let newcapacity = (if newcapacity < a_capacity a * 2 then a_capacity a * 2 else newcapacity)
        in a\<lparr>a_data := memcpy 0 (take (a_count a) (a_data a)) (replicate newcapacity None)\<rparr>
      else a)"

definition array_new :: "nat \<Rightarrow> nat \<Rightarrow> 'a array" where
  "array_new storage initialCapacity =
     ensureCapacity initialCapacity
       \<lparr>a_count = 0, a_data = replicate storage None, a_storage = storage\<rparr>"

definition array_clear :: "'a array \<Rightarrow> 'a array" where
  "array_clear a = a\<lparr>a_count := 0\<rparr>"

definition getElement :: "'a array \<Rightarrow> nat \<Rightarrow> 'a option" where
  "getElement a index = (if index < a_count a then a_data a ! index else None)"

definition array_put :: "nat \<Rightarrow> 'a \<Rightarrow> 'a array \<Rightarrow> 'a array option" where
  "array_put index item a =
     (if index < a_count a then Some (a\<lparr>a_data := (a_data a)[index := Some item]\<rparr>) else None)"

definition array_front :: "'a array \<Rightarrow> 'a option" where
  "array_front a = (if 0 < a_count a then a_data a ! 0 else None)"

definition array_back :: "'a array \<Rightarrow> 'a option" where
  "array_back a = (if 0 < a_count a then a_data a ! (a_count a - 1) else None)"

definition array_assign :: "'a array \<Rightarrow> 'a array \<Rightarrow> 'a array" where
  "array_assign l a =
     (let a = ensureCapacity (a_count l) a in
      a\<lparr>a_data := memcpy 0 (take (a_count l) (a_data l)) (a_data a), a_count := a_count l\<rparr>)"

definition array_insert :: "nat \<Rightarrow> 'a \<Rightarrow> 'a array \<Rightarrow> 'a array option" where
  "array_insert index item a =
     (if index \<le> a_count a then
        let a = ensureCapacity (a_count a + 1) a in
        Some (a\<lparr>a_data := (memmove (index + 1) index (a_count a - index) (a_data a))[index := Some item],
                a_count := a_count a + 1\<rparr>)
      else None)"

text \<open>
  The overload that takes an \<^verbatim>\<open>Array\<close> calls \<^verbatim>\<open>memcpy\<close> with \<^verbatim>\<open>L.count\<close>, a number
  of bytes, where its sibling multiplies by \<^verbatim>\<open>sizeof(T)\<close>. \<open>memcpy_bytes\<close> is that
  copy of \<open>n\<close> bytes into cells that hold elements of \<open>size_T\<close> bytes: \<open>n div size_T\<close> whole
  elements arrive, and of the next one the first \<open>n mod size_T\<close> bytes, the others staying
  what they were. \<open>mix k x y\<close> is the element with the first \<open>k\<close> bytes of \<open>x\<close> and the
  others of \<open>y\<close>; an element with an indeterminate part is indeterminate. The other array is
  another object: \<^verbatim>\<open>a.insert(i, a)\<close>, like \<^verbatim>\<open>a.join(a)\<close>, is not modelled.
\<close>

fun mix_cell :: "(nat \<Rightarrow> 'a \<Rightarrow> 'a \<Rightarrow> 'a) \<Rightarrow> nat \<Rightarrow> 'a option \<Rightarrow> 'a option \<Rightarrow> 'a option" where
  "mix_cell mix k (Some x) (Some y) = Some (mix k x y)"
| "mix_cell mix k _ _ = None"

definition memcpy_bytes :: "(nat \<Rightarrow> 'a \<Rightarrow> 'a \<Rightarrow> 'a) \<Rightarrow> nat \<Rightarrow> nat \<Rightarrow> nat \<Rightarrow> 'a cells \<Rightarrow> 'a cells \<Rightarrow> 'a cells" where
  "memcpy_bytes mix size_T n dst src xs =
     (let whole = n div size_T; k = n mod size_T;
          part = (if k = 0 then [] else [mix_cell mix k (src ! whole) (xs ! (dst + whole))])
      in memcpy dst (take whole src @ part) xs)"

definition array_insert_array ::
  "(nat \<Rightarrow> 'a \<Rightarrow> 'a \<Rightarrow> 'a) \<Rightarrow> nat \<Rightarrow> nat \<Rightarrow> 'a array \<Rightarrow> 'a array \<Rightarrow> 'a array option" where
  "array_insert_array mix size_T index l a =
     (if index \<le> a_count a then
        let a = ensureCapacity (a_count a + a_count l) a
        in Some (a\<lparr>a_data := memcpy_bytes mix size_T (a_count l) index (a_data l)
                     (memmove (index + a_count l) index (a_count a - index) (a_data a)),
                   a_count := a_count a + a_count l\<rparr>)
      else None)"

definition array_insert_items :: "nat \<Rightarrow> 'a list \<Rightarrow> 'a array \<Rightarrow> 'a array option" where
  "array_insert_items index its a =
     (if index \<le> a_count a then
        let itemsSize = length its; a = ensureCapacity (a_count a + itemsSize) a
        in Some (a\<lparr>a_data := memcpy index (map Some its)
                     (memmove (index + itemsSize) index (a_count a - index) (a_data a)),
                   a_count := a_count a + itemsSize\<rparr>)
      else None)"

definition array_add :: "'a \<Rightarrow> 'a array \<Rightarrow> 'a array" where
  "array_add item a =
     (let a = ensureCapacity (a_count a + 1) a in
      a\<lparr>a_data := (a_data a)[a_count a := Some item], a_count := a_count a + 1\<rparr>)"

definition array_add_items :: "'a list \<Rightarrow> 'a array \<Rightarrow> 'a array" where
  "array_add_items its a =
     (let a = ensureCapacity (a_count a + length its) a in
      a\<lparr>a_data := memcpy (a_count a) (map Some its) (a_data a), a_count := a_count a + length its\<rparr>)"

definition array_remove :: "nat \<Rightarrow> 'a array \<Rightarrow> 'a array option" where
  "array_remove index a =
     (if index < a_count a then
        Some (a\<lparr>a_data := memmove index (index + 1) (a_count a - 1 - index) (a_data a),
                a_count := a_count a - 1\<rparr>)
      else None)"

definition array_removeRange :: "nat \<Rightarrow> nat \<Rightarrow> 'a array \<Rightarrow> 'a array option" where
  "array_removeRange from to a =
     (if from \<le> to \<and> to \<le> a_count a then
        Some (a\<lparr>a_data := memmove from to (a_count a - to) (a_data a),
                a_count := a_count a - (to - from)\<rparr>)
      else None)"

definition array_removeCount :: "nat \<Rightarrow> nat \<Rightarrow> 'a array \<Rightarrow> 'a array option" where
  "array_removeCount index n a =
     (if index + n \<le> a_count a then
        Some (a\<lparr>a_data := memmove index (index + n) (a_count a - index - n) (a_data a),
                a_count := a_count a - n\<rparr>)
      else None)"

definition array_shrink :: "nat \<Rightarrow> 'a array \<Rightarrow> 'a array option" where
  "array_shrink newCount a =
     (if newCount \<le> a_count a then Some (a\<lparr>a_count := newCount\<rparr>) else None)"

text \<open>\<open>zero\<close> is the value whose bytes are all zero.\<close>

definition array_grow :: "'a \<Rightarrow> nat \<Rightarrow> 'a array \<Rightarrow> 'a array option" where
  "array_grow zero newCount a =
     (if a_count a \<le> newCount then
        let a = ensureCapacity newCount a in
        Some (a\<lparr>a_data := memcpy (a_count a) (replicate (newCount - a_count a) (Some zero)) (a_data a),
                a_count := newCount\<rparr>)
      else None)"

definition array_resize :: "'a \<Rightarrow> nat \<Rightarrow> 'a array \<Rightarrow> 'a array" where
  "array_resize val newCount a =
     (if a_count a < newCount then
        let a = ensureCapacity newCount a in
        a\<lparr>a_data := memcpy (a_count a) (replicate (newCount - a_count a) (Some val)) (a_data a),
          a_count := newCount\<rparr>
      else a\<lparr>a_count := newCount\<rparr>)"

definition array_resize_zero :: "'a \<Rightarrow> nat \<Rightarrow> 'a array \<Rightarrow> 'a array option" where
  "array_resize_zero zero newCount a =
     (if a_count a < newCount then array_grow zero newCount a else Some (a\<lparr>a_count := newCount\<rparr>))"

definition array_join :: "'a array \<Rightarrow> 'a array \<Rightarrow> 'a array" where
  "array_join l a =
     (let a = ensureCapacity (a_count a + a_count l) a in
      a\<lparr>a_data := memcpy (a_count a) (take (a_count l) (a_data l)) (a_data a),
        a_count := a_count a + a_count l\<rparr>)"

definition array_pop :: "'a array \<Rightarrow> ('a option \<times> 'a array) option" where
  "array_pop a =
     (if 0 < a_count a then
        let a = a\<lparr>a_count := a_count a - 1\<rparr> in Some (a_data a ! a_count a, a)
      else None)"

definition array_getBuffer :: "nat \<Rightarrow> 'a array \<Rightarrow> 'a array" where
  "array_getBuffer capacityL a = (ensureCapacity capacityL a)\<lparr>a_count := capacityL\<rparr>"

definition array_free :: "'a array \<Rightarrow> 'a array" where
  "array_free a = (array_clear a)\<lparr>a_data := replicate (a_storage a) None\<rparr>"

definition array_items :: "'a array \<Rightarrow> 'a list" where
  "array_items a = items (a_count a) (a_data a)"

definition array_ok :: "'a array \<Rightarrow> bool" where
  "array_ok a \<longleftrightarrow> filled (a_count a) (a_data a)"

text \<open>
  \<open>array_cells\<close> are the cells below the count, written or not; \<open>array_inv\<close> is the part of
  the invariant that every operation keeps, \<^verbatim>\<open>getBuffer\<close> included.
\<close>

definition array_cells :: "'a array \<Rightarrow> 'a cells" where
  "array_cells a = take (a_count a) (a_data a)"

definition array_inv :: "'a array \<Rightarrow> bool" where
  "array_inv a \<longleftrightarrow> a_count a \<le> a_capacity a"

text \<open>\<^verbatim>\<open>Array::find\<close>: the loop from index \<open>i\<close>; \<open>pos\<close> is assigned on success only.\<close>

fun find_from :: "nat \<Rightarrow> 'a list \<Rightarrow> 'a \<Rightarrow> nat option" where
  "find_from i [] item = None"
| "find_from i (x # xs) item = (if x = item then Some i else find_from (Suc i) xs item)"

definition array_find :: "'a array \<Rightarrow> 'a \<Rightarrow> nat option" where
  "array_find a item = find_from 0 (array_items a) item"

definition array_exist :: "'a array \<Rightarrow> 'a \<Rightarrow> bool" where
  "array_exist a item = (array_find a item \<noteq> None)"

definition sorted_array_find :: "('v \<Rightarrow> 'k::linorder) \<Rightarrow> 'v array \<Rightarrow> 'k \<Rightarrow> bool \<times> nat" where
  "sorted_array_find key a item = sorted_find key (array_items a) item"

definition sorted_array_exist :: "('v \<Rightarrow> 'k::linorder) \<Rightarrow> 'v array \<Rightarrow> 'k \<Rightarrow> bool" where
  "sorted_array_exist key a item = fst (sorted_array_find key a item)"

definition sorted_array_add :: "('v \<Rightarrow> 'k::linorder) \<Rightarrow> 'v \<Rightarrow> 'v array \<Rightarrow> (nat \<times> 'v array) option" where
  "sorted_array_add key item a =
     (let pos = snd (sorted_array_find key a (key item)) in
      map_option (Pair pos) (array_insert pos item a))"

subsection \<open>Cells\<close>

lemma filled_iff: "filled n xs \<longleftrightarrow> (\<exists>ys rest. xs = map Some ys @ rest \<and> n = length ys)"
proof
  assume f: "filled n xs"
  have "take n xs = map Some (map the (take n xs))"
    using f by (auto simp: filled_def map_idI intro!: nth_equalityI)
       (metis in_set_conv_nth length_take min.absorb2 nth_take option.collapse)
  then have "xs = map Some (map the (take n xs)) @ drop n xs"
    by (metis append_take_drop_id)
  moreover have "n = length (map the (take n xs))"
    using f by (simp add: filled_def)
  ultimately show "\<exists>ys rest. xs = map Some ys @ rest \<and> n = length ys" by blast
qed (auto simp: filled_def)

lemma filled_items: "filled n xs \<Longrightarrow> \<exists>rest. xs = map Some (items n xs) @ rest \<and> length (items n xs) = n"
  by (auto simp: filled_iff items_def)

lemma filled_map_Some [simp]: "filled (length ys) (map Some ys @ rest)"
  by (auto simp: filled_iff)

lemma items_map_Some [simp]: "items (length ys) (map Some ys @ rest) = ys"
  by (simp add: items_def comp_def)

lemma take_items: "m \<le> n \<Longrightarrow> items m xs = take m (items n xs)"
  by (simp add: items_def take_map)

lemma filled_mono: "filled n xs \<Longrightarrow> m \<le> n \<Longrightarrow> filled m xs"
  by (auto simp: filled_def dest: in_set_takeD)
     (metis min.absorb1 in_set_takeD take_take)

lemma filled_nth: "filled n xs \<Longrightarrow> i < n \<Longrightarrow> xs ! i \<noteq> None"
  by (auto simp: filled_iff nth_append)

text \<open>Opening a gap and filling it; closing a gap.\<close>

lemma memmove_gap:
  "length new = length gap \<Longrightarrow>
   memcpy (length as) new (memmove (length as + length gap) (length as) (length bs) (as @ bs @ gap @ rest)) =
   as @ new @ bs @ rest"
  by (simp add: memcpy_def memmove_def)

lemma memmove_close:
  "\<exists>rest'. memmove (length as) (length as + length gap) (length bs) (as @ gap @ bs @ rest) = as @ bs @ rest'
     \<and> length rest' = length gap + length rest"
  by (simp add: memmove_def)

lemma memcpy_single: "i < length xs \<Longrightarrow> memcpy i [x] xs = xs[i := x]"
  by (simp add: memcpy_def upd_conv_take_nth_drop)

lemma memcpy_end: "memcpy (length as) new (as @ rest) = as @ new @ drop (length new) rest"
  by (simp add: memcpy_def)

lemma length_memmove: "src + n \<le> length xs \<Longrightarrow> dst + n \<le> length xs \<Longrightarrow> length (memmove dst src n xs) = length xs"
  by (simp add: memmove_def)

lemma cells_insert_items:
  assumes "i \<le> length xs" and "length new \<le> length rest"
  shows "memcpy i new (memmove (i + length new) i (length xs - i) (xs @ rest)) =
    take i xs @ new @ drop i xs @ drop (length new) rest"
proof -
  let ?as = "take i xs" and ?bs = "drop i xs" and ?gap = "take (length new) rest"
  have split: "xs @ rest = ?as @ ?bs @ ?gap @ drop (length new) rest"
    by simp
  have "memcpy (length ?as) new (memmove (length ?as + length ?gap) (length ?as) (length ?bs)
      (?as @ ?bs @ ?gap @ drop (length new) rest)) = ?as @ new @ ?bs @ drop (length new) rest"
    using assms(2) by (intro memmove_gap) simp
  with assms show ?thesis
    by (simp add: split)
qed

lemma cells_insert_item:
  assumes "i \<le> length xs" and "rest \<noteq> []"
  shows "(memmove (i + 1) i (length xs - i) (xs @ rest))[i := x] =
    take i xs @ x # drop i xs @ tl rest"
proof -
  have "1 \<le> length rest" using assms(2) by (cases rest) auto
  moreover from this have "i < length (memmove (i + 1) i (length xs - i) (xs @ rest))"
    using assms by (subst length_memmove) auto
  ultimately show ?thesis
    using cells_insert_items [of i xs "[x]" rest] assms(1) by (simp add: memcpy_single drop_Suc)
qed

lemma cells_remove:
  assumes "from \<le> to" and "to \<le> length xs"
  shows "\<exists>rest'. memmove from to (length xs - to) (xs @ rest) =
    take from xs @ drop to xs @ rest' \<and> length rest' = to - from + length rest"
proof -
  let ?as = "take from xs" and ?gap = "take (to - from) (drop from xs)" and ?bs = "drop to xs"
  have "xs = ?as @ ?gap @ ?bs"
    using assms by (metis append.assoc append_take_drop_id le_add_diff_inverse take_add)
  then have split: "xs @ rest = ?as @ ?gap @ ?bs @ rest"
    by (metis append.assoc)
  show ?thesis
    using memmove_close [of ?as ?gap ?bs rest] assms by (simp add: split)
qed

subsection \<open>The operations on the abstract list\<close>

text \<open>\<open>vector_holds v ys\<close>, \<open>array_holds a ys\<close>: the invariant holds and \<open>ys\<close> are the items.\<close>

definition vector_holds :: "'a vector \<Rightarrow> 'a list \<Rightarrow> bool" where
  "vector_holds v ys \<longleftrightarrow> vector_ok v \<and> vector_items v = ys"

definition array_holds :: "'a array \<Rightarrow> 'a list \<Rightarrow> bool" where
  "array_holds a ys \<longleftrightarrow> array_ok a \<and> array_items a = ys"

lemma vector_holds_iff:
  "vector_holds v ys \<longleftrightarrow> (\<exists>rest. v_data v = map Some ys @ rest \<and> v_count v = length ys)"
  using filled_items [of "v_count v" "v_data v"]
  by (auto simp: vector_holds_def vector_ok_def vector_items_def)

lemma array_holds_iff:
  "array_holds a ys \<longleftrightarrow> (\<exists>rest. a_data a = map Some ys @ rest \<and> a_count a = length ys)"
  using filled_items [of "a_count a" "a_data a"]
  by (auto simp: array_holds_def array_ok_def array_items_def)

lemma vector_insert_holds:
  assumes "vector_holds v ys" and "i \<le> length ys" and "length ys < v_capacity v"
  shows "\<exists>v'. vector_insert i x v = Some v' \<and> vector_holds v' (take i ys @ x # drop i ys) \<and>
    v_capacity v' = v_capacity v"
proof -
  obtain rest where r: "v_data v = map Some ys @ rest" "v_count v = length ys"
    using assms(1) by (auto simp: vector_holds_iff)
  then have "rest \<noteq> []" using assms(3) by auto
  with r assms(2,3) cells_insert_item [of i "map Some ys" rest "Some x"] show ?thesis
    by (auto simp: vector_insert_def vector_holds_iff take_map drop_map)
qed

lemma vector_add_holds:
  assumes "vector_holds v ys" and "length ys < v_capacity v"
  shows "\<exists>v'. vector_add x v = Some v' \<and> vector_holds v' (ys @ [x]) \<and> v_capacity v' = v_capacity v"
proof -
  obtain rest where r: "v_data v = map Some ys @ rest" "v_count v = length ys"
    using assms(1) by (auto simp: vector_holds_iff)
  moreover obtain r0 rest' where "rest = r0 # rest'" using r assms(2) by (cases rest) auto
  ultimately show ?thesis
    by (auto simp: vector_add_def vector_holds_iff list_update_append)
qed

lemma vector_remove_holds:
  assumes "vector_holds v ys" and "i < length ys"
  shows "\<exists>v'. vector_remove i v = Some v' \<and> vector_holds v' (take i ys @ drop (Suc i) ys) \<and>
    v_capacity v' = v_capacity v"
proof -
  obtain rest where r: "v_data v = map Some ys @ rest" "v_count v = length ys"
    using assms(1) by (auto simp: vector_holds_iff)
  with assms(2) cells_remove [of i "Suc i" "map Some ys" rest] show ?thesis
    by (fastforce simp: vector_remove_def vector_holds_iff take_map drop_map)
qed

lemma vector_shrink_holds:
  assumes "vector_holds v ys" and "n \<le> length ys"
  shows "\<exists>v'. vector_shrink n v = Some v' \<and> vector_holds v' (take n ys) \<and> v_capacity v' = v_capacity v"
proof -
  obtain rest where r: "v_data v = map Some ys @ rest" "v_count v = length ys"
    using assms(1) by (auto simp: vector_holds_iff)
  then have "v_data v = map Some (take n ys) @ map Some (drop n ys) @ rest"
    by (simp flip: map_append)
  with r assms(2) show ?thesis
    by (auto simp: vector_shrink_def vector_holds_iff)
qed

lemma vector_join_holds:
  assumes "vector_holds v ys" and "vector_holds l zs" and "length ys + length zs \<le> v_capacity v"
  shows "\<exists>v'. vector_join l v = Some v' \<and> vector_holds v' (ys @ zs) \<and> v_capacity v' = v_capacity v"
proof -
  obtain rest restl where r: "v_data v = map Some ys @ rest" "v_count v = length ys"
    "v_data l = map Some zs @ restl" "v_count l = length zs"
    using assms(1,2) by (auto simp: vector_holds_iff)
  with assms(3) memcpy_end [of "map Some ys" "map Some zs" rest] show ?thesis
    by (auto simp: vector_join_def vector_holds_iff)
qed

text \<open>
  The same for arrays, stated for the cells below the count, which may be indeterminate;
  \<open>array_holds\<close> is the case where all of them are written.
\<close>

definition array_shows :: "'a array \<Rightarrow> 'a cells \<Rightarrow> bool" where
  "array_shows a xs \<longleftrightarrow> array_inv a \<and> array_cells a = xs"

lemma array_shows_iff: "array_shows a xs \<longleftrightarrow> (\<exists>rest. a_data a = xs @ rest \<and> a_count a = length xs)"
proof
  assume "array_shows a xs"
  then have "a_data a = xs @ drop (a_count a) (a_data a)" "a_count a = length xs"
    by (auto simp: array_shows_def array_inv_def array_cells_def)
  then show "\<exists>rest. a_data a = xs @ rest \<and> a_count a = length xs" by blast
qed (auto simp: array_shows_def array_inv_def array_cells_def)

lemma array_holds_shows: "array_holds a ys \<longleftrightarrow> array_shows a (map Some ys)"
  by (simp add: array_holds_iff array_shows_iff)

lemma array_ok_iff: "array_ok a \<longleftrightarrow> array_inv a \<and> None \<notin> set (array_cells a)"
  by (simp add: array_ok_def filled_def array_inv_def array_cells_def)

lemma array_shows_count: "array_shows a xs \<Longrightarrow> a_count a = length xs"
  by (auto simp: array_shows_iff)

lemma ensureCapacity_shows:
  assumes "array_shows a xs"
  obtains rest where "a_data (ensureCapacity n a) = xs @ rest" "a_count a = length xs"
    "a_count (ensureCapacity n a) = length xs" "n \<le> length xs + length rest"
proof -
  obtain rest where "a_data a = xs @ rest" "a_count a = length xs"
    using assms by (auto simp: array_shows_iff)
  then have "\<exists>rest. a_data (ensureCapacity n a) = xs @ rest \<and> a_count a = length xs \<and>
      a_count (ensureCapacity n a) = length xs \<and> n \<le> length xs + length rest"
    by (auto simp: ensureCapacity_def Let_def memcpy_def)
  with that show ?thesis by blast
qed

lemma array_insert_shows:
  assumes "array_shows a xs" and "i \<le> length xs"
  shows "\<exists>a'. array_insert i x a = Some a' \<and> array_shows a' (take i xs @ Some x # drop i xs)"
proof -
  obtain rest where r: "a_data (ensureCapacity (a_count a + 1) a) = xs @ rest" "a_count a = length xs"
    "a_count (ensureCapacity (a_count a + 1) a) = length xs" "a_count a + 1 \<le> length xs + length rest"
    using ensureCapacity_shows [OF assms(1)] .
  then have "rest \<noteq> []" by auto
  with r assms(2) cells_insert_item [OF assms(2) this, of "Some x"] show ?thesis
    by (auto simp: array_insert_def array_shows_iff Let_def)
qed

lemma array_insert_items_shows:
  assumes "array_shows a xs" and "i \<le> length xs"
  shows "\<exists>a'. array_insert_items i new a = Some a' \<and>
    array_shows a' (take i xs @ map Some new @ drop i xs)"
proof -
  obtain rest where r: "a_data (ensureCapacity (a_count a + length new) a) = xs @ rest"
    "a_count a = length xs" "a_count (ensureCapacity (a_count a + length new) a) = length xs"
    "a_count a + length new \<le> length xs + length rest"
    using ensureCapacity_shows [OF assms(1)] .
  with assms(2) cells_insert_items [OF assms(2), of "map Some new" rest] show ?thesis
    by (auto simp: array_insert_items_def array_shows_iff Let_def)
qed

text \<open>
  All operations that copy cells behind the last element: \<open>add\<close>, \<open>join\<close>, \<open>grow\<close>,
  \<open>resize\<close>.
\<close>

lemma copy_behind_shows:
  assumes "array_shows a xs" and "n = length xs + length new"
  shows "array_shows ((ensureCapacity n a)\<lparr>a_data := memcpy (length xs) new (a_data (ensureCapacity n a)),
    a_count := n\<rparr>) (xs @ new)"
proof -
  obtain rest where "a_data (ensureCapacity n a) = xs @ rest" "a_count a = length xs"
    "a_count (ensureCapacity n a) = length xs" "n \<le> length xs + length rest"
    using ensureCapacity_shows [OF assms(1)] .
  with assms(2) memcpy_end [of xs new rest] show ?thesis
    by (auto simp: array_shows_iff)
qed

lemma ensureCapacity_count [simp]: "a_count (ensureCapacity n a) = a_count a"
  by (simp add: ensureCapacity_def Let_def)

lemma ensureCapacity_room: "n \<le> length (a_data (ensureCapacity n a)) \<or> \<not> array_inv a"
  by (auto simp: ensureCapacity_def Let_def memcpy_def array_inv_def)

lemma array_add_items_shows:
  "array_shows a xs \<Longrightarrow> array_shows (array_add_items new a) (xs @ map Some new)"
  using copy_behind_shows [of a xs _ "map Some new"]
  by (simp add: array_add_items_def Let_def array_shows_count)

lemma array_add_items_1: "array_shows a xs \<Longrightarrow> array_add x a = array_add_items [x] a"
  using ensureCapacity_room [of "a_count a + 1" a]
  by (auto simp: array_add_def array_add_items_def Let_def memcpy_single array_shows_def)

lemma array_join_shows:
  assumes "array_shows a xs" and "array_shows l zs"
  shows "array_shows (array_join l a) (xs @ zs)"
proof -
  have "take (a_count l) (a_data l) = zs" "a_count l = length zs"
    using assms(2) by (auto simp: array_shows_iff)
  with copy_behind_shows [OF assms(1), of _ zs] array_shows_count [OF assms(1)] show ?thesis
    by (simp add: array_join_def Let_def)
qed

lemma array_assign_shows:
  assumes "array_shows a xs" and "array_shows l zs"
  shows "array_shows (array_assign l a) zs"
proof -
  have "take (a_count l) (a_data l) = zs" "a_count l = length zs"
    using assms(2) by (auto simp: array_shows_iff)
  then show ?thesis
    by (simp add: array_assign_def Let_def array_shows_iff memcpy_def)
qed

lemma array_shorten_shows:
  assumes "array_shows a xs" and "n \<le> length xs"
  shows "array_shows (a\<lparr>a_count := n\<rparr>) (take n xs)"
proof -
  obtain rest where "a_data a = xs @ rest" using assms(1) by (auto simp: array_shows_iff)
  then have "a_data a = take n xs @ drop n xs @ rest" by simp
  with assms(2) show ?thesis by (simp add: array_shows_iff)
qed

lemma array_grow_shows:
  assumes "array_shows a xs" and "length xs \<le> n"
  shows "\<exists>a'. array_grow zero n a = Some a' \<and> array_shows a' (xs @ replicate (n - length xs) (Some zero))"
  using copy_behind_shows [of a xs n "replicate (n - length xs) (Some zero)"] assms
  by (simp add: array_grow_def Let_def array_shows_count)

lemma array_resize_shows:
  assumes "array_shows a xs"
  shows "array_shows (array_resize x n a) (take n xs @ replicate (n - length xs) (Some x))"
  using copy_behind_shows [of a xs n "replicate (n - length xs) (Some x)"]
    array_shorten_shows [OF assms, of n] assms
  by (auto simp: array_resize_def Let_def array_shows_count)

lemma array_resize_zero_shows:
  assumes "array_shows a xs"
  shows "\<exists>a'. array_resize_zero zero n a = Some a' \<and>
    array_shows a' (take n xs @ replicate (n - length xs) (Some zero))"
  using array_grow_shows [OF assms, of n zero] array_shorten_shows [OF assms, of n] assms
  by (auto simp: array_resize_zero_def array_shows_count)

lemma array_removeRange_shows:
  assumes "array_shows a xs" and "from \<le> to" and "to \<le> length xs"
  shows "\<exists>a'. array_removeRange from to a = Some a' \<and> array_shows a' (take from xs @ drop to xs)"
proof -
  obtain rest where r: "a_data a = xs @ rest" "a_count a = length xs"
    using assms(1) by (auto simp: array_shows_iff)
  with assms cells_remove [of "from" to xs rest] show ?thesis
    by (fastforce simp: array_removeRange_def array_shows_iff)
qed

lemma array_remove_eqs:
  "array_remove i a = (if i < a_count a then array_removeRange i (i + 1) a else None)"
  "array_removeCount i n a = array_removeRange i (i + n) a"
  by (auto simp: array_remove_def array_removeRange_def array_removeCount_def diff_diff_left)

lemma array_put_shows:
  assumes "array_shows a xs" and "i < length xs"
  shows "\<exists>a'. array_put i x a = Some a' \<and> array_shows a' (xs[i := Some x])"
  using assms by (auto simp: array_put_def array_shows_iff list_update_append)

lemma array_getBuffer_shows:
  assumes "array_shows a xs"
  shows "array_shows (array_getBuffer n a)
    (take n xs @ map (\<lambda>p. a_data (ensureCapacity n a) ! p) [length xs..<n])"
proof -
  obtain rest where "a_data (ensureCapacity n a) = xs @ rest" "a_count a = length xs"
    "a_count (ensureCapacity n a) = length xs" "n \<le> length xs + length rest"
    using ensureCapacity_shows [OF assms] .
  moreover from this have "map (\<lambda>p. (xs @ rest) ! p) [length xs..<n] = take (n - length xs) rest"
    by (intro nth_equalityI) (auto simp: nth_append)
  ultimately show ?thesis
    by (auto simp: array_getBuffer_def array_shows_def array_inv_def array_cells_def)
qed

text \<open>The versions for arrays whose elements are all written.\<close>

lemma array_insert_holds:
  "array_holds a ys \<Longrightarrow> i \<le> length ys \<Longrightarrow>
   \<exists>a'. array_insert i x a = Some a' \<and> array_holds a' (take i ys @ x # drop i ys)"
  using array_insert_shows [of a "map Some ys" i x] by (simp add: array_holds_shows take_map drop_map)

lemma array_add_holds: "array_holds a ys \<Longrightarrow> array_holds (array_add x a) (ys @ [x])"
  using array_add_items_1 [of a "map Some ys" x] array_add_items_shows [of a "map Some ys" "[x]"]
  by (simp add: array_holds_shows)

subsection \<open>Bisection finds the lower bound\<close>

definition all_less :: "('v \<Rightarrow> 'k::linorder) \<Rightarrow> 'v list \<Rightarrow> 'k \<Rightarrow> nat \<Rightarrow> bool" where
  "all_less key xs k p \<longleftrightarrow> (\<forall>i. i < p \<longrightarrow> key (xs ! i) < k)"

definition all_ge :: "('v \<Rightarrow> 'k::linorder) \<Rightarrow> 'v list \<Rightarrow> 'k \<Rightarrow> nat \<Rightarrow> bool" where
  "all_ge key xs k p \<longleftrightarrow> (\<forall>i. p \<le> i \<longrightarrow> i < length xs \<longrightarrow> k \<le> key (xs ! i))"

lemma all_less_step:
  assumes "sorted (map key xs)" and "m < length xs" and "key (xs ! m) < k"
  shows "all_less key xs k (m + 1)"
proof -
  have "key (xs ! i) \<le> key (xs ! m)" if "i \<le> m" for i
    using assms(1,2) that by (simp add: sorted_iff_nth_mono)
  with assms(3) show ?thesis
    unfolding all_less_def by (metis Suc_eq_plus1 le_less_trans less_Suc_eq_le)
qed

lemma all_ge_step:
  assumes "sorted (map key xs)" and "\<not> key (xs ! m) < k"
  shows "all_ge key xs k m"
proof -
  have "key (xs ! m) \<le> key (xs ! i)" if "m \<le> i" "i < length xs" for i
    using assms(1) that by (simp add: sorted_iff_nth_mono)
  with assms(2) show ?thesis
    unfolding all_ge_def by (meson leI order_trans)
qed

lemma find_loop_spec:
  assumes "lo \<le> hi" and "hi \<le> length xs" and "sorted (map key xs)"
    and "all_less key xs k lo" and "all_ge key xs k hi"
  shows "\<exists>p. find_loop key xs k lo hi = (p, p) \<and> p \<le> length xs \<and>
    all_less key xs k p \<and> all_ge key xs k p"
  using assms
proof (induction key xs k lo hi rule: find_loop.induct)
  case (1 key xs k lo hi)
  show ?case
  proof (cases "lo < hi")
    case False
    then have "find_loop key xs k lo hi = (lo, hi)" by (simp add: find_loop.simps)
    with False "1.prems" show ?thesis by auto
  next
    case True
    let ?m = "(hi + lo) div 2"
    have m: "lo \<le> ?m" "?m < hi" "?m < length xs" using True "1.prems"(2) by auto
    show ?thesis
    proof (cases "key (xs ! ?m) < k")
      case less: True
      have "\<exists>p. find_loop key xs k (?m + 1) hi = (p, p) \<and> p \<le> length xs \<and>
          all_less key xs k p \<and> all_ge key xs k p"
        using "1.IH"(1) [OF True refl less] "1.prems" m all_less_step [of key xs ?m k] less by simp
      with True less show ?thesis
        by (simp add: find_loop.simps [of key xs k lo hi] Let_def)
    next
      case ge: False
      have "\<exists>p. find_loop key xs k lo ?m = (p, p) \<and> p \<le> length xs \<and>
          all_less key xs k p \<and> all_ge key xs k p"
        using "1.IH"(2) [OF True refl ge] "1.prems" m all_ge_step [of key xs ?m k] ge by simp
      with True ge show ?thesis
        by (simp add: find_loop.simps [of key xs k lo hi] Let_def)
    qed
  qed
qed

lemma sorted_find_spec:
  assumes "sorted (map key xs)" and "sorted_find key xs k = (found, pos)"
  shows "pos \<le> length xs" and "\<forall>x \<in> set (take pos xs). key x < k"
    and "\<forall>x \<in> set (drop pos xs). k \<le> key x"
    and "found \<longleftrightarrow> k \<in> key ` set xs" and "found \<Longrightarrow> pos < length xs \<and> key (xs ! pos) = k"
proof -
  have "all_less key xs k 0" "all_ge key xs k (length xs)"
    by (auto simp: all_less_def all_ge_def)
  then obtain p where "find_loop key xs k 0 (length xs) = (p, p)" "p \<le> length xs"
      "all_less key xs k p" "all_ge key xs k p"
    using find_loop_spec [of 0 "length xs" xs key k] assms(1) by auto
  with assms(2) have p: "pos \<le> length xs" "all_less key xs k pos" "all_ge key xs k pos"
    and f: "found \<longleftrightarrow> pos \<noteq> length xs \<and> \<not> k < key (xs ! pos)"
    by (auto simp: sorted_find_def)
  have ge: "k \<le> key (xs ! i)" if "pos \<le> i" "i < length xs" for i
    using p(3) that by (simp add: all_ge_def)
  show "pos \<le> length xs" by (rule p(1))
  show "\<forall>x \<in> set (take pos xs). key x < k"
    using p(2) by (auto simp: all_less_def in_set_conv_nth)
  show "\<forall>x \<in> set (drop pos xs). k \<le> key x"
    using p(1) ge by (auto simp: in_set_conv_nth)
  show eq: "found \<Longrightarrow> pos < length xs \<and> key (xs ! pos) = k"
    using f p(1) ge [of pos] by force
  show "found \<longleftrightarrow> k \<in> key ` set xs"
  proof
    assume "k \<in> key ` set xs"
    then obtain i where i: "i < length xs" "key (xs ! i) = k" by (auto simp: in_set_conv_nth)
    with p(2) have "pos \<le> i" unfolding all_less_def by (meson leI less_irrefl)
    with i have "pos < length xs" by simp
    moreover have "key (xs ! pos) \<le> k"
      using sorted_nth_mono [OF assms(1), of pos i] \<open>pos \<le> i\<close> i by simp
    ultimately show found using f by auto
  qed (use eq in auto)
qed

subsection \<open>Sorted containers\<close>

text \<open>
  What \<^verbatim>\<open>SortedVector\<close> and \<^verbatim>\<open>SortedArray\<close> share: both search their items by
  bisection and insert by position. A client that only adds through \<open>add\<close> keeps them
  ordered, and may rely on \<open>find\<close>. The laws are stated for a container with room for one
  more item.
\<close>

locale sorted_container =
  fixes key :: "'v \<Rightarrow> 'k::linorder"
    and holds :: "'s \<Rightarrow> 'v list \<Rightarrow> bool"
    and room :: "'s \<Rightarrow> bool"
    and find :: "'s \<Rightarrow> 'k \<Rightarrow> bool \<times> nat"
    and insert_at :: "nat \<Rightarrow> 'v \<Rightarrow> 's \<Rightarrow> 's option"
    and add :: "'v \<Rightarrow> 's \<Rightarrow> (nat \<times> 's) option"
  assumes find_eq: "holds s xs \<Longrightarrow> find s k = sorted_find key xs k"
    and insert_holds: "holds s xs \<Longrightarrow> room s \<Longrightarrow> i \<le> length xs \<Longrightarrow>
      \<exists>s'. insert_at i x s = Some s' \<and> holds s' (take i xs @ x # drop i xs)"
    and add_eq: "add x s = map_option (Pair (snd (find s (key x)))) (insert_at (snd (find s (key x))) x s)"
begin

lemma find_member:
  assumes "holds s xs" and "sorted (map key xs)"
  shows "fst (find s k) \<longleftrightarrow> k \<in> key ` set xs"
  using sorted_find_spec(4) [OF assms(2), of k] find_eq [OF assms(1)] by (metis prod.collapse)

lemma find_position:
  assumes "holds s xs" and "sorted (map key xs)" and "find s k = (True, pos)"
  shows "pos < length xs \<and> key (xs ! pos) = k"
  using sorted_find_spec(5) [OF assms(2), of k True pos] assms find_eq [OF assms(1)] by simp

lemma add_holds:
  assumes "holds s xs" and "sorted (map key xs)" and "room s"
  shows "\<exists>pos s'. add x s = Some (pos, s') \<and> pos \<le> length xs \<and>
    holds s' (take pos xs @ x # drop pos xs) \<and> sorted (map key (take pos xs @ x # drop pos xs))"
proof -
  obtain found pos where f: "sorted_find key xs (key x) = (found, pos)" by fastforce
  note spec = sorted_find_spec [OF assms(2) f]
  obtain s' where s': "insert_at pos x s = Some s'" "holds s' (take pos xs @ x # drop pos xs)"
    using insert_holds [OF assms(1,3) spec(1)] by blast
  have "sorted (map key (take pos xs))" "sorted (map key (drop pos xs))"
    using assms(2) by (simp_all add: take_map [symmetric] drop_map [symmetric] sorted_wrt_take sorted_wrt_drop)
  moreover have "key y \<le> key z" if "y \<in> set (take pos xs)" "z \<in> set (drop pos xs)" for y z
    using spec(2,3) that by (meson less_imp_le less_le_trans)
  ultimately have "sorted (map key (take pos xs @ x # drop pos xs))"
    using spec(2,3) by (auto simp: sorted_append less_imp_le)
  with s' spec(1) f show ?thesis
    by (auto simp: add_eq find_eq [OF assms(1)])
qed

end

interpretation sv: sorted_container key vector_holds "\<lambda>v. v_count v < v_capacity v"
    "sorted_vector_find key" vector_insert "sorted_vector_add key"
  for key :: "'v \<Rightarrow> 'k::linorder"
proof unfold_locales
  fix v :: "'v vector" and xs k
  assume "vector_holds v xs"
  then show "sorted_vector_find key v k = sorted_find key xs k"
    by (simp add: sorted_vector_find_def vector_holds_def)
next
  fix v :: "'v vector" and xs i x
  assume "vector_holds v xs" and "v_count v < v_capacity v" and "i \<le> length xs"
  then show "\<exists>v'. vector_insert i x v = Some v' \<and> vector_holds v' (take i xs @ x # drop i xs)"
    using vector_insert_holds [of v xs i x] by (auto simp: vector_holds_iff)
qed (simp add: sorted_vector_add_def Let_def)

interpretation sa: sorted_container key array_holds "\<lambda>a. True"
    "sorted_array_find key" array_insert "sorted_array_add key"
  for key :: "'v \<Rightarrow> 'k::linorder"
proof unfold_locales
  fix a :: "'v array" and xs k
  assume "array_holds a xs"
  then show "sorted_array_find key a k = sorted_find key xs k"
    by (simp add: sorted_array_find_def array_holds_def)
qed (auto simp: sorted_array_add_def Let_def array_insert_holds)

subsection \<open>Inserting an array\<close>

lemma whole_part_le: "n div s + (if n mod s = 0 then 0 else 1) \<le> (n :: nat)"
proof (cases "n mod s = 0")
  case False
  then have "s \<noteq> 1" "0 < n" by (auto intro: gr0I)
  then have "n div s < n" by (metis div_by_0 div_less_dividend nat_neq_iff less_one)
  with False show ?thesis by simp
qed (simp add: div_le_dividend)

lemma memcpy_bytes_frame:
  assumes "length as = i" and "length hole = n" and "length zs = n"
  shows "memcpy_bytes mix size_T n i (zs @ restl) (as @ hole @ bs) =
    as @ memcpy_bytes mix size_T n 0 zs hole @ bs"
  using whole_part_le [of n size_T] assms
  by (auto simp: memcpy_bytes_def Let_def memcpy_def nth_append split: if_splits)

lemma length_memcpy_bytes:
  assumes "length hole = n" and "length zs = n"
  shows "length (memcpy_bytes mix size_T n 0 zs hole) = n"
  using whole_part_le [of n size_T] assms
  by (auto simp: memcpy_bytes_def Let_def memcpy_def split: if_splits)

text \<open>
  \<open>hole_cells\<close> is what lies between position \<open>i\<close> and \<open>i + n\<close> before the copy: elements that
  were moved away and, behind the elements, whatever the memory holds (\<open>junk\<close>).
\<close>

definition hole_cells :: "(nat \<Rightarrow> 'a option) \<Rightarrow> nat \<Rightarrow> nat \<Rightarrow> 'a cells \<Rightarrow> 'a cells" where
  "hole_cells junk i n xs = map (\<lambda>p. if p < length xs then xs ! p else junk p) [i..<i + n]"

lemma length_hole_cells [simp]: "length (hole_cells junk i n xs) = n"
  by (simp add: hole_cells_def)

lemma memmove_hole:
  assumes "i \<le> length xs" and "n \<le> length rest"
  shows "memmove (i + n) i (length xs - i) (xs @ rest) =
    take i xs @ hole_cells (\<lambda>p. (xs @ rest) ! p) i n xs @ drop i xs @ drop n rest"
proof -
  have "hole_cells (\<lambda>p. (xs @ rest) ! p) i n xs = take n (drop i (xs @ rest))"
    using assms by (intro nth_equalityI) (auto simp: hole_cells_def nth_append add.commute)
  with assms show ?thesis
    by (simp add: memmove_def take_add add.commute)
qed

lemma array_insert_array_shows:
  assumes "array_shows a xs" and "array_shows l zs" and "i \<le> length xs"
    and "junk = (\<lambda>p. a_data (ensureCapacity (length xs + length zs) a) ! p)"
  shows "\<exists>a'. array_insert_array mix size_T i l a = Some a' \<and>
    array_shows a' (take i xs @ memcpy_bytes mix size_T (length zs) 0 zs
      (hole_cells junk i (length zs) xs) @ drop i xs)"
proof -
  let ?n = "length zs" and ?a = "ensureCapacity (length xs + length zs) a"
  let ?h = "hole_cells junk i ?n xs"
  obtain rest where r: "a_data ?a = xs @ rest" "a_count a = length xs" "a_count ?a = length xs"
    "length xs + ?n \<le> length xs + length rest"
    using ensureCapacity_shows [OF assms(1)] .
  obtain restl where l: "a_data l = zs @ restl" "a_count l = ?n"
    using assms(2) by (auto simp: array_shows_iff)
  have "memcpy_bytes mix size_T ?n i (zs @ restl) (memmove (i + ?n) i (length xs - i) (xs @ rest)) =
      take i xs @ memcpy_bytes mix size_T ?n 0 zs ?h @ drop i xs @ drop ?n rest"
    using memcpy_bytes_frame [of "take i xs" i ?h ?n zs mix size_T restl] memmove_hole [OF assms(3), of ?n rest]
      assms(3) assms(4) r by simp
  with r l assms(3) length_memcpy_bytes [of ?h ?n zs mix size_T] show ?thesis
    by (auto simp: array_insert_array_def array_shows_iff Let_def)
qed

lemma memcpy_bytes_1: "length hole = length zs \<Longrightarrow> memcpy_bytes mix 1 (length zs) 0 zs hole = zs"
  by (simp add: memcpy_bytes_def memcpy_def)

subsection \<open>Sequences of operations\<close>

text \<open>
  The operations of the class as data, with the accesses through \<^verbatim>\<open>operator[]\<close>,
  \<open>front\<close> and \<open>back\<close>, and what they return: the count, a position (the pointers the code
  returns, as an index into \<^verbatim>\<open>data\<close>) or the content of a cell. \<^verbatim>\<open>operator=\<close> is
  \<open>Assign\<close>, \<^verbatim>\<open>push\<close> is \<open>Add\<close> or \<open>AddItems\<close>, the removals by iterator are those by index.
\<close>

datatype 'a array_op =
    Get nat | Put nat 'a | Front | Back
  | Insert nat 'a | InsertArray nat "'a array" | InsertItems nat "'a list"
  | Add 'a | AddItems "'a list"
  | Remove nat | RemoveRange nat nat | RemoveCount nat nat
  | Shrink nat | Grow 'a nat | Resize 'a nat | ResizeZero 'a nat
  | Join "'a array" | Assign "'a array" | Pop | GetBuffer nat | Clear | Free

datatype 'a array_out = Nothing | Count nat | Position nat | Cell "'a option"

fun array_step :: "(nat \<Rightarrow> 'a \<Rightarrow> 'a \<Rightarrow> 'a) \<Rightarrow> nat \<Rightarrow> 'a array_op \<Rightarrow> 'a array \<Rightarrow>
    ('a array_out \<times> 'a array) option" where
  "array_step mix size_T (Get i) a = (if i < a_count a then Some (Cell (getElement a i), a) else None)"
| "array_step mix size_T (Put i x) a = map_option (Pair Nothing) (array_put i x a)"
| "array_step mix size_T Front a = (if 0 < a_count a then Some (Cell (array_front a), a) else None)"
| "array_step mix size_T Back a = (if 0 < a_count a then Some (Cell (array_back a), a) else None)"
| "array_step mix size_T (Insert i x) a = map_option (Pair Nothing) (array_insert i x a)"
| "array_step mix size_T (InsertArray i l) a =
     map_option (Pair Nothing) (array_insert_array mix size_T i l a)"
| "array_step mix size_T (InsertItems i xs) a = map_option (Pair Nothing) (array_insert_items i xs a)"
| "array_step mix size_T (Add x) a = (let a' = array_add x a in Some (Count (a_count a'), a'))"
| "array_step mix size_T (AddItems xs) a = Some (Nothing, array_add_items xs a)"
| "array_step mix size_T (Remove i) a = map_option (Pair (Position i)) (array_remove i a)"
| "array_step mix size_T (RemoveRange i j) a = map_option (Pair (Position i)) (array_removeRange i j a)"
| "array_step mix size_T (RemoveCount i n) a = map_option (Pair (Position i)) (array_removeCount i n a)"
| "array_step mix size_T (Shrink n) a = map_option (Pair Nothing) (array_shrink n a)"
| "array_step mix size_T (Grow zero n) a = map_option (Pair Nothing) (array_grow zero n a)"
| "array_step mix size_T (Resize x n) a = Some (Nothing, array_resize x n a)"
| "array_step mix size_T (ResizeZero zero n) a = map_option (Pair Nothing) (array_resize_zero zero n a)"
| "array_step mix size_T (Join l) a = Some (Nothing, array_join l a)"
| "array_step mix size_T (Assign l) a = Some (Nothing, array_assign l a)"
| "array_step mix size_T Pop a = map_option (map_prod Cell id) (array_pop a)"
| "array_step mix size_T (GetBuffer n) a = Some (Position 0, array_getBuffer n a)"
| "array_step mix size_T Clear a = Some (Nothing, array_clear a)"
| "array_step mix size_T Free a = Some (Nothing, array_free a)"

text \<open>
  The specification, on the list of cells below the count. \<open>junk\<close> is the content of the
  memory behind the elements, which only \<open>GetBuffer\<close> and \<open>InsertArray\<close> can reveal.
\<close>

fun list_step :: "(nat \<Rightarrow> 'a \<Rightarrow> 'a \<Rightarrow> 'a) \<Rightarrow> nat \<Rightarrow> (nat \<Rightarrow> 'a option) \<Rightarrow> 'a array_op \<Rightarrow> 'a cells \<Rightarrow>
    ('a array_out \<times> 'a cells) option" where
  "list_step mix size_T junk (Get i) xs = (if i < length xs then Some (Cell (xs ! i), xs) else None)"
| "list_step mix size_T junk (Put i x) xs =
     (if i < length xs then Some (Nothing, xs[i := Some x]) else None)"
| "list_step mix size_T junk Front xs = (if xs = [] then None else Some (Cell (hd xs), xs))"
| "list_step mix size_T junk Back xs = (if xs = [] then None else Some (Cell (last xs), xs))"
| "list_step mix size_T junk (Insert i x) xs =
     (if i \<le> length xs then Some (Nothing, take i xs @ Some x # drop i xs) else None)"
| "list_step mix size_T junk (InsertArray i l) xs =
     (if i \<le> length xs then
        let zs = array_cells l; hole = hole_cells junk i (length zs) xs
        in Some (Nothing, take i xs @ memcpy_bytes mix size_T (length zs) 0 zs hole @ drop i xs)
      else None)"
| "list_step mix size_T junk (InsertItems i new) xs =
     (if i \<le> length xs then Some (Nothing, take i xs @ map Some new @ drop i xs) else None)"
| "list_step mix size_T junk (Add x) xs = Some (Count (length xs + 1), xs @ [Some x])"
| "list_step mix size_T junk (AddItems new) xs = Some (Nothing, xs @ map Some new)"
| "list_step mix size_T junk (Remove i) xs =
     (if i < length xs then Some (Position i, take i xs @ drop (Suc i) xs) else None)"
| "list_step mix size_T junk (RemoveRange i j) xs =
     (if i \<le> j \<and> j \<le> length xs then Some (Position i, take i xs @ drop j xs) else None)"
| "list_step mix size_T junk (RemoveCount i n) xs =
     (if i + n \<le> length xs then Some (Position i, take i xs @ drop (i + n) xs) else None)"
| "list_step mix size_T junk (Shrink n) xs =
     (if n \<le> length xs then Some (Nothing, take n xs) else None)"
| "list_step mix size_T junk (Grow zero n) xs =
     (if length xs \<le> n then Some (Nothing, xs @ replicate (n - length xs) (Some zero)) else None)"
| "list_step mix size_T junk (Resize x n) xs =
     Some (Nothing, take n xs @ replicate (n - length xs) (Some x))"
| "list_step mix size_T junk (ResizeZero zero n) xs =
     Some (Nothing, take n xs @ replicate (n - length xs) (Some zero))"
| "list_step mix size_T junk (Join l) xs = Some (Nothing, xs @ array_cells l)"
| "list_step mix size_T junk (Assign l) xs = Some (Nothing, array_cells l)"
| "list_step mix size_T junk Pop xs = (if xs = [] then None else Some (Cell (last xs), butlast xs))"
| "list_step mix size_T junk (GetBuffer n) xs =
     Some (Position 0, take n xs @ map junk [length xs..<n])"
| "list_step mix size_T junk Clear xs = Some (Nothing, [])"
| "list_step mix size_T junk Free xs = Some (Nothing, [])"

fun array_run :: "(nat \<Rightarrow> 'a \<Rightarrow> 'a \<Rightarrow> 'a) \<Rightarrow> nat \<Rightarrow> 'a array_op list \<Rightarrow> 'a array \<Rightarrow>
    ('a array_out list \<times> 'a array) option" where
  "array_run mix size_T [] a = Some ([], a)"
| "array_run mix size_T (op # ops) a =
     Option.bind (array_step mix size_T op a) (\<lambda>(out, a').
     map_option (map_prod (Cons out) id) (array_run mix size_T ops a'))"

fun list_run :: "(nat \<Rightarrow> 'a \<Rightarrow> 'a \<Rightarrow> 'a) \<Rightarrow> nat \<Rightarrow> ((nat \<Rightarrow> 'a option) \<times> 'a array_op) list \<Rightarrow> 'a cells \<Rightarrow>
    ('a array_out list \<times> 'a cells) option" where
  "list_run mix size_T [] xs = Some ([], xs)"
| "list_run mix size_T ((junk, op) # ops) xs =
     Option.bind (list_step mix size_T junk op xs) (\<lambda>(out, xs').
     map_option (map_prod (Cons out) id) (list_run mix size_T ops xs'))"

text \<open>
  \<open>array_op_ok\<close>: an argument that is an array satisfies its invariant. \<open>determinate\<close>: the
  operation cannot leave an indeterminate element.
\<close>

fun array_op_ok :: "'a array_op \<Rightarrow> bool" where
  "array_op_ok (InsertArray i l) = array_inv l"
| "array_op_ok (Join l) = array_inv l"
| "array_op_ok (Assign l) = array_inv l"
| "array_op_ok _ = True"

fun determinate :: "nat \<Rightarrow> 'a array_op \<Rightarrow> bool" where
  "determinate size_T (InsertArray i l) = (size_T = 1 \<and> array_ok l)"
| "determinate size_T (Join l) = array_ok l"
| "determinate size_T (Assign l) = array_ok l"
| "determinate size_T (GetBuffer n) = False"
| "determinate size_T _ = True"

definition step_refines :: "('a array_out \<times> 'a array) option \<Rightarrow> ('a array_out \<times> 'a cells) option \<Rightarrow> bool" where
  "step_refines r s \<longleftrightarrow> (case s of None \<Rightarrow> r = None
     | Some (out, xs) \<Rightarrow> \<exists>a'. r = Some (out, a') \<and> array_shows a' xs)"

lemma array_pop_shows:
  assumes "array_shows a xs"
  shows "step_refines (array_step mix size_T Pop a) (list_step mix size_T junk Pop xs)"
proof (cases xs rule: rev_cases)
  case Nil
  with assms show ?thesis by (simp add: step_refines_def array_pop_def array_shows_count)
next
  case (snoc ys x)
  with assms show ?thesis
    by (auto simp: step_refines_def array_shows_iff array_pop_def nth_append)
qed

text \<open>One step of the simulation.\<close>

lemma array_step_refines:
  assumes a: "array_shows a xs" and "array_op_ok op"
  shows "\<exists>junk. step_refines (array_step mix size_T op a) (list_step mix size_T junk op xs)"
proof (cases op)
  case (InsertArray i l)
  with assms(2) have l: "array_shows l (array_cells l)" by (simp add: array_shows_def)
  show ?thesis
  proof (cases "i \<le> length xs")
    case True
    from array_insert_array_shows [OF a l this refl, of mix size_T] InsertArray True
    show ?thesis unfolding step_refines_def by (auto simp: Let_def)
  next
    case False
    with InsertArray a show ?thesis
      by (simp add: step_refines_def array_insert_array_def array_shows_count)
  qed
next
  case (GetBuffer n)
  then show ?thesis
    using array_getBuffer_shows [OF a, of n] by (auto simp: step_refines_def)
next
  case (Insert i x)
  then show ?thesis
    using array_insert_shows [OF a, of i x] array_shows_count [OF a]
    by (cases "i \<le> length xs") (auto simp: step_refines_def array_insert_def)
next
  case (InsertItems i new)
  then show ?thesis
    using array_insert_items_shows [OF a, of i new] array_shows_count [OF a]
    by (cases "i \<le> length xs") (auto simp: step_refines_def array_insert_items_def)
next
  case (Remove i)
  then show ?thesis
    using array_removeRange_shows [OF a, of i "Suc i"] array_shows_count [OF a]
    by (auto simp: step_refines_def array_remove_eqs)
next
  case (RemoveRange i j)
  then show ?thesis
    using array_removeRange_shows [OF a, of i j] array_shows_count [OF a]
    by (auto simp: step_refines_def array_removeRange_def)
next
  case (RemoveCount i n)
  then show ?thesis
    using array_removeRange_shows [OF a, of i "i + n"] array_shows_count [OF a]
    by (auto simp: step_refines_def array_remove_eqs array_removeRange_def)
next
  case (Shrink n)
  then show ?thesis
    using array_shorten_shows [OF a, of n] array_shows_count [OF a]
    by (auto simp: step_refines_def array_shrink_def)
next
  case (Grow zero n)
  then show ?thesis
    using array_grow_shows [OF a, of n zero] array_shows_count [OF a]
    by (cases "length xs \<le> n") (auto simp: step_refines_def array_grow_def)
next
  case (ResizeZero zero n)
  then show ?thesis
    using array_resize_zero_shows [OF a, of zero n] by (auto simp: step_refines_def)
next
  case (Put i x)
  then show ?thesis
    using array_put_shows [OF a, of i x] array_shows_count [OF a]
    by (cases "i < length xs") (auto simp: step_refines_def array_put_def)
next
  case (Join l)
  with assms(2) show ?thesis
    using array_join_shows [OF a, of l "array_cells l"] by (simp add: step_refines_def array_shows_def)
next
  case (Assign l)
  with assms(2) show ?thesis
    using array_assign_shows [OF a, of l "array_cells l"] by (simp add: step_refines_def array_shows_def)
next
  case (Add x)
  then show ?thesis
    using array_add_items_shows [OF a, of "[x]"] array_add_items_1 [OF a, of x]
    by (auto simp: step_refines_def Let_def dest: array_shows_count)
next
  case Pop
  with array_pop_shows [OF a] show ?thesis by blast
next
  case (Get i)
  with a show ?thesis by (auto simp: step_refines_def getElement_def array_shows_iff nth_append)
next
  case Front
  with a show ?thesis by (cases xs) (auto simp: step_refines_def array_front_def array_shows_iff)
next
  case Back
  with a show ?thesis
    by (cases xs rule: rev_cases) (auto simp: step_refines_def array_back_def array_shows_iff nth_append)
next
  case Clear
  then show ?thesis by (simp add: step_refines_def array_clear_def array_shows_iff)
next
  case Free
  then show ?thesis by (simp add: step_refines_def array_free_def array_clear_def array_shows_iff)
next
  case (AddItems new)
  with array_add_items_shows [OF a] show ?thesis by (simp add: step_refines_def)
next
  case (Resize x n)
  with array_resize_shows [OF a] show ?thesis by (simp add: step_refines_def)
qed

lemma list_step_determinate:
  assumes "list_step mix size_T junk op xs = Some (out, zs)" and "determinate size_T op"
    and "None \<notin> set xs"
  shows "None \<notin> set zs"
  using assms
  by (cases op) (auto simp: array_ok_iff Let_def memcpy_bytes_1 [unfolded One_nat_def] dest!: in_set_takeD in_set_dropD
      in_set_butlastD subsetD [OF set_update_subset_insert] split: if_splits)

subsection \<open>The bytes of an inserted array\<close>

text \<open>Elements of \<open>s\<close> bytes as byte lists, and the element made of two.\<close>

definition mix_bytes :: "nat \<Rightarrow> byte list \<Rightarrow> byte list \<Rightarrow> byte list" where
  "mix_bytes k x y = take k x @ drop k y"

lemma concat_take_drop:
  assumes "\<forall>z \<in> set zs. length z = s"
  shows "take (m * s) (concat zs) = concat (take m zs) \<and> drop (m * s) (concat zs) = concat (drop m zs)"
  using assms
proof (induction zs arbitrary: m)
  case (Cons z zs)
  then show ?case by (cases m) auto
qed simp

lemma concat_split_element:
  assumes "\<forall>z \<in> set zs. length z = s" and "w < length zs" and "k < s"
  shows "take (w * s + k) (concat zs) = concat (take w zs) @ take k (zs ! w)"
    and "drop (w * s + k) (concat zs) = drop k (zs ! w) @ concat (drop (Suc w) zs)"
proof -
  have z: "drop (w * s) (concat zs) = zs ! w @ concat (drop (Suc w) zs)"
    using concat_take_drop [OF assms(1), of w] assms(2) by (simp flip: Cons_nth_drop_Suc)
  have l: "length (zs ! w) = s" using assms(1,2) by simp
  show "take (w * s + k) (concat zs) = concat (take w zs) @ take k (zs ! w)"
    using concat_take_drop [OF assms(1), of w, THEN conjunct1] l assms(3) by (simp add: take_add z)
  have "drop (w * s + k) (concat zs) = drop k (drop (w * s) (concat zs))"
    by (simp add: add.commute)
  then show "drop (w * s + k) (concat zs) = drop k (zs ! w) @ concat (drop (Suc w) zs)"
    using z l assms(3) by simp
qed

lemma memcpy_bytes_concat:
  assumes "\<forall>z \<in> set zs. length z = s" and "\<forall>h \<in> set hs. length h = s"
    and "length zs = n" and "length hs = n" and "0 < s"
  shows "\<exists>rs. memcpy_bytes mix_bytes s n 0 (map Some zs) (map Some hs) = map Some rs \<and>
    length rs = n \<and> (\<forall>r \<in> set rs. length r = s) \<and>
    concat rs = take n (concat zs) @ drop n (concat hs)"
proof -
  let ?w = "n div s" and ?k = "n mod s"
  have n: "n = ?w * s + ?k" and k: "?k < s" using assms(5) by simp_all
  show ?thesis
  proof (cases "?k = 0")
    case True
    let ?rs = "take ?w zs @ drop ?w hs"
    have "?w \<le> n" by simp
    then have "memcpy_bytes mix_bytes s n 0 (map Some zs) (map Some hs) = map Some ?rs" "length ?rs = n"
      using True assms(3,4) by (simp_all add: memcpy_bytes_def Let_def memcpy_def take_map drop_map)
    moreover have "concat ?rs = take n (concat zs) @ drop n (concat hs)"
      using concat_take_drop [OF assms(1), of ?w] concat_take_drop [OF assms(2), of ?w] True n by simp
    moreover have "\<forall>r \<in> set ?rs. length r = s"
      using assms(1,2) by (auto dest: in_set_takeD in_set_dropD)
    ultimately show ?thesis by blast
  next
    case False
    let ?p = "mix_bytes ?k (zs ! ?w) (hs ! ?w)"
    let ?rs = "take ?w zs @ ?p # drop (Suc ?w) hs"
    have w: "?w < n" using whole_part_le [of n s] False by simp
    then have "memcpy_bytes mix_bytes s n 0 (map Some zs) (map Some hs) = map Some ?rs" "length ?rs = n"
      using False assms(3,4) by (simp_all add: memcpy_bytes_def Let_def memcpy_def take_map drop_map)
    moreover have "concat ?rs = take n (concat zs) @ drop n (concat hs)"
      using concat_split_element [OF assms(1) _ k, of ?w] concat_split_element [OF assms(2) _ k, of ?w]
        w assms(3,4) by (simp add: mix_bytes_def)
    moreover have "\<forall>r \<in> set ?rs. length r = s"
      using assms w k by (auto simp: mix_bytes_def dest: in_set_takeD in_set_dropD)
    ultimately show ?thesis by blast
  qed
qed

lemma hole_cells_inside:
  "i + n \<le> length ys \<Longrightarrow> hole_cells junk i n (map Some ys) = map Some (take n (drop i ys))"
  by (intro nth_equalityI) (auto simp: hole_cells_def)

text \<open>An indeterminate cell that is not copied over in whole stays indeterminate.\<close>

lemma memcpy_bytes_last_None:
  assumes "length hole = n" and "hole ! (n - 1) = None" and "length zs = n" and "1 < s" and "0 < n"
  shows "None \<in> set (memcpy_bytes mix s n 0 zs hole)"
proof -
  let ?xs = "memcpy_bytes mix s n 0 zs hole" and ?w = "n div s"
  have w: "?w < n" using assms(4,5) by simp
  have "?xs ! (n - 1) = None"
  proof (cases "n mod s = 0")
    case True
    have "\<not> n - 1 < ?w" using w by linarith
    with True w assms show ?thesis by (simp add: memcpy_bytes_def Let_def memcpy_def nth_append)
  next
    case False
    obtain m where m: "n = Suc m" using assms(5) by (cases n) auto
    with w have "?w = m \<or> Suc ?w \<le> m" by linarith
    with False m w assms show ?thesis
      by (auto simp: memcpy_bytes_def Let_def memcpy_def nth_append)
  qed
  with length_memcpy_bytes [OF assms(1,3), of mix s] assms(5) show ?thesis
    by (metis diff_less less_one nth_mem)
qed

subsection \<open>Properties\<close>

text \<open>
  C7. Bisection in a sorted container. In an ordered \<^verbatim>\<open>SortedVector\<close> with a free cell,
  \<open>add\<close> succeeds, returns the position of the new item, keeps the order and the
  invariant, and afterwards \<open>find\<close> succeeds for exactly the key that was added and the
  keys it succeeded for before.
\<close>

theorem sorted_vector_add_find:
  assumes "vector_holds v xs" and "sorted (map key xs)" and "v_count v < v_capacity v"
  shows "\<exists>pos v' ys. sorted_vector_add key x v = Some (pos, v') \<and> vector_holds v' ys \<and>
    ys = take pos xs @ x # drop pos xs \<and> ys ! pos = x \<and> sorted (map key ys) \<and>
    (\<forall>k. fst (sorted_vector_find key v' k) \<longleftrightarrow> k = key x \<or> fst (sorted_vector_find key v k))"
proof -
  from sv.add_holds [OF assms] obtain pos v' where
    a: "sorted_vector_add key x v = Some (pos, v')" "pos \<le> length xs"
       "vector_holds v' (take pos xs @ x # drop pos xs)"
       "sorted (map key (take pos xs @ x # drop pos xs))"
    by blast
  have "set (take pos xs @ x # drop pos xs) = insert x (set xs)"
    using set_append [of "take pos xs" "drop pos xs"] by auto
  with a show ?thesis
    using sv.find_member [OF assms(1,2)] sv.find_member [OF a(3,4)]
    by (auto simp: nth_append)
qed

theorem sorted_vector_add_find_witness:
  "\<exists>pos v' ys. sorted_vector_add id (4 :: nat) \<lparr>v_count = 2, v_data = [Some 1, Some 7, None]\<rparr> = Some (pos, v') \<and>
     vector_holds v' ys \<and> ys = take pos [1, 7] @ 4 # drop pos [1, 7] \<and> ys ! pos = 4 \<and> sorted (map id ys) \<and>
     (\<forall>k. fst (sorted_vector_find id v' k) \<longleftrightarrow> k = id 4 \<or>
        fst (sorted_vector_find id \<lparr>v_count = 2, v_data = [Some 1, Some 7, None]\<rparr> k))"
proof -
  have "vector_holds \<lparr>v_count = 2, v_data = [Some 1, Some (7 :: nat), None]\<rparr> [1, 7]"
    by (simp add: vector_holds_def vector_ok_def vector_items_def filled_def items_def)
  from sorted_vector_add_find [OF this, of id 4] show ?thesis by simp
qed


text \<open>
  C8. \<^verbatim>\<open>Array\<close> implements a list of cells. Run any sequence of the operations of
  \<open>array_op\<close>, which are all those of the class that change it and the element accesses, on
  an array that satisfies its invariant: the run fails (an assertion of the code) exactly
  when the list operations leave their preconditions, and otherwise returns what they return
  and leaves the cells they compute, the count staying within the capacity however often the
  storage was reallocated. The list operations know nothing of the memory behind the
  elements, which \<open>junk\<close> supplies: only \<^verbatim>\<open>getBuffer\<close> and the insertion of an array
  depend on it. A sequence without the former, and with the latter for elements of one byte
  only, leaves an array of written elements if it starts from one. Arguments that are arrays
  are other arrays than the one operated on.
\<close>

theorem array_refines_list:
  assumes "array_inv a" and "\<forall>op \<in> set ops. array_op_ok op"
  shows "\<exists>junks. length junks = length ops \<and>
    map_option (map_prod id array_cells) (array_run mix size_T ops a) =
      list_run mix size_T (zip junks ops) (array_cells a) \<and>
    (\<forall>outs a'. array_run mix size_T ops a = Some (outs, a') \<longrightarrow> array_inv a' \<and>
      (array_ok a \<and> (\<forall>op \<in> set ops. determinate size_T op) \<longrightarrow> array_ok a'))"
  using assms
proof (induction ops arbitrary: a)
  case (Cons op ops)
  let ?xs = "array_cells a"
  obtain junk where s: "step_refines (array_step mix size_T op a) (list_step mix size_T junk op ?xs)"
    using array_step_refines [of a ?xs op mix size_T] Cons.prems by (auto simp: array_shows_def)
  show ?case
  proof (cases "list_step mix size_T junk op ?xs")
    case None
    with s show ?thesis
      by (intro exI [of _ "junk # replicate (length ops) junk"]) (simp add: step_refines_def)
  next
    case (Some p)
    then obtain out zs where p: "list_step mix size_T junk op ?xs = Some (out, zs)" by (cases p) auto
    with s obtain a' where a': "array_step mix size_T op a = Some (out, a')" "array_inv a'" "array_cells a' = zs"
      by (auto simp: step_refines_def array_shows_def)
    have ops: "\<forall>op \<in> set ops. array_op_ok op" using Cons.prems(2) by simp
    obtain junks where j: "length junks = length ops"
      "map_option (map_prod id array_cells) (array_run mix size_T ops a') =
        list_run mix size_T (zip junks ops) zs"
      "\<forall>outs a''. array_run mix size_T ops a' = Some (outs, a'') \<longrightarrow> array_inv a'' \<and>
        (array_ok a' \<and> (\<forall>op \<in> set ops. determinate size_T op) \<longrightarrow> array_ok a'')"
      using Cons.IH [OF a'(2) ops] unfolding a'(3) by blast
    have "array_ok a \<and> determinate size_T op \<longrightarrow> array_ok a'"
      using list_step_determinate [OF p] a' by (auto simp: array_ok_iff)
    with p a' j show ?thesis
      by (intro exI [of _ "junk # junks"])
        (auto simp: option.map_comp comp_def prod.map_comp simp flip: j(2))
  qed
qed simp

theorem array_refines_list_witness:
  "\<exists>junks. length junks = 4 \<and>
    map_option (map_prod id array_cells) (array_run (\<lambda>k x y. x) 4
        [AddItems [1, 2, 3 :: nat], Pop, GetBuffer 4, Put 3 7] (array_new 2 0)) =
      list_run (\<lambda>k x y. x) 4 (zip junks [AddItems [1, 2, 3 :: nat], Pop, GetBuffer 4, Put 3 7]) [] \<and>
    array_run (\<lambda>k x y. x) 4 [AddItems [1, 2, 3 :: nat], Pop, GetBuffer 4, Put 3 7] (array_new 2 0) =
      Some ([Nothing, Cell (Some 3), Position 0, Nothing],
        \<lparr>a_count = 4, a_data = [Some 1, Some 2, Some 3, Some 7], a_storage = 2\<rparr>)"
proof -
  let ?ops = "[AddItems [1, 2, 3], Pop, GetBuffer 4, Put 3 7] :: nat array_op list"
  have a: "array_inv (array_new 2 0 :: nat array)" "array_cells (array_new 2 0 :: nat array) = []"
    by (simp_all add: array_new_def ensureCapacity_def array_inv_def array_cells_def)
  have ops: "\<forall>op \<in> set ?ops. array_op_ok op" by simp
  have run: "array_run (\<lambda>k x y. x) 4 ?ops (array_new 2 0) =
      Some ([Nothing, Cell (Some 3), Position 0, Nothing],
        \<lparr>a_count = 4, a_data = [Some 1, Some 2, Some 3, Some 7], a_storage = 2\<rparr>)"
    by code_simp
  obtain junks where "length junks = length ?ops"
    "map_option (map_prod id array_cells) (array_run (\<lambda>k x y. x) 4 ?ops (array_new 2 0)) =
      list_run (\<lambda>k x y. x) 4 (zip junks ?ops) []"
    using array_refines_list [OF a(1) ops, of "\<lambda>k x y. x" 4] unfolding a(2) by blast
  with run show ?thesis
    by (intro exI [of _ junks] conjI) simp_all
qed

text \<open>
  C9. The overload of \<^verbatim>\<open>Array::insert\<close> that takes another array copies as many bytes as
  there are elements. For elements of one byte that is the insertion. Otherwise, when the
  elements to insert find as many elements behind the position, the inserted ones consist of
  the first \<open>n\<close> bytes of the other array and of what was there before, so they are the
  elements of the other array only if the bytes that were not copied agree by accident; and
  when they do not and the storage is reallocated, an element below the count is left
  indeterminate.
\<close>

theorem array_insert_array_defect:
  assumes "array_holds a ys" and "array_holds l zs" and "i \<le> length ys" and "n = length zs"
    and "\<forall>z \<in> set ys \<union> set zs. length z = size_T" and "0 < size_T"
  shows "\<exists>a'. array_insert_array mix_bytes size_T i l a = Some a' \<and>
    (size_T = 1 \<longrightarrow> array_holds a' (take i ys @ zs @ drop i ys)) \<and>
    (i + n \<le> length ys \<longrightarrow> (\<exists>rs. array_holds a' (take i ys @ rs @ drop i ys) \<and> length rs = n \<and>
      concat rs = take n (concat zs) @ drop n (concat (take n (drop i ys))) \<and>
      (rs = zs \<longleftrightarrow> drop n (concat zs) = drop n (concat (take n (drop i ys)))))) \<and>
    (1 < size_T \<and> 0 < n \<and> length ys < i + n \<and> a_capacity a < length ys + n \<longrightarrow> \<not> array_ok a')"
proof -
  let ?junk = "\<lambda>p. a_data (ensureCapacity (length ys + n) a) ! p"
  let ?hole = "hole_cells ?junk i n (map Some ys)"
  obtain a' where a': "array_insert_array mix_bytes size_T i l a = Some a'"
    "array_shows a' (map Some (take i ys) @ memcpy_bytes mix_bytes size_T n 0 (map Some zs) ?hole @
      map Some (drop i ys))"
    using array_insert_array_shows [of a "map Some ys" l "map Some zs" i, OF _ _ _ refl] assms(1-4)
    by (auto simp: array_holds_shows take_map drop_map)
  have one: "array_holds a' (take i ys @ zs @ drop i ys)" if "size_T = 1"
    using a'(2) that assms(4) memcpy_bytes_1 [of ?hole "map Some zs"] by (simp add: array_holds_shows)
  have inside: "\<exists>rs. array_holds a' (take i ys @ rs @ drop i ys) \<and> length rs = n \<and>
      concat rs = take n (concat zs) @ drop n (concat (take n (drop i ys))) \<and>
      (rs = zs \<longleftrightarrow> drop n (concat zs) = drop n (concat (take n (drop i ys))))" if "i + n \<le> length ys"
  proof -
    let ?hs = "take n (drop i ys)"
    have hs: "\<forall>h \<in> set ?hs. length h = size_T" "length ?hs = n" "\<forall>z \<in> set zs. length z = size_T"
      using assms(5) that by (auto dest: in_set_takeD in_set_dropD)
    obtain rs where rs: "memcpy_bytes mix_bytes size_T n 0 (map Some zs) (map Some ?hs) = map Some rs"
      "length rs = n" "\<forall>r \<in> set rs. length r = size_T"
      "concat rs = take n (concat zs) @ drop n (concat ?hs)"
      using memcpy_bytes_concat [OF hs(3,1) assms(4) [symmetric] hs(2) assms(6)] by blast
    have "rs = zs \<longleftrightarrow> concat rs = concat zs"
      using rs(2,3) hs(3) assms(4) by (subst concat_eq_concat_iff) (auto simp: set_zip)
    also have "\<dots> \<longleftrightarrow> take n (concat zs) @ drop n (concat ?hs) = take n (concat zs) @ drop n (concat zs)"
      by (simp only: rs(4) append_take_drop_id)
    also have "\<dots> \<longleftrightarrow> drop n (concat zs) = drop n (concat ?hs)"
      by (simp only: same_append_eq) (rule eq_commute)
    finally show ?thesis
      using a'(2) rs hole_cells_inside [OF that, of ?junk] by (auto simp: array_holds_shows)
  qed
  have "\<not> array_ok a'" if big: "1 < size_T" "0 < n" "length ys < i + n" "a_capacity a < length ys + n"
  proof -
    obtain rest where "a_data a = map Some ys @ rest" "a_count a = length ys"
      using assms(1) by (auto simp: array_holds_iff)
    with big(3,4) assms(3) have "?hole ! (n - 1) = None"
      by (auto simp: hole_cells_def ensureCapacity_def Let_def memcpy_def nth_append)
    with memcpy_bytes_last_None [of ?hole n "map Some zs" size_T mix_bytes] big(1,2) assms(4) a'(2)
    show ?thesis by (auto simp: array_ok_iff array_shows_def)
  qed
  with one inside a'(1) show ?thesis by blast
qed

theorem array_insert_array_defect_witness:
  "\<exists>a'. array_insert_array mix_bytes 2 0 (array_add [5, 6] (array_new 0 0))
       (array_add [3, 4] (array_new 0 0)) = Some a' \<and> array_holds a' [[5, 4], [3, 4]]"
proof -
  have h: "array_holds (array_add x (array_new 0 0)) [x]" for x :: "byte list"
    using array_add_holds [of "array_new 0 0" "[]" x]
    by (simp add: array_new_def ensureCapacity_def array_holds_iff)
  obtain a' rs where a': "array_insert_array mix_bytes 2 0 (array_add [5, 6] (array_new 0 0))
       (array_add [3, 4] (array_new 0 0)) = Some a'" "array_holds a' (rs @ [[3, 4]])"
    "length rs = 1" "concat rs = [5, 4]"
    using array_insert_array_defect [OF h [of "[3, 4]"] h [of "[5, 6]"], of 0 1 2] by auto
  then have "rs = [[5, 4]]" by (auto simp: length_Suc_conv)
  with a' show ?thesis by auto
qed

end
