(* ===== verification/FB_Timestamp.thy ===== *)
theory FB_Timestamp
  imports FB_Prelude
begin

section \<open>Dates and times (\<^verbatim>\<open>src/src/common/classes/timestamp.cpp\<close>)\<close>

text \<open>
  A date is the number of days since 17 November 1858, a time the number of ten-thousandths
  of a second since midnight. C's \<^verbatim>\<open>int\<close> is modelled by \<^typ>\<open>int\<close>: for the supported
  dates (and far beyond) every intermediate value fits 32 bits, and the theorems state their
  range. Division truncates towards zero, as C's does. \<^verbatim>\<open>ISC_TIME\<close> is unsigned; a
  conversion to it reduces modulo \<open>2 ^ 32\<close>.
\<close>

definition cdiv :: "int \<Rightarrow> int \<Rightarrow> int" where
  "cdiv a b = (if 0 \<le> a then a div b else - (- a div b))"

definition cmod :: "int \<Rightarrow> int \<Rightarrow> int" where
  "cmod a b = a - b * cdiv a b"

definition MIN_YEAR :: int where
  "MIN_YEAR = 1"

definition MAX_YEAR :: int where
  "MAX_YEAR = 9999"

definition ISC_TIME_SECONDS_PRECISION :: int where
  "ISC_TIME_SECONDS_PRECISION = 10000"

record tm =
  tm_sec :: int
  tm_min :: int
  tm_hour :: int
  tm_mday :: int
  tm_mon :: int
  tm_year :: int
  tm_wday :: int
  tm_yday :: int

record isc_timestamp =
  timestamp_date :: int
  timestamp_time :: int

definition to_isc_time :: "int \<Rightarrow> int" where
  "to_isc_time i = i mod 2 ^ 32"

definition to_isc_date :: "int \<Rightarrow> int" where
  "to_isc_date i = (i + 2 ^ 31) mod 2 ^ 32 - 2 ^ 31"

definition isLeapYear :: "int \<Rightarrow> bool" where
  "isLeapYear year \<longleftrightarrow> (cmod year 4 = 0 \<and> cmod year 100 \<noteq> 0) \<or> cmod year 400 = 0"

definition yday :: "tm \<Rightarrow> int" where
  "yday tp =
     (let month = tm_mon tp; year = tm_year tp + 1900;
          day = tm_mday tp - 1 + cdiv (214 * month + 3) 7
      in if month < 2 then day
         else if (cmod year 4 = 0 \<and> cmod year 100 \<noteq> 0) \<or> cmod year 400 = 0 then day - 1
         else day - 2)"

text \<open>
  The arithmetic of the routine is the one of \<^verbatim>\<open>int\<close> without overflow: the code computes \<^verbatim>\<open>4 * nday\<close> in
  32 bits, which is exact for day numbers from \<open>- 537549793\<close> to \<open>536192029\<close>. Every statement below is about day
  numbers in this range.
\<close>

definition decode_date_fields :: "int \<Rightarrow> tm" where
  "decode_date_fields nday =
     (let w = cmod (nday + 3) 7;
          wday = (if w < 0 then w + 7 else w);
          nday = nday + (2400001 - 1721119);
          century = cdiv (4 * nday - 1) 146097;
          nday = 4 * nday - 1 - 146097 * century;
          day = cdiv nday 4;
          nday = cdiv (4 * day + 3) 1461;
          day = 4 * day + 3 - 1461 * nday;
          day = cdiv (day + 4) 4;
          month = cdiv (5 * day - 3) 153;
          day = 5 * day - 3 - 153 * month;
          day = cdiv (day + 5) 5;
          year = 100 * century + nday;
          (month, year) = (if month < 10 then (month + 3, year) else (month - 9, year + 1))
      in \<lparr>tm_sec = 0, tm_min = 0, tm_hour = 0, tm_mday = day, tm_mon = month - 1,
          tm_year = year - 1900, tm_wday = wday, tm_yday = 0\<rparr>)"

text \<open>The last statement of the routine stores the day of the year.\<close>

definition decode_date :: "int \<Rightarrow> tm" where
  "decode_date nday = (let tp = decode_date_fields nday in tp\<lparr>tm_yday := yday tp\<rparr>)"

lemma decode_date_simps [simp]:
  "tm_mday (decode_date n) = tm_mday (decode_date_fields n)"
  "tm_mon (decode_date n) = tm_mon (decode_date_fields n)"
  "tm_year (decode_date n) = tm_year (decode_date_fields n)"
  "tm_wday (decode_date n) = tm_wday (decode_date_fields n)"
  by (simp_all add: decode_date_def Let_def)

definition encode_date :: "tm \<Rightarrow> int" where
  "encode_date tp =
     (let day = tm_mday tp;
          month = tm_mon tp + 1;
          year = tm_year tp + 1900;
          (month, year) = (if 2 < month then (month - 3, year) else (month + 9, year - 1));
          c = cdiv year 100;
          ya = year - 100 * c
      in to_isc_date (cdiv (146097 * c) 4 + cdiv (1461 * ya) 4 + cdiv (153 * month + 2) 5 + day
                      + 1721119 - 2400001))"

text \<open>Hours, minutes, seconds and fractions.\<close>

definition decode_time :: "int \<Rightarrow> int \<times> int \<times> int \<times> int" where
  "decode_time ntime =
     (let hours = ntime div (3600 * ISC_TIME_SECONDS_PRECISION);
          ntime = ntime mod (3600 * ISC_TIME_SECONDS_PRECISION);
          minutes = ntime div (60 * ISC_TIME_SECONDS_PRECISION);
          ntime = ntime mod (60 * ISC_TIME_SECONDS_PRECISION);
          seconds = ntime div ISC_TIME_SECONDS_PRECISION;
          fractions = ntime mod ISC_TIME_SECONDS_PRECISION
      in (hours, minutes, seconds, fractions))"

text \<open>
  \<open>None\<close> stands for the failed assertion on a scale beyond the table.
\<close>

definition round_time :: "int \<Rightarrow> int \<Rightarrow> int option" where
  "round_time ntime precision =
     (let scale = 4 - precision in
      if scale \<le> 0 then Some ntime
      else if 10 \<le> scale then None
      else let period = 10 ^ nat scale in Some (ntime - ntime mod period))"

definition encode_time :: "int \<Rightarrow> int \<Rightarrow> int \<Rightarrow> int \<Rightarrow> int" where
  "encode_time hours minutes seconds fractions =
     to_isc_time (((hours * 60 + minutes) * 60 + seconds) * ISC_TIME_SECONDS_PRECISION + fractions)"

definition timestamp_encode :: "tm \<Rightarrow> isc_timestamp" where
  "timestamp_encode tp =
     \<lparr>timestamp_date = encode_date tp,
      timestamp_time = to_isc_time
        (((tm_hour tp * 60 + tm_min tp) * 60 + tm_sec tp) * ISC_TIME_SECONDS_PRECISION)\<rparr>"

definition timestamp_decode :: "isc_timestamp \<Rightarrow> tm" where
  "timestamp_decode ts =
     (let tp = decode_date (timestamp_date ts);
          minutes = timestamp_time ts div (ISC_TIME_SECONDS_PRECISION * 60)
      in tp\<lparr>tm_hour := minutes div 60, tm_min := minutes mod 60,
               tm_sec := (timestamp_time ts div ISC_TIME_SECONDS_PRECISION) mod 60\<rparr>)"

definition isRangeValid :: "isc_timestamp \<Rightarrow> bool" where
  "isRangeValid ts =
     (if timestamp_date ts = 0 then True
      else let tp = timestamp_decode ts in
        MIN_YEAR \<le> tm_year tp + 1900 \<and> tm_year tp + 1900 \<le> MAX_YEAR)"

definition timestamp_isEmpty :: "isc_timestamp \<Rightarrow> bool" where
  "timestamp_isEmpty ts \<longleftrightarrow> timestamp_date ts = 0 \<and> timestamp_time ts = 0"

definition timestamp_invalidate :: "isc_timestamp" where
  "timestamp_invalidate = \<lparr>timestamp_date = 0, timestamp_time = 0\<rparr>"

text \<open>
  The clock and \<^verbatim>\<open>localtime_r\<close> belong to the system: the seconds and microseconds of
  the clock and the conversion to local time are parameters; a failing conversion raises.
\<close>

definition timestamp_generate :: "(int \<Rightarrow> tm option) \<Rightarrow> int \<Rightarrow> int \<Rightarrow> string + isc_timestamp" where
  "timestamp_generate localtime_r tv_sec tv_usec =
     (case localtime_r tv_sec of
        None \<Rightarrow> Inl ''localtime_r''
      | Some tp \<Rightarrow>
          let fractions = cdiv tv_usec 1000; ts = timestamp_encode tp in
          Inr (ts\<lparr>timestamp_time :=
            to_isc_time (timestamp_time ts + cdiv (fractions * ISC_TIME_SECONDS_PRECISION) 1000)\<rparr>))"

definition timestamp_validate :: "(int \<Rightarrow> tm option) \<Rightarrow> int \<Rightarrow> int \<Rightarrow> isc_timestamp \<Rightarrow> string + isc_timestamp" where
  "timestamp_validate localtime_r tv_sec tv_usec ts =
     (if timestamp_isEmpty ts then timestamp_generate localtime_r tv_sec tv_usec else Inr ts)"

subsection \<open>The civil calendar\<close>

text \<open>The specification: lengths of the months, days before a month, days before a year.\<close>

definition leap :: "int \<Rightarrow> bool" where
  "leap y \<longleftrightarrow> (4 dvd y \<and> \<not> 100 dvd y) \<or> 400 dvd y"

definition month_days :: "int \<Rightarrow> int \<Rightarrow> int" where
  "month_days y m =
     (if m \<in> {3, 5, 8, 10} then 30 else if m = 1 then if leap y then 29 else 28 else 31)"

text \<open>Month numbers run from 0 to 11, as in \<^verbatim>\<open>struct tm\<close>.\<close>

definition valid_civil :: "int \<Rightarrow> int \<Rightarrow> int \<Rightarrow> bool" where
  "valid_civil y m d \<longleftrightarrow> MIN_YEAR \<le> y \<and> y \<le> MAX_YEAR \<and> 0 \<le> m \<and> m \<le> 11 \<and> 1 \<le> d \<and> d \<le> month_days y m"

definition days_before_month :: "int \<Rightarrow> int \<Rightarrow> int" where
  "days_before_month y m = sum_list (map (month_days y) [0..m - 1])"

lemma cdiv_nonneg [simp]: "0 \<le> a \<Longrightarrow> cdiv a b = a div b"
  by (simp add: cdiv_def)

lemma cmod_nonneg [simp]: "0 \<le> a \<Longrightarrow> cmod a b = a mod b"
  by (simp add: cmod_def minus_mult_div_eq_mod)

lemma div_eq_intI: "b * q \<le> a \<Longrightarrow> a < b * q + b \<Longrightarrow> a div b = q" for a b q :: int
  by (rule int_div_pos_eq [of _ _ _ "a - b * q"]) auto

lemma div_rem_int:
  fixes a b :: int
  assumes "0 < b"
  obtains s where "a = b * (a div b) + s" and "0 \<le> s" and "s < b" and "s = a mod b"
  using assms by (metis mult_div_mod_eq pos_mod_bound pos_mod_sign)

text \<open>
  The calendar is reckoned in three steps, centuries, years and months, counted from the first of
  March. Each is a division with remainder; the encoding undoes it.
\<close>

lemma mod4_eq3I: "c + 1 = 4 * k \<Longrightarrow> c mod 4 = 3" for c k :: int
  by presburger

lemma century_step:
  fixes N :: int
  assumes "1 \<le> N"
  defines "c \<equiv> (4 * N - 1) div 146097" and "d \<equiv> (4 * N - 1 - 146097 * ((4 * N - 1) div 146097)) div 4"
  shows "146097 * c div 4 + d + 1 = N" and "0 \<le> c" and "0 \<le> d" and "d \<le> 36524"
    and "d = 36524 \<Longrightarrow> c mod 4 = 3"
proof -
  obtain r where r: "4 * N - 1 = 146097 * c + r" "0 \<le> r" "r < 146097"
    using div_rem_int [where b = 146097 and a = "4 * N - 1", OF zero_less_numeral] unfolding c_def by blast
  have "d = r div 4" using r(1) by (simp add: d_def c_def)
  then obtain s where s: "r = 4 * d + s" "0 \<le> s" "s < 4"
    using div_rem_int [where b = 4 and a = r, OF zero_less_numeral] by blast
  show "0 \<le> c" using assms(1) by (simp add: c_def pos_imp_zdiv_nonneg_iff)
  show "0 \<le> d" "d \<le> 36524" using r s by linarith+
  have "146097 * c div 4 = N - d - 1"
    by (rule div_eq_intI; unfold right_diff_distrib distrib_left) (use r s in linarith)+
  then show "146097 * c div 4 + d + 1 = N" by simp
  assume "d = 36524"
  then have "s = 0" using r s by linarith
  then have "4 * N = 146097 * (c + 1)" using r s \<open>d = 36524\<close> by simp
  then show "c mod 4 = 3" by (intro mod4_eq3I [of _ "N - 36524 * (c + 1)"]) simp
qed

lemma century_step_inv:
  fixes c d :: int
  assumes "0 \<le> c" and "0 \<le> d" and "d \<le> 36524" and "d = 36524 \<Longrightarrow> c mod 4 = 3"
  defines "N \<equiv> 146097 * c div 4 + d + 1"
  shows "(4 * N - 1) div 146097 = c" and "(4 * N - 1 - 146097 * c) div 4 = d"
proof -
  obtain s where s: "146097 * c = 4 * (146097 * c div 4) + s" "0 \<le> s" "s < 4" "s = (146097 * c) mod 4"
    using div_rem_int [where b = 4 and a = "146097 * c", OF zero_less_numeral] by blast
  have "146097 * c = c + 36524 * c * 4" by simp
  then have sc: "s = c mod 4" unfolding s(4) by (metis mod_mult_self1)
  have N: "4 * N - 1 = 146097 * c - s + 4 * d + 3" using s(1) by (simp add: N_def)
  have "4 * d + 3 - s < 146097" using assms(3,4) s sc by (cases "d = 36524") auto
  then show "(4 * N - 1) div 146097 = c"
    by (intro div_eq_intI) (use N s assms(2) in linarith)+
  show "(4 * N - 1 - 146097 * c) div 4 = d"
    by (rule div_eq_intI) (use N s in linarith)+
qed

lemma year_step:
  fixes d :: int
  assumes "0 \<le> d" and "d \<le> 36524"
  defines "y \<equiv> (4 * d + 3) div 1461" and "e \<equiv> (4 * d + 3 - 1461 * ((4 * d + 3) div 1461) + 4) div 4"
  shows "1461 * y div 4 + e = d + 1" and "0 \<le> y" and "y \<le> 99" and "1 \<le> e" and "e \<le> 366"
    and "e = 366 \<Longrightarrow> y mod 4 = 3" and "e = 366 \<Longrightarrow> y = 99 \<Longrightarrow> d = 36524"
proof -
  obtain r where r: "4 * d + 3 = 1461 * y + r" "0 \<le> r" "r < 1461"
    using div_rem_int [where b = 1461 and a = "4 * d + 3", OF zero_less_numeral] unfolding y_def by blast
  have "e = (r + 4) div 4" using r(1) by (simp add: e_def y_def)
  then obtain s where s: "r + 4 = 4 * e + s" "0 \<le> s" "s < 4"
    using div_rem_int [where b = 4 and a = "r + 4", OF zero_less_numeral] by blast
  show "0 \<le> y" "y \<le> 99" using r assms(1,2) by linarith+
  show "1 \<le> e" "e \<le> 366" using r s by linarith+
  have "1461 * y div 4 = d + 1 - e"
    by (rule div_eq_intI; unfold right_diff_distrib distrib_left) (use r s in linarith)+
  then show "1461 * y div 4 + e = d + 1" by simp
  assume e: "e = 366"
  then have "r = 1460" using r s by linarith
  then have d: "4 * (d + 1) = 1461 * (y + 1)" using r by simp
  then show "y mod 4 = 3" by (intro mod4_eq3I [of _ "d + 1 - 365 * (y + 1)"]) simp
  show "y = 99 \<Longrightarrow> d = 36524" using d by simp
qed

lemma year_step_inv:
  fixes y e :: int
  assumes "1 \<le> e" and "e \<le> 366" and "e = 366 \<Longrightarrow> y mod 4 = 3"
  defines "d \<equiv> 1461 * y div 4 + e - 1"
  shows "(4 * d + 3) div 1461 = y" and "(4 * d + 3 - 1461 * y + 4) div 4 = e"
proof -
  obtain s where s: "1461 * y = 4 * (1461 * y div 4) + s" "0 \<le> s" "s < 4" "s = (1461 * y) mod 4"
    using div_rem_int [where b = 4 and a = "1461 * y", OF zero_less_numeral] by blast
  have "1461 * y = y + 365 * y * 4" by simp
  then have sy: "s = y mod 4" unfolding s(4) by (metis mod_mult_self1)
  have d: "4 * d + 3 = 1461 * y - s + 4 * e - 1" using s(1) by (simp add: d_def)
  have "4 * e - 1 - s < 1461" using assms(2,3) s sy by (cases "e = 366") auto
  then show "(4 * d + 3) div 1461 = y"
    by (intro div_eq_intI) (use d s assms(1) in linarith)+
  show "(4 * d + 3 - 1461 * y + 4) div 4 = e"
    by (rule div_eq_intI) (use d s in linarith)+
qed

lemma month_cases:
  fixes m :: int
  assumes "0 \<le> m" and "m \<le> 11"
  obtains "m = 0" | "m = 1" | "m = 2" | "m = 3" | "m = 4" | "m = 5" | "m = 6" | "m = 7" | "m = 8"
    | "m = 9" | "m = 10" | "m = 11"
  using assms by atomize_elim presburger

lemma month_step:
  fixes e :: int
  assumes "1 \<le> e" and "e \<le> 366"
  defines "m \<equiv> (5 * e - 3) div 153" and "k \<equiv> (5 * e - 3 - 153 * ((5 * e - 3) div 153) + 5) div 5"
  shows "(153 * m + 2) div 5 + k = e" and "0 \<le> m" and "m \<le> 11" and "1 \<le> k" and "k \<le> 31"
    and "m \<in> {1, 3, 6, 8} \<Longrightarrow> k \<le> 30" and "m = 11 \<Longrightarrow> k \<le> 29" and "m = 11 \<Longrightarrow> k = 29 \<Longrightarrow> e = 366"
proof -
  obtain r where r: "5 * e - 3 = 153 * m + r" "0 \<le> r" "r < 153"
    using div_rem_int [where b = 153 and a = "5 * e - 3", OF zero_less_numeral] unfolding m_def by blast
  have "k = (r + 5) div 5" using r(1) by (simp add: k_def m_def)
  then obtain s where s: "r + 5 = 5 * k + s" "0 \<le> s" "s < 5"
    using div_rem_int [where b = 5 and a = "r + 5", OF zero_less_numeral] by blast
  show m: "0 \<le> m" "m \<le> 11" using r assms(1,2) by linarith+
  show "1 \<le> k" "k \<le> 31" using r s by linarith+
  have "(153 * m + 2) div 5 = e - k"
    by (rule div_eq_intI; unfold right_diff_distrib distrib_left) (use r s in linarith)+
  then show eq: "(153 * m + 2) div 5 + k = e" by simp
  show "m \<in> {1, 3, 6, 8} \<Longrightarrow> k \<le> 30" using r(1,3) eq by (elim insertE emptyE; simp)
  show "m = 11 \<Longrightarrow> k \<le> 29" "m = 11 \<Longrightarrow> k = 29 \<Longrightarrow> e = 366" using eq assms(2) by simp_all
qed

lemma month_step_inv:
  fixes m k :: int
  assumes "0 \<le> m" and "m \<le> 11" and "1 \<le> k" and "k \<le> 31" and "m \<in> {1, 3, 6, 8, 11} \<Longrightarrow> k \<le> 30"
  defines "e \<equiv> (153 * m + 2) div 5 + k"
  shows "(5 * e - 3) div 153 = m" and "(5 * e - 3 - 153 * m + 5) div 5 = k"
proof -
  have "5 * k - 1 - (153 * m + 2) mod 5 < 153 \<and> 5 * k - 1 \<ge> (153 * m + 2) mod 5"
    using assms(3-5) by (cases rule: month_cases [OF assms(1,2)]) simp_all
  moreover obtain s where s: "153 * m + 2 = 5 * ((153 * m + 2) div 5) + s" "0 \<le> s" "s < 5"
      "s = (153 * m + 2) mod 5"
    using div_rem_int [where b = 5 and a = "153 * m + 2", OF zero_less_numeral] by blast
  ultimately have b: "5 * k - 1 - s < 153" "s \<le> 5 * k - 1" by simp_all
  have e: "5 * e - 3 = 153 * m + 5 * k - 1 - s" using s(1) by (simp add: e_def)
  show "(5 * e - 3) div 153 = m" by (rule div_eq_intI) (use e b in linarith)+
  show "(5 * e - 3 - 153 * m + 5) div 5 = k" by (rule div_eq_intI) (use e s in linarith)+
qed

subsection \<open>Years that begin in March\<close>

text \<open>
  A date as the conversion routines see it: the century and year of a year that begins on the first
  of March, the month counted from March and the day of the month.
\<close>

definition march_day :: "int \<Rightarrow> int \<Rightarrow> int \<Rightarrow> int \<Rightarrow> int" where
  "march_day c y m k = 146097 * c div 4 + 1461 * y div 4 + (153 * m + 2) div 5 + k"

definition march_valid :: "int \<Rightarrow> int \<Rightarrow> int \<Rightarrow> int \<Rightarrow> bool" where
  "march_valid c y m k \<longleftrightarrow> 0 \<le> c \<and> 0 \<le> y \<and> y \<le> 99 \<and> 0 \<le> m \<and> m \<le> 11 \<and> 1 \<le> k
     \<and> k \<le> month_days (100 * c + y + (if m < 10 then 0 else 1)) (if m < 10 then m + 2 else m - 10)"

definition march_tm :: "int \<Rightarrow> int \<Rightarrow> int \<Rightarrow> int \<Rightarrow> int \<times> int \<times> int" where
  "march_tm c y m k =
     (if m < 10 then (100 * c + y - 1900, m + 2, k) else (100 * c + y + 1 - 1900, m - 10, k))"

definition tm_date :: "tm \<Rightarrow> int \<times> int \<times> int" where
  "tm_date t = (tm_year t, tm_mon t, tm_mday t)"

lemma leap_march:
  fixes c y :: int
  assumes "0 \<le> y" and "y \<le> 99"
  shows "leap (100 * c + y + 1) \<longleftrightarrow> y mod 4 = 3 \<and> (y = 99 \<longrightarrow> c mod 4 = 3)"
proof (cases "y = 99")
  case True
  have "(400 dvd 100 * c + 100) = (100 * 4 dvd 100 * (c + 1))" by (simp add: distrib_left)
  also have "\<dots> = (4 dvd c + 1)" by (rule dvd_mult_cancel_left [THEN trans]) simp
  also have "\<dots> = (c mod 4 = 3)" by presburger
  finally have "(400 dvd 100 * c + 100) = (c mod 4 = 3)" .
  moreover have "100 dvd 100 * c + 100" by simp
  ultimately show ?thesis using True by (simp add: leap_def add.commute)
next
  case False
  have "\<not> 100 dvd y + 1" using assms False zdvd_not_zless by force
  then have h: "\<not> 100 dvd 100 * c + y + 1"
    by (metis add.assoc dvd_add_right_iff dvd_triv_left)
  then have "\<not> 400 dvd 100 * c + y + 1"
    using dvd_trans [of 100 400 "100 * c + y + 1"] by auto
  moreover have "4 dvd 100 * c + y + 1 \<longleftrightarrow> y mod 4 = 3" by presburger
  ultimately show ?thesis using False h by (simp add: leap_def)
qed

lemma march_of_day:
  assumes "1 \<le> N"
  defines "c \<equiv> (4 * N - 1) div 146097"
  defines "d \<equiv> (4 * N - 1 - 146097 * c) div 4"
  defines "y \<equiv> (4 * d + 3) div 1461"
  defines "e \<equiv> (4 * d + 3 - 1461 * y + 4) div 4"
  defines "m \<equiv> (5 * e - 3) div 153"
  defines "k \<equiv> (5 * e - 3 - 153 * m + 5) div 5"
  shows "march_day c y m k = N" and "march_valid c y m k"
proof -
  note C = century_step [OF assms(1), folded c_def, folded d_def]
  note Y = year_step [OF C(3,4), folded y_def, folded e_def]
  note M = month_step [OF Y(4,5), folded m_def, folded k_def]
  have "march_day c y m k = 146097 * c div 4 + (1461 * y div 4 + ((153 * m + 2) div 5 + k))"
    by (simp add: march_day_def)
  also have "\<dots> = N" unfolding M(1) Y(1) using C(1) by (simp only: add.assoc)
  finally show "march_day c y m k = N" .
  have "m = 11 \<Longrightarrow> k = 29 \<Longrightarrow> leap (100 * c + y + 1)"
    unfolding leap_march [OF Y(2,3)] using C(5) Y(6,7) M(8) by blast
  then have "m = 11 \<Longrightarrow> \<not> leap (100 * c + y + 1) \<Longrightarrow> k \<le> 28" using M(7) by fastforce
  then show "march_valid c y m k"
    using C(2) Y(2,3) M(2-7) unfolding march_valid_def
    by (cases rule: month_cases [OF M(2,3)]) (auto simp: month_days_def)
qed

lemma day_of_march:
  assumes "march_valid c y m k"
  defines "N \<equiv> march_day c y m k"
  defines "d \<equiv> 1461 * y div 4 + (153 * m + 2) div 5 + k - 1" and "e \<equiv> (153 * m + 2) div 5 + k"
  shows "1 \<le> N" and "(4 * N - 1) div 146097 = c" and "(4 * N - 1 - 146097 * c) div 4 = d"
    and "(4 * d + 3) div 1461 = y" and "(4 * d + 3 - 1461 * y + 4) div 4 = e"
    and "(5 * e - 3) div 153 = m" and "(5 * e - 3 - 153 * m + 5) div 5 = k"
proof -
  have b: "0 \<le> c" "0 \<le> y" "y \<le> 99" "0 \<le> m" "m \<le> 11" "1 \<le> k"
    using assms(1) by (simp_all add: march_valid_def)
  have k: "k \<le> 31" "m \<in> {1, 3, 6, 8, 11} \<Longrightarrow> k \<le> 30" and e: "1 \<le> e" "e \<le> 366"
    and l: "e = 366 \<Longrightarrow> leap (100 * c + y + 1)"
    using assms(1) unfolding march_valid_def e_def
    by (cases rule: month_cases [OF b(4,5)]; auto simp: month_days_def split: if_splits)+
  note l' = l [unfolded leap_march [OF b(2,3)]]
  have d: "d = 1461 * y div 4 + e - 1" by (simp add: d_def e_def)
  have "0 \<le> 1461 * y div 4" "1461 * y div 4 \<le> 36159" using b(2,3) by linarith+
  moreover have "1461 * y div 4 \<le> 35794" if "y \<noteq> 99"
    using zdiv_mono1 [of "1461 * y" "1461 * 98" 4] that b(3) by simp
  ultimately have dr: "0 \<le> d" "d \<le> 36524" "d = 36524 \<Longrightarrow> c mod 4 = 3"
    using d e l' by (cases "y = 99"; cases "e = 366"; simp)+
  have N: "N = 146097 * c div 4 + d + 1" by (simp add: N_def march_day_def d_def)
  show "1 \<le> N" using N dr(1) b(1) by (simp add: pos_imp_zdiv_nonneg_iff)
  show "(4 * N - 1) div 146097 = c" "(4 * N - 1 - 146097 * c) div 4 = d"
    using century_step_inv [OF b(1) dr] N by simp_all
  show "(4 * d + 3) div 1461 = y" "(4 * d + 3 - 1461 * y + 4) div 4 = e"
    using year_step_inv [OF e, of y] l' d by simp_all
  show "(5 * e - 3) div 153 = m" "(5 * e - 3 - 153 * m + 5) div 5 = k"
    using month_step_inv [OF b(4-6) k] e_def by simp_all
qed

subsection \<open>The conversions over these years\<close>

lemma march_nonneg:
  assumes "march_valid c y m k"
  shows "0 \<le> 146097 * c div 4" and "0 \<le> 1461 * y div 4" and "0 \<le> (153 * m + 2) div 5"
  using assms by (simp_all add: march_valid_def pos_imp_zdiv_nonneg_iff)

lemma rem_nonneg_int: "a div b = q \<Longrightarrow> 0 < b \<Longrightarrow> 0 \<le> a - b * q" for a b q :: int
  by (metis minus_mult_div_eq_mod pos_mod_sign)

lemma cdivI: "0 \<le> a \<Longrightarrow> a div b = q \<Longrightarrow> cdiv a b = q"
  by simp

lemma decode_date_march:
  assumes "march_valid c y m k" and "n + 678882 = march_day c y m k"
  shows "tm_date (decode_date n) = march_tm c y m k"
proof -
  define N where "N = n + 678882"
  define d where "d = 1461 * y div 4 + (153 * m + 2) div 5 + k - 1"
  define e where "e = (153 * m + 2) div 5 + k"
  note D = day_of_march [OF assms(1), folded assms(2), folded N_def, folded d_def, folded e_def]
  have ed: "1 \<le> e" "0 \<le> d"
    using march_nonneg [OF assms(1)] assms(1) by (simp_all add: e_def d_def march_valid_def)
  note R = rem_nonneg_int [OF D(2) zero_less_numeral] rem_nonneg_int [OF D(4) zero_less_numeral]
    rem_nonneg_int [OF D(6) zero_less_numeral]
  have "cdiv (4 * N - 1) 146097 = c" by (rule cdivI [OF _ D(2)]) (use D(1) in simp)
  moreover have "cdiv (4 * N - 1 - 146097 * c) 4 = d" by (rule cdivI [OF R(1) D(3)])
  moreover have "cdiv (4 * d + 3) 1461 = y" by (rule cdivI [OF _ D(4)]) (use ed in simp)
  moreover have "cdiv (4 * d + 3 - 1461 * y + 4) 4 = e" by (rule cdivI [OF _ D(5)]) (use R(2) in simp)
  moreover have "cdiv (5 * e - 3) 153 = m" by (rule cdivI [OF _ D(6)]) (use ed in simp)
  moreover have "cdiv (5 * e - 3 - 153 * m + 5) 5 = k" by (rule cdivI [OF _ D(7)]) (use R(3) in simp)
  moreover have "n + (2400001 - 1721119) = N" by (simp add: N_def)
  ultimately show ?thesis
    unfolding tm_date_def decode_date_simps decode_date_fields_def Let_def march_tm_def
    by (simp split: prod.splits)
qed

lemma encode_date_march:
  assumes "march_valid c y m k" and "tm_date t = march_tm c y m k"
    and "march_day c y m k \<le> 2147483647"
  shows "encode_date t = march_day c y m k - 678882"
proof -
  have b: "0 \<le> c" "0 \<le> y" "y \<le> 99" "0 \<le> m" "1 \<le> k" using assms(1) by (simp_all add: march_valid_def)
  have t: "tm_mday t = k"
      "tm_mon t = (if m < 10 then m + 2 else m - 10)"
      "tm_year t + 1900 = (if m < 10 then 100 * c + y else 100 * c + y + 1)"
    using assms(2) by (auto simp: tm_date_def march_tm_def split: if_splits)
  have my: "(if 2 < tm_mon t + 1 then (tm_mon t + 1 - 3, tm_year t + 1900)
      else (tm_mon t + 1 + 9, tm_year t + 1900 - 1)) = (m, 100 * c + y)"
    using t assms(1) by (auto simp: march_valid_def)
  have c: "cdiv (100 * c + y) 100 = c"
    using b by (intro cdivI div_eq_intI) auto
  have r: "march_day c y m k - 678882 \<ge> - 678882"
    using march_nonneg [OF assms(1)] b(5) unfolding march_day_def by linarith
  have e: "cdiv (146097 * c) 4 + cdiv (1461 * y) 4 + cdiv (153 * m + 2) 5 + k + 1721119 - 2400001
      = march_day c y m k - 678882"
    using b by (simp add: march_day_def)
  have "encode_date t = to_isc_date (march_day c y m k - 678882)"
    unfolding encode_date_def Let_def my t(1) e [symmetric] by (simp add: c)
  also have "\<dots> = march_day c y m k - 678882"
    using r assms(3) by (simp add: to_isc_date_def)
  finally show ?thesis .
qed

lemma civil_march:
  assumes "valid_civil y m d"
  obtains c a q where "march_valid c a q d" and "march_tm c a q d = (y - 1900, m, d)"
proof -
  define z where "z = (if m < 2 then y - 1 else y)"
  define q where "q = (if m < 2 then m + 10 else m - 2)"
  have z: "0 \<le> z" "100 * (z div 100) + z mod 100 = z" "0 \<le> z mod 100" "z mod 100 \<le> 99"
    using assms pos_mod_bound [of 100 z] by (auto simp: z_def valid_civil_def MIN_YEAR_def)
  have "march_valid (z div 100) (z mod 100) q d"
    using z assms unfolding march_valid_def by (auto simp: z_def q_def valid_civil_def pos_imp_zdiv_nonneg_iff)
  moreover have "march_tm (z div 100) (z mod 100) q d = (y - 1900, m, d)"
    using z assms by (auto simp: march_tm_def z_def q_def valid_civil_def)
  ultimately show thesis by (rule that)
qed

lemma march_day_of_year:
  assumes "march_valid c y m k"
  defines "e \<equiv> (153 * m + 2) div 5 + k"
  shows "1 \<le> e" and "e \<le> 366" and "m < 10 \<longleftrightarrow> e \<le> 306"
proof -
  have m: "0 \<le> m" "m \<le> 11" using assms(1) by (simp_all add: march_valid_def)
  show "1 \<le> e" "e \<le> 366" "m < 10 \<longleftrightarrow> e \<le> 306"
    using assms(1) unfolding march_valid_def e_def
    by (cases rule: month_cases [OF m]; auto simp: month_days_def split: if_splits)+
qed

lemma march_year_range:
  assumes "march_valid c y m k"
  defines "z \<equiv> 100 * c + y + (if m < 10 then 0 else 1)"
  shows "MIN_YEAR \<le> z \<and> z \<le> MAX_YEAR \<longleftrightarrow> 307 \<le> march_day c y m k \<and> march_day c y m k \<le> 3652365"
proof -
  define e u v where "e = (153 * m + 2) div 5 + k" and "u = 1461 * y div 4" and "v = 146097 * c div 4"
  note E = march_day_of_year [OF assms(1), folded e_def]
  have b: "0 \<le> c" "0 \<le> y" "y \<le> 99" using assms(1) by (simp_all add: march_valid_def)
  have N: "march_day c y m k = v + u + e" by (simp add: march_day_def e_def u_def v_def)
  have u: "0 \<le> u" "u \<le> 36159" "y \<ge> 1 \<Longrightarrow> 365 \<le> u" "y \<le> 98 \<Longrightarrow> u \<le> 35794" "y = 0 \<Longrightarrow> u = 0"
      "y = 99 \<Longrightarrow> u = 36159"
    using b zdiv_mono1 [of "1461 * y" "1461 * 99" 4] zdiv_mono1 [of "1461 * 1" "1461 * y" 4]
      zdiv_mono1 [of "1461 * y" "1461 * 98" 4]
    by (simp_all add: u_def pos_imp_zdiv_nonneg_iff)
  have v: "0 \<le> v" "c \<ge> 1 \<Longrightarrow> 36524 \<le> v" "c \<le> 98 \<Longrightarrow> v \<le> 3579376" "c \<ge> 100 \<Longrightarrow> 3652425 \<le> v"
      "c = 0 \<Longrightarrow> v = 0" "c = 99 \<Longrightarrow> v = 3615900"
    using b zdiv_mono1 [of "146097 * 1" "146097 * c" 4] zdiv_mono1 [of "146097 * c" "146097 * 98" 4]
      zdiv_mono1 [of "146097 * 100" "146097 * c" 4]
    by (simp_all add: v_def pos_imp_zdiv_nonneg_iff)
  have "1 \<le> z \<longleftrightarrow> 307 \<le> v + u + e"
    using E(1,3) b u(1,3,5) v(1,2,5) by (cases "c = 0"; cases "y = 0") (auto simp: z_def)
  moreover have "z \<le> 9999 \<longleftrightarrow> v + u + e \<le> 3652365"
  proof (cases "c = 99")
    case True
    then show ?thesis using E b u v(6) by (cases "y = 99") (auto simp: z_def)
  next
    case False
    then show ?thesis using E b u(1,2) v(1,3,4) by (cases "c \<le> 98") (auto simp: z_def)
  qed
  ultimately show ?thesis by (simp add: N MIN_YEAR_def MAX_YEAR_def)
qed

text \<open>Every supported day number is a March date, and every date of the civil calendar one in range.\<close>

lemma march_civil:
  assumes "march_valid c y m k" and "march_tm c y m k = (yr, mo, d)"
    and "307 \<le> march_day c y m k" and "march_day c y m k \<le> 3652365"
  shows "valid_civil (yr + 1900) mo d"
  using march_year_range [OF assms(1)] assms
  by (auto simp: march_tm_def march_valid_def valid_civil_def add.commute [of 1] split: if_splits)

lemma supported_march:
  assumes "- 678575 \<le> n" and "n \<le> 2973483"
  obtains c y m k where "march_valid c y m k" and "n + 678882 = march_day c y m k"
proof -
  have N: "1 \<le> n + 678882" using assms(1) by simp
  show thesis by (rule that [OF march_of_day(2) [OF N] march_of_day(1) [OF N, symmetric]])
qed

lemma civil_supported:
  assumes "valid_civil y m d"
  obtains c a q where "march_valid c a q d" and "march_tm c a q d = (y - 1900, m, d)"
    and "307 \<le> march_day c a q d" and "march_day c a q d \<le> 3652365"
proof -
  obtain c a q where M: "march_valid c a q d" "march_tm c a q d = (y - 1900, m, d)"
    using civil_march [OF assms] by blast
  then have "307 \<le> march_day c a q d \<and> march_day c a q d \<le> 3652365"
    using march_year_range [OF M(1)] assms
    by (auto simp: march_tm_def valid_civil_def split: if_splits)
  then show thesis using that M by blast
qed

text \<open>One day further in the civil calendar, and in the calendar that begins in March.\<close>

definition next_civil :: "int \<times> int \<times> int \<Rightarrow> int \<times> int \<times> int" where
  "next_civil = (\<lambda>(y, m, d).
     if d < month_days y m then (y, m, d + 1)
     else if m < 11 then (y, m + 1, 1) else (y + 1, 0, 1))"

definition march_civil_date :: "int \<Rightarrow> int \<Rightarrow> int \<Rightarrow> int \<Rightarrow> int \<times> int \<times> int" where
  "march_civil_date c y m k =
     (100 * c + y + (if m < 10 then 0 else 1), if m < 10 then m + 2 else m - 10, k)"

lemma march_tm_civil: "march_tm c y m k = (case march_civil_date c y m k of (yr, mo, d) \<Rightarrow> (yr - 1900, mo, d))"
  by (simp add: march_tm_def march_civil_date_def)

lemma div4_step: "(4 * q + 1) * (a + 1) div 4 = (4 * q + 1) * a div 4 + q + (if a mod 4 = 3 then 1 else 0)" for q a :: int
proof -
  have "(4 * q + 1) * (a + 1) div 4 = q * (a + 1) + (a + 1) div 4"
    using div_mult_self2 [of 4 "a + 1" "q * (a + 1)"] by (simp add: algebra_simps)
  moreover have "(4 * q + 1) * a div 4 = q * a + a div 4"
    using div_mult_self2 [of 4 a "q * a"] by (simp add: algebra_simps)
  moreover have "(a + 1) div 4 = a div 4 + (if a mod 4 = 3 then 1 else 0)" by presburger
  ultimately show ?thesis by (simp add: algebra_simps)
qed

lemmas year_days_step = div4_step [of 365, simplified] and century_days_step = div4_step [of 36524, simplified]

lemma march_next:
  assumes "march_valid c y m k"
  obtains c' y' m' k' where "march_valid c' y' m' k'" and "march_day c' y' m' k' = march_day c y m k + 1"
    and "march_civil_date c' y' m' k' = next_civil (march_civil_date c y m k)"
proof -
  define yr mo where "yr = 100 * c + y + (if m < 10 then 0 else 1)" and "mo = (if m < 10 then m + 2 else m - 10)"
  have b: "0 \<le> c" "0 \<le> y" "y \<le> 99" "0 \<le> m" "m \<le> 11" "1 \<le> k" "k \<le> month_days yr mo"
    using assms by (simp_all add: march_valid_def yr_def mo_def)
  consider "k < month_days yr mo" | "k = month_days yr mo" "m < 11"
    | "k = month_days yr mo" "m = 11" "y < 99" | "k = month_days yr mo" "m = 11" "y = 99"
    using b by linarith
  then show thesis
  proof cases
    case 1
    then show thesis using b
      by (intro that [of c y m "k + 1"])
        (simp_all add: march_valid_def march_day_def march_civil_date_def next_civil_def yr_def mo_def)
  next
    case 2
    have "(153 * (m + 1) + 2) div 5 = (153 * m + 2) div 5 + k"
      using 2 by (cases rule: month_cases [OF b(4,5)]) (simp_all add: month_days_def mo_def)
    then have "march_day c y (m + 1) 1 = march_day c y m k + 1" by (simp add: march_day_def)
    moreover have "march_civil_date c y (m + 1) 1 = next_civil (march_civil_date c y m k)"
      using 2 by (auto simp: march_civil_date_def next_civil_def yr_def mo_def)
    ultimately show thesis using 2 b
      by (intro that [of c y "m + 1" 1]) (auto simp: march_valid_def month_days_def)
  next
    case 3
    have k: "k = (if y mod 4 = 3 then 29 else 28)"
      using 3 leap_march [OF b(2,3), of c] by (auto simp: month_days_def yr_def mo_def)
    have "march_day c (y + 1) 0 1 = march_day c y m k + 1"
      using 3(2) by (simp add: march_day_def year_days_step k)
    then show thesis using 3 b
      by (intro that [of c "y + 1" 0 1])
        (auto simp: march_valid_def month_days_def march_civil_date_def next_civil_def yr_def mo_def)
  next
    case 4
    have k: "k = (if c mod 4 = 3 then 29 else 28)"
      using 4 leap_march [OF b(2,3), of c] by (auto simp: month_days_def yr_def mo_def)
    have "march_day (c + 1) 0 0 1 = march_day c y m k + 1"
      using 4(2,3) by (simp add: march_day_def century_days_step k)
    then show thesis using 4 b
      by (intro that [of "c + 1" 0 0 1])
        (auto simp: march_valid_def month_days_def march_civil_date_def next_civil_def yr_def mo_def)
  qed
qed

subsection \<open>Properties of the date conversions\<close>

text \<open>
  C10. Decoding then encoding is the identity on the supported day numbers (0001-01-01 to
  9999-12-31), and what is decoded is a date of the civil calendar.
\<close>

theorem date_decode_encode:
  assumes "- 678575 \<le> n" and "n \<le> 2973483"
  shows "encode_date (decode_date n) = n \<and>
    valid_civil (tm_year (decode_date n) + 1900) (tm_mon (decode_date n)) (tm_mday (decode_date n))"
proof -
  obtain c y m k where M: "march_valid c y m k" "n + 678882 = march_day c y m k"
    by (rule supported_march [OF assms])
  have r: "307 \<le> march_day c y m k" "march_day c y m k \<le> 3652365"
    using assms unfolding M(2) [symmetric] by simp_all
  note t = decode_date_march [OF M]
  have "encode_date (decode_date n) = march_day c y m k - 678882"
    by (rule encode_date_march [OF M(1) t]) (use r in simp)
  moreover have "valid_civil (tm_year (decode_date n) + 1900) (tm_mon (decode_date n)) (tm_mday (decode_date n))"
    by (rule march_civil [OF M(1) _ r]) (simp add: t [symmetric] tm_date_def)
  ultimately show ?thesis by (simp add: M(2) [symmetric])
qed

theorem date_decode_encode_witness:
  "encode_date (decode_date 51544) = 51544 \<and>
   valid_civil (tm_year (decode_date 51544) + 1900) (tm_mon (decode_date 51544)) (tm_mday (decode_date 51544))"
  by (rule date_decode_encode) simp_all

text \<open>
  C11. Encoding a date of the civil calendar and decoding it gives the date back: distinct dates
  get distinct day numbers, all of them in the supported range.
\<close>

theorem date_encode_decode:
  assumes "valid_civil (tm_year t + 1900) (tm_mon t) (tm_mday t)"
  shows "tm_date (decode_date (encode_date t)) = tm_date t
    \<and> - 678575 \<le> encode_date t \<and> encode_date t \<le> 2973483"
proof -
  obtain c a q where M: "march_valid c a q (tm_mday t)"
      "march_tm c a q (tm_mday t) = (tm_year t + 1900 - 1900, tm_mon t, tm_mday t)"
      "307 \<le> march_day c a q (tm_mday t)" "march_day c a q (tm_mday t) \<le> 3652365"
    by (rule civil_supported [OF assms])
  have t: "tm_date t = march_tm c a q (tm_mday t)" using M(2) by (simp add: tm_date_def)
  have e: "encode_date t = march_day c a q (tm_mday t) - 678882"
    by (rule encode_date_march [OF M(1) t]) (use M(4) in simp)
  have "tm_date (decode_date (encode_date t)) = march_tm c a q (tm_mday t)"
    by (rule decode_date_march [OF M(1)]) (simp add: e)
  then show ?thesis using M(3,4) t e by simp
qed

theorem date_encode_decode_witness:
  "tm_date (decode_date (encode_date \<lparr>tm_sec = 0, tm_min = 0, tm_hour = 0, tm_mday = 29, tm_mon = 1,
     tm_year = 100, tm_wday = 0, tm_yday = 0\<rparr>)) = (100, 1, 29)"
  using date_encode_decode [of "\<lparr>tm_sec = 0, tm_min = 0, tm_hour = 0, tm_mday = 29, tm_mon = 1,
     tm_year = 100, tm_wday = 0, tm_yday = 0\<rparr>"]
  by (simp add: valid_civil_def month_days_def leap_def MIN_YEAR_def MAX_YEAR_def tm_date_def)

definition civil_of :: "int \<Rightarrow> int \<times> int \<times> int" where
  "civil_of n = (tm_year (decode_date n) + 1900, tm_mon (decode_date n), tm_mday (decode_date n))"

lemma civil_of_march:
  "march_valid c y m k \<Longrightarrow> n + 678882 = march_day c y m k \<Longrightarrow> civil_of n = march_civil_date c y m k"
  by (drule (1) decode_date_march) (auto simp: civil_of_def tm_date_def march_tm_civil march_civil_date_def)

lemma cmod_7: "(let w = cmod a 7 in if w < 0 then w + 7 else w) = a mod 7"
proof (cases "0 \<le> a")
  case True
  then show ?thesis by (simp add: Let_def not_less)
next
  case False
  then have "cmod a 7 = - ((- a) mod 7)" by (simp add: cmod_def cdiv_def minus_mult_div_eq_mod [symmetric])
  then show ?thesis by (simp add: Let_def zmod_zminus1_eq_if)
qed

lemma decode_date_wday: "tm_wday (decode_date n) = (n + 3) mod 7"
  using cmod_7 [of "n + 3"] by (simp add: decode_date_fields_def Let_def split: prod.split)

text \<open>
  C12. The day numbers count the days of the civil calendar: day 0 is 17 November 1858, and the day
  after a supported day decodes to the next date of the calendar and the next day of the week.
\<close>

theorem date_decode_next:
  assumes "- 678575 \<le> n" and "n < 2973483"
  shows "civil_of 0 = (1858, 10, 17) \<and> civil_of (n + 1) = next_civil (civil_of n)
    \<and> tm_wday (decode_date (n + 1)) = (tm_wday (decode_date n) + 1) mod 7"
proof -
  have n: "n \<le> 2973483" using assms(2) by simp
  obtain c y m k where M: "march_valid c y m k" "n + 678882 = march_day c y m k"
    by (rule supported_march [OF assms(1) n])
  obtain c' y' m' k' where M': "march_valid c' y' m' k'" "march_day c' y' m' k' = march_day c y m k + 1"
      "march_civil_date c' y' m' k' = next_civil (march_civil_date c y m k)"
    by (rule march_next [OF M(1)])
  have "civil_of (n + 1) = march_civil_date c' y' m' k'"
    by (rule civil_of_march [OF M'(1)]) (simp add: M'(2) M(2) [symmetric])
  then have "civil_of (n + 1) = next_civil (civil_of n)"
    by (simp add: M'(3) civil_of_march [OF M])
  moreover have "civil_of 0 = (1858, 10, 17)" by code_simp
  moreover have "(n + 1 + 3) mod 7 = ((n + 3) mod 7 + 1) mod 7"
    by (metis add.assoc add.commute mod_add_left_eq)
  ultimately show ?thesis by (simp only: decode_date_wday simp_thms)
qed

theorem date_decode_next_witness: "civil_of 51602 = (2000, 1, 28) \<and> civil_of 51603 = (2000, 1, 29)"
proof -
  have "civil_of 51602 = (2000, 1, 28)" by code_simp
  moreover have "civil_of (51602 + 1) = next_civil (civil_of 51602)"
    using date_decode_next [of 51602] by simp
  ultimately show ?thesis by (simp add: next_civil_def month_days_def leap_def)
qed

lemma cdiv_nonpos: "a < 0 \<Longrightarrow> 0 < b \<Longrightarrow> cdiv a b \<le> 0"
  by (simp add: cdiv_def pos_imp_zdiv_nonneg_iff)

lemma cdiv_zero: "- b < a \<Longrightarrow> a < b \<Longrightarrow> cdiv a b = 0"
  by (simp add: cdiv_def)

lemma cdiv_rem_nonpos: "a < 0 \<Longrightarrow> 0 < b \<Longrightarrow> a - b * cdiv a b \<le> 0 \<and> - b < a - b * cdiv a b"
  by (smt (verit) cdiv_def minus_mult_div_eq_mod mult_minus_right pos_mod_bound pos_mod_sign)

lemma year_of_early_day:
  assumes "n + 678882 \<le> 0"
  shows "tm_year (decode_date n) + 1900 \<le> 0"
proof -
  define N c r d y e where "N = n + 678882" and "c = cdiv (4 * N - 1) 146097" and "r = 4 * N - 1 - 146097 * c"
    and "d = cdiv r 4" and "y = cdiv (4 * d + 3) 1461" and "e = cdiv (4 * d + 3 - 1461 * y + 4) 4"
  have n: "n + (2400001 - 1721119) = N" by (simp add: N_def)
  have "4 * N - 1 < 0" using assms by (simp add: N_def)
  then have "c \<le> 0" "r \<le> 0" using cdiv_nonpos cdiv_rem_nonpos by (simp_all add: c_def r_def)
  then have d: "d \<le> 0" by (simp add: d_def cdiv_def pos_imp_zdiv_nonneg_iff)
  have y: "y \<le> 0" using d by (cases "d = 0") (simp_all add: y_def cdiv_def pos_imp_zdiv_nonneg_iff)
  have m: "cdiv (5 * e - 3) 153 < 10" if "y = 0"
  proof -
    have "e \<le> 1" using that d by (simp add: e_def cdiv_def) linarith
    then show ?thesis using pos_imp_zdiv_nonneg_iff [of 153 "3 - 5 * e"]
      by (cases "e = 1") (simp_all add: cdiv_def)
  qed
  have "tm_year (decode_date n) + 1900 = 100 * c + y + (if cdiv (5 * e - 3) 153 < 10 then 0 else 1)"
    unfolding decode_date_simps decode_date_fields_def Let_def n c_def [symmetric] r_def [symmetric] d_def [symmetric]
      y_def [symmetric] e_def [symmetric] by (simp split: prod.split)
  then show ?thesis using \<open>c \<le> 0\<close> y m by (cases "y = 0") auto
qed

lemma year_of_day:
  "MIN_YEAR \<le> tm_year (decode_date n) + 1900 \<and> tm_year (decode_date n) + 1900 \<le> MAX_YEAR
     \<longleftrightarrow> - 678575 \<le> n \<and> n \<le> 2973483"
proof (cases "1 \<le> n + 678882")
  case False
  then show ?thesis using year_of_early_day [of n] by (simp add: MIN_YEAR_def)
next
  case True
  then obtain c y m k where M: "march_valid c y m k" "n + 678882 = march_day c y m k"
    by (metis march_of_day)
  have "tm_year (decode_date n) + 1900 = 100 * c + y + (if m < 10 then 0 else 1)"
    using decode_date_march [OF M] by (auto simp: tm_date_def march_tm_def split: if_splits)
  then show ?thesis using march_year_range [OF M(1)] by (simp add: M(2) [symmetric]) auto
qed

text \<open>
  C13. The range check accepts exactly the empty date and the day numbers from 0001-01-01 to
  9999-12-31, among all day numbers for which the conversion does not overflow 32 bits.
\<close>

theorem timestamp_range_check:
  assumes "- 537549793 \<le> timestamp_date ts" and "timestamp_date ts \<le> 536192029"
  shows "isRangeValid ts \<longleftrightarrow>
    timestamp_date ts = 0 \<or> (- 678575 \<le> timestamp_date ts \<and> timestamp_date ts \<le> 2973483)"
  using year_of_day [of "timestamp_date ts"]
  by (simp add: isRangeValid_def timestamp_decode_def Let_def)

theorem timestamp_range_check_witness:
  "isRangeValid \<lparr>timestamp_date = 2973483, timestamp_time = 0\<rparr>
   \<and> \<not> isRangeValid \<lparr>timestamp_date = 2973484, timestamp_time = 0\<rparr>
   \<and> \<not> isRangeValid \<lparr>timestamp_date = - 678576, timestamp_time = 0\<rparr>"
  using timestamp_range_check [of "\<lparr>timestamp_date = 2973483, timestamp_time = 0\<rparr>"]
    timestamp_range_check [of "\<lparr>timestamp_date = 2973484, timestamp_time = 0\<rparr>"]
    timestamp_range_check [of "\<lparr>timestamp_date = - 678576, timestamp_time = 0\<rparr>"]
  by simp

lemma yday_civil:
  assumes "valid_civil (tm_year t + 1900) (tm_mon t) (tm_mday t)"
  shows "yday t = days_before_month (tm_year t + 1900) (tm_mon t) + tm_mday t - 1"
proof -
  have m: "0 \<le> tm_mon t" "tm_mon t \<le> 11" and y: "0 \<le> tm_year t + 1900"
    using assms by (simp_all add: valid_civil_def MIN_YEAR_def)
  have l: "leap (tm_year t + 1900) \<longleftrightarrow> (cmod (tm_year t + 1900) 4 = 0 \<and> cmod (tm_year t + 1900) 100 \<noteq> 0)
      \<or> cmod (tm_year t + 1900) 400 = 0"
    using y by (simp add: leap_def dvd_eq_mod_eq_0)
  show ?thesis
    by (cases rule: month_cases [OF m])
      (simp_all add: yday_def Let_def days_before_month_def month_days_def upto_rec1 l [symmetric])
qed

lemma decode_date_yday: "tm_yday (decode_date n) = yday (decode_date n)"
  by (simp add: decode_date_def Let_def yday_def)

text \<open>
  The day of the year that the decoding stores is the number of days since the first of
  January of the decoded year.
\<close>

theorem date_decode_yday:
  assumes "- 678575 \<le> n" and "n \<le> 2973483"
  shows "tm_yday (decode_date n) =
    days_before_month (tm_year (decode_date n) + 1900) (tm_mon (decode_date n)) + tm_mday (decode_date n) - 1"
proof -
  obtain c y m k where M: "march_valid c y m k" "n + 678882 = march_day c y m k"
    by (rule supported_march [OF assms])
  have "valid_civil (tm_year (decode_date n) + 1900) (tm_mon (decode_date n)) (tm_mday (decode_date n))"
    by (rule march_civil [OF M(1)])
      (use decode_date_march [OF M] assms in \<open>simp_all add: M(2) [symmetric] tm_date_def\<close>)
  from yday_civil [OF this] show ?thesis by (simp only: decode_date_yday)
qed

theorem date_decode_yday_witness: "tm_yday (decode_date 51604) = 31 + 29"
proof -
  have "civil_of 51604 = (2000, 2, 1)" by code_simp
  then show ?thesis using date_decode_yday [of 51604]
    by (simp add: civil_of_def days_before_month_def month_days_def leap_def upto_rec1)
qed

subsection \<open>Properties of the time conversions\<close>

lemma div_mod_intI: "a = b * q + r \<Longrightarrow> 0 \<le> r \<Longrightarrow> r < b \<Longrightarrow> a div b = q \<and> a mod b = r" for a b q r :: int
  by auto

lemma decode_time_encode_time:
  assumes "0 \<le> h" and "h < 24" and "0 \<le> mi" and "mi < 60" and "0 \<le> s" and "s < 60" and "0 \<le> f" and "f < 10000"
  shows "decode_time (encode_time h mi s f) = (h, mi, s, f)"
proof -
  define t where "t = 36000000 * h + (600000 * mi + (10000 * s + f))"
  have "((h * 60 + mi) * 60 + s) * 10000 + f = t" by (simp add: t_def)
  moreover have "0 \<le> t" "t < 2 ^ 32" using assms by (simp_all add: t_def)
  ultimately have e: "encode_time h mi s f = t"
    by (simp add: encode_time_def to_isc_time_def ISC_TIME_SECONDS_PRECISION_def)
  have "t div 36000000 = h \<and> t mod 36000000 = 600000 * mi + (10000 * s + f)"
    by (rule div_mod_intI) (use assms in \<open>simp_all add: t_def\<close>)
  moreover have "(600000 * mi + (10000 * s + f)) div 600000 = mi
      \<and> (600000 * mi + (10000 * s + f)) mod 600000 = 10000 * s + f"
    by (rule div_mod_intI) (use assms in simp_all)
  moreover have "(10000 * s + f) div 10000 = s \<and> (10000 * s + f) mod 10000 = f"
    by (rule div_mod_intI) (use assms in simp_all)
  ultimately show ?thesis
    unfolding e decode_time_def Let_def ISC_TIME_SECONDS_PRECISION_def by simp
qed

lemma encode_time_decode_time:
  assumes "0 \<le> t" and "t < 864000000"
  obtains h mi s f where "decode_time t = (h, mi, s, f)" and "encode_time h mi s f = t"
    and "0 \<le> h" and "h < 24" and "0 \<le> mi" and "mi < 60" and "0 \<le> s" and "s < 60" and "0 \<le> f" and "f < 10000"
proof -
  define r q where "r = t mod 36000000" and "q = r mod 600000"
  have r: "0 \<le> r" "r < 36000000" "t = 36000000 * (t div 36000000) + r" by (simp_all add: r_def)
  have q: "0 \<le> q" "q < 600000" "r = 600000 * (r div 600000) + q" by (simp_all add: q_def)
  have f: "0 \<le> q mod 10000" "q mod 10000 < 10000" "q = 10000 * (q div 10000) + q mod 10000" by simp_all
  have "((t div 36000000 * 60 + r div 600000) * 60 + q div 10000) * 10000 + q mod 10000 = t"
    using r(3) q(3) f(3) by (simp add: algebra_simps)
  then have "encode_time (t div 36000000) (r div 600000) (q div 10000) (q mod 10000) = t"
    using assms by (simp add: encode_time_def to_isc_time_def ISC_TIME_SECONDS_PRECISION_def)
  moreover have "decode_time t = (t div 36000000, r div 600000, q div 10000, q mod 10000)"
    by (simp add: decode_time_def Let_def ISC_TIME_SECONDS_PRECISION_def r_def q_def)
  moreover have "t div 36000000 < 24" using zdiv_mono1 [of t "863999999" 36000000] assms(2) by simp
  moreover have "r div 600000 < 60" using zdiv_mono1 [of r "35999999" 600000] r(2) by simp
  moreover have "q div 10000 < 60" using zdiv_mono1 [of q "599999" 10000] q(2) by simp
  ultimately show thesis
    using that assms(1) r(1) q(1) f(1,2) by (simp add: pos_imp_zdiv_nonneg_iff)
qed

text \<open>
  C15. A time of day splits into hours, minutes, seconds and ten-thousandths within their ranges,
  and encoding the parts gives the time back; conversely the parts of a valid time survive
  encoding and decoding.
\<close>

theorem time_roundtrip:
  assumes "0 \<le> t" and "t < 864000000"
    and "0 \<le> h" and "h < 24" and "0 \<le> mi" and "mi < 60" and "0 \<le> s" and "s < 60" and "0 \<le> f" and "f < 10000"
  shows "(case decode_time t of (hh, mm, ss, ff) \<Rightarrow> encode_time hh mm ss ff = t
      \<and> 0 \<le> hh \<and> hh < 24 \<and> 0 \<le> mm \<and> mm < 60 \<and> 0 \<le> ss \<and> ss < 60 \<and> 0 \<le> ff \<and> ff < 10000)
    \<and> decode_time (encode_time h mi s f) = (h, mi, s, f)"
proof
  show "decode_time (encode_time h mi s f) = (h, mi, s, f)"
    by (rule decode_time_encode_time) fact+
next
  obtain hh mm ss ff where "decode_time t = (hh, mm, ss, ff)" "encode_time hh mm ss ff = t"
    "0 \<le> hh" "hh < 24" "0 \<le> mm" "mm < 60" "0 \<le> ss" "ss < 60" "0 \<le> ff" "ff < 10000"
    by (rule encode_time_decode_time [OF assms(1,2)])
  then show "case decode_time t of (hh, mm, ss, ff) \<Rightarrow> encode_time hh mm ss ff = t
      \<and> 0 \<le> hh \<and> hh < 24 \<and> 0 \<le> mm \<and> mm < 60 \<and> 0 \<le> ss \<and> ss < 60 \<and> 0 \<le> ff \<and> ff < 10000"
    by simp
qed

theorem time_roundtrip_witness: "decode_time 863999999 = (23, 59, 59, 9999) \<and> decode_time (encode_time 12 30 15 1) = (12, 30, 15, 1)"
proof -
  have "decode_time (encode_time 12 30 15 1) = (12, 30, 15, 1)"
    using time_roundtrip [of 863999999 12 30 15 1] by simp
  moreover have "decode_time 863999999 = (23, 59, 59, 9999)"
    by (simp add: decode_time_def ISC_TIME_SECONDS_PRECISION_def)
  ultimately show ?thesis by simp
qed

lemma encode_date_time_fields [simp]:
  "encode_date (t\<lparr>tm_hour := h, tm_min := mi, tm_sec := s\<rparr>) = encode_date t"
  by (simp add: encode_date_def)

lemma seconds_of_time:
  fixes t :: int
  shows "600000 * (t div 600000) + t div 10000 mod 60 * 10000 = t - t mod 10000"
proof -
  have "t div 600000 = t div 10000 div 60" using zdiv_zmult2_eq [of 60 t 10000] by simp
  then have "t div 600000 * 60 + t div 10000 mod 60 = t div 10000" by (simp only: div_mult_mod_eq)
  then have "(t div 600000 * 60 + t div 10000 mod 60) * 10000 = t - t mod 10000"
    by (simp only: minus_mod_eq_div_mult)
  then show ?thesis by simp
qed

text \<open>
  Decoding a timestamp of the supported range into calendar fields and encoding the fields
  gives back the timestamp rounded down to whole seconds, exactly as \<open>round_time\<close> rounds it.
\<close>

theorem timestamp_decode_encode:
  assumes "- 678575 \<le> timestamp_date ts" and "timestamp_date ts \<le> 2973483"
    and "0 \<le> timestamp_time ts" and "timestamp_time ts < 864000000"
  shows "round_time (timestamp_time ts) 0 = Some t \<longrightarrow>
    timestamp_encode (timestamp_decode ts) = ts\<lparr>timestamp_time := t\<rparr>"
proof -
  obtain c y m k where M: "march_valid c y m k" "timestamp_date ts + 678882 = march_day c y m k"
    by (rule supported_march [OF assms(1,2)])
  have "encode_date (decode_date (timestamp_date ts)) = timestamp_date ts"
    using encode_date_march [OF M(1) decode_date_march [OF M]] assms(2) M(2) by simp
  moreover have "0 \<le> timestamp_time ts - timestamp_time ts mod 10000"
    using assms(3) by (simp add: minus_mod_eq_div_mult pos_imp_zdiv_nonneg_iff)
  moreover have "timestamp_time ts - timestamp_time ts mod 10000 < 2 ^ 32"
    using assms(4) pos_mod_sign [of 10000 "timestamp_time ts"] by simp
  ultimately show ?thesis
    by (cases ts) (simp add: timestamp_encode_def timestamp_decode_def Let_def seconds_of_time
        to_isc_time_def ISC_TIME_SECONDS_PRECISION_def round_time_def)
qed

theorem timestamp_decode_encode_witness:
  "timestamp_encode (timestamp_decode \<lparr>timestamp_date = 51602, timestamp_time = 123456789\<rparr>)
   = \<lparr>timestamp_date = 51602, timestamp_time = 123450000\<rparr>"
  using timestamp_decode_encode [of "\<lparr>timestamp_date = 51602, timestamp_time = 123456789\<rparr>" 123450000]
  by (simp add: round_time_def)

end
