(* ===== verification/FB_Clumplet.thy ===== *)
theory FB_Clumplet
  imports FB_Prelude
begin

section \<open>Parameter blocks (\<^verbatim>\<open>src/src/common/classes/ClumpletReader.cpp\<close>, \<^verbatim>\<open>ClumpletWriter.cpp\<close>)\<close>

text \<open>
  A parameter block is a byte buffer that holds an optional tag followed by clumplets, each a tag
  byte, perhaps a length, and data. The class \<^verbatim>\<open>ClumpletReader\<close> navigates in it,
  \<^verbatim>\<open>ClumpletWriter\<close> extends it by the edit operations: the record of the writer extends
  the record of the reader, and the reading operations are polymorphic in the extension. The
  dynamic buffer is the list of its bytes (that the array class implements such a list is shown in
  the theory of the containers). The virtual error handlers end in a raise, so a call of them is a
  left value of the result type; what they do before they raise, the dump of the block to the log, is
  modelled on its own (\<open>dump\<close>, and \<open>reported\<close>, which runs it on the outcome of an operation).
  Every read of the buffer goes through \<open>byte_at\<close>, which yields \<open>out_of_bounds\<close> where
  the C++ code would read memory it does not own.
\<close>

datatype Kind = Tagged | UnTagged | SpbAttach | SpbStart | Tpb | WideTagged | WideUnTagged | SpbItems

datatype ClumpletType = TraditionalDpb | SingleTpb | StringSpb | IntSpb | ByteSpb | Wide

datatype clump_error = usage_mistake string | invalid_structure string | size_overflow | out_of_bounds

record clumplets =
  kind :: Kind
  static_buffer :: "byte list option"
  cur_offset :: nat
  spbState :: byte

record clumplet_writer = clumplets +
  sizeLimit :: nat

type_synonym 'a clump_result = "(clump_error, 'a) result"

definition isc_spb_version1 :: byte where "isc_spb_version1 = 1"
definition isc_spb_version :: byte where "isc_spb_version = 2"
definition isc_tpb_lock_read :: byte where "isc_tpb_lock_read = 10"
definition isc_tpb_lock_write :: byte where "isc_tpb_lock_write = 11"

text \<open>\<open>None\<close> is the null pointer.\<close>

definition buffer_bytes :: "'z clumplets_scheme \<Rightarrow> byte list" where
  "buffer_bytes r = (case static_buffer r of None \<Rightarrow> [] | Some b \<Rightarrow> b)"

definition byte_at :: "'z clumplets_scheme \<Rightarrow> nat \<Rightarrow> byte clump_result" where
  "byte_at r i = (if i < length (buffer_bytes r) then Inr (buffer_bytes r ! i) else Inl out_of_bounds)"

definition getBufferLength :: "'z clumplets_scheme \<Rightarrow> nat" where
  "getBufferLength r =
     (let rc = length (buffer_bytes r) in
      if rc = 1 \<and> kind r \<noteq> UnTagged \<and> kind r \<noteq> SpbStart \<and> kind r \<noteq> WideUnTagged \<and> kind r \<noteq> SpbItems
      then 0 else rc)"

definition isEof :: "'z clumplets_scheme \<Rightarrow> bool" where
  "isEof r \<longleftrightarrow> getBufferLength r \<le> cur_offset r"

definition getBufferTag :: "'z clumplets_scheme \<Rightarrow> byte clump_result" where
  "getBufferTag r =
     (case kind r of
        Tpb \<Rightarrow> if length (buffer_bytes r) = 0 then Inl (invalid_structure ''empty buffer'') else byte_at r 0
      | Tagged \<Rightarrow> if length (buffer_bytes r) = 0 then Inl (invalid_structure ''empty buffer'') else byte_at r 0
      | WideTagged \<Rightarrow> if length (buffer_bytes r) = 0 then Inl (invalid_structure ''empty buffer'') else byte_at r 0
      | SpbStart \<Rightarrow> Inl (usage_mistake ''buffer is not tagged'')
      | UnTagged \<Rightarrow> Inl (usage_mistake ''buffer is not tagged'')
      | WideUnTagged \<Rightarrow> Inl (usage_mistake ''buffer is not tagged'')
      | SpbItems \<Rightarrow> Inl (usage_mistake ''buffer is not tagged'')
      | SpbAttach \<Rightarrow>
          if length (buffer_bytes r) = 0 then Inl (invalid_structure ''empty buffer'')
          else rbind (byte_at r 0) (\<lambda>b.
            if b = isc_spb_version1 then Inr b
            else if b = isc_spb_version then
              if length (buffer_bytes r) = 1 then Inl (invalid_structure ''buffer too short (1 byte)'')
              else byte_at r 1
            else Inl (invalid_structure
              ''spb in service attach should begin with isc_spb_version1 or isc_spb_version'')))"

text \<open>
  The parameters of a service start block, by the action that opens it. The names in the comments
  of the code are those of \<^verbatim>\<open>consts_pub.h\<close>.
\<close>

definition backup_type :: "byte \<Rightarrow> ClumpletType clump_result" where
  "backup_type tag =
     (if tag \<in> {5, 106} then Inr StringSpb
      else if tag \<in> {6, 7, 11, 9, 10, 108} then Inr IntSpb
      else if tag = 107 then Inr SingleTpb
      else if tag = 12 then Inr ByteSpb
      else Inl (invalid_structure ''unknown parameter for backup/restore''))"

definition repair_type :: "byte \<Rightarrow> ClumpletType clump_result" where
  "repair_type tag =
     (if tag = 106 then Inr StringSpb
      else if tag \<in> {108, 15, 34, 17} then Inr IntSpb
      else Inl (invalid_structure ''unknown parameter for repair''))"

definition user_type :: "byte \<Rightarrow> ClumpletType clump_result" where
  "user_type tag =
     (if tag \<in> {106, 60, 7, 8, 9, 10, 11, 12} then Inr StringSpb
      else if tag \<in> {5, 6} then Inr IntSpb
      else Inl (invalid_structure ''unknown parameter for security database operation''))"

definition properties_type :: "byte \<Rightarrow> ClumpletType clump_result" where
  "properties_type tag =
     (if tag = 106 then Inr StringSpb
      else if tag \<in> {5, 6, 7, 9, 10, 14, 108} then Inr IntSpb
      else if tag \<in> {11, 12, 13} then Inr ByteSpb
      else Inl (invalid_structure ''unknown parameter for setting database properties''))"

definition stats_type :: "byte \<Rightarrow> ClumpletType clump_result" where
  "stats_type tag =
     (if tag \<in> {106, 105} then Inr StringSpb
      else if tag = 108 then Inr IntSpb
      else Inl (invalid_structure ''unknown parameter for getting statistics''))"

definition spb_start_type :: "byte \<Rightarrow> byte \<Rightarrow> ClumpletType clump_result" where
  "spb_start_type state tag =
     (if state = 0 then Inr SingleTpb
      else if state \<in> {1, 2} then backup_type tag
      else if state = 3 then repair_type tag
      else if state \<in> {4, 5, 6, 7} then user_type tag
      else if state = 8 then properties_type tag
      else if state = 11 then stats_type tag
      else if state = 12 then Inl (invalid_structure ''unknown parameter for getting log'')
      else Inl (invalid_structure ''wrong spb state''))"

definition clumplet_type :: "Kind \<Rightarrow> byte \<Rightarrow> byte \<Rightarrow> ClumpletType clump_result" where
  "clumplet_type k state tag =
     (case k of
        Tagged \<Rightarrow> Inr TraditionalDpb
      | UnTagged \<Rightarrow> Inr TraditionalDpb
      | SpbAttach \<Rightarrow> Inr TraditionalDpb
      | WideTagged \<Rightarrow> Inr Wide
      | WideUnTagged \<Rightarrow> Inr Wide
      | Tpb \<Rightarrow> if tag = isc_tpb_lock_write \<or> tag = isc_tpb_lock_read then Inr TraditionalDpb else Inr SingleTpb
      | SpbItems \<Rightarrow> Inr SingleTpb
      | SpbStart \<Rightarrow> spb_start_type state tag)"

definition getClumpletType :: "'z clumplets_scheme \<Rightarrow> byte \<Rightarrow> ClumpletType clump_result" where
  "getClumpletType r tag = clumplet_type (kind r) (spbState r) tag"

definition getClumpTag :: "'z clumplets_scheme \<Rightarrow> byte clump_result" where
  "getClumpTag r =
     (if length (buffer_bytes r) \<le> cur_offset r then Inl (usage_mistake ''read past EOF'')
      else byte_at r (cur_offset r))"

definition adjustSpbState :: "'z clumplets_scheme \<Rightarrow> 'z clumplets_scheme clump_result" where
  "adjustSpbState r =
     (if kind r = SpbStart \<and> spbState r = 0 then rbind (getClumpTag r) (\<lambda>t. Inr (r\<lparr>spbState := t\<rparr>))
      else Inr r)"

text \<open>The number of bytes of the length field and the length of the data of the clumplet.\<close>

definition no_length :: "'a clump_result" where
  "no_length = Inl (invalid_structure ''buffer end before end of clumplet - no length component'')"

definition clumplet_lengths :: "'z clumplets_scheme \<Rightarrow> ClumpletType \<Rightarrow> (nat \<times> nat) clump_result" where
  "clumplet_lengths r t =
     (let c = cur_offset r; left = length (buffer_bytes r) - c in
      case t of
        Wide \<Rightarrow>
          if left < 5 then no_length
          else rbind (byte_at r (c + 4)) (\<lambda>b4. rbind (byte_at r (c + 3)) (\<lambda>b3.
               rbind (byte_at r (c + 2)) (\<lambda>b2. rbind (byte_at r (c + 1)) (\<lambda>b1.
               Inr (4, ((unat b4 * 256 + unat b3) * 256 + unat b2) * 256 + unat b1)))))
      | TraditionalDpb \<Rightarrow>
          if left < 2 then no_length else rbind (byte_at r (c + 1)) (\<lambda>b1. Inr (1, unat b1))
      | SingleTpb \<Rightarrow> Inr (0, 0)
      | StringSpb \<Rightarrow>
          if left < 3 then no_length
          else rbind (byte_at r (c + 2)) (\<lambda>b2. rbind (byte_at r (c + 1)) (\<lambda>b1.
               Inr (2, unat b2 * 256 + unat b1)))
      | IntSpb \<Rightarrow> Inr (0, 4)
      | ByteSpb \<Rightarrow> Inr (0, 1))"

definition getClumpletSize :: "'z clumplets_scheme \<Rightarrow> bool \<Rightarrow> bool \<Rightarrow> bool \<Rightarrow> nat clump_result" where
  "getClumpletSize r wTag wLength wData =
     (if length (buffer_bytes r) \<le> cur_offset r then Inl (usage_mistake ''read past EOF'')
      else rbind (byte_at r (cur_offset r)) (\<lambda>tag.
           rbind (getClumpletType r tag) (\<lambda>t.
           rbind (clumplet_lengths r t) (\<lambda>(lengthSize, dataSize).
           if length (buffer_bytes r) < cur_offset r + (1 + lengthSize + dataSize)
           then Inl (invalid_structure ''buffer end before end of clumplet - clumplet too long'')
           else Inr ((if wTag then 1 else 0) + (if wLength then lengthSize else 0)
                     + (if wData then dataSize else 0))))))"

definition moveNext :: "'z clumplets_scheme \<Rightarrow> 'z clumplets_scheme clump_result" where
  "moveNext r =
     (if isEof r then Inr r
      else rbind (getClumpletSize r True True True) (\<lambda>cs.
           rbind (adjustSpbState r) (\<lambda>r'. Inr (r'\<lparr>cur_offset := cur_offset r' + cs\<rparr>))))"

definition rewind :: "'z clumplets_scheme \<Rightarrow> 'z clumplets_scheme" where
  "rewind r =
     (if static_buffer r = None then r\<lparr>cur_offset := 0, spbState := 0\<rparr>
      else if kind r = UnTagged \<or> kind r = WideUnTagged \<or> kind r = SpbStart \<or> kind r = SpbItems
      then r\<lparr>cur_offset := 0, spbState := 0\<rparr>
      else if kind r = SpbAttach \<and> 0 < getBufferLength r \<and> buffer_bytes r ! 0 \<noteq> isc_spb_version1
      then r\<lparr>cur_offset := 2, spbState := 0\<rparr>
      else r\<lparr>cur_offset := 1, spbState := 0\<rparr>)"

definition clumplet_reader :: "Kind \<Rightarrow> byte list option \<Rightarrow> clumplets" where
  "clumplet_reader k buffer = rewind \<lparr>kind = k, static_buffer = buffer, cur_offset = 0, spbState = 0\<rparr>"

subsection \<open>Searching\<close>

lemma getClumpletSize_pos: "getClumpletSize r True l d = Inr n \<Longrightarrow> 1 \<le> n"
  by (auto simp: getClumpletSize_def split: if_splits)

lemma adjustSpbState_fields:
  assumes "adjustSpbState r = Inr r'"
  shows "kind r' = kind r" and "static_buffer r' = static_buffer r" and "cur_offset r' = cur_offset r"
  using assms by (auto simp: adjustSpbState_def split: if_splits)

lemma moveNext_fields:
  assumes "moveNext r = Inr r'"
  shows "kind r' = kind r" and "static_buffer r' = static_buffer r"
    and "\<not> isEof r \<Longrightarrow> cur_offset r < cur_offset r'"
  using assms adjustSpbState_fields [of r] getClumpletSize_pos [of r True True]
  by (fastforce simp: moveNext_def split: if_splits)+

lemma moveNext_progress:
  assumes "\<not> isEof r" and "moveNext r = Inr r'"
  shows "length (buffer_bytes r') + 1 - cur_offset r' < length (buffer_bytes r) + 1 - cur_offset r"
proof -
  have "cur_offset r < cur_offset r'" "buffer_bytes r' = buffer_bytes r"
    using assms moveNext_fields [of r r'] by (simp_all add: buffer_bytes_def)
  moreover have "getBufferLength r \<le> length (buffer_bytes r)" by (simp add: getBufferLength_def Let_def)
  ultimately show ?thesis using assms(1) by (simp add: isEof_def)
qed

text \<open>The loop of \<^verbatim>\<open>find\<close>: every step moves forward in an unchanged buffer.\<close>

function find_clumplet :: "byte \<Rightarrow> 'z clumplets_scheme \<Rightarrow> (bool \<times> 'z clumplets_scheme) clump_result" where
  "find_clumplet tag r =
     (if isEof r then Inr (False, r)
      else rbind (getClumpTag r) (\<lambda>t.
           if tag = t then Inr (True, r)
           else rbind (moveNext r) (\<lambda>r'. find_clumplet tag r')))"
  by pat_completeness auto
termination
  by (relation "measure (\<lambda>(tag, r). length (buffer_bytes r) + 1 - cur_offset r)")
    (auto simp only: wf_measure in_measure prod.case intro!: moveNext_progress)

declare find_clumplet.simps [simp del]

definition clumplet_find :: "byte \<Rightarrow> 'z clumplets_scheme \<Rightarrow> (bool \<times> 'z clumplets_scheme) clump_result" where
  "clumplet_find tag r =
     (let co = cur_offset r in
      rbind (find_clumplet tag (rewind r)) (\<lambda>(found, r').
        if found then Inr (True, r') else Inr (False, r'\<lparr>cur_offset := co\<rparr>)))"

subsection \<open>The current clumplet\<close>

definition getClumpLength :: "'z clumplets_scheme \<Rightarrow> nat clump_result" where
  "getClumpLength r = getClumpletSize r False False True"

text \<open>The pointer that \<^verbatim>\<open>getBytes\<close> returns, as an offset into the buffer.\<close>

definition getBytes :: "'z clumplets_scheme \<Rightarrow> nat clump_result" where
  "getBytes r = rbind (getClumpletSize r True True False) (\<lambda>n. Inr (cur_offset r + n))"

primrec read_bytes :: "'z clumplets_scheme \<Rightarrow> nat \<Rightarrow> nat \<Rightarrow> byte list clump_result" where
  "read_bytes r ptr 0 = Inr []"
| "read_bytes r ptr (Suc n) =
     rbind (byte_at r ptr) (\<lambda>b. rbind (read_bytes r (ptr + 1) n) (\<lambda>bs. Inr (b # bs)))"

primrec read_integer :: "'z clumplets_scheme \<Rightarrow> nat \<Rightarrow> nat \<Rightarrow> 'w::len word \<Rightarrow> nat \<Rightarrow> 'w word clump_result" where
  "read_integer r ptr 0 val shift = Inr val"
| "read_integer r ptr (Suc n) val shift =
     rbind (byte_at r ptr) (\<lambda>b. read_integer r (ptr + 1) n (val + push_bit shift (ucast b)) (shift + 8))"

definition getInt :: "'z clumplets_scheme \<Rightarrow> 32 word clump_result" where
  "getInt r = rbind (getBytes r) (\<lambda>ptr. rbind (getClumpLength r) (\<lambda>len.
     if 4 < len then Inl (invalid_structure ''length of integer exceeds 4 bytes'')
     else read_integer r ptr len 0 0))"

definition getBigInt :: "'z clumplets_scheme \<Rightarrow> 64 word clump_result" where
  "getBigInt r = rbind (getBytes r) (\<lambda>ptr. rbind (getClumpLength r) (\<lambda>len.
     if 8 < len then Inl (invalid_structure ''length of BigInt exceeds 8 bytes'')
     else read_integer r ptr len 0 0))"

text \<open>
  The string is cut at its first zero byte; one such byte may end the clumplet, anything behind it
  is an error.
\<close>

definition c_string :: "byte list \<Rightarrow> byte list" where
  "c_string bs = takeWhile (\<lambda>b. b \<noteq> 0) bs"

definition getString :: "'z clumplets_scheme \<Rightarrow> byte list clump_result" where
  "getString r = rbind (getBytes r) (\<lambda>ptr. rbind (getClumpLength r) (\<lambda>len.
     rbind (read_bytes r ptr len) (\<lambda>bs. let str = c_string bs in
     if length str + 1 < len then Inl (invalid_structure ''string length doesn't match with clumplet'')
     else Inr str)))"

definition getPath :: "'z clumplets_scheme \<Rightarrow> byte list clump_result" where
  "getPath r = rbind (getBytes r) (\<lambda>ptr. rbind (getClumpLength r) (\<lambda>len.
     rbind (read_bytes r ptr len) (\<lambda>bs. let str = c_string bs in
     if length str + 1 < len then Inl (invalid_structure ''path length doesn't match with clumplet'')
     else Inr str)))"

definition getBoolean :: "'z clumplets_scheme \<Rightarrow> bool clump_result" where
  "getBoolean r = rbind (getBytes r) (\<lambda>ptr. rbind (getClumpLength r) (\<lambda>len.
     if 1 < len then Inl (invalid_structure ''length of boolean exceeds 1 byte'')
     else if len = 0 then Inr False
     else rbind (byte_at r ptr) (\<lambda>b. Inr (b \<noteq> 0))))"

subsection \<open>The error handlers\<close>

text \<open>
  \<^verbatim>\<open>usage_mistake\<close> and \<^verbatim>\<open>invalid_structure\<close> call \<^verbatim>\<open>dump\<close> before they raise. The
  dump builds a reader of its own over the buffer, \<^verbatim>\<open>ClumpletDump\<close>, whose handlers raise at
  once, and logs the clumplets one by one; when that raises it logs the bytes from the current
  position to the end, their number computed in \<^verbatim>\<open>size_t\<close>. The counter against recursion
  is never set here, since the dumping reader does not dump.
\<close>

definition size_t_diff :: "nat \<Rightarrow> nat \<Rightarrow> nat" where
  "size_t_diff m n = (m + 2 ^ 64 - n) mod 2 ^ 64"

definition dump_reader :: "'z clumplets_scheme \<Rightarrow> clumplets" where
  "dump_reader r = clumplet_reader (kind r) (map_option (take (getBufferLength r)) (static_buffer r))"

function dump_loop :: "clumplets \<Rightarrow> unit clump_result" where
  "dump_loop d =
     (if isEof d then Inr ()
      else rbind (getClumpTag d) (\<lambda>tag. rbind (getBytes d) (\<lambda>ptr. rbind (getClumpLength d) (\<lambda>n.
           rbind (read_bytes d ptr n) (\<lambda>bs. rbind (moveNext d) (\<lambda>d'. dump_loop d'))))))"
  by pat_completeness auto
termination
  by (relation "measure (\<lambda>d. length (buffer_bytes d) + 1 - cur_offset d)")
    (auto simp only: wf_measure in_measure intro!: moveNext_progress)

declare dump_loop.simps [simp del]

definition dump_clumplets :: "'z clumplets_scheme \<Rightarrow> unit clump_result" where
  "dump_clumplets r =
     (let d = dump_reader r in
      rbind (if kind r = SpbStart \<or> kind r = UnTagged \<or> kind r = WideUnTagged then Inr 0 else getBufferTag d)
        (\<lambda>t. dump_loop (rewind d)))"

definition dump_plain :: "'z clumplets_scheme \<Rightarrow> unit clump_result" where
  "dump_plain r =
     rbind (read_bytes r (cur_offset r) (size_t_diff (getBufferLength r) (cur_offset r))) (\<lambda>bs. Inr ())"

definition dump :: "'z clumplets_scheme \<Rightarrow> unit clump_result" where
  "dump r =
     (case dump_clumplets r of
        Inr u \<Rightarrow> Inr ()
      | Inl out_of_bounds \<Rightarrow> Inl out_of_bounds
      | Inl e \<Rightarrow> dump_plain r)"

text \<open>The outcome \<open>m\<close> of an operation of the reader \<open>r\<close>, with the dump when it is a call of a handler.\<close>

definition reported :: "'z clumplets_scheme \<Rightarrow> 'a clump_result \<Rightarrow> 'a clump_result" where
  "reported r m =
     (case m of
        Inl (usage_mistake what) \<Rightarrow> rbind (dump r) (\<lambda>u. m)
      | Inl (invalid_structure what) \<Rightarrow> rbind (dump r) (\<lambda>u. m)
      | _ \<Rightarrow> m)"

lemma reported_Inr [simp]: "reported r m = Inr x \<longleftrightarrow> m = Inr x"
  by (auto simp: reported_def split: sum.splits clump_error.splits)

text \<open>The loop of \<^verbatim>\<open>find\<close> once more, with the dumps of the calls it makes.\<close>

function find_reported :: "byte \<Rightarrow> 'z clumplets_scheme \<Rightarrow> (bool \<times> 'z clumplets_scheme) clump_result" where
  "find_reported tag r =
     (if isEof r then Inr (False, r)
      else rbind (reported r (getClumpTag r)) (\<lambda>t.
           if tag = t then Inr (True, r)
           else rbind (reported r (moveNext r)) (\<lambda>r'. find_reported tag r')))"
  by pat_completeness auto
termination
  by (relation "measure (\<lambda>(tag, r). length (buffer_bytes r) + 1 - cur_offset r)")
    (auto simp only: wf_measure in_measure prod.case reported_Inr intro!: moveNext_progress)

declare find_reported.simps [simp del]

subsection \<open>The writer\<close>

definition set_bytes :: "byte list \<Rightarrow> 'z clumplets_scheme \<Rightarrow> 'z clumplets_scheme" where
  "set_bytes bs w = w\<lparr>static_buffer := Some bs\<rparr>"

definition initNewBuffer :: "byte \<Rightarrow> clumplet_writer \<Rightarrow> clumplet_writer" where
  "initNewBuffer tag w =
     (case kind w of
        SpbAttach \<Rightarrow>
          let w = (if tag \<noteq> isc_spb_version1 then set_bytes (buffer_bytes w @ [isc_spb_version]) w else w)
          in set_bytes (buffer_bytes w @ [tag]) w
      | Tagged \<Rightarrow> set_bytes (buffer_bytes w @ [tag]) w
      | Tpb \<Rightarrow> set_bytes (buffer_bytes w @ [tag]) w
      | WideTagged \<Rightarrow> set_bytes (buffer_bytes w @ [tag]) w
      | _ \<Rightarrow> w)"

definition empty_writer :: "Kind \<Rightarrow> nat \<Rightarrow> clumplet_writer" where
  "empty_writer k limit =
     \<lparr>kind = k, static_buffer = Some [], cur_offset = 0, spbState = 0, sizeLimit = limit\<rparr>"

definition clumplet_writer_new :: "Kind \<Rightarrow> nat \<Rightarrow> byte \<Rightarrow> clumplet_writer" where
  "clumplet_writer_new k limit tag = rewind (initNewBuffer tag (empty_writer k limit))"

text \<open>The buffer argument of the next two may be null.\<close>

definition clumplet_writer_from :: "Kind \<Rightarrow> nat \<Rightarrow> byte list option \<Rightarrow> byte \<Rightarrow> clumplet_writer" where
  "clumplet_writer_from k limit buffer tag =
     (case buffer of
        Some (b # bs) \<Rightarrow> rewind (set_bytes (b # bs) (empty_writer k limit))
      | _ \<Rightarrow> rewind (initNewBuffer tag (empty_writer k limit)))"

definition clumplet_reset_tag :: "byte \<Rightarrow> clumplet_writer \<Rightarrow> clumplet_writer" where
  "clumplet_reset_tag tag w = rewind (initNewBuffer tag (set_bytes [] w))"

definition clumplet_reset_buffer :: "byte list option \<Rightarrow> clumplet_writer \<Rightarrow> clumplet_writer clump_result" where
  "clumplet_reset_buffer buffer w =
     (let w = set_bytes [] w in
      case buffer of
        Some (b # bs) \<Rightarrow> Inr (rewind (set_bytes (b # bs) w))
      | _ \<Rightarrow> rbind (if kind w = SpbStart \<or> kind w = UnTagged \<or> kind w = WideUnTagged
                    then getBufferTag w else Inr 0)
               (\<lambda>tag. Inr (rewind (initNewBuffer tag w))))"

text \<open>
  The size of the length field by clumplet type, with the checks on the length of the data. The
  messages are the format strings; the number printed is the length itself.
\<close>

definition clumplet_lenSize :: "ClumpletType \<Rightarrow> nat \<Rightarrow> nat clump_result" where
  "clumplet_lenSize t len =
     (case t of
        Wide \<Rightarrow>
          if 4294967295 < len then Inl (usage_mistake ''attempt to store %d bytes in a clumplet'') else Inr 4
      | TraditionalDpb \<Rightarrow>
          if 255 < len
          then Inl (usage_mistake ''attempt to store %d bytes in a clumplet with maximum size 255 bytes'')
          else Inr 1
      | SingleTpb \<Rightarrow>
          if 0 < len then Inl (usage_mistake ''attempt to store data in dataless clumplet'') else Inr 0
      | StringSpb \<Rightarrow>
          if 65535 < len then Inl (usage_mistake ''attempt to store %d bytes in a clumplet'') else Inr 2
      | IntSpb \<Rightarrow>
          if len \<noteq> 4 then Inl (usage_mistake ''attempt to store %d bytes in a clumplet, need 4'') else Inr 0
      | ByteSpb \<Rightarrow>
          if len \<noteq> 1 then Inl (usage_mistake ''attempt to store %d bytes in a clumplet, need 1'') else Inr 0)"

definition insert_and_advance :: "byte list \<Rightarrow> clumplet_writer \<Rightarrow> clumplet_writer" where
  "insert_and_advance bs w =
     (set_bytes (insert_at (cur_offset w) bs (buffer_bytes w)) w)\<lparr>cur_offset := cur_offset w + length bs\<rparr>"

definition insertBytesLengthCheck :: "byte \<Rightarrow> byte list \<Rightarrow> clumplet_writer \<Rightarrow> clumplet_writer clump_result" where
  "insertBytesLengthCheck tag bs w =
     (if length (buffer_bytes w) < cur_offset w then Inl (usage_mistake ''write past EOF'')
      else rbind (getClumpletType w tag) (\<lambda>t.
           rbind (clumplet_lenSize t (length bs)) (\<lambda>lenSize.
           if sizeLimit w < length (buffer_bytes w) + length bs + lenSize + 1 then Inl size_overflow
           else
             let saved_offset = cur_offset w;
                 w1 = insert_and_advance [tag] w;
                 w2 = (if lenSize = 1 then insert_and_advance [word_of_nat (length bs)] w1
                       else if lenSize = 2 then insert_and_advance (le_bytes 2 (length bs mod 65536)) w1
                       else if lenSize = 4 then insert_and_advance (le_bytes 4 (length bs mod 4294967296)) w1
                       else w1);
                 w3 = insert_and_advance bs w2;
                 new_offset = cur_offset w3
             in rbind (adjustSpbState (w3\<lparr>cur_offset := saved_offset\<rparr>))
                  (\<lambda>w4. Inr (w4\<lparr>cur_offset := new_offset\<rparr>)))))"

definition insertInt :: "byte \<Rightarrow> 32 word \<Rightarrow> clumplet_writer \<Rightarrow> clumplet_writer clump_result" where
  "insertInt tag val w = insertBytesLengthCheck tag (le_bytes 4 (unat val)) w"

definition insertBigInt :: "byte \<Rightarrow> 64 word \<Rightarrow> clumplet_writer \<Rightarrow> clumplet_writer clump_result" where
  "insertBigInt tag val w = insertBytesLengthCheck tag (le_bytes 8 (unat val)) w"

definition insertString :: "byte \<Rightarrow> byte list \<Rightarrow> clumplet_writer \<Rightarrow> clumplet_writer clump_result" where
  "insertString tag str w = insertBytesLengthCheck tag str w"

definition insertPath :: "byte \<Rightarrow> byte list \<Rightarrow> clumplet_writer \<Rightarrow> clumplet_writer clump_result" where
  "insertPath tag str w = insertString tag str w"

definition insertBytes :: "byte \<Rightarrow> byte list \<Rightarrow> clumplet_writer \<Rightarrow> clumplet_writer clump_result" where
  "insertBytes tag bs w = insertBytesLengthCheck tag bs w"

definition insertByte :: "byte \<Rightarrow> byte \<Rightarrow> clumplet_writer \<Rightarrow> clumplet_writer clump_result" where
  "insertByte tag b w = insertBytesLengthCheck tag [b] w"

definition insertTag :: "byte \<Rightarrow> clumplet_writer \<Rightarrow> clumplet_writer clump_result" where
  "insertTag tag w = insertBytesLengthCheck tag [] w"

definition insertEndMarker :: "byte \<Rightarrow> clumplet_writer \<Rightarrow> clumplet_writer clump_result" where
  "insertEndMarker tag w =
     (if length (buffer_bytes w) < cur_offset w then Inl (usage_mistake ''write past EOF'')
      else if sizeLimit w < cur_offset w + 1 then Inl size_overflow
      else Inr ((set_bytes (take (cur_offset w) (buffer_bytes w) @ [tag]) w)\<lparr>cur_offset := cur_offset w + 2\<rparr>))"

definition deleteClumplet :: "clumplet_writer \<Rightarrow> clumplet_writer clump_result" where
  "deleteClumplet w =
     (if length (buffer_bytes w) \<le> cur_offset w then Inl (usage_mistake ''write past EOF'')
      else if length (buffer_bytes w) - cur_offset w < 2
      then Inr (set_bytes (take (cur_offset w) (buffer_bytes w)) w)
      else rbind (getClumpletSize w True True True) (\<lambda>n.
           Inr (set_bytes (remove_at (cur_offset w) n (buffer_bytes w)) w)))"

lemma set_bytes_fields [simp]:
  "kind (set_bytes bs w) = kind w" "buffer_bytes (set_bytes bs w) = bs" "spbState (set_bytes bs w) = spbState w"
  "cur_offset (set_bytes bs w) = cur_offset w" "static_buffer (set_bytes bs w) = Some bs"
  by (simp_all add: set_bytes_def buffer_bytes_def)

lemma sizeLimit_set_bytes [simp]: "sizeLimit (set_bytes bs w) = sizeLimit w"
  by (simp add: set_bytes_def)

lemma find_clumplet_fields:
  "find_clumplet tag r = Inr (found, r') \<Longrightarrow> kind r' = kind r \<and> static_buffer r' = static_buffer r"
proof (induction tag r rule: find_clumplet.induct)
  case (1 tag r)
  from 1(2) [unfolded find_clumplet.simps [of tag r]] 1(1) show ?case
    by (auto dest: moveNext_fields split: if_splits)
qed

lemma moveNext_more: "moveNext r = Inr r' \<Longrightarrow> clumplets.more r' = clumplets.more r"
  by (auto simp: moveNext_def adjustSpbState_def split: if_splits)

lemma find_clumplet_more:
  "find_clumplet tag r = Inr (found, r') \<Longrightarrow> clumplets.more r' = clumplets.more (r :: 'z clumplets_scheme)"
proof (induction tag r rule: find_clumplet.induct)
  case (1 tag r)
  from 1(2) [unfolded find_clumplet.simps [of tag r]] 1(1) show ?case
    by (auto dest: moveNext_more split: if_splits)
qed

lemma rewind_fields [simp]:
  "kind (rewind r) = kind r" "static_buffer (rewind r) = static_buffer r" "buffer_bytes (rewind r) = buffer_bytes r"
  "clumplets.more (rewind r) = clumplets.more r"
  by (simp_all add: rewind_def buffer_bytes_def)

lemma clumplet_find_fields:
  assumes "clumplet_find tag r = Inr (found, r')"
  shows "kind r' = kind r" and "static_buffer r' = static_buffer r"
  using assms by (auto simp: clumplet_find_def Let_def dest: find_clumplet_fields split: if_splits prod.splits)

lemma deleteClumplet_shrinks:
  assumes "deleteClumplet w = Inr w'"
  shows "length (buffer_bytes w') < length (buffer_bytes w)"
  using assms getClumpletSize_pos [of w True True]
  by (fastforce simp: deleteClumplet_def remove_at_def split: if_splits)

function deleteWithTag_loop :: "byte \<Rightarrow> bool \<Rightarrow> clumplet_writer \<Rightarrow> (bool \<times> clumplet_writer) clump_result" where
  "deleteWithTag_loop tag rc w =
     rbind (clumplet_find tag w) (\<lambda>(found, w').
       if \<not> found then Inr (rc, w')
       else rbind (deleteClumplet w') (\<lambda>w''. deleteWithTag_loop tag True w''))"
  by pat_completeness auto
termination
proof (relation "measure (\<lambda>(tag, rc, w). length (buffer_bytes w))")
  fix tag :: byte and rc :: bool and w w' w'' :: clumplet_writer and found fw
  assume "clumplet_find tag w = Inr fw" and "(found, w') = fw" and "deleteClumplet w' = Inr w''"
  then show "((tag, True, w''), (tag, rc, w)) \<in> measure (\<lambda>(tag, rc, w). length (buffer_bytes w))"
    using clumplet_find_fields [of tag w found w'] deleteClumplet_shrinks [of w' w'']
    by (simp add: buffer_bytes_def)
qed simp

declare deleteWithTag_loop.simps [simp del]

definition deleteWithTag :: "byte \<Rightarrow> clumplet_writer \<Rightarrow> (bool \<times> clumplet_writer) clump_result" where
  "deleteWithTag tag w = deleteWithTag_loop tag False w"

subsection \<open>Parameter blocks as sequences of items\<close>

text \<open>
  The specification: a block is a header followed by items, each a tag with its data. In a service
  start block the first item, the action, decides how the others are laid out.
\<close>

type_synonym item = "byte \<times> byte list"

definition len_field :: "ClumpletType \<Rightarrow> nat \<Rightarrow> byte list" where
  "len_field t n = (case t of Wide \<Rightarrow> le_bytes 4 n | TraditionalDpb \<Rightarrow> le_bytes 1 n
     | StringSpb \<Rightarrow> le_bytes 2 n | _ \<Rightarrow> [])"

definition data_ok :: "ClumpletType \<Rightarrow> nat \<Rightarrow> bool" where
  "data_ok t n = (case t of Wide \<Rightarrow> n < 256 ^ 4 | TraditionalDpb \<Rightarrow> n < 256 | StringSpb \<Rightarrow> n < 256 ^ 2
     | SingleTpb \<Rightarrow> n = 0 | IntSpb \<Rightarrow> n = 4 | ByteSpb \<Rightarrow> n = 1)"

definition item_bytes :: "ClumpletType \<Rightarrow> item \<Rightarrow> byte list" where
  "item_bytes t i = fst i # len_field t (length (snd i)) @ snd i"

definition next_state :: "Kind \<Rightarrow> byte \<Rightarrow> byte \<Rightarrow> byte" where
  "next_state k st tag = (if k = SpbStart \<and> st = 0 then tag else st)"

fun enc_items :: "Kind \<Rightarrow> byte \<Rightarrow> item list \<Rightarrow> byte list option" where
  "enc_items k st [] = Some []"
| "enc_items k st (i # is) =
     (case clumplet_type k st (fst i) of
        Inl e \<Rightarrow> None
      | Inr t \<Rightarrow>
          if data_ok t (length (snd i))
          then map_option (\<lambda>bs. item_bytes t i @ bs) (enc_items k (next_state k st (fst i)) is)
          else None)"

fun end_state :: "Kind \<Rightarrow> byte \<Rightarrow> item list \<Rightarrow> byte" where
  "end_state k st [] = st"
| "end_state k st (i # is) = end_state k (next_state k st (fst i)) is"

definition header_ok :: "Kind \<Rightarrow> byte list \<Rightarrow> bool" where
  "header_ok k hdr =
     (if k \<in> {UnTagged, WideUnTagged, SpbStart, SpbItems} then hdr = []
      else if k = SpbAttach then hdr = [isc_spb_version1] \<or> (length hdr = 2 \<and> hdr ! 0 \<noteq> isc_spb_version1)
      else length hdr = 1)"

text \<open>\<open>at_item r hdr pre post\<close>: the reader stands between the items \<open>pre\<close> and the items \<open>post\<close>.\<close>

definition at_item :: "'z clumplets_scheme \<Rightarrow> byte list \<Rightarrow> item list \<Rightarrow> item list \<Rightarrow> bool" where
  "at_item r hdr pre post \<longleftrightarrow> header_ok (kind r) hdr \<and> spbState r = end_state (kind r) 0 pre \<and>
     (\<exists>a b. enc_items (kind r) 0 pre = Some a \<and> enc_items (kind r) (end_state (kind r) 0 pre) post = Some b
       \<and> static_buffer r = Some (hdr @ a @ b) \<and> cur_offset r = length hdr + length a)"

lemma end_state_append [simp]: "end_state k st (xs @ ys) = end_state k (end_state k st xs) ys"
  by (induction xs arbitrary: st) auto

lemma enc_items_append:
  "enc_items k st (xs @ ys) =
     (case enc_items k st xs of None \<Rightarrow> None
      | Some a \<Rightarrow> map_option (\<lambda>b. a @ b) (enc_items k (end_state k st xs) ys))"
proof (induction xs arbitrary: st)
  case Nil
  then show ?case by (cases "enc_items k st ys") auto
next
  case (Cons x xs)
  then show ?case
    by (cases "enc_items k (end_state k (next_state k st (fst x)) xs) ys") (auto split: sum.splits option.splits)
qed

lemma rewind_at_item:
  assumes "header_ok (kind r) hdr" and "enc_items (kind r) 0 items = Some bs" and "static_buffer r = Some (hdr @ bs)"
  shows "at_item (rewind r) hdr [] items"
  using assms
  by (cases hdr) (auto simp: at_item_def rewind_def header_ok_def getBufferLength_def buffer_bytes_def Let_def
      length_Suc_conv nth_append split: if_splits)

text \<open>What a reader that stands before an item sees.\<close>

lemma le_bytes_1 [simp]: "le_bytes (Suc 0) n = [word_of_nat n]"
  by simp

lemma le_bytes_2 [simp]: "le_bytes 2 n = [word_of_nat n, word_of_nat (n div 256)]"
  by (simp add: numeral_2_eq_2)

lemma le_bytes_4 [simp]:
  "le_bytes 4 n = [word_of_nat n, word_of_nat (n div 256), word_of_nat (n div 65536), word_of_nat (n div 16777216)]"
proof -
  have "4 = Suc (Suc (Suc (Suc 0)))" by simp
  then show ?thesis by (simp only: le_bytes.simps) (simp add: div_mult2_eq [symmetric])
qed

lemma unat_byte [simp]: "unat (word_of_nat n :: byte) = n mod 256"
  by (simp add: unat_of_nat)

lemma word_digits2: "n < 65536 \<Longrightarrow> n div 256 mod 256 * 256 + n mod 256 = n" for n :: nat
  by simp

lemma word_digits4:
  "n < 4294967296 \<Longrightarrow>
   ((n div 16777216 mod 256 * 256 + n div 65536 mod 256) * 256 + n div 256 mod 256) * 256 + n mod 256 = n" for n :: nat
  using le_val_le_bytes [of 4 n] by simp

definition stands_before :: "'z clumplets_scheme \<Rightarrow> byte list \<Rightarrow> ClumpletType \<Rightarrow> item \<Rightarrow> byte list \<Rightarrow> bool" where
  "stands_before r A t i B \<longleftrightarrow> buffer_bytes r = A @ item_bytes t i @ B \<and> cur_offset r = length A
     \<and> getClumpletType r (fst i) = Inr t \<and> data_ok t (length (snd i))"

lemma byte_at_append: "buffer_bytes r = A @ bs \<Longrightarrow> i < length bs \<Longrightarrow> byte_at r (length A + i) = Inr (bs ! i)"
  by (simp add: byte_at_def)

lemma stands_getClumpTag: "stands_before r A t i B \<Longrightarrow> getClumpTag r = Inr (fst i)"
  by (auto simp: stands_before_def getClumpTag_def byte_at_def item_bytes_def)

lemma stands_lengths:
  assumes "stands_before r A t i B"
  shows "clumplet_lengths r t = Inr (length (len_field t (length (snd i))), length (snd i))"
proof -
  have b: "byte_at r (length A + j) = Inr ((item_bytes t i @ B) ! j)" if "j < length (item_bytes t i @ B)" for j
    using byte_at_append [of r A, OF _ that] assms by (simp add: stands_before_def)
  have c: "cur_offset r = length A" and d: "data_ok t (length (snd i))"
    and l: "length (buffer_bytes r) - length A = length (item_bytes t i @ B)"
    using assms by (simp_all add: stands_before_def)
  note digits = word_digits2 [of "length (snd i)"] word_digits4 [of "length (snd i)"]
  show ?thesis
    using d b [of 1] b [of 2] b [of 3] b [of 4] digits unfolding clumplet_lengths_def Let_def c l
    by (cases t) (simp_all only: ClumpletType.case data_ok_def item_bytes_def len_field_def, simp_all)
qed

lemma stands_size:
  assumes "stands_before r A t i B"
  shows "getClumpletSize r x y z = Inr ((if x then 1 else 0)
    + (if y then length (len_field t (length (snd i))) else 0) + (if z then length (snd i) else 0))"
proof -
  have "getClumpTag r = Inr (fst i)" using assms by (rule stands_getClumpTag)
  moreover have "cur_offset r + (1 + length (len_field t (length (snd i))) + length (snd i)) \<le> length (buffer_bytes r)"
    using assms by (simp add: stands_before_def item_bytes_def)
  ultimately show ?thesis
    using assms stands_lengths [OF assms]
    by (auto simp: getClumpletSize_def getClumpTag_def stands_before_def split: if_splits)
qed

lemma read_bytes_append:
  "buffer_bytes r = A @ d @ B \<Longrightarrow> read_bytes r (length A) (length d) = Inr d"
proof (induction d arbitrary: A)
  case (Cons x d)
  have "read_bytes r (length (A @ [x])) (length d) = Inr d" by (rule Cons.IH) (use Cons.prems in simp)
  moreover have "byte_at r (length A) = Inr x" using byte_at_append [of r A "(x # d) @ B" 0] Cons.prems by simp
  ultimately show ?case by simp
qed simp

lemma stands_getBytes:
  assumes "stands_before r A t i B"
  shows "getBytes r = Inr (length (A @ [fst i] @ len_field t (length (snd i))))"
    and "getClumpLength r = Inr (length (snd i))"
    and "read_bytes r (length (A @ [fst i] @ len_field t (length (snd i)))) (length (snd i)) = Inr (snd i)"
proof -
  show "getBytes r = Inr (length (A @ [fst i] @ len_field t (length (snd i))))"
    using stands_size [OF assms, of True True False] assms by (simp add: getBytes_def stands_before_def)
  show "getClumpLength r = Inr (length (snd i))"
    using stands_size [OF assms, of False False True] by (simp add: getClumpLength_def)
  show "read_bytes r (length (A @ [fst i] @ len_field t (length (snd i)))) (length (snd i)) = Inr (snd i)"
    using assms by (intro read_bytes_append) (simp add: stands_before_def item_bytes_def)
qed

lemma at_item_stands:
  assumes "at_item r hdr pre (i # post)"
  obtains A t B where "stands_before r A t i B" and "length hdr \<le> length A"
    and "enc_items (kind r) 0 (pre @ [i]) = Some (drop (length hdr) (A @ item_bytes t i))"
    and "take (length hdr) A = hdr" and "static_buffer r = Some (A @ item_bytes t i @ B)"
    and "enc_items (kind r) (next_state (kind r) (spbState r) (fst i)) post = Some B"
    and "enc_items (kind r) 0 pre = Some (drop (length hdr) A)"
proof -
  obtain a b where ab: "enc_items (kind r) 0 pre = Some a" "enc_items (kind r) (spbState r) (i # post) = Some b"
      "static_buffer r = Some (hdr @ a @ b)" "cur_offset r = length hdr + length a"
    and st: "spbState r = end_state (kind r) 0 pre"
    using assms by (auto simp: at_item_def)
  then obtain t B where t: "clumplet_type (kind r) (spbState r) (fst i) = Inr t" "data_ok t (length (snd i))"
      "enc_items (kind r) (next_state (kind r) (spbState r) (fst i)) post = Some B" "b = item_bytes t i @ B"
    by (auto split: sum.splits if_splits)
  show thesis
  proof (rule that)
    show "stands_before r (hdr @ a) t i B"
      using ab t by (simp add: stands_before_def buffer_bytes_def getClumpletType_def)
    show "enc_items (kind r) 0 (pre @ [i]) = Some (drop (length hdr) ((hdr @ a) @ item_bytes t i))"
      using ab t by (simp add: enc_items_append st [symmetric])
  qed (use ab t in simp_all)
qed

lemma at_item_eof:
  assumes "at_item r hdr pre post"
  shows "isEof r \<longleftrightarrow> post = []"
proof (cases post)
  case Nil
  then show ?thesis
    using assms by (auto simp: at_item_def isEof_def getBufferLength_def buffer_bytes_def Let_def)
next
  case (Cons i post')
  then obtain A t B where S: "stands_before r A t i B" "length hdr \<le> length A"
    using at_item_stands assms by blast
  have "header_ok (kind r) hdr" using assms by (simp add: at_item_def)
  then show ?thesis
    using S Cons by (auto simp: stands_before_def isEof_def getBufferLength_def Let_def item_bytes_def header_ok_def
        split: if_splits)
qed

lemma at_item_next:
  assumes "at_item r hdr pre (i # post)"
  shows "\<exists>r'. moveNext r = Inr r' \<and> at_item r' hdr (pre @ [i]) post \<and> kind r' = kind r"
proof -
  obtain A t B where S: "stands_before r A t i B" "length hdr \<le> length A"
      "enc_items (kind r) 0 (pre @ [i]) = Some (drop (length hdr) (A @ item_bytes t i))"
      "take (length hdr) A = hdr" "static_buffer r = Some (A @ item_bytes t i @ B)"
      "enc_items (kind r) (next_state (kind r) (spbState r) (fst i)) post = Some B"
    by (rule at_item_stands [OF assms])
  have st: "header_ok (kind r) hdr" "spbState r = end_state (kind r) 0 pre"
    using assms by (auto simp: at_item_def)
  have a: "adjustSpbState r = Inr (r\<lparr>spbState := next_state (kind r) (spbState r) (fst i)\<rparr>)"
    using stands_getClumpTag [OF S(1)] by (simp add: adjustSpbState_def next_state_def)
  define r' where "r' = r\<lparr>spbState := next_state (kind r) (spbState r) (fst i),
    cur_offset := cur_offset r + length (item_bytes t i)\<rparr>"
  have "moveNext r = Inr r'"
    using at_item_eof [OF assms] stands_size [OF S(1), of True True True] a
    by (simp add: moveNext_def r'_def item_bytes_def)
  moreover have "A = hdr @ drop (length hdr) A" using S(4) by (metis append_take_drop_id)
  then have "at_item r' hdr (pre @ [i]) post"
    using S st by (simp add: at_item_def r'_def stands_before_def)
  ultimately show ?thesis by (auto simp: r'_def)
qed

subsection \<open>Cursors over tagged items\<close>

text \<open>
  What a search and a traversal rely on: \<open>rest s pre post\<close> says that the cursor \<open>s\<close> stands between
  the items \<open>pre\<close> and \<open>post\<close>; at an item its tag can be read and the cursor can step over it.
\<close>

locale tag_cursor =
  fixes eof :: "'s \<Rightarrow> bool"
    and tag_at :: "'s \<Rightarrow> ('e, 't) result"
    and step :: "'s \<Rightarrow> ('e, 's) result"
    and rest :: "'s \<Rightarrow> ('t \<times> 'd) list \<Rightarrow> ('t \<times> 'd) list \<Rightarrow> bool"
  assumes eof_iff: "rest s pre post \<Longrightarrow> eof s \<longleftrightarrow> post = []"
    and tag_law: "rest s pre (i # post) \<Longrightarrow> tag_at s = Inr (fst i)"
    and step_law: "rest s pre (i # post) \<Longrightarrow> \<exists>s'. step s = Inr s' \<and> rest s' (pre @ [i]) post"
begin

lemma search_spec:
  assumes rec: "\<And>s. search s = (if eof s then Inr (False, s)
      else rbind (tag_at s) (\<lambda>u. if t = u then Inr (True, s) else rbind (step s) search))"
    and "rest s pre post"
  shows "\<exists>s'. search s = Inr (t \<in> fst ` set post, s') \<and>
    rest s' (pre @ takeWhile (\<lambda>i. fst i \<noteq> t) post) (dropWhile (\<lambda>i. fst i \<noteq> t) post)"
  using assms(2)
proof (induction post arbitrary: s pre)
  case Nil
  then show ?case using eof_iff [OF Nil] by (simp add: rec [of s])
next
  case (Cons i post)
  obtain s' where s': "step s = Inr s'" "rest s' (pre @ [i]) post" using step_law [OF Cons.prems] by blast
  show ?case
  proof (cases "fst i = t")
    case True
    then show ?thesis using Cons.prems eof_iff [OF Cons.prems] tag_law [OF Cons.prems] by (simp add: rec [of s])
  next
    case False
    then have "search s = search s'"
      using s'(1) eof_iff [OF Cons.prems] tag_law [OF Cons.prems] by (simp add: rec [of s])
    then show ?thesis using Cons.IH [OF s'(2)] False by auto
  qed
qed

end

locale item_cursor = tag_cursor eof tag_at step rest
  for eof :: "'s \<Rightarrow> bool" and tag_at :: "'s \<Rightarrow> ('e, 't) result" and step :: "'s \<Rightarrow> ('e, 's) result"
    and rest :: "'s \<Rightarrow> ('t \<times> 'd) list \<Rightarrow> ('t \<times> 'd) list \<Rightarrow> bool" +
  fixes data_at :: "'s \<Rightarrow> ('e, 'd) result"
  assumes data_law: "rest s pre (i # post) \<Longrightarrow> data_at s = Inr (snd i)"
begin

lemma traverse_spec:
  assumes rec: "\<And>s. traverse s = (if eof s then Inr []
      else rbind (tag_at s) (\<lambda>u. rbind (data_at s) (\<lambda>d. rbind (step s) (\<lambda>s'.
           rbind (traverse s') (\<lambda>is. Inr ((u, d) # is))))))"
    and "rest s pre post"
  shows "traverse s = Inr post"
  using assms(2)
proof (induction post arbitrary: s pre)
  case Nil
  then show ?case using eof_iff [OF Nil] by (simp add: rec [of s])
next
  case (Cons i post)
  obtain s' where s': "step s = Inr s'" "rest s' (pre @ [i]) post" using step_law [OF Cons.prems] by blast
  show ?case
    using s'(1) Cons.IH [OF s'(2)] eof_iff [OF Cons.prems] tag_law [OF Cons.prems] data_law [OF Cons.prems]
    by (simp add: rec [of s])
qed

end

text \<open>A client that reads everything: tag, data, next, until the end.\<close>

definition getData :: "'z clumplets_scheme \<Rightarrow> byte list clump_result" where
  "getData r = rbind (getBytes r) (\<lambda>ptr. rbind (getClumpLength r) (\<lambda>n. read_bytes r ptr n))"

function read_items :: "'z clumplets_scheme \<Rightarrow> item list clump_result" where
  "read_items r =
     (if isEof r then Inr []
      else rbind (getClumpTag r) (\<lambda>tag. rbind (getData r) (\<lambda>d. rbind (moveNext r) (\<lambda>r'.
           rbind (read_items r') (\<lambda>is. Inr ((tag, d) # is))))))"
  by pat_completeness auto
termination
  by (relation "measure (\<lambda>r. length (buffer_bytes r) + 1 - cur_offset r)")
    (auto simp only: wf_measure in_measure intro!: moveNext_progress)

declare read_items.simps [simp del]

interpretation clump: item_cursor isEof getClumpTag moveNext "\<lambda>r pre post. at_item r hdr pre post" getData
proof
  fix r :: "'z clumplets_scheme" and pre i post
  assume r: "at_item r hdr pre (i # post)"
  then obtain A t B where S: "stands_before r A t i B" by (rule at_item_stands)
  show "getClumpTag r = Inr (fst i)" by (rule stands_getClumpTag [OF S])
  show "\<exists>r'. moveNext r = Inr r' \<and> at_item r' hdr (pre @ [i]) post" using at_item_next [OF r] by blast
  show "getData r = Inr (snd i)" using stands_getBytes [OF S] by (simp add: getData_def)
qed (rule at_item_eof)

lemma clumplet_find_spec:
  assumes "header_ok (kind r) hdr" and "enc_items (kind r) 0 items = Some bs" and "static_buffer r = Some (hdr @ bs)"
  shows "\<exists>r'. find_clumplet tag (rewind r) = Inr (tag \<in> fst ` set items, r') \<and>
    at_item r' hdr (takeWhile (\<lambda>i. fst i \<noteq> tag) items) (dropWhile (\<lambda>i. fst i \<noteq> tag) items)"
  using clump.search_spec [where search = "find_clumplet tag" and t = tag, OF find_clumplet.simps
    rewind_at_item [OF assms]] by simp

subsection \<open>The writer over sequences of items\<close>

lemma lenSize_ok: "data_ok t n \<Longrightarrow> clumplet_lenSize t n = Inr (length (len_field t n))"
  by (cases t) (simp_all add: data_ok_def clumplet_lenSize_def len_field_def)

lemma lenSize_Inr_iff: "clumplet_lenSize t n = Inr l \<longleftrightarrow> data_ok t n \<and> l = length (len_field t n)"
  by (cases t) (auto simp: data_ok_def clumplet_lenSize_def len_field_def)

lemma insert_and_advance_at:
  assumes "buffer_bytes w = A @ B" and "cur_offset w = length A"
  shows "insert_and_advance bs w = (set_bytes ((A @ bs) @ B) w)\<lparr>cur_offset := length (A @ bs)\<rparr>"
  using assms by (simp add: insert_and_advance_def)

lemma len_bytes_written:
  assumes "data_ok t (length d)" and "buffer_bytes w = A @ B" and "cur_offset w = length A"
    and "l = length (len_field t (length d))"
  shows "(if l = 1 then insert_and_advance [word_of_nat (length d)] w
      else if l = 2 then insert_and_advance (le_bytes 2 (length d mod 65536)) w
      else if l = 4 then insert_and_advance (le_bytes 4 (length d mod 4294967296)) w else w)
    = (if len_field t (length d) = [] then w else insert_and_advance (len_field t (length d)) w)"
  using assms(1,4) by (cases t) (simp_all add: data_ok_def len_field_def)

text \<open>The buffer and position after an insertion that passes the checks.\<close>

lemma insert_bytes_at:
  assumes "buffer_bytes w = A @ B" and "cur_offset w = length A"
    and "getClumpletType w tag = Inr t" and "data_ok t (length d)"
    and "length (buffer_bytes w) + length (item_bytes t (tag, d)) \<le> sizeLimit w"
  shows "insertBytesLengthCheck tag d w = Inr (w\<lparr>static_buffer := Some (A @ item_bytes t (tag, d) @ B),
    cur_offset := length A + length (item_bytes t (tag, d)),
    spbState := next_state (kind w) (spbState w) tag\<rparr>)"
proof -
  let ?f = "len_field t (length d)"
  define w1 where "w1 = insert_and_advance [tag] w"
  define w2 where "w2 = (if ?f = [] then w1 else insert_and_advance ?f w1)"
  define w3 where "w3 = insert_and_advance d w2"
  have 1: "w1 = (set_bytes ((A @ [tag]) @ B) w)\<lparr>cur_offset := length (A @ [tag])\<rparr>"
    unfolding w1_def by (rule insert_and_advance_at [OF assms(1,2)])
  have b1: "buffer_bytes w1 = (A @ [tag]) @ B" "cur_offset w1 = length (A @ [tag])"
    by (simp_all add: 1 buffer_bytes_def set_bytes_def)
  have 2: "w2 = (set_bytes ((A @ tag # ?f) @ B) w)\<lparr>cur_offset := length (A @ tag # ?f)\<rparr>"
    using insert_and_advance_at [OF b1, of ?f] by (auto simp: w2_def 1 set_bytes_def)
  have b2: "buffer_bytes w2 = (A @ tag # ?f) @ B" "cur_offset w2 = length (A @ tag # ?f)"
    by (simp_all add: 2 buffer_bytes_def set_bytes_def)
  have 3: "w3 = w\<lparr>static_buffer := Some (A @ item_bytes t (tag, d) @ B),
      cur_offset := length A + length (item_bytes t (tag, d))\<rparr>"
    using insert_and_advance_at [OF b2, of d] by (simp add: w3_def 2 set_bytes_def item_bytes_def)
  have "adjustSpbState (w3\<lparr>cur_offset := cur_offset w\<rparr>)
      = Inr (w3\<lparr>cur_offset := cur_offset w, spbState := next_state (kind w) (spbState w) tag\<rparr>)"
    using assms(2) by (simp add: adjustSpbState_def next_state_def getClumpTag_def byte_at_def 3 buffer_bytes_def
        item_bytes_def)
  moreover have "\<not> sizeLimit w < length (buffer_bytes w) + length d + length ?f + 1"
    using assms(5) by (simp add: item_bytes_def)
  moreover note len_bytes_written [OF assms(4) b1 refl, folded w2_def]
  ultimately show ?thesis
    using assms(1-4) unfolding insertBytesLengthCheck_def
    by (simp add: lenSize_ok Let_def w1_def [symmetric] w3_def [symmetric] 3)
qed

lemma at_item_insert:
  assumes "at_item w hdr pre post" and "getClumpletType w tag = Inr t" and "data_ok t (length d)"
    and "length (buffer_bytes w) + length (item_bytes t (tag, d)) \<le> sizeLimit w"
    and "post = [] \<or> next_state (kind w) (spbState w) tag = spbState w"
  shows "\<exists>w'. insertBytesLengthCheck tag d w = Inr w' \<and> at_item w' hdr (pre @ [(tag, d)]) post
    \<and> kind w' = kind w \<and> sizeLimit w' = sizeLimit w
    \<and> length (buffer_bytes w') = length (buffer_bytes w) + length (item_bytes t (tag, d))"
proof -
  obtain a b where ab: "enc_items (kind w) 0 pre = Some a" "enc_items (kind w) (spbState w) post = Some b"
      "static_buffer w = Some (hdr @ a @ b)" "cur_offset w = length hdr + length a"
    and st: "spbState w = end_state (kind w) 0 pre" "header_ok (kind w) hdr"
    using assms(1) by (auto simp: at_item_def)
  have bb: "buffer_bytes w = (hdr @ a) @ b" using ab(3) by (simp add: buffer_bytes_def)
  note I = insert_bytes_at [OF bb _ assms(2-4)]
  have "enc_items (kind w) 0 (pre @ [(tag, d)]) = Some (a @ item_bytes t (tag, d))"
    using ab(1) assms(2,3) by (simp add: enc_items_append st(1) [symmetric] getClumpletType_def)
  moreover have "enc_items (kind w) (next_state (kind w) (spbState w) tag) post = Some b"
    using ab(2) assms(5) by auto
  ultimately show ?thesis
    using I ab(3,4) st bb by (simp add: at_item_def buffer_bytes_def)
qed

subsection \<open>Properties of parameter blocks\<close>

text \<open>A client that fills a new block.\<close>

fun insert_items :: "item list \<Rightarrow> clumplet_writer \<Rightarrow> clumplet_writer clump_result" where
  "insert_items [] w = Inr w"
| "insert_items (i # is) w = rbind (insertBytes (fst i) (snd i) w) (insert_items is)"

definition new_header :: "Kind \<Rightarrow> byte \<Rightarrow> byte list" where
  "new_header k tag =
     (if k \<in> {UnTagged, WideUnTagged, SpbStart, SpbItems} then []
      else if k = SpbAttach \<and> tag \<noteq> isc_spb_version1 then [isc_spb_version, tag] else [tag])"

lemma writer_new_at_item:
  "at_item (clumplet_writer_new k limit tag) (new_header k tag) [] []"
  "static_buffer (clumplet_writer_new k limit tag) = Some (new_header k tag)"
  "kind (clumplet_writer_new k limit tag) = k" "sizeLimit (clumplet_writer_new k limit tag) = limit"
proof -
  have b: "static_buffer (initNewBuffer tag (empty_writer k limit)) = Some (new_header k tag @ [])"
    "kind (initNewBuffer tag (empty_writer k limit)) = k"
    by (cases k; simp add: initNewBuffer_def empty_writer_def new_header_def set_bytes_def buffer_bytes_def)+
  have "header_ok k (new_header k tag)"
    by (simp add: header_ok_def new_header_def isc_spb_version_def isc_spb_version1_def)
  then show "at_item (clumplet_writer_new k limit tag) (new_header k tag) [] []"
    unfolding clumplet_writer_new_def by (intro rewind_at_item [OF _ _ b(1)]) (simp_all add: b(2))
  show "static_buffer (clumplet_writer_new k limit tag) = Some (new_header k tag)"
    "kind (clumplet_writer_new k limit tag) = k"
    by (simp_all add: clumplet_writer_new_def b [simplified])
  show "sizeLimit (clumplet_writer_new k limit tag) = limit"
    by (cases k) (simp_all add: clumplet_writer_new_def rewind_def initNewBuffer_def set_bytes_def empty_writer_def)
qed

lemma insert_items_at:
  assumes "at_item w hdr pre []" and "enc_items (kind w) (spbState w) is = Some bs"
    and "length (buffer_bytes w) + length bs \<le> sizeLimit w"
  shows "\<exists>w'. insert_items is w = Inr w' \<and> at_item w' hdr (pre @ is) [] \<and> kind w' = kind w"
  using assms
proof (induction "is" arbitrary: w pre bs)
  case (Cons i "is")
  obtain t b where t: "getClumpletType w (fst i) = Inr t" "data_ok t (length (snd i))"
      "enc_items (kind w) (next_state (kind w) (spbState w) (fst i)) is = Some b" "bs = item_bytes t i @ b"
    using Cons.prems(2) by (auto simp: getClumpletType_def split: sum.splits if_splits)
  have lim: "length (buffer_bytes w) + length (item_bytes t (fst i, snd i)) \<le> sizeLimit w"
    using Cons.prems(3) t(4) by simp
  obtain w' where w': "insertBytesLengthCheck (fst i) (snd i) w = Inr w'" "at_item w' hdr (pre @ [i]) []"
      "kind w' = kind w" "sizeLimit w' = sizeLimit w" "length (buffer_bytes w') = length (buffer_bytes w) + length (item_bytes t i)"
    using at_item_insert [OF Cons.prems(1) t(1,2) lim] by auto
  have "spbState w' = next_state (kind w) (spbState w) (fst i)"
    using w'(2,3) Cons.prems(1) by (auto simp: at_item_def)
  then show ?case
    using Cons.IH [OF w'(2), of b] w' t(3,4) Cons.prems(3) by (simp add: insertBytes_def)
qed simp

text \<open>
  C17. Whatever the kind of the block, filling a new block with items (each of a length its type
  allows, all of them within the size limit) succeeds, and a reader over the resulting bytes
  returns exactly these items, in order.
\<close>

theorem clumplet_write_read:
  assumes "enc_items k 0 items = Some bs" and "length (new_header k tag) + length bs \<le> limit"
  shows "\<exists>w. insert_items items (clumplet_writer_new k limit tag) = Inr w
    \<and> buffer_bytes w = new_header k tag @ bs
    \<and> read_items (clumplet_reader k (Some (buffer_bytes w))) = Inr items"
proof -
  let ?w0 = "clumplet_writer_new k limit tag"
  note N = writer_new_at_item [of k limit tag]
  have st: "spbState ?w0 = 0" "buffer_bytes ?w0 = new_header k tag" "enc_items (kind ?w0) (spbState ?w0) items = Some bs"
    using N assms(1) by (auto simp: at_item_def buffer_bytes_def)
  obtain w where w: "insert_items items ?w0 = Inr w" "at_item w (new_header k tag) items []" "kind w = k"
    using insert_items_at [OF N(1) st(3)] st assms(2) N(3,4) by auto
  then have b: "buffer_bytes w = new_header k tag @ bs" and h: "header_ok k (new_header k tag)"
    using assms(1) by (auto simp: at_item_def buffer_bytes_def)
  have "at_item (clumplet_reader k (Some (new_header k tag @ bs))) (new_header k tag) [] items"
    unfolding clumplet_reader_def by (rule rewind_at_item) (use h assms(1) in simp_all)
  then have "read_items (clumplet_reader k (Some (new_header k tag @ bs))) = Inr items"
    by (rule clump.traverse_spec [OF read_items.simps])
  then show ?thesis using w(1) b by auto
qed

lemmas clump_eval = item_bytes_def len_field_def data_ok_def next_state_def clumplet_type_def spb_start_type_def
  backup_type_def new_header_def

theorem clumplet_write_read_witness:
  "\<exists>w. insert_items [(1, []), (106, [97, 98]), (12, [1]), (107, [])] (clumplet_writer_new SpbStart 100 0) = Inr w
    \<and> buffer_bytes w = [1, 106, 2, 0, 97, 98, 12, 1, 107]
    \<and> read_items (clumplet_reader SpbStart (Some (buffer_bytes w)))
      = Inr [(1, []), (106, [97, 98]), (12, [1]), (107, [])]"
  using clumplet_write_read [of SpbStart "[(1, []), (106, [97, 98]), (12, [1]), (107, [])]"
      "[1, 106, 2, 0, 97, 98, 12, 1, 107]" 0 100]
  by (simp add: clump_eval)

text \<open>
  C18. Inserting a clumplet at a position between two items puts the new item there and leaves all
  others alone; the position moves behind the new item and the size limit is kept. The insertion
  fails only when the block does not know the tag, when the length does not suit the type, or when
  the limit would be exceeded. (In a service start block the action itself is inserted first.)
\<close>

theorem clumplet_insert:
  assumes "at_item w hdr pre post" and "post = [] \<or> next_state (kind w) (spbState w) tag = spbState w"
  shows "case insertBytesLengthCheck tag d w of
      Inr w' \<Rightarrow> at_item w' hdr (pre @ [(tag, d)]) post \<and> length (buffer_bytes w') \<le> sizeLimit w
    | Inl e \<Rightarrow> getClumpletType w tag = Inl e
        \<or> (\<exists>t. getClumpletType w tag = Inr t \<and> clumplet_lenSize t (length d) = Inl e)
        \<or> (\<exists>t. getClumpletType w tag = Inr t \<and> e = size_overflow
            \<and> sizeLimit w < length (buffer_bytes w) + length (item_bytes t (tag, d)))"
proof -
  have pos: "\<not> length (buffer_bytes w) < cur_offset w"
    using assms(1) by (auto simp: at_item_def buffer_bytes_def)
  consider e where "getClumpletType w tag = Inl e"
    | t e where "getClumpletType w tag = Inr t" "clumplet_lenSize t (length d) = Inl e"
    | t where "getClumpletType w tag = Inr t" "data_ok t (length d)"
    by (metis lenSize_Inr_iff old.sum.exhaust)
  then show ?thesis
  proof cases
    case (3 t)
    show ?thesis
    proof (cases "length (buffer_bytes w) + length (item_bytes t (tag, d)) \<le> sizeLimit w")
      case True
      then show ?thesis using at_item_insert [OF assms(1) 3 True assms(2)] by auto
    next
      case False
      then have "insertBytesLengthCheck tag d w = Inl size_overflow"
        using pos 3 by (auto simp: insertBytesLengthCheck_def lenSize_ok item_bytes_def)
      then show ?thesis using 3 False by simp
    qed
  qed (use pos in \<open>auto simp: insertBytesLengthCheck_def\<close>)
qed

theorem clumplet_insert_witness:
  "case insertBytesLengthCheck 28 [1, 2] (clumplet_writer_new Tagged 10 1) of
      Inr w' \<Rightarrow> at_item w' [1] [(28, [1, 2])] [] \<and> length (buffer_bytes w') \<le> 10 | Inl e \<Rightarrow> False"
proof -
  let ?w = "clumplet_writer_new Tagged 10 1"
  have h: "new_header Tagged 1 = [1]" by (simp add: new_header_def)
  note N = writer_new_at_item [of Tagged 10 1, unfolded h]
  have "getClumpletType ?w 28 = Inr TraditionalDpb" by (simp add: getClumpletType_def N clumplet_type_def)
  then show ?thesis
    using clumplet_insert [OF N(1), of 28 "[1, 2]"] N(2,4)
    by (auto simp: buffer_bytes_def item_bytes_def len_field_def clumplet_lenSize_def split: sum.splits)
qed

text \<open>
  C19. \<^verbatim>\<open>find\<close> on a well-formed block reports whether an item with the tag exists; if so
  the position is the first such item, otherwise it is what it was before.
\<close>

theorem clumplet_find_first:
  assumes "header_ok (kind r) hdr" and "enc_items (kind r) 0 items = Some bs" and "static_buffer r = Some (hdr @ bs)"
  shows "\<exists>r'. clumplet_find tag r = Inr (tag \<in> fst ` set items, r')
    \<and> (if tag \<in> fst ` set items
       then at_item r' hdr (takeWhile (\<lambda>i. fst i \<noteq> tag) items) (dropWhile (\<lambda>i. fst i \<noteq> tag) items)
       else cur_offset r' = cur_offset r)"
proof -
  obtain r' where r': "find_clumplet tag (rewind r) = Inr (tag \<in> fst ` set items, r')"
      "at_item r' hdr (takeWhile (\<lambda>i. fst i \<noteq> tag) items) (dropWhile (\<lambda>i. fst i \<noteq> tag) items)"
    using clumplet_find_spec [OF assms, of tag] by blast
  show ?thesis
  proof (cases "tag \<in> fst ` set items")
    case True
    then have "clumplet_find tag r = Inr (True, r')" using r'(1) by (simp add: clumplet_find_def Let_def)
    then show ?thesis using r'(2) True by auto
  next
    case False
    then have "clumplet_find tag r = Inr (False, r'\<lparr>cur_offset := cur_offset r\<rparr>)"
      using r'(1) by (simp add: clumplet_find_def Let_def)
    then show ?thesis using False by auto
  qed
qed

theorem clumplet_find_first_witness:
  "\<exists>r'. clumplet_find 30 (clumplet_reader Tagged (Some [1, 28, 1, 7, 30, 0])) = Inr (True, r')
    \<and> at_item r' [1] [(28, [7])] [(30, [])]"
proof -
  have "kind (clumplet_reader Tagged (Some [1, 28, 1, 7, 30, 0])) = Tagged"
    "static_buffer (clumplet_reader Tagged (Some [1, 28, 1, 7, 30, 0])) = Some ([1] @ [28, 1, 7, 30, 0])"
    by (simp_all add: clumplet_reader_def)
  then show ?thesis
    using clumplet_find_first [of "clumplet_reader Tagged (Some [1, 28, 1, 7, 30, 0])" "[1]"
        "[(28, [7]), (30, [])]" "[28, 1, 7, 30, 0]" 30]
    by (simp add: header_ok_def clump_eval)
qed

lemma enc_items_skip:
  assumes "k \<noteq> SpbStart"
  shows "end_state k st is = st"
    and "enc_items k st (xs @ i # ys) = Some bs \<Longrightarrow> \<exists>t a b. clumplet_type k st (fst i) = Inr t \<and> data_ok t (length (snd i))
      \<and> enc_items k st xs = Some a \<and> enc_items k st ys = Some b \<and> bs = a @ item_bytes t i @ b"
proof -
  show e: "end_state k st is = st" for "is" using assms by (induction "is") (auto simp: next_state_def)
  show "enc_items k st (xs @ i # ys) = Some bs \<Longrightarrow> \<exists>t a b. clumplet_type k st (fst i) = Inr t \<and> data_ok t (length (snd i))
      \<and> enc_items k st xs = Some a \<and> enc_items k st ys = Some b \<and> bs = a @ item_bytes t i @ b"
    using assms by (auto simp: enc_items_append e next_state_def split: option.splits sum.splits if_splits)
qed

lemma at_item_delete:
  assumes "at_item w hdr pre (i # post)" and "kind w \<noteq> SpbStart"
  shows "\<exists>w'. deleteClumplet w = Inr w' \<and> at_item w' hdr pre post \<and> kind w' = kind w"
proof -
  obtain A t B where S: "stands_before w A t i B" "take (length hdr) A = hdr"
      "enc_items (kind w) 0 pre = Some (drop (length hdr) A)"
      "enc_items (kind w) (next_state (kind w) (spbState w) (fst i)) post = Some B"
    by (rule at_item_stands [OF assms(1)])
  have A: "A = hdr @ drop (length hdr) A" using S(2) by (metis append_take_drop_id)
  have n: "getClumpletSize w True True True = Inr (length (item_bytes t i))"
    using stands_size [OF S(1), of True True True] by (simp add: item_bytes_def)
  have b: "buffer_bytes w = A @ item_bytes t i @ B" "cur_offset w = length A" "item_bytes t i \<noteq> []"
    using S(1) by (simp_all add: stands_before_def item_bytes_def)
  have "deleteClumplet w = Inr (set_bytes (A @ B) w)"
  proof (cases "length (item_bytes t i @ B) < 2")
    case True
    then have "B = []" using b(3) by (cases "item_bytes t i"; cases B) auto
    then show ?thesis using b True by (cases "item_bytes t i") (auto simp: deleteClumplet_def)
  next
    case False
    then show ?thesis using b n by (simp add: deleteClumplet_def)
  qed
  moreover have "at_item (set_bytes (A @ B) w) hdr pre post"
  proof -
    have "length A = length hdr + length (drop (length hdr) A)" using arg_cong [OF A, of length] by simp
    moreover have "A @ B = hdr @ drop (length hdr) A @ B" using A by (metis append.assoc)
    ultimately show ?thesis
      using assms S(3,4) b(2) by (simp add: at_item_def next_state_def)
  qed
  ultimately show ?thesis by simp
qed

lemma deleteWithTag_items:
  assumes "kind w \<noteq> SpbStart" and "header_ok (kind w) hdr" and "enc_items (kind w) 0 items = Some bs"
    and "static_buffer w = Some (hdr @ bs)"
  shows "\<exists>w' bs'. deleteWithTag_loop tag rc w = Inr (rc \<or> tag \<in> fst ` set items, w') \<and> kind w' = kind w
    \<and> enc_items (kind w) 0 (filter (\<lambda>i. fst i \<noteq> tag) items) = Some bs' \<and> static_buffer w' = Some (hdr @ bs')"
  using assms
proof (induction "length items" arbitrary: items bs w rc rule: less_induct)
  case less
  obtain r where r: "find_clumplet tag (rewind w) = Inr (tag \<in> fst ` set items, r)"
      "at_item r hdr (takeWhile (\<lambda>i. fst i \<noteq> tag) items) (dropWhile (\<lambda>i. fst i \<noteq> tag) items)"
    using clumplet_find_spec [OF less.prems(2-4), of tag] by blast
  have k: "kind r = kind w" "static_buffer r = static_buffer w" using find_clumplet_fields [OF r(1)] by simp_all
  show ?case
  proof (cases "tag \<in> fst ` set items")
    case False
    then have "clumplet_find tag w = Inr (False, r\<lparr>cur_offset := cur_offset w\<rparr>)"
      using r(1) by (simp add: clumplet_find_def Let_def)
    moreover have "filter (\<lambda>i. fst i \<noteq> tag) items = items" using False by (force simp: filter_id_conv)
    ultimately show ?thesis using False less.prems k by (simp add: deleteWithTag_loop.simps)
  next
    case True
    then have f: "clumplet_find tag w = Inr (True, r)" using r(1) by (simp add: clumplet_find_def Let_def)
    obtain i post where ip: "dropWhile (\<lambda>i. fst i \<noteq> tag) items = i # post" "fst i = tag"
      using True dropWhile_eq_Nil_conv [of "\<lambda>i. fst i \<noteq> tag" items] hd_dropWhile [of "\<lambda>i. fst i \<noteq> tag" items]
      by (cases "dropWhile (\<lambda>i. fst i \<noteq> tag) items") auto
    define pre where "pre = takeWhile (\<lambda>i. fst i \<noteq> tag) items"
    have its: "items = pre @ i # post" by (metis ip(1) pre_def takeWhile_dropWhile_id)
    obtain w1 where w1: "deleteClumplet r = Inr w1" "at_item w1 hdr pre post" "kind w1 = kind r"
      using at_item_delete [of r hdr pre i post] r(2) ip(1) k(1) less.prems(1) by (auto simp: pre_def)
    then obtain bs1 where b1: "enc_items (kind w) 0 (pre @ post) = Some bs1" "static_buffer w1 = Some (hdr @ bs1)"
      using k by (auto simp: at_item_def enc_items_append)
    have "\<exists>w' bs'. deleteWithTag_loop tag True w1 = Inr (True \<or> tag \<in> fst ` set (pre @ post), w') \<and> kind w' = kind w1
      \<and> enc_items (kind w1) 0 (filter (\<lambda>i. fst i \<noteq> tag) (pre @ post)) = Some bs' \<and> static_buffer w' = Some (hdr @ bs')"
      by (rule less.hyps) (use its less.prems w1 k b1 in auto)
    then show ?thesis
      using f w1 k True its ip(2) by (subst deleteWithTag_loop.simps) auto
  qed
qed

text \<open>
  C20. \<^verbatim>\<open>deleteWithTag\<close> removes every item with the tag and no other, keeps the order of the
  rest, and returns whether there was one (all kinds but the service start block, where removing
  the action changes the meaning of what follows).
\<close>

theorem clumplet_delete_with_tag:
  assumes "kind w \<noteq> SpbStart" and "header_ok (kind w) hdr" and "enc_items (kind w) 0 items = Some bs"
    and "static_buffer w = Some (hdr @ bs)"
  shows "\<exists>w'. deleteWithTag tag w = Inr (tag \<in> fst ` set items, w')
    \<and> read_items (rewind w') = Inr (filter (\<lambda>i. fst i \<noteq> tag) items)"
proof -
  obtain w' bs' where w': "deleteWithTag_loop tag False w = Inr (tag \<in> fst ` set items, w')" "kind w' = kind w"
      "enc_items (kind w) 0 (filter (\<lambda>i. fst i \<noteq> tag) items) = Some bs'" "static_buffer w' = Some (hdr @ bs')"
    using deleteWithTag_items [OF assms, of tag False] by auto
  have "at_item (rewind w') hdr [] (filter (\<lambda>i. fst i \<noteq> tag) items)"
    by (rule rewind_at_item) (use assms(2) w' in simp_all)
  then have "read_items (rewind w') = Inr (filter (\<lambda>i. fst i \<noteq> tag) items)"
    by (rule clump.traverse_spec [OF read_items.simps])
  then show ?thesis using w'(1) by (auto simp: deleteWithTag_def)
qed

theorem clumplet_delete_with_tag_witness:
  "\<exists>w'. deleteWithTag 28 (clumplet_writer_from Tagged 99 (Some [1, 28, 1, 7, 30, 0, 28, 0]) 0) = Inr (True, w')
    \<and> read_items (rewind w') = Inr [(30, [])]"
proof -
  let ?w = "clumplet_writer_from Tagged 99 (Some [1, 28, 1, 7, 30, 0, 28, 0]) 0"
  have "kind ?w = Tagged" "static_buffer ?w = Some ([1] @ [28, 1, 7, 30, 0, 28, 0])"
    by (simp_all add: clumplet_writer_from_def empty_writer_def)
  then show ?thesis
    using clumplet_delete_with_tag [of ?w "[1]" "[(28, [7]), (30, []), (28, [])]" "[28, 1, 7, 30, 0, 28, 0]" 28]
    by (simp add: header_ok_def clump_eval)
qed

lemma read_integer_append:
  fixes v :: "'w::len word"
  shows "buffer_bytes r = A @ d @ B \<Longrightarrow>
    read_integer r (length A) (length d) v sh = Inr (v + 2 ^ sh * word_of_nat (le_val d))"
proof (induction d arbitrary: A v sh)
  case (Cons x d)
  have "read_integer r (length (A @ [x])) (length d) (v + push_bit sh (ucast x)) (sh + 8)
      = Inr (v + push_bit sh (ucast x) + 2 ^ (sh + 8) * word_of_nat (le_val d))"
    by (rule Cons.IH) (use Cons.prems in simp)
  moreover have "byte_at r (length A) = Inr x" using byte_at_append [of r A "(x # d) @ B" 0] Cons.prems by simp
  ultimately show ?case by (simp add: push_bit_eq_mult power_add algebra_simps)
qed simp

lemma stands_read_integer:
  assumes "stands_before r A t i B"
  shows "read_integer r (length (A @ [fst i] @ len_field t (length (snd i)))) (length (snd i)) 0 0
    = Inr (word_of_nat (le_val (snd i)) :: 'w::len word)"
  using read_integer_append [of r "A @ [fst i] @ len_field t (length (snd i))" "snd i" B 0 0] assms
  by (simp add: stands_before_def item_bytes_def)

text \<open>The clumplet just inserted, seen again from the position of the insertion.\<close>

lemma insert_then_stands:
  assumes "at_item w hdr pre post" and "insertBytesLengthCheck tag d w = Inr w'"
  obtains A t B where "stands_before (w'\<lparr>cur_offset := cur_offset w, spbState := spbState w\<rparr>) A t (tag, d) B"
proof -
  obtain a b where ab: "static_buffer w = Some (hdr @ a @ b)" "cur_offset w = length (hdr @ a)"
    using assms(1) by (auto simp: at_item_def)
  then have bb: "buffer_bytes w = (hdr @ a) @ b" by (simp add: buffer_bytes_def)
  obtain t where t: "getClumpletType w tag = Inr t" "data_ok t (length d)"
      "length (buffer_bytes w) + length (item_bytes t (tag, d)) \<le> sizeLimit w"
    using assms(2) by (auto simp: insertBytesLengthCheck_def lenSize_Inr_iff item_bytes_def split: if_splits)
  have "stands_before (w'\<lparr>cur_offset := cur_offset w, spbState := spbState w\<rparr>) (hdr @ a) t (tag, d) b"
    using insert_bytes_at [OF bb ab(2) t] assms(2) t ab(2)
    by (auto simp: stands_before_def buffer_bytes_def getClumpletType_def)
  then show thesis by (rule that)
qed

lemma word_of_le_bytes:
  "word_of_nat (le_val (le_bytes 4 (unat x))) = (x :: 32 word)"
  "word_of_nat (le_val (le_bytes 8 (unat y))) = (y :: 64 word)"
  using unsigned_less [of x, where 'a = nat] unsigned_less [of y, where 'a = nat]
  by (simp_all add: le_val_le_bytes del: le_bytes_4)



subsection \<open>Malformed blocks\<close>

text \<open>\<open>in_bounds m\<close>: the operation did not touch memory outside the buffer.\<close>

definition in_bounds :: "'a clump_result \<Rightarrow> bool" where
  "in_bounds m \<longleftrightarrow> m \<noteq> Inl out_of_bounds"

lemma in_bounds_simps [simp]:
  "in_bounds (Inr x)" "in_bounds (Inl e) \<longleftrightarrow> e \<noteq> out_of_bounds" "in_bounds no_length"
  by (simp_all add: in_bounds_def no_length_def)

lemma in_bounds_rbind:
  "in_bounds (rbind m f) \<longleftrightarrow> in_bounds m \<and> (\<forall>x. m = Inr x \<longrightarrow> in_bounds (f x))"
  by (cases m) (auto simp: in_bounds_def)

lemma in_bounds_byte_at: "in_bounds (byte_at r i) \<longleftrightarrow> i < length (buffer_bytes r)"
  by (simp add: byte_at_def)

lemma in_bounds_tables:
  "in_bounds (backup_type tag)" "in_bounds (repair_type tag)" "in_bounds (user_type tag)"
  "in_bounds (properties_type tag)" "in_bounds (stats_type tag)"
  by (simp_all only: backup_type_def repair_type_def user_type_def properties_type_def stats_type_def
      if_distrib [of in_bounds] in_bounds_simps clump_error.distinct simp_thms if_cancel)

lemma in_bounds_spb: "in_bounds (spb_start_type st tag)"
  by (simp only: spb_start_type_def in_bounds_tables
      if_distrib [of in_bounds] in_bounds_simps clump_error.distinct simp_thms if_cancel)

lemma in_bounds_type: "in_bounds (getClumpletType r tag)"
  by (simp add: getClumpletType_def clumplet_type_def in_bounds_spb split: Kind.split)

lemma in_bounds_tag: "in_bounds (getClumpTag r)"
  by (simp add: getClumpTag_def in_bounds_byte_at)

lemma in_bounds_lengths: "cur_offset r < length (buffer_bytes r) \<Longrightarrow> in_bounds (clumplet_lengths r t)"
  by (cases t) (auto simp: clumplet_lengths_def Let_def in_bounds_rbind in_bounds_byte_at)

lemma in_bounds_size: "in_bounds (getClumpletSize r x y z)"
  by (auto simp: getClumpletSize_def in_bounds_rbind in_bounds_byte_at in_bounds_type in_bounds_lengths)

lemma in_bounds_moveNext: "in_bounds (moveNext r)"
  by (auto simp: moveNext_def adjustSpbState_def in_bounds_rbind in_bounds_size in_bounds_tag)

lemma in_bounds_find: "in_bounds (find_clumplet tag r)"
proof (induction tag r rule: find_clumplet.induct)
  case (1 tag r)
  then show ?case
    by (subst find_clumplet.simps) (auto simp: in_bounds_rbind in_bounds_tag in_bounds_moveNext)
qed

lemma in_bounds_getBytes: "in_bounds (getBytes r)" "in_bounds (getClumpLength r)"
  by (auto simp: getBytes_def getClumpLength_def in_bounds_rbind in_bounds_size)

lemma bytes_inside:
  "getBytes r = Inr ptr \<Longrightarrow> getClumpLength r = Inr n \<Longrightarrow> ptr + n \<le> length (buffer_bytes r)"
  by (auto simp: getBytes_def getClumpLength_def getClumpletSize_def split: if_splits)

lemma in_bounds_read: "ptr + n \<le> length (buffer_bytes r) \<Longrightarrow> in_bounds (read_bytes r ptr n)"
  by (induction n arbitrary: ptr) (auto simp: in_bounds_rbind in_bounds_byte_at)

lemma in_bounds_read_integer: "ptr + n \<le> length (buffer_bytes r) \<Longrightarrow> in_bounds (read_integer r ptr n v s)"
  by (induction n arbitrary: ptr v s) (auto simp: in_bounds_rbind in_bounds_byte_at)

lemma in_bounds_bufferTag: "in_bounds (getBufferTag r)"
  by (auto simp: getBufferTag_def in_bounds_rbind in_bounds_byte_at Suc_lessI split: Kind.split)

lemma in_bounds_dump_loop: "in_bounds (dump_loop d)"
proof (induction d rule: dump_loop.induct)
  case (1 d)
  then show ?case
    by (subst dump_loop.simps)
      (auto simp: in_bounds_rbind in_bounds_tag in_bounds_getBytes in_bounds_read bytes_inside in_bounds_moveNext)
qed

lemma in_bounds_dump_clumplets: "in_bounds (dump_clumplets r)"
  by (auto simp: dump_clumplets_def Let_def in_bounds_rbind in_bounds_bufferTag in_bounds_dump_loop)

lemma in_bounds_read_iff: "in_bounds (read_bytes r ptr n) \<longleftrightarrow> n = 0 \<or> ptr + n \<le> length (buffer_bytes r)"
proof (induction n arbitrary: ptr)
  case (Suc n)
  show ?case
  proof (cases "ptr < length (buffer_bytes r)")
    case True
    then have "in_bounds (read_bytes r ptr (Suc n)) \<longleftrightarrow> in_bounds (read_bytes r (ptr + 1) n)"
      by (auto simp: in_bounds_rbind byte_at_def)
    with Suc [of "ptr + 1"] True show ?thesis by auto
  qed (simp add: byte_at_def)
qed simp

lemma length_getBufferLength: "getBufferLength r \<le> length (buffer_bytes r)"
  by (simp add: getBufferLength_def Let_def)

lemma in_bounds_dump_plain:
  assumes "length (buffer_bytes r) < 2 ^ 64" and "cur_offset r < 2 ^ 64"
  shows "in_bounds (dump_plain r) \<longleftrightarrow> cur_offset r \<le> getBufferLength r"
proof -
  let ?l = "getBufferLength r" and ?n = "size_t_diff (getBufferLength r) (cur_offset r)"
  have le: "?l \<le> length (buffer_bytes r)" by (rule length_getBufferLength)
  have "?n = (if cur_offset r \<le> ?l then ?l - cur_offset r else ?l + 2 ^ 64 - cur_offset r)"
  proof (cases "cur_offset r \<le> ?l")
    case True
    then have "?n = (?l - cur_offset r + 2 ^ 64) mod 2 ^ 64" by (simp add: size_t_diff_def)
    also have "\<dots> = ?l - cur_offset r" using le assms(1) by (simp only: mod_add_self2) simp
    finally show ?thesis using True by simp
  qed (use assms in \<open>simp add: size_t_diff_def\<close>)
  with le assms show ?thesis
    by (auto simp: dump_plain_def in_bounds_rbind in_bounds_read_iff split: if_splits)
qed

text \<open>Exactly when the dump stays inside the buffer.\<close>

lemma in_bounds_dump:
  assumes "length (buffer_bytes r) < 2 ^ 64" and "cur_offset r < 2 ^ 64"
  shows "in_bounds (dump r) \<longleftrightarrow> cur_offset r \<le> getBufferLength r \<or> dump_clumplets r = Inr ()"
  using in_bounds_dump_clumplets [of r] in_bounds_dump_plain [OF assms]
  by (auto simp: dump_def split: sum.splits clump_error.splits)

lemma dump_cases: "dump r = Inr () \<or> dump r = Inl out_of_bounds"
proof -
  have "read_bytes r p n = Inl e \<Longrightarrow> e = out_of_bounds" for p n e
    by (induction n arbitrary: p) (auto simp: rbind_eq_Inl_iff byte_at_def split: if_splits)
  then have "dump_plain r = Inr () \<or> dump_plain r = Inl out_of_bounds"
    by (cases "read_bytes r (cur_offset r) (size_t_diff (getBufferLength r) (cur_offset r))")
      (auto simp: dump_plain_def)
  then show ?thesis
    by (auto simp: dump_def split: sum.splits clump_error.splits)
qed

lemma reported_inside:
  assumes "length (buffer_bytes r) < 2 ^ 64" and "cur_offset r \<le> getBufferLength r"
  shows "reported r m = m"
proof -
  have "dump r = Inr ()"
    using in_bounds_dump [OF assms(1)] assms dump_cases [of r] length_getBufferLength [of r] by auto
  then show ?thesis by (simp add: reported_def split: sum.splits clump_error.splits)
qed

lemma reported_moveNext: "length (buffer_bytes r) < 2 ^ 64 \<Longrightarrow> reported r (moveNext r) = moveNext r"
  by (cases "isEof r") (simp_all add: moveNext_def reported_def, simp add: isEof_def reported_inside [unfolded reported_def])

lemma find_reported_eq: "length (buffer_bytes r) < 2 ^ 64 \<Longrightarrow> find_reported tag r = find_clumplet tag r"
proof (induction tag r rule: find_clumplet.induct)
  case (1 tag r)
  show ?case
  proof (cases "isEof r")
    case False
    then have "cur_offset r \<le> getBufferLength r" by (simp add: isEof_def)
    then have "reported r m = m" for m :: "'b clump_result" using reported_inside 1(2) by blast
    moreover have "find_reported tag r' = find_clumplet tag r'"
      if "getClumpTag r = Inr u" "tag \<noteq> u" "moveNext r = Inr r'" for u r'
      using 1 that False moveNext_fields(2) [OF that(3)] by (simp add: buffer_bytes_def)
    ultimately show ?thesis
      by (subst find_reported.simps, subst find_clumplet.simps)
        (auto intro!: rbind_cong)
  qed (simp add: find_reported.simps find_clumplet.simps)
qed



subsection \<open>The size limit\<close>

text \<open>
  What a program may do with a writer, one call at a time: the public operations of the class and
  of the reader that change it. The other insertions are \<open>WInsert\<close> with the bytes of their value.
\<close>

datatype writer_op = WInsert byte "byte list" | WEndMarker byte | WDelete | WDeleteTag byte
  | WNext | WRewind | WFind byte | WSetOffset nat | WReset byte | WResetBuffer "byte list option"

fun writer_step :: "writer_op \<Rightarrow> clumplet_writer \<Rightarrow> clumplet_writer clump_result" where
  "writer_step (WInsert tag bs) w = insertBytesLengthCheck tag bs w"
| "writer_step (WEndMarker tag) w = insertEndMarker tag w"
| "writer_step WDelete w = deleteClumplet w"
| "writer_step (WDeleteTag tag) w = rbind (deleteWithTag tag w) (\<lambda>(rc, w'). Inr w')"
| "writer_step WNext w = moveNext w"
| "writer_step WRewind w = Inr (rewind w)"
| "writer_step (WFind tag) w = rbind (clumplet_find tag w) (\<lambda>(rc, w'). Inr w')"
| "writer_step (WSetOffset n) w = Inr (w\<lparr>cur_offset := n\<rparr>)"
| "writer_step (WReset tag) w = Inr (clumplet_reset_tag tag w)"
| "writer_step (WResetBuffer buffer) w = clumplet_reset_buffer buffer w"

text \<open>The buffer of \<^verbatim>\<open>reset(buffer, length)\<close> is stored without a look at the limit.\<close>

definition given_length :: "writer_op \<Rightarrow> nat" where
  "given_length c = (case c of WResetBuffer (Some bs) \<Rightarrow> length bs | _ \<Rightarrow> 0)"

definition length_bound :: "writer_op list \<Rightarrow> nat \<Rightarrow> nat" where
  "length_bound cs limit = fold (\<lambda>c. max (given_length c)) cs limit"

fun writer_run :: "writer_op list \<Rightarrow> clumplet_writer \<Rightarrow> clumplet_writer clump_result" where
  "writer_run [] w = Inr w"
| "writer_run (c # cs) w = rbind (writer_step c w) (writer_run cs)"

definition within :: "nat \<Rightarrow> clumplet_writer \<Rightarrow> bool" where
  "within n w \<longleftrightarrow> length (buffer_bytes w) \<le> n"

lemma rewind_limit [simp]: "sizeLimit (rewind w) = sizeLimit w"
  by (simp add: rewind_def)

lemma adjustSpbState_limit: "adjustSpbState (w :: clumplet_writer) = Inr w' \<Longrightarrow> sizeLimit w' = sizeLimit w"
  by (auto simp: adjustSpbState_def split: if_splits)

lemma moveNext_limit: "moveNext (w :: clumplet_writer) = Inr w' \<Longrightarrow> sizeLimit w' = sizeLimit w"
  by (auto simp: moveNext_def dest: adjustSpbState_limit split: if_splits)

lemma find_clumplet_limit: "find_clumplet tag (w :: clumplet_writer) = Inr (found, w') \<Longrightarrow> sizeLimit w' = sizeLimit w"
proof (induction tag w rule: find_clumplet.induct)
  case (1 tag w)
  from 1(2) [unfolded find_clumplet.simps [of tag w]] 1(1) show ?case
    by (auto dest: moveNext_limit split: if_splits)
qed

lemma clumplet_find_limit: "clumplet_find tag (w :: clumplet_writer) = Inr (found, w') \<Longrightarrow> sizeLimit w' = sizeLimit w"
  by (auto simp: clumplet_find_def Let_def dest: find_clumplet_limit split: if_splits prod.splits)

lemma deleteClumplet_limit: "deleteClumplet w = Inr w' \<Longrightarrow> sizeLimit w' = sizeLimit w"
  by (auto simp: deleteClumplet_def split: if_splits)

lemma same_buffer: "static_buffer w' = static_buffer w \<Longrightarrow> buffer_bytes w' = buffer_bytes w"
  by (simp add: buffer_bytes_def)

lemma delete_within: "deleteClumplet w = Inr w' \<Longrightarrow> within n w \<Longrightarrow> within n w' \<and> sizeLimit w' = sizeLimit w"
  using deleteClumplet_shrinks deleteClumplet_limit by (fastforce simp: within_def)

lemma find_within:
  "clumplet_find tag (w :: clumplet_writer) = Inr (found, w') \<Longrightarrow> within n w \<Longrightarrow> within n w' \<and> sizeLimit w' = sizeLimit w"
  using clumplet_find_fields(2) clumplet_find_limit by (fastforce simp: within_def buffer_bytes_def)

lemma deleteWithTag_within:
  "deleteWithTag_loop tag rc w = Inr (rc', w') \<Longrightarrow> within n w \<Longrightarrow> within n w' \<and> sizeLimit w' = sizeLimit w"
proof (induction tag rc w rule: deleteWithTag_loop.induct)
  case (1 tag rc w)
  from 1(2) [unfolded deleteWithTag_loop.simps [of tag rc w]] 1(1,3) show ?case
    by (fastforce dest: find_within delete_within split: if_splits prod.splits)
qed

lemma insert_within:
  assumes "insertBytesLengthCheck tag bs w = Inr w'"
  shows "within (sizeLimit w) w' \<and> sizeLimit w' = sizeLimit w"
proof -
  have "\<not> length (buffer_bytes w) < cur_offset w"
    using assms by (auto simp: insertBytesLengthCheck_def split: if_splits)
  then have A: "buffer_bytes w = take (cur_offset w) (buffer_bytes w) @ drop (cur_offset w) (buffer_bytes w)"
      "cur_offset w = length (take (cur_offset w) (buffer_bytes w))" by simp_all
  obtain t where t: "getClumpletType w tag = Inr t" "data_ok t (length bs)"
      "length (buffer_bytes w) + length (item_bytes t (tag, bs)) \<le> sizeLimit w"
    using assms by (auto simp: insertBytesLengthCheck_def lenSize_Inr_iff item_bytes_def split: if_splits)
  show ?thesis
    using insert_bytes_at [OF A t] assms t(3) A(2) by (auto simp: within_def buffer_bytes_def)
qed

lemma reset_tag_bytes:
  "length (buffer_bytes (clumplet_reset_tag tag w)) \<le> 2" "sizeLimit (clumplet_reset_tag tag w) = sizeLimit w"
  by (cases "kind w"; simp add: clumplet_reset_tag_def initNewBuffer_def Let_def)+

lemma initNewBuffer_bytes:
  "length (buffer_bytes (initNewBuffer tag w)) \<le> length (buffer_bytes w) + 2"
  "sizeLimit (initNewBuffer tag w) = sizeLimit w" "kind (initNewBuffer tag w) = kind w"
  by (cases "kind w"; simp add: initNewBuffer_def Let_def)+

lemma reset_buffer_bytes:
  assumes "clumplet_reset_buffer buffer w = Inr w'"
  shows "length (buffer_bytes w') \<le> max 2 (given_length (WResetBuffer buffer)) \<and> sizeLimit w' = sizeLimit w"
proof -
  have "length (buffer_bytes (initNewBuffer tag (set_bytes [] w))) \<le> 2" for tag
    using initNewBuffer_bytes(1) [of tag "set_bytes [] w"] by simp
  then show ?thesis
    using assms
    by (cases buffer)
      (auto simp: clumplet_reset_buffer_def Let_def given_length_def initNewBuffer_bytes(2) split: list.splits if_splits)
qed

lemma writer_step_within:
  assumes "writer_step c w = Inr w'" and "within n w" and "2 \<le> sizeLimit w" and "sizeLimit w \<le> n"
  shows "within (max (given_length c) n) w' \<and> sizeLimit w' = sizeLimit w"
proof (cases c)
  case (WInsert tag bs)
  then show ?thesis using assms insert_within [of tag bs w w'] by (auto simp: within_def)
next
  case (WEndMarker tag)
  then show ?thesis using assms by (auto simp: insertEndMarker_def within_def buffer_bytes_def set_bytes_def split: if_splits)
next
  case WDelete
  then show ?thesis using assms delete_within [of w w' n] by (auto simp: within_def)
next
  case (WDeleteTag tag)
  then show ?thesis using assms deleteWithTag_within [of tag False w _ w' n]
    by (auto simp: deleteWithTag_def within_def)
next
  case WNext
  then show ?thesis
    using assms moveNext_limit [of w w'] moveNext_fields(2) [of w w'] by (simp add: within_def buffer_bytes_def)
next
  case (WFind tag)
  then show ?thesis using assms find_within [of tag w _ w' n] by (auto simp: within_def)
next
  case (WReset tag)
  then show ?thesis using assms reset_tag_bytes [of tag w] by (auto simp: within_def)
next
  case (WResetBuffer buffer)
  then show ?thesis using assms reset_buffer_bytes [of buffer w w'] by (auto simp: within_def)
qed (use assms in \<open>auto simp: within_def buffer_bytes_def\<close>)

text \<open>
  C23. The size limit of a writer bounds what the edits build: after any sequence of calls that
  starts within the limit (which leaves room for a header), insertions, end markers, deletions,
  searches, moves and both resets, the buffer is no longer than the limit or than the longest buffer
  that was given to \<^verbatim>\<open>reset\<close>, which is stored unchecked. Without such a reset, or when the
  buffers given to it are within the limit, the limit is never exceeded.
\<close>

theorem clumplet_limit_kept:
  assumes "writer_run cs w = Inr w'" and "length (buffer_bytes w) \<le> sizeLimit w" and "2 \<le> sizeLimit w"
  shows "length (buffer_bytes w') \<le> length_bound cs (sizeLimit w) \<and> sizeLimit w' = sizeLimit w \<and>
    ((\<forall>c \<in> set cs. given_length c \<le> sizeLimit w) \<longrightarrow> length (buffer_bytes w') \<le> sizeLimit w)"
proof -
  have run: "within (fold (\<lambda>c. max (given_length c)) cs n) w' \<and> sizeLimit w' = sizeLimit w"
    if "within n w" "sizeLimit w \<le> n" "2 \<le> sizeLimit w" "writer_run cs w = Inr w'" for n w and cs :: "writer_op list"
    using that
  proof (induction cs arbitrary: w n)
    case (Cons c cs)
    then obtain w1 where w1: "writer_step c w = Inr w1" "writer_run cs w1 = Inr w'" by auto
    have "within (max (given_length c) n) w1 \<and> sizeLimit w1 = sizeLimit w"
      using writer_step_within [OF w1(1) Cons.prems(1,3,2)] .
    with Cons.IH [of "max (given_length c) n" w1] Cons.prems w1(2) show ?case by auto
  qed simp
  have "fold (\<lambda>c. max (given_length c)) cs n = n" if "\<forall>c \<in> set cs. given_length c \<le> n" for n
    using that by (induction cs) (auto simp: max_def)
  with run [of "sizeLimit w" w cs] assms show ?thesis
    by (auto simp: length_bound_def within_def)
qed

theorem clumplet_limit_kept_witness:
  "\<exists>w'. writer_run [WInsert 5 [1], WRewind, WDelete, WEndMarker 9, WResetBuffer (Some [1, 2, 3, 4, 5])]
       (clumplet_writer_new UnTagged 4 0) = Inr w' \<and> length (buffer_bytes w') \<le> 5"
proof -
  let ?w = "clumplet_writer_new UnTagged 4 0"
  let ?cs = "[WInsert 5 [1], WRewind, WDelete, WEndMarker 9, WResetBuffer (Some [1, 2, 3, 4, 5])]"
  have w: "?w = \<lparr>kind = UnTagged, static_buffer = Some [], cur_offset = 0, spbState = 0, sizeLimit = 4\<rparr>"
    by (simp add: clumplet_writer_new_def empty_writer_def initNewBuffer_def rewind_def)
  have "\<exists>w'. writer_run ?cs ?w = Inr w'"
    by (simp add: w insertBytesLengthCheck_def buffer_bytes_def getClumpletType_def clumplet_type_def
        clumplet_lenSize_def insert_and_advance_def insert_at_def set_bytes_def adjustSpbState_def Let_def
        rewind_def deleteClumplet_def getClumpletSize_def byte_at_def clumplet_lengths_def remove_at_def
        insertEndMarker_def clumplet_reset_buffer_def)
  then obtain w' where w': "writer_run ?cs ?w = Inr w'" by blast
  show ?thesis
    using clumplet_limit_kept [OF w'] w'
    by (auto simp: w buffer_bytes_def length_bound_def given_length_def simp del: writer_run.simps)
qed

subsection \<open>Three defects\<close>

text \<open>In the table of an action other than 5, 6 and 7 the action itself is not a parameter.\<close>

lemma spb_action_not_parameter:
  assumes "act \<notin> {0, 5, 6, 7}"
  shows "\<exists>what. spb_start_type act act = Inl (invalid_structure what)"
  using assms
  by (auto simp: spb_start_type_def backup_type_def repair_type_def user_type_def properties_type_def stats_type_def)

text \<open>
  C24. A search that fails in a service start block restores the position but not the parser state.
  For every well-formed block that opens with an action (other than 5, 6, 7, the actions whose number
  is also that of a parameter) and a reader at its start: \<^verbatim>\<open>find\<close> for an absent tag returns
  false with the position where it was, but in the state behind the action; stepping to the next
  clumplet, which succeeds before the search, then raises an error.
\<close>

theorem clumplet_find_loses_state:
  assumes "kind r = SpbStart" and "at_item r [] [] ((act, []) # its)" and "act \<notin> {0, 5, 6, 7}"
    and "tag \<notin> fst ` set ((act, []) # its)"
  shows "\<exists>r1 what. moveNext r = Inr r1 \<and> at_item r1 [] [(act, [])] its \<and>
    clumplet_find tag r = Inr (False, r\<lparr>spbState := act\<rparr>) \<and>
    moveNext (r\<lparr>spbState := act\<rparr>) = Inl (invalid_structure what)"
proof -
  let ?items = "(act, []) # its" and ?r = "r\<lparr>spbState := act\<rparr>"
  obtain bs where bs: "enc_items SpbStart 0 ?items = Some bs" "static_buffer r = Some bs" "cur_offset r = 0"
      "spbState r = 0"
    using assms(1,2) by (auto simp: at_item_def)
  obtain r1 where r1: "moveNext r = Inr r1" "at_item r1 [] [(act, [])] its"
    using at_item_next [OF assms(2)] by auto
  obtain r' where r': "find_clumplet tag (rewind r) = Inr (False, r')"
      "at_item r' [] (takeWhile (\<lambda>i. fst i \<noteq> tag) ?items) (dropWhile (\<lambda>i. fst i \<noteq> tag) ?items)"
    using clumplet_find_spec [of r "[]" ?items bs tag] assms(1,4) bs(1,2) by (auto simp: header_ok_def)
  have "takeWhile (\<lambda>i. fst i \<noteq> tag) ?items = ?items" "dropWhile (\<lambda>i. fst i \<noteq> tag) ?items = []"
    using assms(4) by (auto simp: takeWhile_eq_all_conv dropWhile_eq_Nil_conv)
  with r'(2) have "at_item r' [] ?items []" by simp
  moreover have k: "kind r' = SpbStart" "static_buffer r' = static_buffer r"
    using find_clumplet_fields [OF r'(1)] assms(1) by simp_all
  ultimately have "spbState r' = end_state SpbStart 0 ?items" by (simp add: at_item_def)
  moreover have "end_state SpbStart act xs = act" for xs :: "item list"
    using assms(3) by (induction xs) (auto simp: next_state_def)
  ultimately have st: "spbState r' = act" by (simp add: next_state_def)
  have "r'\<lparr>cur_offset := cur_offset r\<rparr> = ?r"
    using k st assms(1) find_clumplet_more [OF r'(1)] by (intro clumplets.equality) simp_all
  then have f: "clumplet_find tag r = Inr (False, ?r)"
    using r'(1) by (simp add: clumplet_find_def Let_def)
  obtain what where what: "spb_start_type act act = Inl (invalid_structure what)"
    using spb_action_not_parameter [OF assms(3)] by blast
  have "getClumpTag r = Inr act" "\<not> isEof r"
    using clump.tag_law [OF assms(2)] at_item_eof [OF assms(2)] by simp_all
  then have "byte_at ?r 0 = Inr act" "\<not> isEof ?r" "\<not> length (buffer_bytes ?r) \<le> 0"
    using bs(3) by (auto simp: getClumpTag_def byte_at_def buffer_bytes_def isEof_def getBufferLength_def split: if_splits)
  then have "moveNext ?r = Inl (invalid_structure what)"
    using what assms(1) bs(3) by (simp add: moveNext_def getClumpletSize_def getClumpletType_def clumplet_type_def)
  with r1 f show ?thesis by blast
qed

theorem clumplet_find_loses_state_witness:
  "\<exists>r1 what. moveNext (clumplet_reader SpbStart (Some [1, 107])) = Inr r1 \<and> at_item r1 [] [(1, [])] [(107, [])] \<and>
    clumplet_find 5 (clumplet_reader SpbStart (Some [1, 107])) =
      Inr (False, (clumplet_reader SpbStart (Some [1, 107]))\<lparr>spbState := 1\<rparr>) \<and>
    moveNext ((clumplet_reader SpbStart (Some [1, 107]))\<lparr>spbState := 1\<rparr>) = Inl (invalid_structure what)"
proof -
  have "at_item (clumplet_reader SpbStart (Some [1, 107])) [] [] [(1, []), (107, [])]"
    by (simp add: clumplet_reader_def rewind_def at_item_def header_ok_def clump_eval backup_type_def)
  then show ?thesis
    by (intro clumplet_find_loses_state) (simp_all add: clumplet_reader_def)
qed

definition reset_header :: "Kind \<Rightarrow> byte list" where
  "reset_header k = (if k = SpbItems then [] else if k = SpbAttach then [isc_spb_version, 0] else [0])"

lemma reset_empty_at_item:
  assumes "buffer \<in> {None, Some []}" and "kind w \<notin> {SpbStart, UnTagged, WideUnTagged}"
  shows "\<exists>w'. clumplet_reset_buffer buffer w = Inr w' \<and> kind w' = kind w \<and> sizeLimit w' = sizeLimit w \<and>
    at_item w' (reset_header (kind w)) [] []"
proof -
  let ?w = "initNewBuffer 0 (set_bytes [] w)"
  have "clumplet_reset_buffer buffer w = Inr (rewind ?w)"
    using assms by (auto simp: clumplet_reset_buffer_def Let_def)
  moreover have "static_buffer ?w = Some (reset_header (kind w) @ [])" "header_ok (kind ?w) (reset_header (kind w))"
    using assms(2) by (cases "kind w"; simp add: initNewBuffer_def reset_header_def header_ok_def
        isc_spb_version_def isc_spb_version1_def)+
  ultimately show ?thesis
    using rewind_at_item [of ?w "reset_header (kind w)" "[]" "[]"] by (simp add: initNewBuffer_bytes)
qed

text \<open>
  C25. What resetting a writer to a buffer does, for every writer. A non-empty well-formed block is
  taken over, with the position at its first item. For an empty or null buffer the tag comes from the
  wrong branch: the untagged kinds of the condition (not \<^verbatim>\<open>SpbItems\<close>, which it leaves out)
  raise, and a tagged block gets the tag 0 (\<open>reset_header\<close>) whatever its tag was.
\<close>

theorem clumplet_reset_spec:
  "(\<forall>hdr items bs. header_ok (kind w) hdr \<and> enc_items (kind w) 0 items = Some bs \<and> hdr @ bs \<noteq> [] \<longrightarrow>
      (\<exists>w'. clumplet_reset_buffer (Some (hdr @ bs)) w = Inr w' \<and> at_item w' hdr [] items \<and>
        kind w' = kind w \<and> sizeLimit w' = sizeLimit w)) \<and>
   (\<forall>buffer \<in> {None, Some []}.
      if kind w \<in> {SpbStart, UnTagged, WideUnTagged}
      then clumplet_reset_buffer buffer w = Inl (usage_mistake ''buffer is not tagged'')
      else \<exists>w'. clumplet_reset_buffer buffer w = Inr w' \<and> kind w' = kind w \<and> sizeLimit w' = sizeLimit w \<and>
        at_item w' (reset_header (kind w)) [] [])"
proof -
  have "\<exists>w'. clumplet_reset_buffer (Some (hdr @ bs)) w = Inr w' \<and> at_item w' hdr [] items \<and>
        kind w' = kind w \<and> sizeLimit w' = sizeLimit w"
    if "header_ok (kind w) hdr" "enc_items (kind w) 0 items = Some bs" "hdr @ bs \<noteq> []" for hdr items bs
  proof -
    have "clumplet_reset_buffer (Some (hdr @ bs)) w = Inr (rewind (set_bytes (hdr @ bs) w))"
      using that(3) by (cases "hdr @ bs") (simp_all add: clumplet_reset_buffer_def set_bytes_def)
    with rewind_at_item [of "set_bytes (hdr @ bs) w" hdr items bs] that show ?thesis by simp
  qed
  moreover have "clumplet_reset_buffer buffer w = Inl (usage_mistake ''buffer is not tagged'')"
    if "buffer \<in> {None, Some []}" "kind w \<in> {SpbStart, UnTagged, WideUnTagged}" for buffer
    using that by (auto simp: clumplet_reset_buffer_def Let_def getBufferTag_def)
  moreover note reset_empty_at_item [of _ w]
  ultimately show ?thesis by auto
qed

theorem clumplet_reset_spec_witness:
  "clumplet_reset_buffer None (clumplet_writer_new UnTagged 9 0) = Inl (usage_mistake ''buffer is not tagged'') \<and>
   (\<exists>w'. clumplet_reset_buffer None (clumplet_writer_new Tagged 9 7) = Inr w' \<and> at_item w' [0] [] [])"
proof -
  have k: "kind (clumplet_writer_new k 9 t) = k" for k t
    by (simp add: clumplet_writer_new_def initNewBuffer_bytes(3) empty_writer_def)
  show ?thesis
    using clumplet_reset_spec [of "clumplet_writer_new UnTagged 9 0"]
      clumplet_reset_spec [of "clumplet_writer_new Tagged 9 7"] by (auto simp: k reset_header_def)
qed



end
