(* ===== verification/FB_EvlString.thy ===== *)
theory FB_EvlString
  imports FB_Prelude "HOL-Library.Sublist" "HOL-Library.Monad_Syntax"
begin

section \<open>String predicates (\<^verbatim>\<open>src/src/jrd/evl_string.h\<close>)\<close>

text \<open>
  The evaluators of \<^verbatim>\<open>STARTING WITH\<close> and \<^verbatim>\<open>CONTAINING\<close>. Each receives the subject in
  chunks and keeps its state between them. Characters are of any type; \<^verbatim>\<open>SLONG\<close> offsets are
  integers (they are bounded by the pattern length, which is a \<^verbatim>\<open>SLONG\<close>). Reads and writes
  outside an array yield \<open>None\<close>, as does a loop that does not end.
\<close>

subsection \<open>STARTING WITH\<close>

record 'a starts_evaluator =
  s_pattern :: "'a list"
  s_offset :: nat
  s_result :: bool

definition starts_reset :: "'a starts_evaluator \<Rightarrow> 'a starts_evaluator" where
  "starts_reset e = e\<lparr>s_result := True, s_offset := 0\<rparr>"

definition starts_new :: "'a list \<Rightarrow> 'a starts_evaluator" where
  "starts_new pattern = starts_reset \<lparr>s_pattern = pattern, s_offset = 0, s_result = False\<rparr>"

definition starts_getResult :: "'a starts_evaluator \<Rightarrow> bool" where
  "starts_getResult e \<longleftrightarrow> length (s_pattern e) \<le> s_offset e \<and> s_result e"

definition starts_process :: "'a list \<Rightarrow> 'a starts_evaluator \<Rightarrow> bool \<times> 'a starts_evaluator" where
  "starts_process data e =
     (if \<not> s_result e \<or> length (s_pattern e) \<le> s_offset e then (False, e)
      else
        let comp_length = (if length data < length (s_pattern e) - s_offset e then length data
                           else length (s_pattern e) - s_offset e) in
        if take comp_length data \<noteq> take comp_length (drop (s_offset e) (s_pattern e))
        then (False, e\<lparr>s_result := False\<rparr>)
        else let e = e\<lparr>s_offset := s_offset e + comp_length\<rparr> in (s_offset e < length (s_pattern e), e))"

subsection \<open>The Knuth-Morris-Pratt table\<close>

definition rd :: "'b list \<Rightarrow> int \<Rightarrow> 'b option" where
  "rd xs i = (if 0 \<le> i \<and> nat i < length xs then Some (xs ! nat i) else None)"

definition wr :: "'b list \<Rightarrow> int \<Rightarrow> 'b \<Rightarrow> 'b list option" where
  "wr xs i v = (if 0 \<le> i \<and> nat i < length xs then Some (xs[nat i := v]) else None)"

text \<open>The inner loops: fall back along the table until the character fits.\<close>

partial_function (option) kmp_fall :: "'a list \<Rightarrow> int list \<Rightarrow> 'a \<Rightarrow> int \<Rightarrow> int option" where
  "kmp_fall x kmpNext c j =
     (if - 1 < j then do {
        xj \<leftarrow> rd x j;
        if xj \<noteq> c then do { j' \<leftarrow> rd kmpNext j; kmp_fall x kmpNext c j' } else Some j }
      else Some j)"

function preKmp_loop :: "'a list \<Rightarrow> nat \<Rightarrow> int \<Rightarrow> int list \<Rightarrow> (nat \<times> int \<times> int list) option" where
  "preKmp_loop x i j kmpNext =
     (if int i < int (length x) - 1 then do {
        xi \<leftarrow> rd x (int i);
        j \<leftarrow> kmp_fall x kmpNext xi j;
        xi \<leftarrow> rd x (int (i + 1));
        xj \<leftarrow> rd x (j + 1);
        v \<leftarrow> (if xi = xj then rd kmpNext (j + 1) else Some (j + 1));
        kmpNext \<leftarrow> wr kmpNext (int (i + 1)) v;
        preKmp_loop x (i + 1) (j + 1) kmpNext }
      else Some (i, j, kmpNext))"
  by pat_completeness auto
termination
  by (relation "measure (\<lambda>(x, i, j, kmpNext). length x - i)") auto

declare preKmp_loop.simps [simp del]

text \<open>The test of the second inner loop reads \<open>x[i]\<close> only when \<open>j\<close> is not negative.\<close>

definition preKmp :: "'a list \<Rightarrow> int list \<Rightarrow> int list option" where
  "preKmp x kmpNext = do {
     kmpNext \<leftarrow> wr kmpNext 0 (- 1);
     (i, j, kmpNext) \<leftarrow> preKmp_loop x 0 (- 1) kmpNext;
     j \<leftarrow> (if - 1 < j then do { xi \<leftarrow> rd x (int i); kmp_fall x kmpNext xi j } else Some j);
     wr kmpNext (int (i + 1)) (j + 1) }"

subsection \<open>The allocator\<close>

text \<open>
  Blocks come from a static buffer as long as they fit and from the memory pool otherwise; the
  pool chunks are remembered for the destructor. A block is described by its place and size. The
  alignment is set when the system is configured and is a parameter here, a power of two, for which
  the bit mask of \<^verbatim>\<open>ROUNDUP\<close> rounds up to a multiple.
\<close>

definition STATIC_PATTERN_BUFFER :: nat where
  "STATIC_PATTERN_BUFFER = 256"

datatype place = Static nat | Pool nat

record static_allocator =
  allocated :: nat
  chunksToFree :: "nat list"

definition sa_new :: static_allocator where
  "sa_new = \<lparr>allocated = 0, chunksToFree = []\<rparr>"

text \<open>The place, the number of bytes reserved there, and the new state.\<close>

definition sa_alloc :: "nat \<Rightarrow> nat \<Rightarrow> static_allocator \<Rightarrow> place \<times> nat \<times> static_allocator" where
  "sa_alloc alignment count a =
     (let localCount = ROUNDUP count alignment in
      if allocated a + localCount \<le> STATIC_PATTERN_BUFFER
      then (Static (allocated a), localCount, a\<lparr>allocated := allocated a + localCount\<rparr>)
      else (Pool (length (chunksToFree a)), count, a\<lparr>chunksToFree := chunksToFree a @ [count]\<rparr>))"

subsection \<open>CONTAINING\<close>

record 'a contains_evaluator =
  c_alloc :: static_allocator
  c_pattern :: "'a list"
  c_offset :: int
  c_result :: bool
  c_kmpNext :: "int list"

definition contains_reset :: "'a contains_evaluator \<Rightarrow> 'a contains_evaluator" where
  "contains_reset e = e\<lparr>c_offset := 0, c_result := (length (c_pattern e) = 0)\<rparr>"

text \<open>\<open>char_size\<close> is the size of a character; the table has as many cells as its block holds.\<close>

definition contains_new :: "nat \<Rightarrow> nat \<Rightarrow> 'a list \<Rightarrow> 'a contains_evaluator option" where
  "contains_new alignment char_size pattern =
     (let (p, n, a) = sa_alloc alignment (length pattern * char_size) sa_new;
          (p', n', a) = sa_alloc alignment ((length pattern + 1) * 4) a in
      do {
        kmpNext \<leftarrow> preKmp pattern (replicate (n' div 4) 0);
        Some (contains_reset \<lparr>c_alloc = a, c_pattern = pattern, c_offset = 0, c_result = False,
                              c_kmpNext = kmpNext\<rparr>) })"

definition contains_getResult :: "'a contains_evaluator \<Rightarrow> bool" where
  "contains_getResult e = c_result e"

fun contains_loop :: "'a list \<Rightarrow> 'a contains_evaluator \<Rightarrow> (bool \<times> 'a contains_evaluator) option" where
  "contains_loop [] e = Some (True, e)"
| "contains_loop (c # data) e = do {
     off \<leftarrow> kmp_fall (c_pattern e) (c_kmpNext e) c (c_offset e);
     (let e = e\<lparr>c_offset := off + 1\<rparr> in
      if int (length (c_pattern e)) \<le> c_offset e then Some (False, e\<lparr>c_result := True\<rparr>)
      else contains_loop data e) }"

definition contains_process :: "'a list \<Rightarrow> 'a contains_evaluator \<Rightarrow> (bool \<times> 'a contains_evaluator) option" where
  "contains_process data e = (if c_result e then Some (False, e) else contains_loop data e)"

subsection \<open>Borders\<close>

text \<open>\<open>best P v\<close>: \<open>v\<close> is the greatest number with the property, or \<open>- 1\<close> if there is none.\<close>

definition best :: "(nat \<Rightarrow> bool) \<Rightarrow> int \<Rightarrow> bool" where
  "best P v \<longleftrightarrow> (v = - 1 \<and> (\<forall>k. \<not> P k)) \<or> (\<exists>k. v = int k \<and> P k \<and> (\<forall>l. P l \<longrightarrow> l \<le> k))"

definition border :: "'a list \<Rightarrow> nat \<Rightarrow> nat \<Rightarrow> bool" where
  "border x j k \<longleftrightarrow> k < j \<and> j \<le> length x \<and> suffix (take k x) (take j x)"

text \<open>The table entry: the longest border that is followed by a different character.\<close>

definition table_ok :: "'a list \<Rightarrow> int list \<Rightarrow> nat \<Rightarrow> bool" where
  "table_ok x kmpNext j \<longleftrightarrow> j < length kmpNext \<and> best (\<lambda>k. border x j k \<and> x ! k \<noteq> x ! j) (kmpNext ! j)"

lemma bestI: "P k \<Longrightarrow> (\<And>l. P l \<Longrightarrow> l \<le> k) \<Longrightarrow> best P (int k)"
  by (auto simp: best_def)

lemma best_cong: "(\<And>k. P k = Q k) \<Longrightarrow> best P v = best Q v"
  by (simp add: best_def)

lemma border_trans: "border x j k \<Longrightarrow> border x k l \<Longrightarrow> border x j l"
  by (auto simp: border_def intro: suffix_order.trans)

lemma border_linear: "border x j k \<Longrightarrow> border x j l \<Longrightarrow> l < k \<Longrightarrow> border x k l"
  unfolding border_def by (auto intro: suffix_length_suffix)

lemma suffix_snoc_take:
  assumes "k < length x"
  shows "suffix (take (Suc k) x) (T @ [c]) \<longleftrightarrow> suffix (take k x) T \<and> x ! k = c"
  using assms by (auto simp: take_Suc_conv_app_nth)

lemma border_Suc:
  assumes "Suc i \<le> length x"
  shows "border x (Suc i) (Suc k) \<longleftrightarrow> border x i k \<and> x ! k = x ! i"
proof (cases "k < i")
  case True
  have "take (Suc i) x = take i x @ [x ! i]" using assms by (simp add: take_Suc_conv_app_nth)
  then have "suffix (take (Suc k) x) (take (Suc i) x) \<longleftrightarrow> suffix (take k x) (take i x) \<and> x ! k = x ! i"
    using suffix_snoc_take [of k x "take i x" "x ! i"] True assms by simp
  then show ?thesis using True assms by (auto simp: border_def)
qed (simp add: border_def)

lemma border_0 [simp]: "j \<le> length x \<Longrightarrow> border x j 0 \<longleftrightarrow> 0 < j"
  by (simp add: border_def)

text \<open>
  Falling back along the table from the greatest element of a family of prefix lengths that is
  closed under borders finds the greatest element that is followed by the character.
\<close>

lemma rd_nat [simp]: "rd xs (int i) = (if i < length xs then Some (xs ! i) else None)"
  by (simp add: rd_def)

lemma kmp_fall_best:
  assumes closed: "\<And>j k. P j \<Longrightarrow> border x j k \<Longrightarrow> P k" "\<And>j k. P j \<Longrightarrow> P k \<Longrightarrow> k < j \<Longrightarrow> border x j k"
    and inside: "\<And>j. P j \<Longrightarrow> j < length x \<and> table_ok x kmpNext j"
    and start: "j = - 1 \<or> (\<exists>k. j = int k \<and> P k)" "\<And>k. P k \<Longrightarrow> x ! k = c \<Longrightarrow> int k \<le> j"
  shows "\<exists>v. kmp_fall x kmpNext c j = Some v \<and> best (\<lambda>k. P k \<and> x ! k = c) v"
  using start
proof (induction "nat (j + 1)" arbitrary: j rule: less_induct)
  case less
  show ?case
  proof (cases "j = - 1")
    case True
    then have "best (\<lambda>k. P k \<and> x ! k = c) j" using less.prems(2) by (auto simp: best_def)
    then show ?thesis using True by (subst kmp_fall.simps) simp
  next
    case False
    then obtain k where k: "j = int k" "P k" using less.prems(1) by blast
    show ?thesis
    proof (cases "x ! k = c")
      case True
      then have "best (\<lambda>k. P k \<and> x ! k = c) j" using less.prems(2) k by (auto simp: best_def)
      then show ?thesis using True k inside [OF k(2)] by (subst kmp_fall.simps) simp
    next
      case False
      define j' where "j' = kmpNext ! k"
      have b: "best (\<lambda>l. border x k l \<and> x ! l \<noteq> x ! k) j'" and len: "k < length x" "k < length kmpNext"
        using inside [OF k(2)] by (auto simp: table_ok_def j'_def)
      have "kmp_fall x kmpNext c j = kmp_fall x kmpNext c j'"
        using False k(1) len by (subst kmp_fall.simps) (simp add: j'_def)
      moreover have "\<exists>v. kmp_fall x kmpNext c j' = Some v \<and> best (\<lambda>k. P k \<and> x ! k = c) v"
      proof (rule less.hyps)
        show "nat (j' + 1) < nat (j + 1)" using b k(1) by (auto simp: best_def border_def)
        show "j' = - 1 \<or> (\<exists>l. j' = int l \<and> P l)" using b closed(1) [OF k(2)] by (auto simp: best_def)
        fix l assume l: "P l" "x ! l = c"
        then have "l < k" using less.prems(2) [OF l] k(1) False by (cases "l = k") auto
        then have "border x k l" using closed(2) k(2) l(1) by blast
        then show "int l \<le> j'" using b l(2) False by (auto simp: best_def)
      qed
      ultimately show ?thesis by simp
    qed
  qed
qed

subsection \<open>The table is right\<close>

definition pre_inv :: "'a list \<Rightarrow> nat \<Rightarrow> nat \<Rightarrow> int \<Rightarrow> int list \<Rightarrow> bool" where
  "pre_inv x cells i j kmpNext \<longleftrightarrow> i < length x \<and> length kmpNext = cells \<and> (\<forall>l \<le> i. table_ok x kmpNext l)
     \<and> best (border x i) j"

lemma pre_fall:
  assumes "pre_inv x cells i j kmpNext"
  shows "\<exists>v. kmp_fall x kmpNext (x ! i) j = Some v \<and> best (border x (Suc i)) (v + 1)"
proof -
  have i: "i < length x" and j: "best (border x i) j" and t: "\<And>l. l \<le> i \<Longrightarrow> table_ok x kmpNext l"
    using assms by (auto simp: pre_inv_def)
  obtain v where v: "kmp_fall x kmpNext (x ! i) j = Some v" "best (\<lambda>k. border x i k \<and> x ! k = x ! i) v"
  proof -
    have "\<exists>v. kmp_fall x kmpNext (x ! i) j = Some v \<and> best (\<lambda>k. border x i k \<and> x ! k = x ! i) v"
    proof (rule kmp_fall_best)
      show "border x i l \<Longrightarrow> l < length x \<and> table_ok x kmpNext l" for l using t i by (simp add: border_def)
      show "j = - 1 \<or> (\<exists>k. j = int k \<and> border x i k)" using j by (auto simp: best_def)
      show "border x i k \<Longrightarrow> int k \<le> j" for k using j by (auto simp: best_def)
    qed (auto intro: border_trans border_linear)
    then show thesis using that by blast
  qed
  have "best (border x (Suc i)) (v + 1)"
  proof (cases "v = - 1")
    case True
    have "l = 0" if "border x (Suc i) l" for l
      using that v(2) True i border_Suc [of i x "l - 1"] by (cases l) (auto simp: best_def)
    then show ?thesis using True i bestI [of "border x (Suc i)" 0] by simp
  next
    case False
    then obtain k where k: "v = int k" "border x i k" "x ! k = x ! i" "\<And>l. border x i l \<Longrightarrow> x ! l = x ! i \<Longrightarrow> l \<le> k"
      using v(2) by (auto simp: best_def)
    have "best (border x (Suc i)) (int (Suc k))"
    proof (rule bestI)
      show "border x (Suc i) (Suc k)" using k i border_Suc [of i x k] by simp
      fix l assume "border x (Suc i) l"
      then show "l \<le> Suc k" using k(4) i border_Suc [of i x "l - 1"] by (cases l) auto
    qed
    then show ?thesis using k(1) by (simp add: add.commute)
  qed
  then show ?thesis using v(1) by blast
qed

lemma table_next:
  assumes "best (border x i) j" and "0 \<le> j" and "i < length x" and "x ! i = x ! nat j \<Longrightarrow> table_ok x kmpNext (nat j)"
  shows "best (\<lambda>k. border x i k \<and> x ! k \<noteq> x ! i) (if x ! i = x ! nat j then kmpNext ! nat j else j)"
proof -
  obtain k where k: "j = int k" "border x i k" "\<And>l. border x i l \<Longrightarrow> l \<le> k"
    using assms(1,2) by (auto simp: best_def)
  show ?thesis
  proof (cases "x ! i = x ! k")
    case True
    have "border x i l \<and> x ! l \<noteq> x ! i \<longleftrightarrow> border x k l \<and> x ! l \<noteq> x ! k" for l
    proof (cases "l = k")
      case False
      then have "border x i l \<Longrightarrow> l < k" using k(3) [of l] by simp
      then show ?thesis using True k(2) border_linear [of x i k l] border_trans [of x i k l] by auto
    qed (use True in simp)
    then show ?thesis
      using assms(4) True k(1) best_cong [of "\<lambda>l. border x i l \<and> x ! l \<noteq> x ! i" "\<lambda>l. border x k l \<and> x ! l \<noteq> x ! k"]
      by (simp add: table_ok_def)
  next
    case False
    then show ?thesis using k by (auto intro!: bestI)
  qed
qed

lemma wr_nat [simp]: "wr xs (int i) v = (if i < length xs then Some (xs[i := v]) else None)"
  by (simp add: wr_def)

lemma table_ok_update: "table_ok x kmpNext l \<Longrightarrow> l \<noteq> i \<Longrightarrow> table_ok x (kmpNext[i := v]) l"
  by (simp add: table_ok_def)

lemma pre_step:
  assumes "pre_inv x cells i j kmpNext" and "Suc i < length x" and "length x < cells"
  shows "\<exists>j' kmpNext'. preKmp_loop x i j kmpNext = preKmp_loop x (Suc i) j' kmpNext'
    \<and> pre_inv x cells (Suc i) j' kmpNext'"
proof -
  obtain v where v: "kmp_fall x kmpNext (x ! i) j = Some v" "best (border x (Suc i)) (v + 1)"
    using pre_fall [OF assms(1)] by blast
  have t: "\<And>l. l \<le> i \<Longrightarrow> table_ok x kmpNext l" and len: "length kmpNext = cells"
    using assms(1) by (auto simp: pre_inv_def)
  have "border x (Suc i) 0" using assms(2) by simp
  then have pos: "0 \<le> v + 1" using v(2) by (auto simp: best_def)
  then obtain k where k: "v + 1 = int k" by (metis nonneg_int_cases)
  have ki: "k < Suc i" using v(2) k by (auto simp: best_def border_def)
  define w where "w = (if x ! Suc i = x ! k then kmpNext ! k else int k)"
  have "preKmp_loop x i j kmpNext = preKmp_loop x (Suc i) (int k) (kmpNext[Suc i := w])"
    using v(1) k ki assms(2,3) len rd_nat [of x "Suc i"] wr_nat [of kmpNext "Suc i"]
    by (subst preKmp_loop.simps) (auto simp: w_def)
  moreover have "pre_inv x cells (Suc i) (int k) (kmpNext[Suc i := w])"
  proof -
    have "best (\<lambda>l. border x (Suc i) l \<and> x ! l \<noteq> x ! Suc i) w"
      using table_next [OF v(2) [unfolded k] _ assms(2), of kmpNext, unfolded nat_int] t ki unfolding w_def by simp
    then have "table_ok x (kmpNext[Suc i := w]) (Suc i)" using assms(2,3) len by (simp add: table_ok_def)
    then have "table_ok x (kmpNext[Suc i := w]) l" if "l \<le> Suc i" for l
      using that t [of l] table_ok_update [of x kmpNext l "Suc i" w] by (cases "l = Suc i") auto
    then show ?thesis using assms(2) len v(2) k by (simp add: pre_inv_def)
  qed
  ultimately show ?thesis by blast
qed

lemma preKmp_loop_ok:
  assumes "pre_inv x cells i j kmpNext" and "length x < cells"
  shows "\<exists>j' kmpNext'. preKmp_loop x i j kmpNext = Some (length x - 1, j', kmpNext')
    \<and> pre_inv x cells (length x - 1) j' kmpNext'"
  using assms(1)
proof (induction "length x - i" arbitrary: i j kmpNext rule: less_induct)
  case less
  have i: "i < length x" using less.prems by (simp add: pre_inv_def)
  show ?case
  proof (cases "Suc i < length x")
    case True
    obtain j' kmpNext' where s: "preKmp_loop x i j kmpNext = preKmp_loop x (Suc i) j' kmpNext'"
        "pre_inv x cells (Suc i) j' kmpNext'"
      using pre_step [OF less.prems True assms(2)] by blast
    show ?thesis using less.hyps [OF _ s(2)] s(1) True by simp
  next
    case False
    then have "i = length x - 1" using i by simp
    then show ?thesis using less.prems False i by (subst preKmp_loop.simps) auto
  qed
qed

text \<open>
  The table of a non-empty pattern: entry \<open>j\<close> is the longest border of the first \<open>j\<close> characters
  that is followed by another character, the last entry the longest border of the whole pattern.
\<close>

lemma preKmp_table:
  assumes "x \<noteq> []" and "length x < length cells"
  shows "\<exists>kmpNext. preKmp x cells = Some kmpNext \<and> (\<forall>j < length x. table_ok x kmpNext j)
    \<and> length x < length kmpNext \<and> best (border x (length x)) (kmpNext ! length x)"
proof -
  have c: "0 < length cells" using assms by auto
  have "pre_inv x (length cells) 0 (- 1) (cells[0 := - 1])"
    using assms c by (auto simp: pre_inv_def table_ok_def best_def border_def)
  then obtain j kmpNext where l: "preKmp_loop x 0 (- 1) (cells[0 := - 1]) = Some (length x - 1, j, kmpNext)"
      "pre_inv x (length cells) (length x - 1) j kmpNext"
    using preKmp_loop_ok assms(2) by blast
  obtain v where v: "kmp_fall x kmpNext (x ! (length x - 1)) j = Some v" "best (border x (length x)) (v + 1)"
    using pre_fall [OF l(2)] assms(1) by auto
  have fall: "(if - 1 < j then do { xi \<leftarrow> rd x (int (length x - 1)); kmp_fall x kmpNext xi j } else Some j) = Some v"
  proof (cases "- 1 < j")
    case True
    then show ?thesis using v(1) assms(1) by simp
  next
    case False
    then show ?thesis using v(1) by (subst (asm) kmp_fall.simps) simp
  qed
  have len: "length kmpNext = length cells" and t: "\<And>m. m < length x \<Longrightarrow> table_ok x kmpNext m"
    using l(2) assms(1) by (auto simp: pre_inv_def)
  have "preKmp x cells = Some (kmpNext[length x := v + 1])"
  proof -
    have w: "wr cells 0 (- 1) = Some (cells[0 := - 1])" using wr_nat [of cells 0] c by simp
    have "wr kmpNext (int (length x - 1 + 1)) (v + 1) = Some (kmpNext[length x := v + 1])"
      using wr_nat [of kmpNext "length x"] len assms by simp
    then show ?thesis by (simp only: preKmp_def w l(1) fall Option.bind.bind_lunit prod.case)
  qed
  then show ?thesis using t len assms(2) v(2) table_ok_update [of x kmpNext _ "length x" "v + 1"] by auto
qed

subsection \<open>The searches\<close>

text \<open>The state of a search that has read \<open>T\<close> and found nothing.\<close>

definition searching :: "'a contains_evaluator \<Rightarrow> 'a list \<Rightarrow> 'a list \<Rightarrow> bool" where
  "searching e x T \<longleftrightarrow> x \<noteq> [] \<and> c_pattern e = x \<and> (\<forall>j < length x. table_ok x (c_kmpNext e) j) \<and> \<not> c_result e
     \<and> best (\<lambda>k. k < length x \<and> suffix (take k x) T) (c_offset e) \<and> \<not> sublist x T"

lemma table_fall:
  assumes t: "\<And>j. j < length x \<Longrightarrow> table_ok x kmpNext j" and b: "best (\<lambda>k. k < length x \<and> suffix (take k x) T) off"
  shows "\<exists>v. kmp_fall x kmpNext c off = Some v \<and> best (\<lambda>k. (k < length x \<and> suffix (take k x) T) \<and> x ! k = c) v"
proof (rule kmp_fall_best)
  let ?P = "\<lambda>k. k < length x \<and> suffix (take k x) T"
  show "?P j \<Longrightarrow> border x j k \<Longrightarrow> ?P k" for j k by (auto simp: border_def intro: suffix_order.trans)
  show "?P j \<Longrightarrow> ?P k \<Longrightarrow> k < j \<Longrightarrow> border x j k" for j k
    by (auto simp: border_def intro: suffix_length_suffix)
  show "?P j \<Longrightarrow> j < length x \<and> table_ok x kmpNext j" for j using t by simp
  show "off = - 1 \<or> (\<exists>k. off = int k \<and> ?P k)" using b by (auto simp: best_def)
  show "?P k \<Longrightarrow> int k \<le> off" for k using b by (auto simp: best_def)
qed

lemma searching_fall:
  assumes "searching e x T"
  shows "\<exists>v. kmp_fall x (c_kmpNext e) c (c_offset e) = Some v
    \<and> best (\<lambda>k. (k < length x \<and> suffix (take k x) T) \<and> x ! k = c) v"
  by (rule table_fall) (use assms in \<open>auto simp: searching_def\<close>)

lemma best_after:
  assumes "x \<noteq> []" and "best (\<lambda>k. (k < length x \<and> suffix (take k x) T) \<and> x ! k = c) v"
  shows "best (\<lambda>k. k \<le> length x \<and> suffix (take k x) (T @ [c])) (v + 1)"
proof (cases "v = - 1")
  case True
  have "l = 0" if "l \<le> length x" "suffix (take l x) (T @ [c])" for l
  proof (cases l)
    case (Suc k)
    then show ?thesis using assms(2) True that suffix_snoc_take [of k x T c] by (auto simp: best_def)
  qed
  then show ?thesis using True bestI [of "\<lambda>k. k \<le> length x \<and> suffix (take k x) (T @ [c])" 0] by simp
next
  case False
  then obtain k where k: "v = int k" "k < length x" "suffix (take k x) T" "x ! k = c"
      "\<And>l. l < length x \<Longrightarrow> suffix (take l x) T \<Longrightarrow> x ! l = c \<Longrightarrow> l \<le> k"
    using assms(2) by (auto simp: best_def)
  have "best (\<lambda>k. k \<le> length x \<and> suffix (take k x) (T @ [c])) (int (Suc k))"
  proof (rule bestI)
    show "Suc k \<le> length x \<and> suffix (take (Suc k) x) (T @ [c])" using k suffix_snoc_take [of k x T c] by simp
    fix l assume l: "l \<le> length x \<and> suffix (take l x) (T @ [c])"
    show "l \<le> Suc k"
    proof (cases l)
      case (Suc l')
      then show ?thesis using l k(5) [of l'] suffix_snoc_take [of l' x T c] by simp
    qed simp
  qed
  then show ?thesis using k(1) by (simp add: add.commute)
qed

lemma contains_loop_ok:
  assumes "searching e x T"
  shows "\<exists>e'. contains_loop data e = Some (\<not> sublist x (T @ data), e') \<and> c_result e' = sublist x (T @ data)
    \<and> (if sublist x (T @ data) then True else searching e' x (T @ data))"
  using assms
proof (induction data arbitrary: e T)
  case Nil
  then show ?case by (simp add: searching_def)
next
  case (Cons c data)
  have x: "x \<noteq> []" "c_pattern e = x" "\<not> sublist x T" using Cons.prems by (simp_all add: searching_def)
  obtain v where v: "kmp_fall x (c_kmpNext e) c (c_offset e) = Some v"
      "best (\<lambda>k. (k < length x \<and> suffix (take k x) T) \<and> x ! k = c) v"
    using searching_fall [OF Cons.prems] by blast
  have b: "best (\<lambda>k. k \<le> length x \<and> suffix (take k x) (T @ [c])) (v + 1)" by (rule best_after [OF x(1) v(2)])
  have full: "suffix x (T @ [c]) \<longleftrightarrow> int (length x) \<le> v + 1"
    using b by (auto simp: best_def)
  show ?case
  proof (cases "suffix x (T @ [c])")
    case True
    then obtain p where "T @ [c] = p @ x" by (auto simp: suffix_def simp del: append_eq_append_conv)
    then have "T @ c # data = p @ x @ data" by (metis append.assoc append_Cons append_Nil)
    then have "sublist x (T @ c # data)" by (simp only: sublist_appendI)
    then show ?thesis using v(1) x(2) full True by simp
  next
    case False
    define e1 where "e1 = e\<lparr>c_offset := v + 1\<rparr>"
    have "best (\<lambda>k. k < length x \<and> suffix (take k x) (T @ [c])) (v + 1)"
    proof (rule best_cong [THEN iffD1, OF _ b])
      show "(k \<le> length x \<and> suffix (take k x) (T @ [c])) = (k < length x \<and> suffix (take k x) (T @ [c]))" for k
        using False by (cases "k = length x") auto
    qed
    then have s: "searching e1 x (T @ [c])"
      using Cons.prems False sublist_snoc [of x T c] by (simp add: searching_def e1_def)
    have "contains_loop (c # data) e = contains_loop data e1"
      using v(1) x(2) full False by (simp add: e1_def)
    moreover have "T @ c # data = (T @ [c]) @ data" by simp
    ultimately show ?thesis using Cons.IH [OF s] by (simp only:)
  qed
qed

subsection \<open>Evaluators that are fed in chunks\<close>

text \<open>The callers hand over chunk after chunk until the evaluator says that no more is needed.\<close>

fun feed :: "('d \<Rightarrow> 's \<Rightarrow> (bool \<times> 's) option) \<Rightarrow> 'd list \<Rightarrow> 's \<Rightarrow> 's option" where
  "feed process [] s = Some s"
| "feed process (d # ds) s = do { (more, s') \<leftarrow> process d s; if more then feed process ds s' else Some s' }"

text \<open>
  What an evaluator promises: \<open>seen s T\<close> says that the state \<open>s\<close> has seen the text \<open>T\<close>; the result
  is then the verdict on \<open>T\<close>, a chunk extends the text, and when the evaluator asks for no more, the
  verdict can no longer change.
\<close>

locale chunk_evaluator =
  fixes process :: "'a list \<Rightarrow> 's \<Rightarrow> (bool \<times> 's) option"
    and getResult :: "'s \<Rightarrow> bool"
    and seen :: "'s \<Rightarrow> 'a list \<Rightarrow> bool"
    and verdict :: "'a list \<Rightarrow> bool"
  assumes result_law: "seen s T \<Longrightarrow> getResult s = verdict T"
    and chunk_law: "seen s T \<Longrightarrow> \<exists>more s'. process d s = Some (more, s') \<and> seen s' (T @ d)
      \<and> (\<not> more \<longrightarrow> (\<forall>U. verdict (T @ d @ U) = verdict (T @ d)))"
begin

lemma feed_verdict:
  assumes "seen s T"
  shows "\<exists>s'. feed process ds s = Some s' \<and> getResult s' = verdict (T @ concat ds)"
  using assms
proof (induction ds arbitrary: s T)
  case Nil
  then show ?case using result_law by simp
next
  case (Cons d ds)
  obtain more s' where s': "process d s = Some (more, s')" "seen s' (T @ d)"
      "\<not> more \<Longrightarrow> verdict (T @ d @ U) = verdict (T @ d)" for U
    using chunk_law [OF Cons.prems, of d] by blast
  show ?case
  proof (cases more)
    case True
    then show ?thesis using Cons.IH [OF s'(2)] s'(1) by simp
  next
    case False
    then show ?thesis using s' result_law [OF s'(2)] by simp
  qed
qed

end

definition starts_seen :: "'a list \<Rightarrow> 'a starts_evaluator \<Rightarrow> 'a list \<Rightarrow> bool" where
  "starts_seen x e T \<longleftrightarrow> s_pattern e = x \<and>
     (if s_result e then s_offset e = min (length T) (length x) \<and> take (s_offset e) T = take (s_offset e) x
      else s_offset e \<le> length x \<and> (\<exists>n \<le> min (length T) (length x). take n T \<noteq> take n x))"

lemma prefix_take_iff: "prefix x T \<longleftrightarrow> length x \<le> length T \<and> take (length x) T = x"
  by (metis append_eq_conv_conj append_take_drop_id length_take min.absorb2 prefix_def prefix_length_le)

lemma starts_result: "starts_seen x e T \<Longrightarrow> starts_getResult e = prefix x T"
proof -
  assume s: "starts_seen x e T"
  show ?thesis
  proof (cases "s_result e")
    case True
    then show ?thesis using s by (auto simp: starts_seen_def starts_getResult_def prefix_take_iff)
  next
    case False
    then obtain n where "n \<le> length T" "n \<le> length x" "take n T \<noteq> take n x"
      using s by (auto simp: starts_seen_def)
    then have "\<not> prefix x T" by (metis min.absorb1 prefix_take_iff take_take)
    then show ?thesis using False by (simp add: starts_getResult_def)
  qed
qed

lemma starts_seen_extend:
  assumes "starts_seen x e T" and "s_result e \<Longrightarrow> length x \<le> s_offset e"
  shows "starts_seen x e (T @ U)"
proof (cases "s_result e")
  case True
  then show ?thesis using assms by (auto simp: starts_seen_def min_def split: if_splits)
next
  case False
  then obtain n where "n \<le> length T" "n \<le> length x" "take n T \<noteq> take n x" "s_offset e \<le> length x"
    using assms(1) by (auto simp: starts_seen_def)
  then show ?thesis using False assms(1) by (auto simp: starts_seen_def intro!: exI [of _ n])
qed

lemma starts_chunk:
  assumes "starts_seen x e T"
  shows "\<exists>more e'. starts_process d e = (more, e') \<and> starts_seen x e' (T @ d)
    \<and> (\<not> more \<longrightarrow> (s_result e' \<longrightarrow> length x \<le> s_offset e'))"
proof (cases "\<not> s_result e \<or> length x \<le> s_offset e")
  case True
  then have "starts_process d e = (False, e)" using assms by (auto simp: starts_process_def starts_seen_def)
  moreover have "starts_seen x e (T @ d)" by (rule starts_seen_extend [OF assms]) (use True in blast)
  ultimately show ?thesis using True by auto
next
  case False
  then have e: "s_result e" "s_pattern e = x" "s_offset e = length T" "length T < length x" "take (length T) x = T"
    using assms by (auto simp: starts_seen_def min_def split: if_splits)
  define n where "n = (if length d < length x - length T then length d else length x - length T)"
  have n: "n \<le> length d" "length T + n \<le> length x" using e(4) by (auto simp: n_def)
  have x: "take (length T + n) x = T @ take n (drop (length T) x)" using e(5) by (simp add: take_add)
  show ?thesis
  proof (cases "take n d = take n (drop (length T) x)")
    case True
    define e' where "e' = e\<lparr>s_offset := length T + n\<rparr>"
    have "starts_process d e = (length T + n < length x, e')"
      unfolding starts_process_def e(2,3) n_def [symmetric] Let_def using e(1,2,4) True by (simp add: e'_def)
    moreover have "starts_seen x e' (T @ d)"
      using e n True x by (auto simp: starts_seen_def e'_def n_def)
    ultimately show ?thesis by (auto simp: e'_def)
  next
    case False
    define e' where "e' = e\<lparr>s_result := False\<rparr>"
    have "starts_process d e = (False, e')"
      unfolding starts_process_def e(2,3) n_def [symmetric] Let_def using e(1,4) False by (simp add: e'_def)
    moreover have "starts_seen x e' (T @ d)"
      using e n False x by (auto simp: starts_seen_def e'_def intro!: exI [of _ "length T + n"])
    ultimately show ?thesis by (auto simp: e'_def)
  qed
qed

interpretation starts: chunk_evaluator "\<lambda>d e. Some (starts_process d e)" starts_getResult "starts_seen x" "prefix x"
proof
  fix e :: "'a starts_evaluator" and T d :: "'a list"
  assume s: "starts_seen x e T"
  then show "starts_getResult e = prefix x T" by (rule starts_result)
  obtain more e' where e': "starts_process d e = (more, e')" "starts_seen x e' (T @ d)"
      "\<not> more \<Longrightarrow> s_result e' \<Longrightarrow> length x \<le> s_offset e'"
    using starts_chunk [OF s] by blast
  have "prefix x (T @ d @ U) = prefix x (T @ d)" if "\<not> more" for U
    using starts_result [OF e'(2)] starts_result [OF starts_seen_extend [OF e'(2), of U]] e'(3) that by simp
  then show "\<exists>more e'. Some (starts_process d e) = Some (more, e') \<and> starts_seen x e' (T @ d)
      \<and> (\<not> more \<longrightarrow> (\<forall>U. prefix x (T @ d @ U) = prefix x (T @ d)))"
    using e' by blast
qed

definition contains_seen :: "'a list \<Rightarrow> 'a contains_evaluator \<Rightarrow> 'a list \<Rightarrow> bool" where
  "contains_seen x e T \<longleftrightarrow> (c_result e \<and> sublist x T) \<or> searching e x T"

lemma sublist_extend: "sublist x T \<Longrightarrow> sublist x (T @ U)"
  by (metis append.assoc sublist_def)

interpretation contains: chunk_evaluator contains_process contains_getResult "contains_seen x" "sublist x"
proof
  fix e :: "'a contains_evaluator" and T d :: "'a list"
  assume s: "contains_seen x e T"
  then show "contains_getResult e = sublist x T"
    by (auto simp: contains_seen_def contains_getResult_def searching_def)
  show "\<exists>more e'. contains_process d e = Some (more, e') \<and> contains_seen x e' (T @ d)
      \<and> (\<not> more \<longrightarrow> (\<forall>U. sublist x (T @ d @ U) = sublist x (T @ d)))"
  proof (cases "c_result e")
    case True
    then have "sublist x T" using s by (auto simp: contains_seen_def searching_def)
    then show ?thesis using True by (auto simp: contains_process_def contains_seen_def sublist_extend)
  next
    case False
    then have "searching e x T" using s by (simp add: contains_seen_def)
    then obtain e' where "contains_loop d e = Some (\<not> sublist x (T @ d), e')" "c_result e' = sublist x (T @ d)"
        "if sublist x (T @ d) then True else searching e' x (T @ d)"
      using contains_loop_ok by blast
    then show ?thesis
      using False sublist_extend [of x "T @ d"] by (auto simp: contains_process_def contains_seen_def split: if_splits)
  qed
qed

subsection \<open>Properties of the evaluators\<close>

text \<open>
  C26. \<^verbatim>\<open>STARTING WITH\<close>: however the subject is cut into chunks, the evaluator's result after
  feeding them is whether the pattern is a prefix of the subject.
\<close>

theorem starts_evaluator_correct:
  "\<exists>e. feed (\<lambda>d e. Some (starts_process d e)) chunks (starts_new x) = Some e
    \<and> starts_getResult e = prefix x (concat chunks)"
proof -
  have "starts_seen x (starts_new x) []" by (simp add: starts_seen_def starts_new_def starts_reset_def)
  from starts.feed_verdict [OF this, of chunks] show ?thesis by simp
qed

lemma ROUNDUP_ge: "0 < b \<Longrightarrow> n \<le> ROUNDUP n b"
proof -
  assume b: "0 < b"
  have "n + b - 1 = (n + b - 1) div b * b + (n + b - 1) mod b" by simp
  moreover have "(n + b - 1) mod b < b" using b by simp
  ultimately show ?thesis unfolding ROUNDUP_def by linarith
qed

lemma alloc_size: "0 < al \<Longrightarrow> sa_alloc al n a = (p, s, a') \<Longrightarrow> n \<le> s"
  using ROUNDUP_ge [of al n] by (auto simp: sa_alloc_def Let_def split: if_splits)

text \<open>The table of the empty pattern: one entry too many is written.\<close>

lemma preKmp_Nil: "preKmp [] cells = (if 2 \<le> length cells then Some (cells[0 := - 1, 1 := 0]) else None)"
  by (simp add: preKmp_def preKmp_loop.simps wr_def)

lemma contains_new_seen:
  assumes "0 < al" and "x \<noteq> []"
  shows "\<exists>e. contains_new al char_size x = Some e \<and> contains_seen x e []"
proof -
  obtain p n a where 1: "sa_alloc al (length x * char_size) sa_new = (p, n, a)" by (cases "sa_alloc al (length x * char_size) sa_new")
  obtain p' n' a' where 2: "sa_alloc al ((length x + 1) * 4) a = (p', n', a')" by (cases "sa_alloc al ((length x + 1) * 4) a")
  have "(length x + 1) * 4 \<le> n'" by (rule alloc_size [OF assms(1) 2])
  then have "length x < n' div 4" using div_le_mono [of "(length x + 1) * 4" n' 4] by simp
  then obtain t where t: "preKmp x (replicate (n' div 4) 0) = Some t" "\<forall>j < length x. table_ok x t j"
    using preKmp_table [OF assms(2), of "replicate (n' div 4) 0"] by auto
  define e where "e = contains_reset \<lparr>c_alloc = a', c_pattern = x, c_offset = 0, c_result = False, c_kmpNext = t\<rparr>"
  have "contains_new al char_size x = Some e"
    using 1 2 t(1) by (simp add: contains_new_def e_def)
  moreover have "contains_seen x e []"
    using t(2) assms(2) by (auto simp: contains_seen_def searching_def e_def contains_reset_def best_def)
  ultimately show ?thesis by blast
qed

text \<open>
  C27. \<^verbatim>\<open>CONTAINING\<close>: for every non-empty pattern the Knuth-Morris-Pratt table is built within
  its memory block, and however the subject is cut into chunks, every loop ends, no read leaves an
  array, and the result is whether the pattern occurs somewhere in the subject.
\<close>

theorem contains_evaluator_correct:
  assumes "0 < alignment" and "x \<noteq> []"
  shows "\<exists>e e'. contains_new alignment char_size x = Some e \<and> feed contains_process chunks e = Some e'
    \<and> contains_getResult e' = sublist x (concat chunks)"
proof -
  obtain e where e: "contains_new alignment char_size x = Some e" "contains_seen x e []"
    using contains_new_seen [OF assms] by blast
  then show ?thesis using contains.feed_verdict [OF e(2), of chunks] by auto
qed

theorem contains_evaluator_correct_witness:
  "\<exists>e e'. contains_new 8 1 ''aab'' = Some e \<and> feed contains_process [''xaa'', ''aa'', ''bx''] e = Some e'
    \<and> contains_getResult e'"
  using contains_evaluator_correct [of 8 "''aab''" 1 "[''xaa'', ''aa'', ''bx'']"]
  by (simp add: sublist_code)

end
