(* ===== verification/FB_Btn.thy ===== *)
theory FB_Btn
  imports FB_Prelude "HOL-Library.Monad_Syntax"
begin

section \<open>Index nodes (\<^verbatim>\<open>src/src/jrd/btn.cpp\<close>, \<^verbatim>\<open>btn.h\<close>)\<close>

text \<open>
  The layout of B-tree nodes and jump nodes on an index page. A page is the list of its bytes, a
  pointer into it an offset; a read or write outside the page yields \<open>None\<close>. \<^verbatim>\<open>USHORT\<close> fields
  are natural numbers below \<open>2 ^ 16\<close>, \<^verbatim>\<open>SLONG\<close> and \<^verbatim>\<open>SINT64\<close> fields integers; the truncations that the
  code performs are written out. On non-negative numbers \<open>number & 0x7F\<close> is \<open>number mod 128\<close>,
  \<open>number >>= 7\<close> is \<open>number div 128\<close>, and setting or merging bits that are clear is addition. The
  byte order is little endian.
\<close>

definition btr_all_record_number :: nat where "btr_all_record_number = 16"
definition btr_large_keys :: nat where "btr_large_keys = 32"
definition btr_jump_info :: nat where "btr_jump_info = 64"

text \<open>\<open>flags & flag\<close> for a flag that is a power of two.\<close>

definition flag_set :: "nat \<Rightarrow> nat \<Rightarrow> bool" where
  "flag_set flags flag \<longleftrightarrow> odd (flags div flag)"

definition END_LEVEL :: int where "END_LEVEL = - 1"
definition END_BUCKET :: int where "END_BUCKET = - 2"

datatype internal_flag = BTN_NORMAL_FLAG | BTN_END_LEVEL_FLAG | BTN_END_BUCKET_FLAG
  | BTN_ZERO_PREFIX_ZERO_LENGTH_FLAG | BTN_ZERO_LENGTH_FLAG | BTN_ONE_LENGTH_FLAG

fun flag_code :: "internal_flag \<Rightarrow> nat" where
  "flag_code BTN_NORMAL_FLAG = 0"
| "flag_code BTN_END_LEVEL_FLAG = 1"
| "flag_code BTN_END_BUCKET_FLAG = 2"
| "flag_code BTN_ZERO_PREFIX_ZERO_LENGTH_FLAG = 3"
| "flag_code BTN_ZERO_LENGTH_FLAG = 4"
| "flag_code BTN_ONE_LENGTH_FLAG = 5"

text \<open>The data of a node is either a buffer of the caller or a place on the page.\<close>

datatype data_ptr = Buffer "byte list" | OnPage nat

record index_node =
  nodePointer :: nat
  node_prefix :: nat
  node_length :: nat
  pageNumber :: int
  node_data :: data_ptr
  recordNumber :: int
  isEndBucket :: bool
  isEndLevel :: bool

record index_jump_node =
  jump_nodePointer :: nat
  jump_prefix :: nat
  jump_length :: nat
  jump_offset :: nat
  jump_data :: data_ptr

record index_jump_info =
  firstNodeOffset :: nat
  jumpAreaSize :: nat
  jumpers :: nat

subsection \<open>Access to a page\<close>

text \<open>The conversion to \<^verbatim>\<open>UCHAR\<close>.\<close>

definition to_uchar :: "nat \<Rightarrow> byte" where
  "to_uchar n = word_of_nat n"

definition fetch :: "byte list \<Rightarrow> nat \<Rightarrow> nat option" where
  "fetch page p = (if p < length page then Some (unat (page ! p)) else None)"

definition store :: "byte list \<Rightarrow> nat \<Rightarrow> byte list \<Rightarrow> byte list option" where
  "store page p bs =
     (if p + length bs \<le> length page then Some (take p page @ bs @ drop (p + length bs) page) else None)"

definition fetch_data :: "byte list \<Rightarrow> data_ptr \<Rightarrow> nat \<Rightarrow> byte list option" where
  "fetch_data page d n =
     (case d of
        Buffer bs \<Rightarrow> if n \<le> length bs then Some (take n bs) else None
      | OnPage p \<Rightarrow> if p + n \<le> length page then Some (take n (drop p page)) else None)"

definition get_short :: "byte list \<Rightarrow> nat \<Rightarrow> nat option" where
  "get_short page p = (if p + 2 \<le> length page then Some (le_val (take 2 (drop p page))) else None)"

definition get_long :: "byte list \<Rightarrow> nat \<Rightarrow> int option" where
  "get_long page p = (if p + 4 \<le> length page then Some (to_slong (int (le_val (take 4 (drop p page))))) else None)"

definition short_bytes :: "nat \<Rightarrow> byte list" where
  "short_bytes n = le_bytes 2 (n mod 65536)"

definition long_bytes :: "int \<Rightarrow> byte list" where
  "long_bytes i = le_bytes 4 (nat (i mod 2 ^ 32))"

definition put_short :: "byte list \<Rightarrow> nat \<Rightarrow> nat \<Rightarrow> byte list option" where
  "put_short page p n = store page p (short_bytes n)"

definition put_long :: "byte list \<Rightarrow> nat \<Rightarrow> int \<Rightarrow> byte list option" where
  "put_long page p i = store page p (long_bytes i)"

subsection \<open>Keys\<close>

text \<open>The loop compares while both strings have bytes left.\<close>

fun computePrefix :: "byte list \<Rightarrow> byte list \<Rightarrow> nat" where
  "computePrefix (p # prev) (s # string) = (if p = s then Suc (computePrefix prev string) else 0)"
| "computePrefix _ _ = 0"

definition keyEquality :: "byte list \<Rightarrow> byte list \<Rightarrow> index_node \<Rightarrow> bool option" where
  "keyEquality page key node =
     (if length key \<noteq> node_length node + node_prefix node then Some False
      else if node_length node = 0 then Some True
      else do {
        p \<leftarrow> fetch_data page (node_data node) (node_length node);
        Some (p = take (node_length node) (drop (node_prefix node) key)) })"

subsection \<open>Sizes\<close>

text \<open>\<open>bits_set lo hi n\<close>: \<open>n\<close> has a bit from \<open>lo\<close> up to but not including \<open>hi\<close>; \<open>n & 0xFF80\<close> is \<open>bits_set 7 16 n\<close>.\<close>

definition bits_set :: "nat \<Rightarrow> nat \<Rightarrow> nat \<Rightarrow> bool" where
  "bits_set lo hi n \<longleftrightarrow> n div 2 ^ lo mod 2 ^ (hi - lo) \<noteq> 0"

definition short_size :: "nat \<Rightarrow> nat" where
  "short_size number = (if bits_set 14 16 number then 3 else if bits_set 7 16 number then 2 else 1)"

definition getJumpNodeSize :: "index_jump_node \<Rightarrow> nat \<Rightarrow> nat" where
  "getJumpNodeSize n flags =
     to_ushort ((if flag_set flags btr_large_keys then short_size (jump_prefix n) + short_size (jump_length n) else 2)
       + 2 + jump_length n)"

definition internal_flags :: "index_node \<Rightarrow> internal_flag" where
  "internal_flags n =
     (if isEndLevel n then BTN_END_LEVEL_FLAG
      else if isEndBucket n then BTN_END_BUCKET_FLAG
      else if node_length n = 0 then
        if node_prefix n = 0 then BTN_ZERO_PREFIX_ZERO_LENGTH_FLAG else BTN_ZERO_LENGTH_FLAG
      else if node_length n = 1 then BTN_ONE_LENGTH_FLAG
      else BTN_NORMAL_FLAG)"

text \<open>\<open>if (number < 0) number = 0\<close>\<close>

definition clip :: "int \<Rightarrow> nat" where
  "clip i = nat i"

definition record_size :: "nat \<Rightarrow> nat" where
  "record_size number =
     (if bits_set 28 40 number then 5 else if bits_set 21 40 number then 4
      else if bits_set 14 40 number then 3 else if bits_set 7 40 number then 2 else 1)"

definition page_number_size :: "nat \<Rightarrow> nat" where
  "page_number_size number =
     (if bits_set 28 32 number then 5 else if bits_set 21 32 number then 4
      else if bits_set 14 32 number then 3 else if bits_set 7 32 number then 2 else 1)"

definition field_size :: "nat \<Rightarrow> nat" where
  "field_size number = (if bits_set 14 32 number then 3 else if bits_set 7 32 number then 2 else 1)"

definition with_record_number :: "index_node \<Rightarrow> nat \<Rightarrow> bool \<Rightarrow> bool" where
  "with_record_number n flags leafNode \<longleftrightarrow> flag_set flags btr_all_record_number \<and>
     (\<not> leafNode \<or> (leafNode \<and> isEndBucket n \<and> node_length n = 0))"

definition getNodeSize :: "index_node \<Rightarrow> nat \<Rightarrow> bool \<Rightarrow> nat" where
  "getNodeSize n flags leafNode =
     to_ushort (if flag_set flags btr_large_keys then
        if isEndLevel n then 1
        else
          1 + record_size (clip (recordNumber n) div 32)
          + (if \<not> leafNode then page_number_size (clip (pageNumber n)) else 0)
          + (if internal_flags n \<noteq> BTN_ZERO_PREFIX_ZERO_LENGTH_FLAG then field_size (node_prefix n) else 0)
          + (if internal_flags n \<noteq> BTN_ZERO_PREFIX_ZERO_LENGTH_FLAG \<and> internal_flags n \<noteq> BTN_ZERO_LENGTH_FLAG
                \<and> internal_flags n \<noteq> BTN_ONE_LENGTH_FLAG
             then field_size (node_length n) else 0)
          + node_length n
      else
        1 + 1 + 4 + node_length n + (if with_record_number n flags leafNode then 4 else 0))"

subsection \<open>Reading\<close>

text \<open>
  The nested tests of the code, byte after byte: each byte adds the bits under its mask at the next
  shift, a byte of 128 or more asks for another one, the last one is final.
\<close>

fun read_groups :: "nat list \<Rightarrow> nat \<Rightarrow> byte list \<Rightarrow> nat \<Rightarrow> nat \<Rightarrow> (nat \<times> nat) option" where
  "read_groups [] shift page p number = Some (number, p)"
| "read_groups (m # ms) shift page p number = do {
     tmp \<leftarrow> fetch page p;
     (let number = number + tmp mod m * 2 ^ shift in
      if 128 \<le> tmp then read_groups ms (shift + 7) page (p + 1) number else Some (number, p + 1)) }"

declare read_groups.simps [simp del]

definition read_short_groups :: "byte list \<Rightarrow> nat \<Rightarrow> (nat \<times> nat) option" where
  "read_short_groups page p = read_groups [128, 128] 0 page p 0"

definition read_page_number :: "bool \<Rightarrow> index_node \<Rightarrow> byte list \<Rightarrow> nat \<Rightarrow> (index_node \<times> nat) option" where
  "read_page_number leafNode n page p =
     (if \<not> leafNode then do {
        (number, p) \<leftarrow> read_groups [128, 128, 128, 128, 16] 0 page p 0;
        Some (n\<lparr>pageNumber := to_slong (int number)\<rparr>, p) }
      else Some (n, p))"

definition read_prefix :: "nat \<Rightarrow> byte list \<Rightarrow> nat \<Rightarrow> (nat \<times> nat) option" where
  "read_prefix internalFlags page p = (if internalFlags = 3 then Some (0, p) else read_short_groups page p)"

definition read_length :: "nat \<Rightarrow> byte list \<Rightarrow> nat \<Rightarrow> (nat \<times> nat) option" where
  "read_length internalFlags page p =
     (if internalFlags = 4 \<or> internalFlags = 3 then Some (0, p)
      else if internalFlags = 5 then Some (1, p) else read_short_groups page p)"

text \<open>The new format, with large keys, and the old one.\<close>

definition readNode_large :: "index_node \<Rightarrow> byte list \<Rightarrow> nat \<Rightarrow> bool \<Rightarrow> (index_node \<times> nat) option" where
  "readNode_large n page pagePointer leafNode = do {
     first \<leftarrow> fetch page pagePointer;
     (let internalFlags = first div 32; p = pagePointer + 1;
          n = n\<lparr>isEndLevel := (internalFlags = 1), isEndBucket := (internalFlags = 2)\<rparr> in
      if isEndLevel n
      then Some (n\<lparr>node_prefix := 0, node_length := 0, recordNumber := 0, pageNumber := 0\<rparr>, p)
      else do {
        (number, p) \<leftarrow> read_groups [128, 128, 128, 128, 128] 5 page p (first mod 32);
        (n, p) \<leftarrow> read_page_number leafNode (n\<lparr>recordNumber := int number\<rparr>) page p;
        (pre, p) \<leftarrow> read_prefix internalFlags page p;
        (len, p) \<leftarrow> read_length internalFlags page p;
        Some (n\<lparr>node_prefix := pre, node_length := len, node_data := OnPage p\<rparr>, p + len) }) }"

definition readNode_small :: "index_node \<Rightarrow> byte list \<Rightarrow> nat \<Rightarrow> nat \<Rightarrow> bool \<Rightarrow> (index_node \<times> nat) option" where
  "readNode_small n page pagePointer flags leafNode = do {
     pre \<leftarrow> fetch page pagePointer;
     len \<leftarrow> fetch page (pagePointer + 1);
     number \<leftarrow> get_long page (pagePointer + 2);
     (let n = n\<lparr>node_prefix := pre, node_length := len\<rparr>;
          n = (if leafNode then n\<lparr>recordNumber := number\<rparr> else n\<lparr>pageNumber := number\<rparr>);
          n = n\<lparr>isEndLevel := (number = END_LEVEL), isEndBucket := (number = END_BUCKET)\<rparr>;
          n = n\<lparr>node_data := OnPage (pagePointer + 6)\<rparr>;
          p = pagePointer + 6 + len in
      if with_record_number n flags leafNode
      then do { r \<leftarrow> get_long page p; Some (n\<lparr>recordNumber := r\<rparr>, p + 4) }
      else Some (n, p)) }"

definition readNode :: "index_node \<Rightarrow> byte list \<Rightarrow> nat \<Rightarrow> nat \<Rightarrow> bool \<Rightarrow> (index_node \<times> nat) option" where
  "readNode n page pagePointer flags leafNode =
     (let n = n\<lparr>nodePointer := pagePointer\<rparr> in
      if flag_set flags btr_large_keys then readNode_large n page pagePointer leafNode
      else readNode_small n page pagePointer flags leafNode)"

definition readJumpInfo :: "byte list \<Rightarrow> nat \<Rightarrow> (index_jump_info \<times> nat) option" where
  "readJumpInfo page p = do {
     first \<leftarrow> get_short page p;
     area \<leftarrow> get_short page (p + 2);
     j \<leftarrow> fetch page (p + 4);
     Some (\<lparr>firstNodeOffset = first, jumpAreaSize = area, jumpers = j\<rparr>, p + 5) }"

definition readJumpNode :: "byte list \<Rightarrow> nat \<Rightarrow> nat \<Rightarrow> (index_jump_node \<times> nat) option" where
  "readJumpNode page pagePointer flags = do {
     (prefix, p) \<leftarrow> (if flag_set flags btr_large_keys then read_short_groups page pagePointer
                     else do { b \<leftarrow> fetch page pagePointer; Some (b, pagePointer + 1) });
     (len, p) \<leftarrow> (if flag_set flags btr_large_keys then read_short_groups page p
                  else do { b \<leftarrow> fetch page p; Some (b, p + 1) });
     off \<leftarrow> get_short page p;
     Some (\<lparr>jump_nodePointer = pagePointer, jump_prefix = prefix, jump_length = len, jump_offset = off,
            jump_data = OnPage (p + 2)\<rparr>, p + 2 + len) }"

subsection \<open>Writing\<close>

text \<open>Groups of seven bits, the record number in at most five bytes: a sixth is never written.\<close>

fun record_groups :: "nat \<Rightarrow> nat \<Rightarrow> byte list" where
  "record_groups 0 number = []"
| "record_groups (Suc n) number =
     (let tmp = number mod 128; number = number div 128 in
      if number = 0 then [to_uchar tmp]
      else if n = 0 then [] else to_uchar (tmp + 128) # record_groups n number)"

fun page_groups :: "nat \<Rightarrow> nat \<Rightarrow> byte list" where
  "page_groups 0 number = []"
| "page_groups (Suc 0) number = [to_uchar (number mod 16)]"
| "page_groups (Suc (Suc n)) number =
     (let tmp = number mod 128; number = number div 128 in
      if 0 < number then to_uchar (tmp + 128) # page_groups (Suc n) number else [to_uchar tmp])"

definition short_groups :: "nat \<Rightarrow> byte list" where
  "short_groups number =
     (let tmp = number mod 128; number = number div 128 in
      if 0 < number then [to_uchar (tmp + 128), to_uchar (number mod 128)] else [to_uchar tmp])"

text \<open>The part of a node in front of its data (new format).\<close>

definition node_header :: "index_node \<Rightarrow> bool \<Rightarrow> byte list" where
  "node_header n leafNode =
     (let number = clip (recordNumber n); f = internal_flags n in
      to_uchar (flag_code f * 32 + number mod 32) #
      (if isEndLevel n then []
       else record_groups 5 (number div 32)
         @ (if \<not> leafNode then page_groups 5 (clip (pageNumber n)) else [])
         @ (if f \<noteq> BTN_ZERO_PREFIX_ZERO_LENGTH_FLAG then short_groups (node_prefix n) else [])
         @ (if f \<noteq> BTN_ZERO_PREFIX_ZERO_LENGTH_FLAG \<and> f \<noteq> BTN_ZERO_LENGTH_FLAG \<and> f \<noteq> BTN_ONE_LENGTH_FLAG
            then short_groups (node_length n) else [])))"

text \<open>The byte by byte copy of the old format; a buffer of the caller cannot overlap the page.\<close>

primrec copy_forward :: "byte list \<Rightarrow> nat \<Rightarrow> nat \<Rightarrow> nat \<Rightarrow> byte list option" where
  "copy_forward page src dst 0 = Some page"
| "copy_forward page src dst (Suc n) = do {
     b \<leftarrow> fetch page src;
     page \<leftarrow> store page dst [to_uchar b];
     copy_forward page (src + 1) (dst + 1) n }"

definition copy_data :: "byte list \<Rightarrow> data_ptr \<Rightarrow> nat \<Rightarrow> nat \<Rightarrow> byte list option" where
  "copy_data page d dst n =
     (case d of
        Buffer bs \<Rightarrow> do { data \<leftarrow> fetch_data page (Buffer bs) n; store page dst data }
      | OnPage src \<Rightarrow> copy_forward page src dst n)"

text \<open>
  Without data the new format first moves the data, which is on the page already, to where it will
  be; the old format finds it in place. The node, the page and the pointer behind the node are
  returned.
\<close>

definition writeNode ::
  "index_node \<Rightarrow> byte list \<Rightarrow> nat \<Rightarrow> nat \<Rightarrow> bool \<Rightarrow> bool \<Rightarrow> (index_node \<times> byte list \<times> nat) option" where
  "writeNode n page pagePointer flags leafNode withData =
     (let n = n\<lparr>nodePointer := pagePointer\<rparr> in
      if flag_set flags btr_large_keys then do {
        page \<leftarrow> (if \<not> withData then do {
            data \<leftarrow> fetch_data page (node_data n) (node_length n);
            store page (pagePointer + to_ushort (getNodeSize n flags leafNode + 65536 - node_length n)) data }
          else Some page);
        page \<leftarrow> store page pagePointer (node_header n leafNode);
        (let p = pagePointer + length (node_header n leafNode) in
         if isEndLevel n then Some (n, page, p)
         else do {
           page \<leftarrow> (if withData then do {
               data \<leftarrow> fetch_data page (node_data n) (node_length n);
               store page p data }
             else Some page);
           Some (n, page, p + node_length n) }) }
      else do {
        page \<leftarrow> store page pagePointer [to_uchar (node_prefix n), to_uchar (node_length n)];
        page \<leftarrow> put_long page (pagePointer + 2)
          (if isEndLevel n then END_LEVEL else if isEndBucket n then END_BUCKET
           else if leafNode then recordNumber n else pageNumber n);
        page \<leftarrow> (if withData then copy_data page (node_data n) (pagePointer + 6) (node_length n) else Some page);
        (let p = pagePointer + 6 + node_length n in
         if with_record_number n flags leafNode
         then do { page \<leftarrow> put_long page p (recordNumber n); Some (n, page, p + 4) }
         else Some (n, page, p)) })"

definition BTR_SIZE :: nat where
  "BTR_SIZE = 34"

definition writeJumpInfo :: "byte list \<Rightarrow> index_jump_info \<Rightarrow> (byte list \<times> nat) option" where
  "writeJumpInfo page info = do {
     page \<leftarrow> put_short page BTR_SIZE (firstNodeOffset info);
     page \<leftarrow> put_short page (BTR_SIZE + 2) (jumpAreaSize info);
     page \<leftarrow> store page (BTR_SIZE + 4) [to_uchar (jumpers info)];
     Some (page, BTR_SIZE + 5) }"

definition jump_header :: "index_jump_node \<Rightarrow> nat \<Rightarrow> byte list" where
  "jump_header n flags =
     (if flag_set flags btr_large_keys then short_groups (jump_prefix n) @ short_groups (jump_length n)
      else [to_uchar (jump_prefix n), to_uchar (jump_length n)])"

definition writeJumpNode ::
  "index_jump_node \<Rightarrow> byte list \<Rightarrow> nat \<Rightarrow> nat \<Rightarrow> (index_jump_node \<times> byte list \<times> nat) option" where
  "writeJumpNode n page pagePointer flags =
     (let n = n\<lparr>jump_nodePointer := pagePointer\<rparr> in do {
     page \<leftarrow> store page pagePointer (jump_header n flags);
     (let p = pagePointer + length (jump_header n flags) in do {
       page \<leftarrow> put_short page p (jump_offset n);
       data \<leftarrow> fetch_data page (jump_data n) (jump_length n);
       page \<leftarrow> store page (p + 2) data;
       Some (n, page, p + 2 + jump_length n) }) })"

subsection \<open>Nodes and walks\<close>

definition setEndBucket :: "index_node \<Rightarrow> index_node" where
  "setEndBucket n = n\<lparr>isEndBucket := True, isEndLevel := False\<rparr>"

definition setEndLevel :: "index_node \<Rightarrow> index_node" where
  "setEndLevel n = n\<lparr>isEndBucket := False, isEndLevel := True, node_prefix := 0, node_length := 0,
     pageNumber := 0, recordNumber := 0\<rparr>"

definition setNode :: "nat \<Rightarrow> nat \<Rightarrow> int \<Rightarrow> int \<Rightarrow> bool \<Rightarrow> bool \<Rightarrow> index_node \<Rightarrow> index_node" where
  "setNode prefix len rec pn endBucket endLevel n =
     n\<lparr>isEndBucket := endBucket, isEndLevel := endLevel, node_prefix := prefix, node_length := len,
       recordNumber := rec, pageNumber := pn\<rparr>"

text \<open>\<^verbatim>\<open>pag_flags\<close> and \<^verbatim>\<open>btr_level\<close> of the page header.\<close>

definition pag_flags :: "byte list \<Rightarrow> nat option" where
  "pag_flags page = fetch page 1"

definition btr_level :: "byte list \<Rightarrow> nat option" where
  "btr_level page = fetch page 33"

text \<open>The place of the first node, or, when the jump information is asked for, of the first jump node.\<close>

definition getPointerFirstNode :: "byte list \<Rightarrow> bool \<Rightarrow> (index_jump_info option \<times> nat) option" where
  "getPointerFirstNode page want_info = do {
     flags \<leftarrow> pag_flags page;
     if flag_set flags btr_jump_info then do {
       (info, p) \<leftarrow> readJumpInfo page BTR_SIZE;
       Some (if want_info then (Some info, p) else (None, firstNodeOffset info)) }
     else Some (None, BTR_SIZE) }"

lemma read_groups_pos: "read_groups ms sh page p number = Some (v, p') \<Longrightarrow> p \<le> p'"
proof (induction ms arbitrary: sh p number)
  case (Cons m ms)
  then show ?case
    by (auto simp: read_groups.simps bind_eq_Some_conv Let_def split: if_splits dest!: Cons.IH)
qed (simp add: read_groups.simps)

lemma read_short_pos: "read_short_groups page p = Some (v, p') \<Longrightarrow> p \<le> p'"
  by (simp add: read_short_groups_def read_groups_pos)

lemma read_parts_pos:
  "read_page_number leafNode n page p = Some (n', p') \<Longrightarrow> p \<le> p'"
  "read_prefix f page p = Some (v, p') \<Longrightarrow> p \<le> p'"
  "read_length f page p = Some (v, p') \<Longrightarrow> p \<le> p'"
  by (auto simp: read_page_number_def read_prefix_def read_length_def bind_eq_Some_conv
      dest: read_groups_pos read_short_pos split: if_splits)

lemma readNode_large_pos:
  "readNode_large n page p leafNode = Some (n', p') \<Longrightarrow> p < length page \<and> p < p'"
  by (fastforce simp: readNode_large_def fetch_def bind_eq_Some_conv Let_def split: if_splits
      dest: read_groups_pos read_parts_pos)

lemma readNode_small_pos:
  "readNode_small n page p flags leafNode = Some (n', p') \<Longrightarrow> p < length page \<and> p < p'"
  by (auto simp: readNode_small_def fetch_def bind_eq_Some_conv Let_def split: if_splits)

lemma readNode_pos:
  assumes "readNode n page p flags leafNode = Some (n', p')"
  shows "p < length page" and "p < p'"
  using assms readNode_large_pos readNode_small_pos
  by (auto simp: readNode_def Let_def split: if_splits)

lemma readNode_measure:
  "readNode n page p flags leafNode = Some (n', p') \<Longrightarrow> length page - p' < length page - p"
  by (frule readNode_pos(1), drule readNode_pos(2), simp)

text \<open>The loop of \<^verbatim>\<open>findPageInDuplicates\<close>: every read moves the pointer forward on the page.\<close>

function find_duplicates :: "nat \<Rightarrow> bool \<Rightarrow> byte list \<Rightarrow> int \<Rightarrow> index_node \<Rightarrow> nat \<Rightarrow> int \<Rightarrow> int option" where
  "find_duplicates flags leafPage page findRecordNumber node p previousNumber =
     (if isEndBucket node then Some previousNumber
      else if findRecordNumber \<le> recordNumber node then Some previousNumber
      else
        let previousNumber = pageNumber node; previousNode = node in
        case readNode node page p flags leafPage of
          None \<Rightarrow> None
        | Some (node, p) \<Rightarrow>
            if isEndLevel node \<or> node_length node \<noteq> 0
               \<or> node_prefix node \<noteq> node_length previousNode + node_prefix previousNode
            then Some previousNumber
            else find_duplicates flags leafPage page findRecordNumber node p previousNumber)"
  by pat_completeness auto
termination
  by (relation "measure (\<lambda>(flags, leafPage, page, findRecordNumber, node, p, previousNumber). length page - p)")
     (auto dest: readNode_measure)

declare find_duplicates.simps [simp del]

definition findPageInDuplicates :: "index_node \<Rightarrow> byte list \<Rightarrow> nat \<Rightarrow> int \<Rightarrow> int \<Rightarrow> int option" where
  "findPageInDuplicates node page p previousNumber findRecordNumber = do {
     level \<leftarrow> btr_level page;
     flags \<leftarrow> pag_flags page;
     (node, p) \<leftarrow> readNode node page p flags (level = 0);
     find_duplicates flags (level = 0) page findRecordNumber node p previousNumber }"

text \<open>
  Walking an index page together with its expanded buffer, in which every node has the two lengths
  of its predecessor (\<^verbatim>\<open>btx_previous_length\<close>, \<^verbatim>\<open>btx_btr_previous_length\<close>) in front of its whole key.
\<close>

definition BTX_SIZE :: nat where
  "BTX_SIZE = 2"

definition nextNode ::
  "index_node \<Rightarrow> byte list \<Rightarrow> nat \<Rightarrow> nat \<Rightarrow> nat option \<Rightarrow> (index_node \<times> nat \<times> nat option) option" where
  "nextNode node page p flags expanded_node = do {
     (node, p) \<leftarrow> readNode node page p flags True;
     Some (node, p, map_option (\<lambda>e. e + BTX_SIZE + node_prefix node + node_length node) expanded_node) }"

definition previousNode :: "byte list \<Rightarrow> nat \<Rightarrow> nat \<Rightarrow> (int \<times> int) option" where
  "previousNode expanded p expanded_node = do {
     btx_btr_previous_length \<leftarrow> fetch expanded (expanded_node + 1);
     btx_previous_length \<leftarrow> fetch expanded expanded_node;
     Some (int p - int btx_btr_previous_length, int expanded_node - int btx_previous_length) }"

subsection \<open>Variable length numbers\<close>

lemma unat_to_uchar [simp]: "unat (to_uchar n) = n mod 256"
  by (simp add: to_uchar_def unat_of_nat)

lemma fetch_append: "fetch (A @ b # B) (length A) = Some (unat b)"
  by (simp add: fetch_def)

lemma group_sum:
  "acc + number mod 128 * 2 ^ sh + number div 128 * 2 ^ (sh + 7) = acc + number * 2 ^ sh" for number :: nat
proof -
  have d: "a * t + b * (t * 128) = (a + b * 128) * t" for a b t :: nat by (simp add: algebra_simps)
  have "number mod 128 * 2 ^ sh + number div 128 * (2 ^ sh * 128) = number * 2 ^ sh"
    unfolding d by (simp only: mod_div_mult_eq)
  then show ?thesis by (simp add: power_add)
qed

lemma read_record_groups:
  assumes "number < 128 ^ n" and "0 < n"
  shows "read_groups (replicate n 128) sh (A @ record_groups n number @ B) (length A) acc
    = Some (acc + number * 2 ^ sh, length A + length (record_groups n number))"
  using assms
proof (induction n arbitrary: number sh A acc)
  case (Suc n)
  show ?case
  proof (cases "number div 128 = 0")
    case True
    then have "number < 128" by (simp add: div_eq_0_iff)
    then show ?thesis using True by (simp add: read_groups.simps fetch_append Let_def)
  next
    case False
    then have n: "0 < n" "number div 128 < 128 ^ n"
      using Suc.prems(1) by (auto simp: div_eq_0_iff less_mult_imp_div_less mult.commute intro!: gr0I)
    let ?b = "to_uchar (number mod 128 + 128)" and ?g = "record_groups n (number div 128)"
    have g: "record_groups (Suc n) number = ?b # ?g" using False n by (simp add: Let_def)
    have b: "unat ?b = number mod 128 + 128" "number mod 128 + 128 \<ge> 128" by simp_all
    have "read_groups (replicate (Suc n) 128) sh (A @ (?b # ?g) @ B) (length A) acc
        = read_groups (replicate n 128) (sh + 7) ((A @ [?b]) @ ?g @ B) (length (A @ [?b]))
            (acc + number mod 128 * 2 ^ sh)"
      using b by (simp add: read_groups.simps fetch_append Let_def)
    also have "\<dots> = Some (acc + number mod 128 * 2 ^ sh + number div 128 * 2 ^ (sh + 7),
        length (A @ [?b]) + length ?g)"
      by (rule Suc.IH [OF n(2,1)])
    also have "acc + number mod 128 * 2 ^ sh + number div 128 * 2 ^ (sh + 7) = acc + number * 2 ^ sh"
      by (rule group_sum)
    finally show ?thesis using g by simp
  qed
qed simp

lemma read_page_groups:
  assumes "number < 128 ^ n * 16"
  shows "read_groups (replicate n 128 @ [16]) sh (A @ page_groups (Suc n) number @ B) (length A) acc
    = Some (acc + number * 2 ^ sh, length A + length (page_groups (Suc n) number))"
  using assms
proof (induction n arbitrary: number sh A acc)
  case 0
  then show ?case by (simp add: read_groups.simps fetch_append Let_def)
next
  case (Suc n)
  show ?case
  proof (cases "number div 128 = 0")
    case True
    then have "number < 128" by (simp add: div_eq_0_iff)
    then show ?thesis using True by (simp add: read_groups.simps fetch_append Let_def)
  next
    case False
    then have n: "number div 128 < 128 ^ n * 16"
      using Suc.prems(1) by (simp add: less_mult_imp_div_less mult.commute mult.left_commute)
    let ?b = "to_uchar (number mod 128 + 128)" and ?g = "page_groups (Suc n) (number div 128)"
    have g: "page_groups (Suc (Suc n)) number = ?b # ?g" using False by (simp add: Let_def)
    have b: "unat ?b = number mod 128 + 128" by simp
    have "read_groups (replicate (Suc n) 128 @ [16]) sh (A @ (?b # ?g) @ B) (length A) acc
        = read_groups (replicate n 128 @ [16]) (sh + 7) ((A @ [?b]) @ ?g @ B) (length (A @ [?b]))
            (acc + number mod 128 * 2 ^ sh)"
      using b by (simp add: read_groups.simps fetch_append Let_def)
    also have "\<dots> = Some (acc + number mod 128 * 2 ^ sh + number div 128 * 2 ^ (sh + 7),
        length (A @ [?b]) + length ?g)"
      by (rule Suc.IH [OF n])
    also have "acc + number mod 128 * 2 ^ sh + number div 128 * 2 ^ (sh + 7) = acc + number * 2 ^ sh"
      by (rule group_sum)
    finally show ?thesis using g by simp
  qed
qed

lemma read_short_groups:
  assumes "number < 16384"
  shows "read_short_groups (A @ short_groups number @ B) (length A)
    = Some (number, length A + length (short_groups number))"
proof (cases "number div 128 = 0")
  case True
  then have "number < 128" by (simp add: div_eq_0_iff)
  then show ?thesis using True by (simp add: read_short_groups_def short_groups_def read_groups.simps fetch_append Let_def)
next
  case False
  have h: "number div 128 < 128" using assms by (simp add: less_mult_imp_div_less)
  have f: "fetch (A @ to_uchar (number mod 128 + 128) # to_uchar (number div 128 mod 128) # B) (Suc (length A))
      = Some (number div 128)"
    using fetch_append [of "A @ [to_uchar (number mod 128 + 128)]"] h by simp
  show ?thesis
    using False h f by (simp add: read_short_groups_def short_groups_def read_groups.simps fetch_append Let_def
        mod_mult_div_eq mult.commute)
qed

text \<open>Their lengths are the sizes that the code computes.\<close>

lemma bits_set_iff: "n < 2 ^ hi \<Longrightarrow> lo \<le> hi \<Longrightarrow> bits_set lo hi n \<longleftrightarrow> 2 ^ lo \<le> n"
proof -
  assume "n < 2 ^ hi" "lo \<le> hi"
  then have "n div 2 ^ lo < 2 ^ (hi - lo)"
    by (metis le_add_diff_inverse less_mult_imp_div_less mult.commute power_add)
  then show ?thesis by (simp add: bits_set_def div_eq_0_iff not_less)
qed

lemma length_short_groups: "number < 16384 \<Longrightarrow> length (short_groups number) = (if 128 \<le> number then 2 else 1)"
  by (auto simp: short_groups_def Let_def div_eq_0_iff)

lemma short_sizes:
  assumes "number < 16384"
  shows "short_size number = length (short_groups number)" and "field_size number = length (short_groups number)"
  using assms bits_set_iff [of number 16 14] bits_set_iff [of number 16 7] bits_set_iff [of number 32 14]
    bits_set_iff [of number 32 7]
  by (simp_all add: short_size_def field_size_def length_short_groups)

lemma div128: "number div 128 div 128 = number div 16384" "number div 16384 div 128 = number div 2097152"
  "number div 2097152 div 128 = number div 268435456" "number div 268435456 div 128 = number div 34359738368"
  for number :: nat
  by (simp_all add: div_mult2_eq [symmetric])

lemma length_record_groups:
  assumes "number < 2 ^ 35"
  shows "length (record_groups 5 number) = record_size number"
proof -
  have 5: "(5::nat) = Suc (Suc (Suc (Suc (Suc 0))))" by simp
  show ?thesis
    using assms bits_set_iff [of number 40 28] bits_set_iff [of number 40 21] bits_set_iff [of number 40 14]
      bits_set_iff [of number 40 7]
    unfolding 5 record_groups.simps Let_def div128
    by (auto simp: record_size_def div_eq_0_iff)
qed

lemma length_page_groups:
  assumes "number < 2 ^ 32"
  shows "length (page_groups 5 number) = page_number_size number"
proof -
  have 5: "(5::nat) = Suc (Suc (Suc (Suc (Suc 0))))" by simp
  show ?thesis
    using assms bits_set_iff [of number 32 28] bits_set_iff [of number 32 21] bits_set_iff [of number 32 14]
      bits_set_iff [of number 32 7]
    unfolding 5 page_groups.simps Let_def div128
    by (auto simp: page_number_size_def div_eq_0_iff)
qed

subsection \<open>Nodes of the new format\<close>

text \<open>The nodes the index code builds: fields of at most 14 bits, record numbers of at most 40.\<close>

definition node_ok :: "index_node \<Rightarrow> bool \<Rightarrow> bool" where
  "node_ok n leafNode \<longleftrightarrow>
     (if isEndLevel n then \<not> isEndBucket n \<and> node_prefix n = 0 \<and> node_length n = 0 \<and> pageNumber n = 0 \<and> recordNumber n = 0
      else node_prefix n < 16384 \<and> node_length n < 16384 \<and> 0 \<le> recordNumber n \<and> recordNumber n < 2 ^ 40
        \<and> (\<not> leafNode \<longrightarrow> 0 \<le> pageNumber n \<and> pageNumber n < 2 ^ 31))"

lemma node_ok_setEndLevel: "node_ok (setEndLevel n) leafNode"
  by (simp add: node_ok_def setEndLevel_def)

lemma flag_code_less [simp]: "flag_code f < 6"
  by (cases f) simp_all

lemma flag_code_inj: "flag_code f = flag_code g \<longleftrightarrow> f = g"
  by (cases f; cases g) simp_all

lemma first_byte:
  "unat (to_uchar (flag_code f * 32 + r mod 32)) div 32 = flag_code f"
  "unat (to_uchar (flag_code f * 32 + r mod 32)) mod 32 = r mod 32"
proof -
  have "flag_code f * 32 + r mod 32 < 256" using flag_code_less [of f] by (simp add: less_eq_Suc_le)
  then show "unat (to_uchar (flag_code f * 32 + r mod 32)) div 32 = flag_code f"
    "unat (to_uchar (flag_code f * 32 + r mod 32)) mod 32 = r mod 32" by simp_all
qed

lemma clip_record:
  assumes "0 \<le> i" and "i < 2 ^ 40"
  shows "clip i div 32 < 2 ^ 35" and "int (clip i mod 32 + clip i div 32 * 2 ^ 5) = i"
proof -
  have "nat i < 2 ^ 40" using assms by (simp add: nat_less_iff)
  then show "clip i div 32 < 2 ^ 35" by (simp add: clip_def less_mult_imp_div_less)
  have "clip i mod 32 + clip i div 32 * 2 ^ 5 = clip i" by simp
  then show "int (clip i mod 32 + clip i div 32 * 2 ^ 5) = i" using assms(1) by (simp only: clip_def int_nat_eq if_True)
qed

lemma clip_page:
  assumes "0 \<le> i" and "i < 2 ^ 31"
  shows "clip i < 128 ^ 4 * 16" and "to_slong (int (clip i)) = i"
  using assms by (simp_all add: clip_def nat_less_iff to_slong_def)

text \<open>The header has the announced size.\<close>

lemma node_header_size:
  assumes "node_ok n leafNode" and "flag_set flags btr_large_keys"
  shows "getNodeSize n flags leafNode = length (node_header n leafNode) + (if isEndLevel n then 0 else node_length n)"
proof (cases "isEndLevel n")
  case True
  then show ?thesis using assms(2) by (simp add: getNodeSize_def node_header_def Let_def)
next
  case False
  have ok: "node_prefix n < 16384" "node_length n < 16384" "clip (recordNumber n) div 32 < 2 ^ 35"
      "\<not> leafNode \<Longrightarrow> clip (pageNumber n) < 2 ^ 32"
    using assms(1) False clip_record(1) [of "recordNumber n"] clip_page(1) [of "pageNumber n"]
    by (simp_all add: node_ok_def)
  let ?f = "internal_flags n"
  define r where "r = length (record_groups 5 (clip (recordNumber n) div 32))"
  define g where "g = (if \<not> leafNode then length (page_groups 5 (clip (pageNumber n))) else 0)"
  define a where "a = (if ?f \<noteq> BTN_ZERO_PREFIX_ZERO_LENGTH_FLAG then length (short_groups (node_prefix n)) else 0)"
  define b where "b = (if ?f \<noteq> BTN_ZERO_PREFIX_ZERO_LENGTH_FLAG \<and> ?f \<noteq> BTN_ZERO_LENGTH_FLAG \<and> ?f \<noteq> BTN_ONE_LENGTH_FLAG
    then length (short_groups (node_length n)) else 0)"
  have eqs: "record_size (clip (recordNumber n) div 32) = r"
      "(if \<not> leafNode then page_number_size (clip (pageNumber n)) else 0) = g"
      "field_size (node_prefix n) = length (short_groups (node_prefix n))"
      "field_size (node_length n) = length (short_groups (node_length n))"
    using ok by (simp_all add: r_def g_def length_record_groups length_page_groups short_sizes)
  have "r \<le> 5" "g \<le> 5" using ok
    by (auto simp: r_def g_def length_record_groups length_page_groups record_size_def page_number_size_def)
  moreover have "a \<le> 2" "b \<le> 2" using ok by (auto simp: a_def b_def length_short_groups)
  ultimately have "1 + r + g + a + b + node_length n < 65536" using ok(2) by simp
  moreover have "getNodeSize n flags leafNode = to_ushort (1 + r + g + a + b + node_length n)"
    using False assms(2) by (simp add: getNodeSize_def eqs a_def b_def)
  moreover have "length (node_header n leafNode) = 1 + r + g + a + b"
    using False by (simp add: node_header_def Let_def r_def g_def a_def b_def)
  ultimately show ?thesis using False by simp
qed

text \<open>The four parts of the header behind its first byte, read one after the other.\<close>

lemma masks5: "[128, 128, 128, 128, 128] = replicate 5 (128 :: nat)" "[128, 128, 128, 128, 16] = replicate 4 (128 :: nat) @ [16]"
  by (simp_all add: numeral_eq_Suc)

lemma read_number_part:
  assumes "0 \<le> recordNumber n" and "recordNumber n < 2 ^ 40"
  defines "G \<equiv> record_groups 5 (clip (recordNumber n) div 32)"
  shows "read_groups [128, 128, 128, 128, 128] 5 (A @ G @ R) (length A) (clip (recordNumber n) mod 32)
    = Some (clip (recordNumber n), length A + length G)"
proof -
  have "clip (recordNumber n) div 32 < 128 ^ 5" using clip_record(1) [OF assms(1,2)] by simp
  moreover have "clip (recordNumber n) mod 32 + clip (recordNumber n) div 32 * 2 ^ 5 = clip (recordNumber n)" by simp
  ultimately show ?thesis
    unfolding G_def masks5 using read_record_groups [of "clip (recordNumber n) div 32" 5 5 A R] by simp
qed

lemma read_page_part:
  assumes "\<not> leafNode \<Longrightarrow> 0 \<le> pageNumber n \<and> pageNumber n < 2 ^ 31"
  defines "P \<equiv> (if \<not> leafNode then page_groups 5 (clip (pageNumber n)) else [])"
  shows "read_page_number leafNode m (A @ P @ R) (length A)
    = Some (m\<lparr>pageNumber := if leafNode then pageNumber m else pageNumber n\<rparr>, length A + length P)"
proof (cases leafNode)
  case True
  then show ?thesis by (simp add: read_page_number_def P_def)
next
  case False
  have c: "clip (pageNumber n) < 128 ^ 4 * 16" "to_slong (int (clip (pageNumber n))) = pageNumber n"
    using False assms(1) clip_page [of "pageNumber n"] by simp_all
  have "read_groups [128, 128, 128, 128, 16] 0 (A @ page_groups 5 (clip (pageNumber n)) @ R) (length A) 0
      = Some (clip (pageNumber n), length A + length (page_groups 5 (clip (pageNumber n))))"
    using read_page_groups [OF c(1), of 0 A R 0] by (simp add: masks5(2))
  then show ?thesis using False c(2) by (simp add: read_page_number_def P_def)
qed

lemma read_prefix_part:
  assumes "node_prefix n < 16384"
  defines "X \<equiv> (if internal_flags n \<noteq> BTN_ZERO_PREFIX_ZERO_LENGTH_FLAG then short_groups (node_prefix n) else [])"
  shows "read_prefix (flag_code (internal_flags n)) (A @ X @ R) (length A) = Some (node_prefix n, length A + length X)"
proof (cases "internal_flags n = BTN_ZERO_PREFIX_ZERO_LENGTH_FLAG")
  case True
  then have "node_prefix n = 0" by (auto simp: internal_flags_def split: if_splits)
  then show ?thesis using True by (simp add: read_prefix_def X_def)
next
  case False
  then have "flag_code (internal_flags n) \<noteq> 3" by (cases "internal_flags n") simp_all
  then show ?thesis using False read_short_groups [OF assms(1)] by (simp add: read_prefix_def X_def)
qed

lemma read_length_part:
  assumes "node_length n < 16384" and "\<not> isEndLevel n"
  defines "Y \<equiv> (if internal_flags n \<noteq> BTN_ZERO_PREFIX_ZERO_LENGTH_FLAG \<and> internal_flags n \<noteq> BTN_ZERO_LENGTH_FLAG
      \<and> internal_flags n \<noteq> BTN_ONE_LENGTH_FLAG then short_groups (node_length n) else [])"
  shows "read_length (flag_code (internal_flags n)) (A @ Y @ R) (length A) = Some (node_length n, length A + length Y)"
proof (cases "internal_flags n \<in> {BTN_ZERO_PREFIX_ZERO_LENGTH_FLAG, BTN_ZERO_LENGTH_FLAG, BTN_ONE_LENGTH_FLAG}")
  case True
  then show ?thesis by (auto simp: read_length_def Y_def internal_flags_def assms(2) split: if_splits)
next
  case False
  then have "flag_code (internal_flags n) \<notin> {3, 4, 5}" by (cases "internal_flags n") simp_all
  then show ?thesis using False read_short_groups [OF assms(1)] by (simp add: read_length_def Y_def)
qed

definition node_seen :: "index_node \<Rightarrow> index_node \<Rightarrow> bool \<Rightarrow> nat \<Rightarrow> index_node" where
  "node_seen n m leafNode d = m\<lparr>isEndLevel := False, isEndBucket := isEndBucket n, recordNumber := recordNumber n,
     pageNumber := (if leafNode then pageNumber m else pageNumber n), node_prefix := node_prefix n,
     node_length := node_length n, node_data := OnPage d\<rparr>"

lemma read_node_header:
  assumes "node_ok n leafNode" and "\<not> isEndLevel n" and "page = A @ node_header n leafNode @ R"
  shows "readNode_large m page (length A) leafNode
    = Some (node_seen n m leafNode (length A + length (node_header n leafNode)),
            length A + length (node_header n leafNode) + node_length n)"
proof -
  let ?f = "internal_flags n" and ?r = "clip (recordNumber n)"
  define b G where "b = to_uchar (flag_code ?f * 32 + ?r mod 32)" and "G = record_groups 5 (?r div 32)"
  define P where "P = (if \<not> leafNode then page_groups 5 (clip (pageNumber n)) else [])"
  define X where "X = (if ?f \<noteq> BTN_ZERO_PREFIX_ZERO_LENGTH_FLAG then short_groups (node_prefix n) else [])"
  define Y where "Y = (if ?f \<noteq> BTN_ZERO_PREFIX_ZERO_LENGTH_FLAG \<and> ?f \<noteq> BTN_ZERO_LENGTH_FLAG \<and> ?f \<noteq> BTN_ONE_LENGTH_FLAG
    then short_groups (node_length n) else [])"
  have h: "node_header n leafNode = b # G @ P @ X @ Y"
    using assms(2) by (simp add: node_header_def Let_def b_def G_def P_def X_def Y_def)
  have ok: "node_prefix n < 16384" "node_length n < 16384" "0 \<le> recordNumber n" "recordNumber n < 2 ^ 40"
      "\<not> leafNode \<Longrightarrow> 0 \<le> pageNumber n \<and> pageNumber n < 2 ^ 31"
    using assms(1,2) by (simp_all add: node_ok_def)
  have fc: "(flag_code ?f = 1) = isEndLevel n" "(flag_code ?f = 2) = (isEndBucket n \<and> \<not> isEndLevel n)"
    by (simp_all add: internal_flags_def)
  let ?A1 = "A @ [b]"
  have 1: "fetch page (length A) = Some (unat b)"
    unfolding assms(3) h using fetch_append by simp
  have 2: "read_groups [128, 128, 128, 128, 128] 5 page (length ?A1) (?r mod 32) = Some (?r, length (?A1 @ G))"
    using read_number_part [OF ok(3,4), where A = ?A1 and R = "P @ X @ Y @ R"] by (simp add: assms(3) h G_def)
  have 3: "read_page_number leafNode m' page (length (?A1 @ G))
      = Some (m'\<lparr>pageNumber := if leafNode then pageNumber m' else pageNumber n\<rparr>, length (?A1 @ G @ P))" for m'
    using read_page_part [OF ok(5), where A = "?A1 @ G" and R = "X @ Y @ R" and m = m'] by (simp add: assms(3) h P_def)
  have 4: "read_prefix (flag_code ?f) page (length (?A1 @ G @ P)) = Some (node_prefix n, length (?A1 @ G @ P @ X))"
    using read_prefix_part [OF ok(1), where A = "?A1 @ G @ P" and R = "Y @ R"] by (simp add: assms(3) h X_def)
  have 5: "read_length (flag_code ?f) page (length (?A1 @ G @ P @ X)) = Some (node_length n, length (?A1 @ G @ P @ X @ Y))"
    using read_length_part [OF ok(2) assms(2), where A = "?A1 @ G @ P @ X" and R = R] by (simp add: assms(3) h Y_def)
  have len: "length A + 1 = length ?A1" "length A + length (node_header n leafNode) = length (?A1 @ G @ P @ X @ Y)"
    by (simp_all add: h)
  have fb: "unat b div 32 = flag_code ?f" "unat b mod 32 = ?r mod 32" by (simp_all only: b_def first_byte)
  have r: "int ?r = recordNumber n" using ok(3) by (simp add: clip_def)
  show ?thesis
    unfolding readNode_large_def 1 Option.bind.bind_lunit Let_def fb len fc(1)
    using assms(2) fc(2) by (simp only: 2 3 4 5 index_node.simps if_False Option.bind.bind_lunit prod.case r node_seen_def
        simp_thms) simp
qed

subsection \<open>Writing on a page\<close>

lemma store_append:
  assumes "length bs \<le> length X"
  shows "store (A @ X) (length A) bs = Some (A @ bs @ drop (length bs) X)"
  using assms by (simp add: store_def)

lemma store_at:
  "p + length bs \<le> length page \<Longrightarrow> store page p bs = Some (take p page @ bs @ drop (p + length bs) page)"
  by (simp add: store_def)

lemma split_page: "page = take p page @ take a (drop p page) @ take b (drop (p + a) page) @ drop (p + (a + b)) page"
proof -
  have "drop q page = take c (drop q page) @ drop (q + c) page" for q c
    by (metis add.commute append_take_drop_id drop_drop)
  from this [of p a] this [of "p + a" b] show ?thesis by (metis add.assoc append_take_drop_id)
qed

lemma fetch_data_length: "fetch_data page d n = Some bs \<Longrightarrow> length bs = n"
  by (auto simp: fetch_data_def split: data_ptr.splits if_splits)

lemma fetch_data_written:
  "p = length A \<Longrightarrow> n = length bs \<Longrightarrow> fetch_data (A @ bs @ R) (OnPage p) n = Some bs"
  by (simp add: fetch_data_def)

text \<open>
  What a page looks like after a node is written: header and data in place of the bytes that were
  there, whether the data comes from a buffer or has to be moved on the page.
\<close>

lemma writeNode_large_page:
  assumes ok: "node_ok n leafNode" and large: "flag_set flags btr_large_keys"
    and room: "p + getNodeSize n flags leafNode \<le> length page"
    and data: "fetch_data page (node_data n) (node_length n) = Some bs"
    and src: "withData \<Longrightarrow> \<exists>b. node_data n = Buffer b"
  shows "writeNode n page p flags leafNode withData = Some (n\<lparr>nodePointer := p\<rparr>,
    take p page @ node_header n leafNode @ bs @ drop (p + getNodeSize n flags leafNode) page,
    p + getNodeSize n flags leafNode)"
proof -
  let ?h = "node_header n leafNode" and ?s = "getNodeSize n flags leafNode"
  define n' where "n' = n\<lparr>nodePointer := p\<rparr>"
  have fields: "node_header n' leafNode = ?h" "getNodeSize n' flags leafNode = ?s" "node_data n' = node_data n"
      "node_length n' = node_length n" "isEndLevel n' = isEndLevel n"
    by (simp_all add: n'_def node_header_def getNodeSize_def internal_flags_def with_record_number_def)
  have size: "?s = length ?h + length bs"
    using node_header_size [OF ok large] fetch_data_length [OF data] ok by (auto simp: node_ok_def)
  have us: "to_ushort (?s + 65536 - node_length n) = length ?h"
  proof -
    have "?s < 65536" by (simp add: getNodeSize_def)
    then have "length ?h < 65536" using size by simp
    moreover have "?s + 65536 - node_length n = length ?h + 65536" using size fetch_data_length [OF data] by simp
    ultimately show ?thesis by (simp add: to_ushort_def)
  qed
  define A D where "A = take p page" and "D = drop (p + ?s) page"
  define O1 O2 where "O1 = take (length ?h) (drop p page)" and "O2 = take (length bs) (drop (p + length ?h) page)"
  have page: "page = A @ O1 @ O2 @ D"
    unfolding A_def O1_def O2_def D_def size by (rule split_page)
  have len: "length A = p" "length O1 = length ?h" "length O2 = length bs"
    using room size by (simp_all add: A_def O1_def O2_def)
  have st1: "store page (p + length ?h) bs = Some (A @ O1 @ bs @ D)"
    using store_append [of bs "O2 @ D" "A @ O1"] len by (simp add: page)
  have st2: "store (A @ O1 @ X @ D) p ?h = Some (A @ ?h @ X @ D)" for X
    using store_append [of ?h "O1 @ X @ D" A] len by simp
  have st3: "store (A @ ?h @ O2 @ D) (p + length ?h) bs = Some (A @ ?h @ bs @ D)"
    using store_append [of bs "O2 @ D" "A @ ?h"] len by simp
  show ?thesis
  proof (cases withData)
    case True
    then have "fetch_data q (node_data n) (node_length n) = Some bs" for q
      using src data by (auto simp: fetch_data_def)
    moreover have "bs = []" if "isEndLevel n" using that ok fetch_data_length [OF data] by (simp add: node_ok_def)
    ultimately show ?thesis
      using True large st2 [of O2] st3 len size fetch_data_length [OF data]
      unfolding writeNode_def Let_def n'_def [symmetric] fields A_def [symmetric] D_def [symmetric]
      by (auto simp: page [symmetric])
  next
    case False
    moreover have "bs = []" if "isEndLevel n" using that ok fetch_data_length [OF data] by (simp add: node_ok_def)
    ultimately show ?thesis
      using large data st1 st2 [of bs] size fetch_data_length [OF data]
      unfolding writeNode_def Let_def n'_def [symmetric] fields us A_def [symmetric] D_def [symmetric]
      by auto
  qed
qed

lemma readNode_large_end:
  assumes "isEndLevel n" and "page = A @ node_header n leafNode @ R"
  shows "readNode_large m page (length A) leafNode = Some (m\<lparr>isEndLevel := True, isEndBucket := False,
    node_prefix := 0, node_length := 0, recordNumber := 0, pageNumber := 0\<rparr>, length A + 1)"
proof -
  have f: "internal_flags n = BTN_END_LEVEL_FLAG" using assms(1) by (simp add: internal_flags_def)
  have "fetch page (length A) = Some (unat (to_uchar (flag_code BTN_END_LEVEL_FLAG * 32 + clip (recordNumber n) mod 32)))"
    using assms fetch_append by (simp add: node_header_def Let_def f)
  then show ?thesis unfolding readNode_large_def by (simp only: Option.bind.bind_lunit Let_def first_byte) simp
qed

text \<open>\<open>same_node n n' leafNode\<close>: \<open>n'\<close> carries what the format stores of \<open>n\<close>.\<close>

definition same_node :: "index_node \<Rightarrow> index_node \<Rightarrow> bool \<Rightarrow> bool" where
  "same_node n n' leafNode \<longleftrightarrow> isEndLevel n' = isEndLevel n \<and> isEndBucket n' = isEndBucket n
     \<and> node_prefix n' = node_prefix n \<and> node_length n' = node_length n \<and> recordNumber n' = recordNumber n
     \<and> (\<not> leafNode \<longrightarrow> pageNumber n' = pageNumber n)"

lemma readNode_large_written:
  assumes "node_ok n leafNode" and "flag_set flags btr_large_keys" and "length A = p" and "length bs = node_length n"
  shows "\<exists>n'. readNode m (A @ node_header n leafNode @ bs @ R) p flags leafNode = Some (n', p + getNodeSize n flags leafNode)
    \<and> same_node n n' leafNode
    \<and> (\<not> isEndLevel n \<longrightarrow> fetch_data (A @ node_header n leafNode @ bs @ R) (node_data n') (node_length n') = Some bs)"
proof (cases "isEndLevel n")
  case True
  then show ?thesis
    using assms readNode_large_end [OF True refl, of "m\<lparr>nodePointer := p\<rparr>" A leafNode "bs @ R"]
      node_header_size [OF assms(1,2)]
    by (auto simp: readNode_def same_node_def node_ok_def node_header_def Let_def)
next
  case False
  let ?h = "node_header n leafNode"
  have "readNode m (A @ ?h @ bs @ R) p flags leafNode
      = Some (node_seen n (m\<lparr>nodePointer := p\<rparr>) leafNode (p + length ?h), p + getNodeSize n flags leafNode)"
    using read_node_header [OF assms(1) False refl, of "m\<lparr>nodePointer := p\<rparr>" A "bs @ R"] assms(2,3)
      node_header_size [OF assms(1,2)] False
    by (simp add: readNode_def Let_def)
  moreover have "fetch_data (A @ ?h @ bs @ R) (OnPage (p + length ?h)) (node_length n) = Some bs"
    using fetch_data_written [of "p + length ?h" "A @ ?h" "node_length n" bs R] assms(3,4) by simp
  ultimately show ?thesis using False by (simp add: same_node_def node_seen_def)
qed

subsection \<open>Properties of index nodes\<close>

text \<open>
  C29. Writing a node in the new format takes exactly the space that \<^verbatim>\<open>getNodeSize\<close> announces
  and touches nothing else on the page; reading at that place gives back the node with its data and
  ends where the writing ended. This holds also when the data was on the page already and had to
  be moved, whatever the overlap.
\<close>

theorem index_node_write_read:
  assumes "node_ok n leafNode" and "flag_set flags btr_large_keys"
    and "p + getNodeSize n flags leafNode \<le> length page"
    and "fetch_data page (node_data n) (node_length n) = Some bs"
    and "withData \<longrightarrow> (\<exists>b. node_data n = Buffer b)"
  shows "\<exists>page' n'. writeNode n page p flags leafNode withData = Some (n\<lparr>nodePointer := p\<rparr>, page', p + getNodeSize n flags leafNode)
    \<and> length page' = length page \<and> take p page' = take p page
    \<and> drop (p + getNodeSize n flags leafNode) page' = drop (p + getNodeSize n flags leafNode) page
    \<and> readNode m page' p flags leafNode = Some (n', p + getNodeSize n flags leafNode)
    \<and> same_node n n' leafNode
    \<and> (\<not> isEndLevel n \<longrightarrow> fetch_data page' (node_data n') (node_length n') = Some bs)"
proof -
  let ?s = "getNodeSize n flags leafNode"
  define page' where "page' = take p page @ node_header n leafNode @ bs @ drop (p + ?s) page"
  have bs: "length bs = node_length n" by (rule fetch_data_length [OF assms(4)])
  have size: "?s = length (node_header n leafNode) + length bs"
    using node_header_size [OF assms(1,2)] bs assms(1) by (auto simp: node_ok_def)
  have w: "writeNode n page p flags leafNode withData = Some (n\<lparr>nodePointer := p\<rparr>, page', p + ?s)"
    unfolding page'_def by (rule writeNode_large_page) (use assms in auto)
  have "length (take p page) = p" using assms(3) by simp
  from readNode_large_written [OF assms(1,2) this bs, of m "drop (p + ?s) page"]
  obtain n' where "readNode m page' p flags leafNode = Some (n', p + ?s)" "same_node n n' leafNode"
      "\<not> isEndLevel n \<longrightarrow> fetch_data page' (node_data n') (node_length n') = Some bs"
    by (auto simp: page'_def)
  moreover have "length page' = length page" "take p page' = take p page" "drop (p + ?s) page' = drop (p + ?s) page"
    using assms(3) size by (auto simp: page'_def)
  ultimately show ?thesis using w by blast
qed

definition sample_node :: index_node where
  "sample_node = \<lparr>nodePointer = 0, node_prefix = 3, node_length = 2, pageNumber = 0, node_data = Buffer [5, 6],
     recordNumber = 1000, isEndBucket = False, isEndLevel = False\<rparr>"

theorem index_node_write_read_witness:
  "\<exists>page' n'. writeNode sample_node (replicate 20 0) 4 32 True True = Some (sample_node\<lparr>nodePointer := 4\<rparr>, page', 10)
    \<and> readNode sample_node page' 4 32 True = Some (n', 10) \<and> recordNumber n' = 1000 \<and> node_prefix n' = 3
    \<and> fetch_data page' (node_data n') 2 = Some [5, 6]"
proof -
  have ok: "node_ok sample_node True" by (simp add: node_ok_def sample_node_def)
  have size: "getNodeSize sample_node 32 True = 6"
    by (simp add: getNodeSize_def sample_node_def flag_set_def btr_large_keys_def clip_def record_size_def bits_set_def
        internal_flags_def field_size_def)
  have large: "flag_set 32 btr_large_keys" by (simp add: flag_set_def btr_large_keys_def)
  have data: "fetch_data (replicate 20 0) (node_data sample_node) (node_length sample_node) = Some [5, 6]"
    "\<exists>b. node_data sample_node = Buffer b" "\<not> isEndLevel sample_node" "recordNumber sample_node = 1000"
    "node_prefix sample_node = 3" "node_length sample_node = 2"
    by (simp_all add: sample_node_def fetch_data_def)
  show ?thesis
    using index_node_write_read [OF ok large _ data(1), of 4 True sample_node] size data(2-6)
    by (auto simp: same_node_def)
qed

subsection \<open>Nodes of the old format\<close>

lemma store_store:
  assumes "store page p a = Some q" and "p + length a + length b \<le> length page"
  shows "store q (p + length a) b = store page p (a @ b)"
proof -
  have q: "q = take p page @ a @ drop (p + length a) page"
    using assms by (simp add: store_def split: if_splits)
  have "store ((take p page @ a) @ drop (p + length a) page) (length (take p page @ a)) b
      = Some ((take p page @ a) @ b @ drop (length b) (drop (p + length a) page))"
    using assms(2) by (intro store_append) simp
  then show ?thesis using assms(2) q by (simp add: store_def add.commute add.left_commute)
qed

definition stored_number :: "index_node \<Rightarrow> bool \<Rightarrow> int" where
  "stored_number n leafNode =
     (if isEndLevel n then END_LEVEL else if isEndBucket n then END_BUCKET
      else if leafNode then recordNumber n else pageNumber n)"

definition is_slong :: "int \<Rightarrow> bool" where
  "is_slong i \<longleftrightarrow> - (2 ^ 31) \<le> i \<and> i < 2 ^ 31"

text \<open>
  The old format has one byte for each length, and its record or page numbers must differ from the
  end markers.
\<close>

definition node_ok_small :: "index_node \<Rightarrow> bool \<Rightarrow> bool" where
  "node_ok_small n leafNode \<longleftrightarrow> node_prefix n < 256 \<and> node_length n < 256 \<and> \<not> (isEndLevel n \<and> isEndBucket n)
     \<and> is_slong (stored_number n leafNode) \<and> is_slong (recordNumber n)
     \<and> (\<not> isEndLevel n \<and> \<not> isEndBucket n \<longrightarrow> stored_number n leafNode \<noteq> END_LEVEL \<and> stored_number n leafNode \<noteq> END_BUCKET)"

definition small_bytes :: "index_node \<Rightarrow> nat \<Rightarrow> bool \<Rightarrow> byte list \<Rightarrow> byte list" where
  "small_bytes n flags leafNode bs =
     [to_uchar (node_prefix n), to_uchar (node_length n)] @ long_bytes (stored_number n leafNode) @ bs
     @ (if with_record_number n flags leafNode then long_bytes (recordNumber n) else [])"

lemma length_long_bytes [simp]: "length (long_bytes i) = 4"
  by (simp add: long_bytes_def)

lemma get_long_written:
  assumes "is_slong i" and "p = length A"
  shows "get_long (A @ long_bytes i @ R) p = Some i"
proof -
  have "nat (i mod 2 ^ 32) < 256 ^ 4" by (simp add: nat_less_iff)
  then have "le_val (long_bytes i) = nat (i mod 2 ^ 32)" unfolding long_bytes_def by (rule le_val_le_bytes_small)
  moreover have "to_slong (int (nat (i mod 2 ^ 32))) = i"
    using assms(1) by (simp add: to_slong_def is_slong_def mod_add_left_eq)
  ultimately show ?thesis using assms(2) by (simp add: get_long_def)
qed

lemma small_size:
  "node_length n < 256 \<Longrightarrow> length bs = node_length n \<Longrightarrow> \<not> flag_set flags btr_large_keys \<Longrightarrow>
   getNodeSize n flags leafNode = length (small_bytes n flags leafNode bs)"
  by (simp add: getNodeSize_def small_bytes_def)

lemma readNode_small_written:
  assumes ok: "node_ok_small n leafNode" and small: "\<not> flag_set flags btr_large_keys"
    and p: "p = length A" and bs: "length bs = node_length n"
  shows "\<exists>n'. readNode m (A @ small_bytes n flags leafNode bs @ R) p flags leafNode = Some (n', p + getNodeSize n flags leafNode)
    \<and> isEndLevel n' = isEndLevel n \<and> isEndBucket n' = isEndBucket n \<and> node_prefix n' = node_prefix n
    \<and> node_length n' = node_length n \<and> (\<not> leafNode \<longrightarrow> pageNumber n' = stored_number n leafNode)
    \<and> recordNumber n' = (if with_record_number n flags leafNode then recordNumber n
        else if leafNode then stored_number n leafNode else recordNumber m)
    \<and> fetch_data (A @ small_bytes n flags leafNode bs @ R) (node_data n') (node_length n') = Some bs"
proof -
  let ?a = "to_uchar (node_prefix n)" and ?b = "to_uchar (node_length n)" and ?v = "stored_number n leafNode"
  define T where "T = (if with_record_number n flags leafNode then long_bytes (recordNumber n) else []) @ R"
  define page where "page = A @ small_bytes n flags leafNode bs @ R"
  have pg: "page = A @ ?a # ?b # long_bytes ?v @ bs @ T" by (simp add: page_def small_bytes_def T_def)
  have o: "node_prefix n < 256" "node_length n < 256" "is_slong ?v" "is_slong (recordNumber n)"
    using ok by (simp_all add: node_ok_small_def)
  have 1: "fetch page p = Some (node_prefix n)" using fetch_append [of A ?a] o(1) p by (simp add: pg)
  have 2: "fetch page (p + 1) = Some (node_length n)"
    using fetch_append [of "A @ [?a]" ?b] o(2) p by (simp add: pg)
  have 3: "get_long page (p + 2) = Some ?v"
    using get_long_written [OF o(3), of "p + 2" "A @ [?a, ?b]" "bs @ T"] p by (simp add: pg)
  have 4: "get_long page (p + 6 + node_length n) = Some (recordNumber n)" if "with_record_number n flags leafNode"
    using get_long_written [OF o(4), of "p + 6 + node_length n" "A @ [?a, ?b] @ long_bytes ?v @ bs" R] p bs that
    by (simp add: pg T_def)
  have 5: "fetch_data page (OnPage (p + 6)) (node_length n) = Some bs"
  proof -
    have "page = (A @ [?a, ?b] @ long_bytes ?v) @ bs @ T" by (simp add: pg)
    then show ?thesis by (simp only:) (rule fetch_data_written, use p bs in simp_all)
  qed
  have ends: "(?v = END_LEVEL) = isEndLevel n" "(?v = END_BUCKET) = isEndBucket n"
    using ok by (auto simp: node_ok_small_def stored_number_def END_LEVEL_def END_BUCKET_def split: if_splits)
  have size: "getNodeSize n flags leafNode = 6 + node_length n + (if with_record_number n flags leafNode then 4 else 0)"
    using o(2) small by (simp add: getNodeSize_def)
  define n1 where "n1 = (if leafNode then m\<lparr>nodePointer := p, node_prefix := node_prefix n, node_length := node_length n, recordNumber := ?v\<rparr>
      else m\<lparr>nodePointer := p, node_prefix := node_prefix n, node_length := node_length n, pageNumber := ?v\<rparr>)
      \<lparr>isEndLevel := isEndLevel n, isEndBucket := isEndBucket n, node_data := OnPage (p + 6)\<rparr>"
  have wr: "with_record_number n1 flags leafNode = with_record_number n flags leafNode"
    by (simp add: n1_def with_record_number_def)
  have "readNode m page p flags leafNode = (if with_record_number n flags leafNode
      then Some (n1\<lparr>recordNumber := recordNumber n\<rparr>, p + 6 + node_length n + 4) else Some (n1, p + 6 + node_length n))"
    using small 4 wr unfolding readNode_def readNode_small_def Let_def 1 2 3 Option.bind.bind_lunit ends
    by (simp add: n1_def)
  then show ?thesis unfolding page_def [symmetric] using size 5 by (simp add: n1_def)
qed

lemma store_same: "p + length bs \<le> length page \<Longrightarrow> take (length bs) (drop p page) = bs \<Longrightarrow> store page p bs = Some page"
  by (metis add.commute append_take_drop_id drop_drop store_def)

lemma store_Some: "p + length bs \<le> length page \<Longrightarrow> \<exists>q. store page p bs = Some q"
  by (simp add: store_def)

lemma writeNode_small_page:
  assumes small: "\<not> flag_set flags btr_large_keys" and len: "node_length n < 256"
    and room: "p + getNodeSize n flags leafNode \<le> length page"
    and data: "fetch_data page (node_data n) (node_length n) = Some bs"
    and src: "if withData then \<exists>b. node_data n = Buffer b else node_data n = OnPage (p + 6)"
  shows "writeNode n page p flags leafNode withData = Some (n\<lparr>nodePointer := p\<rparr>,
    take p page @ small_bytes n flags leafNode bs @ drop (p + getNodeSize n flags leafNode) page,
    p + getNodeSize n flags leafNode)"
proof -
  let ?a = "[to_uchar (node_prefix n), to_uchar (node_length n)]" and ?v = "long_bytes (stored_number n leafNode)"
  let ?r = "if with_record_number n flags leafNode then long_bytes (recordNumber n) else []"
  have bs: "length bs = node_length n" by (rule fetch_data_length [OF data])
  have size: "getNodeSize n flags leafNode = length (small_bytes n flags leafNode bs)"
    by (rule small_size [OF len bs small])
  have room': "p + (6 + (length bs + length ?r)) \<le> length page"
    using room by (simp add: size small_bytes_def)
  obtain q1 where q1: "store page p ?a = Some q1" using store_Some [of p ?a page] room' by auto
  have 2: "store q1 (p + 2) ?v = store page p (?a @ ?v)" using store_store [OF q1, of ?v] room' by simp
  obtain q2 where q2: "store page p (?a @ ?v) = Some q2" using store_Some [of p "?a @ ?v" page] room' by auto
  have 3: "store q2 (p + 6) bs = store page p (?a @ ?v @ bs)" using store_store [OF q2, of bs] room' by simp
  obtain q3 where q3: "store page p (?a @ ?v @ bs) = Some q3" using store_Some [of p "?a @ ?v @ bs" page] room' by auto
  have 4: "store q3 (p + 6 + node_length n) ?r = store page p (small_bytes n flags leafNode bs)"
    using store_store [OF q3, of ?r] room' bs by (simp add: small_bytes_def add.assoc)
  have "store q2 (p + 6) bs = Some q2" if "\<not> withData"
  proof (rule store_same)
    have "take (length bs) (drop (p + 6) page) = bs"
      using data src that bs by (auto simp: fetch_data_def split: if_splits)
    moreover have q: "q2 = take p page @ ?a @ ?v @ drop (p + 6) page"
      using q2 room' by (simp add: store_def)
    ultimately show "take (length bs) (drop (p + 6) q2) = bs" using room' by simp
    show "p + 6 + length bs \<le> length q2" using q room' by simp
  qed
  then have d: "(if withData then copy_data q2 (node_data n) (p + 6) (node_length n) else Some q2) = Some q3"
    using src data 3 q3 by (auto simp: copy_data_def fetch_data_def split: if_splits)
  have v: "(if isEndLevel n then END_LEVEL else if isEndBucket n then END_BUCKET
      else if leafNode then recordNumber n else pageNumber n) = stored_number n leafNode"
    by (simp add: stored_number_def)
  define n' where "n' = n\<lparr>nodePointer := p\<rparr>"
  have f: "node_prefix n' = node_prefix n" "node_length n' = node_length n" "isEndLevel n' = isEndLevel n"
      "isEndBucket n' = isEndBucket n" "recordNumber n' = recordNumber n" "pageNumber n' = pageNumber n"
      "node_data n' = node_data n" "with_record_number n' flags leafNode = with_record_number n flags leafNode"
    by (simp_all add: n'_def with_record_number_def)
  have s: "store page p (small_bytes n flags leafNode bs)
      = Some (take p page @ small_bytes n flags leafNode bs @ drop (p + getNodeSize n flags leafNode) page)"
    using room by (simp add: store_def size)
  have z: "getNodeSize n flags leafNode = 6 + node_length n + (if with_record_number n flags leafNode then 4 else 0)"
    using len small by (simp add: getNodeSize_def)
  have e: "small_bytes n flags leafNode bs = ?a @ ?v @ bs" if "\<not> with_record_number n flags leafNode"
    using that by (simp add: small_bytes_def)
  show ?thesis
    unfolding writeNode_def Let_def n'_def [symmetric] f v put_long_def
    using small 4 z s q1 q3 2 q2 d e by (simp split del: if_split) (simp split: if_splits)
qed

text \<open>
  C30. The same for the format of older databases: a node whose data comes from a buffer or is in
  place already takes the announced space and is read back, end markers included; on inner pages
  that store all record numbers the record number comes back as well.
\<close>

theorem old_index_node_write_read:
  assumes "node_ok_small n leafNode" and "\<not> flag_set flags btr_large_keys"
    and "p + getNodeSize n flags leafNode \<le> length page"
    and "fetch_data page (node_data n) (node_length n) = Some bs"
    and "if withData then \<exists>b. node_data n = Buffer b else node_data n = OnPage (p + 6)"
  shows "\<exists>page' n'. writeNode n page p flags leafNode withData = Some (n\<lparr>nodePointer := p\<rparr>, page', p + getNodeSize n flags leafNode)
    \<and> length page' = length page \<and> take p page' = take p page
    \<and> drop (p + getNodeSize n flags leafNode) page' = drop (p + getNodeSize n flags leafNode) page
    \<and> readNode m page' p flags leafNode = Some (n', p + getNodeSize n flags leafNode)
    \<and> isEndLevel n' = isEndLevel n \<and> isEndBucket n' = isEndBucket n \<and> node_prefix n' = node_prefix n
    \<and> node_length n' = node_length n \<and> (\<not> leafNode \<longrightarrow> pageNumber n' = stored_number n leafNode)
    \<and> recordNumber n' = (if with_record_number n flags leafNode then recordNumber n
        else if leafNode then stored_number n leafNode else recordNumber m)
    \<and> fetch_data page' (node_data n') (node_length n') = Some bs"
proof -
  let ?s = "getNodeSize n flags leafNode"
  define page' where "page' = take p page @ small_bytes n flags leafNode bs @ drop (p + ?s) page"
  have bs: "length bs = node_length n" by (rule fetch_data_length [OF assms(4)])
  have len: "node_length n < 256" using assms(1) by (simp add: node_ok_small_def)
  have size: "?s = length (small_bytes n flags leafNode bs)" by (rule small_size [OF len bs assms(2)])
  have "writeNode n page p flags leafNode withData = Some (n\<lparr>nodePointer := p\<rparr>, page', p + ?s)"
    unfolding page'_def by (rule writeNode_small_page [OF assms(2) len assms(3-5)])
  moreover have "length page' = length page" "take p page' = take p page" "drop (p + ?s) page' = drop (p + ?s) page"
    using assms(3) size by (auto simp: page'_def)
  moreover have "p = length (take p page)" using assms(3) by simp
  note readNode_small_written [OF assms(1,2) this bs, of m "drop (p + ?s) page", folded page'_def]
  ultimately show ?thesis by blast
qed

definition old_sample_node :: index_node where
  "old_sample_node = \<lparr>nodePointer = 0, node_prefix = 0, node_length = 0, pageNumber = 77, node_data = Buffer [],
     recordNumber = 12, isEndBucket = True, isEndLevel = False\<rparr>"

theorem old_index_node_write_read_witness:
  "\<exists>page' n'. writeNode old_sample_node (replicate 20 0) 4 16 True True
      = Some (old_sample_node\<lparr>nodePointer := 4\<rparr>, page', 14)
    \<and> readNode sample_node page' 4 16 True = Some (n', 14) \<and> isEndBucket n' \<and> recordNumber n' = 12"
proof -
  have ok: "node_ok_small old_sample_node True"
    by (simp add: node_ok_small_def old_sample_node_def stored_number_def is_slong_def END_BUCKET_def)
  have small: "\<not> flag_set 16 btr_large_keys" by (simp add: flag_set_def btr_large_keys_def)
  have rec: "with_record_number old_sample_node 16 True"
    by (simp add: with_record_number_def old_sample_node_def flag_set_def btr_all_record_number_def)
  have size: "getNodeSize old_sample_node 16 True = 10"
    using small rec by (simp add: getNodeSize_def old_sample_node_def)
  have data: "fetch_data (replicate 20 0) (node_data old_sample_node) (node_length old_sample_node) = Some []"
    "\<exists>b. node_data old_sample_node = Buffer b" "isEndBucket old_sample_node" "recordNumber old_sample_node = 12"
    by (simp_all add: old_sample_node_def fetch_data_def)
  show ?thesis
    using old_index_node_write_read [OF ok small _ data(1), of 4 True sample_node] size rec data(2-4)
    by auto
qed

subsection \<open>Jump nodes\<close>

text \<open>The jump nodes the index code builds: what the format has room for.\<close>

definition jump_ok :: "index_jump_node \<Rightarrow> nat \<Rightarrow> bool" where
  "jump_ok n flags \<longleftrightarrow> jump_offset n < 65536 \<and>
     (if flag_set flags btr_large_keys then jump_prefix n < 16384 \<and> jump_length n < 16384
      else jump_prefix n < 256 \<and> jump_length n < 256)"

definition jump_bytes :: "index_jump_node \<Rightarrow> nat \<Rightarrow> byte list \<Rightarrow> byte list" where
  "jump_bytes n flags bs = jump_header n flags @ short_bytes (jump_offset n) @ bs"

lemma length_short_bytes [simp]: "length (short_bytes n) = 2"
  by (simp add: short_bytes_def)

lemma get_short_written:
  assumes "n < 65536" and "p = length A"
  shows "get_short (A @ short_bytes n @ R) p = Some n"
proof -
  have "le_val (short_bytes n) = n mod 65536"
    unfolding short_bytes_def by (rule le_val_le_bytes_small) simp
  then show ?thesis using assms by (simp add: get_short_def)
qed

lemma jump_size:
  assumes "jump_ok n flags"
  shows "getJumpNodeSize n flags = length (jump_header n flags) + 2 + jump_length n"
  using assms
  by (auto simp: jump_ok_def getJumpNodeSize_def jump_header_def short_sizes length_short_groups split: if_splits)

lemma fetch_data_store:
  assumes "store page p bs = Some page'" and "case d of Buffer b \<Rightarrow> True | OnPage q \<Rightarrow> q + n \<le> p \<or> p + length bs \<le> q"
  shows "fetch_data page' d n = fetch_data page d n"
proof (cases d)
  case (OnPage q)
  have p: "page' = take p page @ bs @ drop (p + length bs) page" "p + length bs \<le> length page"
    using assms(1) by (auto simp: store_def split: if_splits)
  then have "take n (drop q page') = take n (drop q page)"
    using assms(2) OnPage by (auto simp: take_drop)
  then show ?thesis using p OnPage by (simp add: fetch_data_def)
qed (simp add: fetch_data_def)

lemma writeJumpNode_page:
  assumes ok: "jump_ok n flags" and room: "p + getJumpNodeSize n flags \<le> length page"
    and data: "fetch_data page (jump_data n) (jump_length n) = Some bs"
    and src: "case jump_data n of Buffer b \<Rightarrow> True | OnPage q \<Rightarrow> q + jump_length n \<le> p \<or> p + length (jump_header n flags) + 2 \<le> q"
  shows "writeJumpNode n page p flags = Some (n\<lparr>jump_nodePointer := p\<rparr>,
    take p page @ jump_bytes n flags bs @ drop (p + getJumpNodeSize n flags) page, p + getJumpNodeSize n flags)"
proof -
  let ?h = "jump_header n flags" and ?o = "short_bytes (jump_offset n)"
  have bs: "length bs = jump_length n" by (rule fetch_data_length [OF data])
  have size: "getJumpNodeSize n flags = length ?h + 2 + length bs" using jump_size [OF ok] bs by simp
  obtain q1 where q1: "store page p ?h = Some q1" using store_Some [of p ?h page] room size by auto
  have 2: "store q1 (p + length ?h) ?o = store page p (?h @ ?o)" using store_store [OF q1, of ?o] room size by simp
  obtain q2 where q2: "store page p (?h @ ?o) = Some q2" using store_Some [of p "?h @ ?o" page] room size by auto
  have 3: "store q2 (p + length ?h + 2) bs = store page p (jump_bytes n flags bs)"
    using store_store [OF q2, of bs] room size by (simp add: jump_bytes_def add.assoc)
  have d: "fetch_data q2 (jump_data n) (jump_length n) = Some bs"
    using fetch_data_store [OF q2, where d = "jump_data n" and n = "jump_length n"] src data
    by (cases "jump_data n") (simp_all add: add.assoc)
  have s: "store page p (jump_bytes n flags bs)
      = Some (take p page @ jump_bytes n flags bs @ drop (p + getJumpNodeSize n flags) page)"
    using room by (simp add: store_def size jump_bytes_def add.assoc)
  have h: "jump_header (n\<lparr>jump_nodePointer := p\<rparr>) flags = ?h" by (simp add: jump_header_def)
  show ?thesis
    unfolding writeJumpNode_def Let_def h put_short_def
    using q1 q2 2 3 d s size bs by (simp add: add.assoc)
qed

lemma readJumpNode_written:
  assumes ok: "jump_ok n flags" and p: "p = length A" and bs: "length bs = jump_length n"
  shows "readJumpNode (A @ jump_bytes n flags bs @ R) p flags
    = Some (n\<lparr>jump_nodePointer := p, jump_data := OnPage (p + length (jump_header n flags) + 2)\<rparr>,
        p + getJumpNodeSize n flags)"
proof -
  let ?o = "short_bytes (jump_offset n)"
  have off: "get_short (A @ jump_header n flags @ ?o @ bs @ R) (p + length (jump_header n flags)) = Some (jump_offset n)"
    using get_short_written [of "jump_offset n" "p + length (jump_header n flags)" "A @ jump_header n flags"] ok p
    by (simp add: jump_ok_def)
  show ?thesis
  proof (cases "flag_set flags btr_large_keys")
    case True
    let ?x = "short_groups (jump_prefix n)" and ?y = "short_groups (jump_length n)"
    have ok': "jump_prefix n < 16384" "jump_length n < 16384" using ok True by (simp_all add: jump_ok_def)
    have h: "jump_header n flags = ?x @ ?y" using True by (simp add: jump_header_def)
    have 1: "read_short_groups (A @ ?x @ ?y @ ?o @ bs @ R) p = Some (jump_prefix n, p + length ?x)"
      using read_short_groups [OF ok'(1)] p by simp
    have 2: "read_short_groups (A @ ?x @ ?y @ ?o @ bs @ R) (p + length ?x) = Some (jump_length n, p + length ?x + length ?y)"
      using read_short_groups [OF ok'(2), of "A @ ?x"] p by simp
    show ?thesis using off 1 2 True bs jump_size [OF ok]
      by (simp add: readJumpNode_def jump_bytes_def h add.assoc)
  next
    case False
    let ?x = "to_uchar (jump_prefix n)" and ?y = "to_uchar (jump_length n)"
    have ok': "jump_prefix n < 256" "jump_length n < 256" using ok False by (simp_all add: jump_ok_def)
    have h: "jump_header n flags = [?x, ?y]" using False by (simp add: jump_header_def)
    have 1: "fetch (A @ ?x # ?y # ?o @ bs @ R) p = Some (jump_prefix n)"
      using fetch_append [of A ?x] ok' p by simp
    have 2: "fetch (A @ ?x # ?y # ?o @ bs @ R) (Suc p) = Some (jump_length n)"
      using fetch_append [of "A @ [?x]" ?y] ok' p by simp
    show ?thesis using off 1 2 False bs jump_size [OF ok]
      by (simp add: readJumpNode_def jump_bytes_def h)
  qed
qed

lemma pag_flags_take: "take k page' = take k page \<Longrightarrow> 2 \<le> k \<Longrightarrow> k \<le> length page \<Longrightarrow> k \<le> length page' \<Longrightarrow> pag_flags page' = pag_flags page"
  by (metis (no_types, lifting) Suc_1 Suc_le_lessD fetch_def le_less_trans less_le_trans lessI nth_take pag_flags_def)

lemma jump_info_written:
  assumes info: "firstNodeOffset info < 65536" "jumpAreaSize info < 65536" "jumpers info < 256"
    and room: "BTR_SIZE + 5 \<le> length page" and flags: "pag_flags page = Some f" "flag_set f btr_jump_info"
  shows "\<exists>page'. writeJumpInfo page info = Some (page', BTR_SIZE + 5)
      \<and> length page' = length page \<and> take BTR_SIZE page' = take BTR_SIZE page
      \<and> drop (BTR_SIZE + 5) page' = drop (BTR_SIZE + 5) page
      \<and> getPointerFirstNode page' True = Some (Some info, BTR_SIZE + 5)
      \<and> getPointerFirstNode page' False = Some (None, firstNodeOffset info)"
proof -
  let ?a = "short_bytes (firstNodeOffset info)" and ?b = "short_bytes (jumpAreaSize info)" and ?c = "[to_uchar (jumpers info)]"
  let ?A = "take BTR_SIZE page" and ?R = "drop (BTR_SIZE + 5) page"
  define page' where "page' = ?A @ ?a @ ?b @ ?c @ ?R"
  have A: "length ?A = BTR_SIZE" using room by simp
  obtain q1 where q1: "store page BTR_SIZE ?a = Some q1" using store_Some [of BTR_SIZE ?a page] room by auto
  have 2: "store q1 (BTR_SIZE + 2) ?b = store page BTR_SIZE (?a @ ?b)" using store_store [OF q1, of ?b] room by simp
  obtain q2 where q2: "store page BTR_SIZE (?a @ ?b) = Some q2" using store_Some [of BTR_SIZE "?a @ ?b" page] room by auto
  have 3: "store q2 (BTR_SIZE + 4) ?c = store page BTR_SIZE (?a @ ?b @ ?c)" using store_store [OF q2, of ?c] room by simp
  have "store page BTR_SIZE (?a @ ?b @ ?c) = Some page'" using room by (simp add: store_def page'_def)
  then have w: "writeJumpInfo page info = Some (page', BTR_SIZE + 5)"
    unfolding writeJumpInfo_def put_short_def using q1 2 q2 3 by simp
  have len: "length page' = length page" "take BTR_SIZE page' = ?A" "drop (BTR_SIZE + 5) page' = ?R"
    using room by (simp_all add: page'_def)
  have f: "pag_flags page' = Some f"
    using pag_flags_take [OF len(2)] len(1) room flags(1) by (simp add: BTR_SIZE_def)
  have "get_short page' BTR_SIZE = Some (firstNodeOffset info)"
    unfolding page'_def by (rule get_short_written [OF info(1)]) (use A in simp)
  moreover have "get_short page' (BTR_SIZE + 2) = Some (jumpAreaSize info)"
    using get_short_written [OF info(2), of "BTR_SIZE + 2" "?A @ ?a"] A by (simp add: page'_def)
  moreover have "fetch page' (BTR_SIZE + 4) = Some (jumpers info)"
    using fetch_append [of "?A @ ?a @ ?b" "to_uchar (jumpers info)" ?R] A info(3) by (simp add: page'_def)
  ultimately have "readJumpInfo page' BTR_SIZE = Some (info, BTR_SIZE + 5)"
    by (simp add: readJumpInfo_def)
  then show ?thesis using w len f flags(2) by (simp add: getPointerFirstNode_def)
qed

text \<open>
  C31. A jump node is written in exactly the space that \<^verbatim>\<open>getJumpNodeSize\<close> announces,
  whose computation does not look at the offset, and is read back with its data; nothing else on the
  page changes. The jump information written at the head of a page is read back by
  \<^verbatim>\<open>getPointerFirstNode\<close>, which then returns the first jump node or the first node.
\<close>

theorem jump_node_write_read:
  assumes "jump_ok n flags" and "p + getJumpNodeSize n flags \<le> length page"
    and "fetch_data page (jump_data n) (jump_length n) = Some bs"
    and "case jump_data n of Buffer b \<Rightarrow> True | OnPage q \<Rightarrow> q + jump_length n \<le> p \<or> p + getJumpNodeSize n flags \<le> q + jump_length n"
    and "firstNodeOffset info < 65536" and "jumpAreaSize info < 65536" and "jumpers info < 256"
    and "BTR_SIZE + 5 \<le> length page" and "pag_flags page = Some f" and "flag_set f btr_jump_info"
  shows "getJumpNodeSize (n\<lparr>jump_offset := off\<rparr>) flags = getJumpNodeSize n flags
    \<and> (\<exists>page' d. writeJumpNode n page p flags = Some (n\<lparr>jump_nodePointer := p\<rparr>, page', p + getJumpNodeSize n flags)
      \<and> length page' = length page \<and> take p page' = take p page
      \<and> drop (p + getJumpNodeSize n flags) page' = drop (p + getJumpNodeSize n flags) page
      \<and> readJumpNode page' p flags = Some (n\<lparr>jump_nodePointer := p, jump_data := d\<rparr>, p + getJumpNodeSize n flags)
      \<and> fetch_data page' d (jump_length n) = Some bs)
    \<and> (\<exists>page'. writeJumpInfo page info = Some (page', BTR_SIZE + 5)
      \<and> length page' = length page \<and> take BTR_SIZE page' = take BTR_SIZE page
      \<and> drop (BTR_SIZE + 5) page' = drop (BTR_SIZE + 5) page
      \<and> getPointerFirstNode page' True = Some (Some info, BTR_SIZE + 5)
      \<and> getPointerFirstNode page' False = Some (None, firstNodeOffset info))"
proof (intro conjI)
  show "getJumpNodeSize (n\<lparr>jump_offset := off\<rparr>) flags = getJumpNodeSize n flags" by (simp add: getJumpNodeSize_def)
  let ?s = "getJumpNodeSize n flags"
  define page' where "page' = take p page @ jump_bytes n flags bs @ drop (p + ?s) page"
  have bs: "length bs = jump_length n" by (rule fetch_data_length [OF assms(3)])
  have size: "?s = length (jump_bytes n flags bs)" "?s = length (jump_header n flags) + 2 + jump_length n"
    using jump_size [OF assms(1)] bs by (simp_all add: jump_bytes_def)
  have "case jump_data n of Buffer b \<Rightarrow> True | OnPage q \<Rightarrow> q + jump_length n \<le> p \<or> p + length (jump_header n flags) + 2 \<le> q"
    using assms(4) size(2) by (auto split: data_ptr.splits)
  from writeJumpNode_page [OF assms(1-3) this]
  have "writeJumpNode n page p flags = Some (n\<lparr>jump_nodePointer := p\<rparr>, page', p + ?s)" by (simp add: page'_def)
  moreover have "length page' = length page" "take p page' = take p page" "drop (p + ?s) page' = drop (p + ?s) page"
    using assms(2) size(1) by (auto simp: page'_def)
  moreover have len: "p = length (take p page)" using assms(2) by simp
  note readJumpNode_written [OF assms(1) len bs, of "drop (p + ?s) page", folded page'_def]
  moreover have "fetch_data page' (OnPage (p + length (jump_header n flags) + 2)) (jump_length n) = Some bs"
    using fetch_data_written [of "p + length (jump_header n flags) + 2"
        "take p page @ jump_header n flags @ short_bytes (jump_offset n)" "jump_length n" bs "drop (p + ?s) page"] len bs
    by (simp add: page'_def jump_bytes_def)
  ultimately show "\<exists>page' d. writeJumpNode n page p flags = Some (n\<lparr>jump_nodePointer := p\<rparr>, page', p + ?s)
      \<and> length page' = length page \<and> take p page' = take p page \<and> drop (p + ?s) page' = drop (p + ?s) page
      \<and> readJumpNode page' p flags = Some (n\<lparr>jump_nodePointer := p, jump_data := d\<rparr>, p + ?s)
      \<and> fetch_data page' d (jump_length n) = Some bs"
    by blast
  show "\<exists>page'. writeJumpInfo page info = Some (page', BTR_SIZE + 5)
      \<and> length page' = length page \<and> take BTR_SIZE page' = take BTR_SIZE page
      \<and> drop (BTR_SIZE + 5) page' = drop (BTR_SIZE + 5) page
      \<and> getPointerFirstNode page' True = Some (Some info, BTR_SIZE + 5)
      \<and> getPointerFirstNode page' False = Some (None, firstNodeOffset info)"
    by (rule jump_info_written [OF assms(5-10)])
qed

definition sample_jump_node :: index_jump_node where
  "sample_jump_node = \<lparr>jump_nodePointer = 0, jump_prefix = 1, jump_length = 2, jump_offset = 90, jump_data = Buffer [5, 6]\<rparr>"

definition sample_jump_page :: "byte list" where
  "sample_jump_page = [7, 64] @ replicate 48 0"

theorem jump_node_write_read_witness:
  "\<exists>page' d. writeJumpNode sample_jump_node sample_jump_page 40 32 = Some (sample_jump_node\<lparr>jump_nodePointer := 40\<rparr>, page', 46)
    \<and> readJumpNode page' 40 32 = Some (sample_jump_node\<lparr>jump_nodePointer := 40, jump_data := d\<rparr>, 46)"
proof -
  have large: "flag_set 32 btr_large_keys" "flag_set 64 btr_jump_info"
    by (simp_all add: flag_set_def btr_large_keys_def btr_jump_info_def)
  have ok: "jump_ok sample_jump_node 32" using large by (simp add: jump_ok_def sample_jump_node_def)
  have size: "getJumpNodeSize sample_jump_node 32 = 6"
    using large by (simp add: getJumpNodeSize_def sample_jump_node_def short_size_def bits_set_def)
  have data: "fetch_data sample_jump_page (jump_data sample_jump_node) (jump_length sample_jump_node) = Some [5, 6]"
    "case jump_data sample_jump_node of Buffer b \<Rightarrow> True | OnPage q \<Rightarrow> q + jump_length sample_jump_node \<le> 40
       \<or> 40 + getJumpNodeSize sample_jump_node 32 \<le> q + jump_length sample_jump_node"
    "pag_flags sample_jump_page = Some 64" "length sample_jump_page = 50"
    by (simp_all add: sample_jump_node_def fetch_data_def pag_flags_def fetch_def sample_jump_page_def)
  show ?thesis
    using jump_node_write_read [OF ok _ data(1,2) _ _ _ _ data(3) large(2),
        of "\<lparr>firstNodeOffset = 40, jumpAreaSize = 512, jumpers = 1\<rparr>" 0] size data(4)
    by (auto simp: BTR_SIZE_def)
qed

subsection \<open>Keys and duplicates\<close>

lemma computePrefix_le: "computePrefix a b \<le> length a \<and> computePrefix a b \<le> length b"
  by (induction a b rule: computePrefix.induct) auto

lemma computePrefix_take: "take (computePrefix a b) a = take (computePrefix a b) b"
  by (induction a b rule: computePrefix.induct) auto

lemma computePrefix_longest: "take k a = take k b \<Longrightarrow> k \<le> length a \<Longrightarrow> k \<le> length b \<Longrightarrow> k \<le> computePrefix a b"
proof (induction a b arbitrary: k rule: computePrefix.induct)
  case (1 p prev s string)
  then show ?case by (cases k) auto
qed auto

text \<open>
  C32. The prefix that \<^verbatim>\<open>computePrefix\<close> finds is the longest one that a key shares with
  its predecessor. A node that stores this prefix and the remaining bytes of its key determines the
  key: it is the prefix taken from the predecessor followed by the data, and \<^verbatim>\<open>keyEquality\<close> accepts
  exactly this key among all that agree with it on the prefix.
\<close>

theorem index_key_compression:
  assumes "node_prefix n = computePrefix prev key"
    and "fetch_data page (node_data n) (node_length n) = Some (drop (node_prefix n) key)"
  shows "take (node_prefix n) prev @ drop (node_prefix n) key = key
    \<and> (\<forall>k \<le> min (length prev) (length key). take k prev = take k key \<longleftrightarrow> k \<le> node_prefix n)
    \<and> (\<forall>key'. take (node_prefix n) key' = take (node_prefix n) key \<longrightarrow> keyEquality page key' n = Some (key' = key))"
proof (intro conjI allI impI)
  let ?p = "node_prefix n"
  have eq: "take ?p prev = take ?p key" using computePrefix_take [of prev key] assms(1) by simp
  then show "take ?p prev @ drop ?p key = key" by simp
  show "take k prev = take k key \<longleftrightarrow> k \<le> ?p" if "k \<le> min (length prev) (length key)" for k
    using that computePrefix_longest [of k prev key] assms(1) eq by (auto dest: arg_cong [of _ _ "take k"] simp: min_absorb1)
  have p: "?p \<le> length key" using computePrefix_le [of prev key] assms(1) by simp
  have len: "node_length n = length key - ?p" using fetch_data_length [OF assms(2)] by simp
  show "keyEquality page key' n = Some (key' = key)" if t: "take ?p key' = take ?p key" for key'
  proof (cases "length key' = length key")
    case True
    have "(drop ?p key = drop ?p key') = (key' = key)" using t by (metis append_take_drop_id)
    then show ?thesis using assms(2) len p True t by (auto simp: keyEquality_def)
  next
    case False
    then show ?thesis using len p by (auto simp: keyEquality_def)
  qed
qed

theorem index_key_compression_witness:
  "keyEquality [] [1, 2, 9] (sample_node\<lparr>node_prefix := 2, node_length := 1, node_data := Buffer [9]\<rparr>) = Some True
    \<and> keyEquality [] [1, 2, 8] (sample_node\<lparr>node_prefix := 2, node_length := 1, node_data := Buffer [9]\<rparr>) = Some False"
  using index_key_compression [of "sample_node\<lparr>node_prefix := 2, node_length := 1, node_data := Buffer [9]\<rparr>"
      "[1, 2, 3]" "[1, 2, 9]" "[]"]
  by (simp add: fetch_data_def)

text \<open>The duplicates of a key from a node on, as the page has them, and what ends them.\<close>

definition is_duplicate :: "index_node \<Rightarrow> index_node \<Rightarrow> bool" where
  "is_duplicate m n \<longleftrightarrow> \<not> isEndLevel n \<and> node_length n = 0 \<and> node_prefix n = node_length m + node_prefix m"

inductive dup_chain :: "nat \<Rightarrow> bool \<Rightarrow> byte list \<Rightarrow> index_node \<Rightarrow> nat \<Rightarrow> index_node list \<Rightarrow> bool"
  for flags leafPage page where
  end_bucket: "isEndBucket n \<Longrightarrow> dup_chain flags leafPage page n p []"
| last_one: "\<not> isEndBucket n \<Longrightarrow> readNode n page p flags leafPage = Some (m, q) \<Longrightarrow> \<not> is_duplicate n m \<Longrightarrow>
    dup_chain flags leafPage page n p [n]"
| another: "\<not> isEndBucket n \<Longrightarrow> readNode n page p flags leafPage = Some (m, q) \<Longrightarrow> is_duplicate n m \<Longrightarrow>
    dup_chain flags leafPage page m q ns \<Longrightarrow> dup_chain flags leafPage page n p (n # ns)"

lemma find_duplicates_chain:
  assumes "dup_chain flags leafPage page n p ns"
  shows "find_duplicates flags leafPage page r n p prev
    = Some (last (prev # map pageNumber (takeWhile (\<lambda>n. recordNumber n < r) ns)))"
  using assms
proof (induction arbitrary: prev)
  case (end_bucket n p)
  then show ?case by (subst find_duplicates.simps) simp
next
  case (last_one n p m q)
  then show ?case by (subst find_duplicates.simps) (auto simp: is_duplicate_def)
next
  case (another n p m q ns)
  then show ?case
    by (subst find_duplicates.simps) (simp add: is_duplicate_def)
qed

lemma takeWhile_sorted: "sorted (map f xs) \<Longrightarrow> takeWhile (\<lambda>x. f x < r) xs = filter (\<lambda>x. f x < r) xs"
  for f :: "'a \<Rightarrow> 'b::linorder"
  by (induction xs) (fastforce simp: eq_commute [of "[]"] filter_empty_conv)+

text \<open>
  C33. Among the duplicates of a key on an inner page, which are ordered by record number, the
  search stops at the right one: it returns the page of the last duplicate whose record number is
  below the one searched, or the page passed in when there is none. It always ends, since every read
  moves forward on the page.
\<close>

theorem duplicates_page_found:
  assumes "btr_level page = Some level" and "pag_flags page = Some flags"
    and "readNode node page p flags (level = 0) = Some (n, q)"
    and "dup_chain flags (level = 0) page n q ns" and "sorted (map recordNumber ns)"
  shows "findPageInDuplicates node page p previousNumber findRecordNumber
    = Some (last (previousNumber # map pageNumber (filter (\<lambda>n. recordNumber n < findRecordNumber) ns)))"
  using assms by (simp add: findPageInDuplicates_def find_duplicates_chain takeWhile_sorted)

definition dup_node :: "nat \<Rightarrow> nat \<Rightarrow> int \<Rightarrow> int \<Rightarrow> bool \<Rightarrow> index_node" where
  "dup_node prefix len rec pn endLevel = setNode prefix len rec pn False endLevel sample_node"

definition dup_page :: "byte list" where
  "dup_page = ([7, 16] @ replicate 31 0 @ [1]) @ small_bytes (dup_node 0 1 5 50 False) 16 False [65]
     @ small_bytes (dup_node 1 0 9 51 False) 16 False [] @ small_bytes (dup_node 0 0 0 0 True) 16 False []"

lemma small_16: "\<not> flag_set 16 btr_large_keys" "with_record_number n 16 False"
  by (simp_all add: flag_set_def btr_large_keys_def with_record_number_def btr_all_record_number_def)

lemma dup_node_ok:
  assumes "prefix < 256" and "len < 256" and "0 \<le> rec" "rec < 100" "0 \<le> pn" "pn < 100"
  shows "node_ok_small (dup_node prefix len rec pn e) False"
  using assms by (simp add: node_ok_small_def dup_node_def setNode_def sample_node_def stored_number_def is_slong_def
      END_LEVEL_def END_BUCKET_def)

lemma read_dup_node:
  assumes "prefix < 256" "len < 256" "0 \<le> rec" "rec < 100" "0 \<le> pn" "pn < 100" "p = length A" "length bs = len"
  shows "\<exists>n. readNode m (A @ small_bytes (dup_node prefix len rec pn e) 16 False bs @ R) p 16 False = Some (n, p + 10 + len)
    \<and> (\<not> e \<longrightarrow> pageNumber n = pn) \<and> recordNumber n = rec \<and> node_length n = len \<and> node_prefix n = prefix
    \<and> \<not> isEndBucket n \<and> isEndLevel n = e"
proof -
  have "length bs = node_length (dup_node prefix len rec pn e)" using assms(8) by (simp add: dup_node_def setNode_def)
  moreover have "getNodeSize (dup_node prefix len rec pn e) 16 False = 10 + len"
    using assms(2) small_16 by (simp add: getNodeSize_def dup_node_def setNode_def)
  ultimately show ?thesis
    using readNode_small_written [OF dup_node_ok [OF assms(1-6)] small_16(1) assms(7), of bs e m R] small_16(2)
    by (auto simp: dup_node_def setNode_def stored_number_def add.assoc)
qed

lemma dup_page_nodes:
  "\<exists>n. readNode sample_node dup_page 34 16 False = Some (n, 45) \<and> pageNumber n = 50 \<and> recordNumber n = 5
     \<and> node_length n = 1 \<and> node_prefix n = 0 \<and> \<not> isEndBucket n"
  "\<exists>m. readNode n dup_page 45 16 False = Some (m, 55) \<and> pageNumber m = 51 \<and> recordNumber m = 9
     \<and> node_length m = 0 \<and> node_prefix m = 1 \<and> \<not> isEndBucket m \<and> \<not> isEndLevel m"
  "\<exists>e. readNode n dup_page 55 16 False = Some (e, 65) \<and> isEndLevel e"
proof -
  let ?h = "[7, 16] @ replicate 31 0 @ [1 :: byte]"
  let ?a = "small_bytes (dup_node 0 1 5 50 False) 16 False [65]"
  let ?b = "small_bytes (dup_node 1 0 9 51 False) 16 False []"
  let ?c = "small_bytes (dup_node 0 0 0 0 True) 16 False []"
  have len: "length ?h = 34" "length (?h @ ?a) = 45" "length (?h @ ?a @ ?b) = 55"
    using small_16(2) by (simp_all add: small_bytes_def)
  show "\<exists>n. readNode sample_node dup_page 34 16 False = Some (n, 45) \<and> pageNumber n = 50 \<and> recordNumber n = 5
     \<and> node_length n = 1 \<and> node_prefix n = 0 \<and> \<not> isEndBucket n"
    using read_dup_node [of 0 1 5 50 34 ?h "[65]" sample_node False "?b @ ?c"] len(1) unfolding dup_page_def by auto
  show "\<exists>m. readNode n dup_page 45 16 False = Some (m, 55) \<and> pageNumber m = 51 \<and> recordNumber m = 9
     \<and> node_length m = 0 \<and> node_prefix m = 1 \<and> \<not> isEndBucket m \<and> \<not> isEndLevel m"
    using read_dup_node [of 1 0 9 51 45 "?h @ ?a" "[]" n False ?c] len(2) unfolding dup_page_def by auto
  show "\<exists>e. readNode n dup_page 55 16 False = Some (e, 65) \<and> isEndLevel e"
    using read_dup_node [of 0 0 0 0 55 "?h @ ?a @ ?b" "[]" n True "[]"] len(3) unfolding dup_page_def by auto
qed

theorem duplicates_page_found_witness:
  "findPageInDuplicates sample_node dup_page 34 40 7 = Some 50
    \<and> findPageInDuplicates sample_node dup_page 34 40 5 = Some 40"
proof -
  have h: "btr_level dup_page = Some 1" "pag_flags dup_page = Some 16"
    by (simp_all add: btr_level_def pag_flags_def fetch_def dup_page_def nth_append)
  obtain n where n: "readNode sample_node dup_page 34 16 False = Some (n, 45)" "pageNumber n = 50" "recordNumber n = 5"
    "node_length n = 1" "node_prefix n = 0" "\<not> isEndBucket n"
    using dup_page_nodes(1) by blast
  obtain m where m: "readNode n dup_page 45 16 False = Some (m, 55)" "pageNumber m = 51" "recordNumber m = 9"
    "node_length m = 0" "node_prefix m = 1" "\<not> isEndBucket m" "\<not> isEndLevel m"
    using dup_page_nodes(2) by blast
  obtain e where e: "readNode m dup_page 55 16 False = Some (e, 65)" "isEndLevel e"
    using dup_page_nodes(3) by blast
  have "dup_chain 16 False dup_page m 55 [m]"
    using dup_chain.last_one [OF m(6) e(1)] e(2) by (simp add: is_duplicate_def)
  then have "dup_chain 16 False dup_page n 45 [n, m]"
    using dup_chain.another [OF n(6) m(1)] n m by (simp add: is_duplicate_def)
  then have "findPageInDuplicates sample_node dup_page 34 40 r
      = Some (last (40 # map pageNumber (filter (\<lambda>n. recordNumber n < r) [n, m])))" for r
    using duplicates_page_found [of dup_page 1 16 sample_node 34 n 45 "[n, m]" 40 r] h n m by simp
  then show ?thesis using n m by simp
qed

end
