(* ===== verification/FB_Like.thy ===== *)
theory FB_Like
  imports FB_EvlString
begin

section \<open>The predicate LIKE (\<^verbatim>\<open>LikeEvaluator\<close> of \<^verbatim>\<open>src/src/jrd/evl_string.h\<close>)\<close>

text \<open>
  A pattern is parsed into items (strings and skips), the items are compiled (strings that follow a
  percent sign get a Knuth-Morris-Pratt table, the others are matched in place), and the subject is run
  through a set of branches, in chunks. An array element \<^verbatim>\<open>PatternItem*\<close> is its index. The union of
  the string and the skip count is one field for the two numbers, which share their place; a
  pointer into the pattern is the list of characters from there on.
\<close>

datatype pattern_item_type = piNone | piSearch | piSkipFixed | piDirectMatch | piEscapedString | piSkipMore

datatype match_type = MATCH_NONE | MATCH_FIXED | MATCH_ANY

datatype like_error = isc_like_escape_invalid | like_fault

record 'a pattern_item =
  pi_type :: pattern_item_type
  str_length :: nat
  str_data :: "'a list"
  str_kmpNext :: "int list"
  pi_match_any :: bool

type_synonym branch_item = "nat \<times> int"

record 'a like_evaluator =
  le_alloc :: static_allocator
  patternItems :: "'a pattern_item list"
  branches :: "branch_item list"
  le_match_type :: match_type

text \<open>The special characters.\<close>

record 'a like_syntax =
  escape_char :: 'a
  use_escape :: bool
  sql_match_any :: 'a
  sql_match_one :: 'a

subsection \<open>Parsing\<close>

text \<open>The element that \<^verbatim>\<open>grow\<close> adds is cleared; \<^verbatim>\<open>item\<close> is always the last element.\<close>

definition new_item :: "'a pattern_item" where
  "new_item = \<lparr>pi_type = piNone, str_length = 0, str_data = [], str_kmpNext = [], pi_match_any = False\<rparr>"

definition on_last :: "('b \<Rightarrow> 'b) \<Rightarrow> 'b list \<Rightarrow> 'b list" where
  "on_last f xs = butlast xs @ [f (last xs)]"

definition put_escaped :: "'a list \<Rightarrow> 'a pattern_item list \<Rightarrow> 'a pattern_item list" where
  "put_escaped p items =
     (case pi_type (last items) of
        piSkipFixed \<Rightarrow> items @ [new_item\<lparr>pi_type := piEscapedString, str_data := p, str_length := 1\<rparr>]
      | piSkipMore \<Rightarrow> items @ [new_item\<lparr>pi_type := piEscapedString, str_data := p, str_length := 1\<rparr>]
      | piNone \<Rightarrow> on_last (\<lambda>i. i\<lparr>pi_type := piEscapedString, str_data := p, str_length := 1\<rparr>) items
      | piSearch \<Rightarrow> on_last (\<lambda>i. i\<lparr>pi_type := piEscapedString, str_length := str_length i + 1\<rparr>) items
      | piEscapedString \<Rightarrow> on_last (\<lambda>i. i\<lparr>str_length := str_length i + 1\<rparr>) items
      | piDirectMatch \<Rightarrow> items)"

definition put_any :: "'a pattern_item list \<Rightarrow> 'a pattern_item list" where
  "put_any items =
     (case pi_type (last items) of
        piSearch \<Rightarrow> items @ [new_item\<lparr>pi_type := piSkipMore\<rparr>]
      | piEscapedString \<Rightarrow> items @ [new_item\<lparr>pi_type := piSkipMore\<rparr>]
      | piSkipFixed \<Rightarrow> on_last (\<lambda>i. i\<lparr>pi_type := piSkipMore\<rparr>) items
      | piNone \<Rightarrow> on_last (\<lambda>i. i\<lparr>pi_type := piSkipMore\<rparr>) items
      | _ \<Rightarrow> items)"

definition put_one :: "'a pattern_item list \<Rightarrow> 'a pattern_item list" where
  "put_one items =
     (case pi_type (last items) of
        piSearch \<Rightarrow> items @ [new_item\<lparr>pi_type := piSkipFixed, str_length := 1\<rparr>]
      | piEscapedString \<Rightarrow> items @ [new_item\<lparr>pi_type := piSkipFixed, str_length := 1\<rparr>]
      | piNone \<Rightarrow> on_last (\<lambda>i. i\<lparr>pi_type := piSkipFixed, str_length := 1\<rparr>) items
      | piSkipFixed \<Rightarrow> on_last (\<lambda>i. i\<lparr>str_length := str_length i + 1\<rparr>) items
      | piSkipMore \<Rightarrow> on_last (\<lambda>i. i\<lparr>str_length := str_length i + 1\<rparr>) items
      | piDirectMatch \<Rightarrow> items)"

definition put_char :: "'a list \<Rightarrow> 'a pattern_item list \<Rightarrow> 'a pattern_item list" where
  "put_char p items =
     (case pi_type (last items) of
        piSkipFixed \<Rightarrow> items @ [new_item\<lparr>pi_type := piSearch, str_data := p, str_length := 1\<rparr>]
      | piSkipMore \<Rightarrow> items @ [new_item\<lparr>pi_type := piSearch, str_data := p, str_length := 1\<rparr>]
      | piNone \<Rightarrow> on_last (\<lambda>i. i\<lparr>pi_type := piSearch, str_data := p, str_length := 1\<rparr>) items
      | piSearch \<Rightarrow> on_last (\<lambda>i. i\<lparr>str_length := str_length i + 1\<rparr>) items
      | piEscapedString \<Rightarrow> on_last (\<lambda>i. i\<lparr>str_length := str_length i + 1\<rparr>) items
      | piDirectMatch \<Rightarrow> items)"

text \<open>The first pass; the list of characters is what the pattern has from \<^verbatim>\<open>pattern_pos\<close> on.\<close>

fun like_parse :: "'a like_syntax \<Rightarrow> 'a list \<Rightarrow> 'a pattern_item list \<Rightarrow> like_error + 'a pattern_item list" where
  "like_parse q [] items = Inr items"
| "like_parse q (c # rest) items =
     (if use_escape q \<and> c = escape_char q then
        (case rest of
           [] \<Rightarrow> Inl isc_like_escape_invalid
         | c' # rest' \<Rightarrow>
             if c' = escape_char q \<or> c' = sql_match_any q \<or> c' = sql_match_one q
             then like_parse q rest' (put_escaped (c # rest) items)
             else Inl isc_like_escape_invalid)
      else if c = sql_match_any q then like_parse q rest (put_any items)
      else if c = sql_match_one q then like_parse q rest (put_one items)
      else like_parse q rest (put_char (c # rest) items))"

subsection \<open>Compilation\<close>

fun unescape :: "'a like_syntax \<Rightarrow> nat \<Rightarrow> 'a list \<Rightarrow> 'a list option" where
  "unescape q 0 p = Some []"
| "unescape q (Suc n) [] = None"
| "unescape q (Suc n) (c # p) =
     (if use_escape q \<and> c = escape_char q
      then (case p of [] \<Rightarrow> None | c' # p' \<Rightarrow> do { s \<leftarrow> unescape q n p'; Some (c' # s) })
      else do { s \<leftarrow> unescape q n p; Some (c # s) })"

text \<open>The string of an item: the characters that \<^verbatim>\<open>str.data\<close> and \<^verbatim>\<open>str.length\<close> delimit.\<close>

definition item_str :: "'a pattern_item \<Rightarrow> 'a list" where
  "item_str it = take (str_length it) (str_data it)"

text \<open>Unescaping (with its memory block) and the choice between the two ways of matching a string.\<close>

definition like_unescape ::
  "'a like_syntax \<Rightarrow> nat \<Rightarrow> nat \<Rightarrow> 'a pattern_item \<Rightarrow> static_allocator \<Rightarrow> ('a pattern_item \<times> static_allocator) option" where
  "like_unescape q alignment char_size it a =
     (if pi_type it = piEscapedString then
        let (p, n, a) = sa_alloc alignment (str_length it * char_size) a in
        do { s \<leftarrow> unescape q (str_length it) (str_data it);
             Some (it\<lparr>str_data := s, pi_type := piSearch\<rparr>, a) }
      else Some (it, a))"

definition like_string ::
  "bool \<Rightarrow> nat \<Rightarrow> 'a pattern_item \<Rightarrow> static_allocator \<Rightarrow> ('a pattern_item \<times> static_allocator) option" where
  "like_string directMatch alignment it a =
     (if directMatch then Some (it\<lparr>pi_type := piDirectMatch\<rparr>, a)
      else let (p, n, a) = sa_alloc alignment ((str_length it + 1) * 4) a in
        do { kmpNext \<leftarrow> preKmp (item_str it) (replicate (n div 4) 0);
             Some (it\<lparr>str_kmpNext := kmpNext\<rparr>, a) })"

function like_compile ::
  "'a like_syntax \<Rightarrow> nat \<Rightarrow> nat \<Rightarrow> nat \<Rightarrow> bool \<Rightarrow> 'a pattern_item list \<Rightarrow> static_allocator
   \<Rightarrow> ('a pattern_item list \<times> static_allocator) option" where
  "like_compile q alignment char_size i directMatch items a =
     (if i < length items then
        let it = items ! i in
        if pi_type it = piEscapedString \<or> pi_type it = piSearch then do {
          (it, a) \<leftarrow> like_unescape q alignment char_size it a;
          (it, a) \<leftarrow> like_string directMatch alignment it a;
          like_compile q alignment char_size (i + 1) True (items[i := it]) a }
        else if pi_type it = piSkipMore then
          if str_length it \<noteq> 0
          then like_compile q alignment char_size (i + 1) False (items[i := it\<lparr>pi_type := piSkipFixed, pi_match_any := True\<rparr>]) a
          else if 0 < i
          then like_compile q alignment char_size i False
                 (remove_at i 1 (items[i - 1 := (items ! (i - 1))\<lparr>pi_match_any := True\<rparr>])) a
          else if length items \<noteq> 1
          then like_compile q alignment char_size i False (remove_at i 1 items) a
          else like_compile q alignment char_size (i + 1) False (items[i := it\<lparr>pi_type := piNone, pi_match_any := True\<rparr>]) a
        else like_compile q alignment char_size (i + 1) directMatch items a
      else Some (items, a))"
  by pat_completeness auto
termination
  by (relation "measure (\<lambda>(q, al, cs, i, dm, items, a). length items - i)") (auto simp: remove_at_def)

declare like_compile.simps [simp del]

definition like_reset :: "'a like_evaluator \<Rightarrow> 'a like_evaluator option" where
  "like_reset e =
     (case patternItems e of
        [] \<Rightarrow> None
      | it # _ \<Rightarrow>
          Some (if pi_type it = piNone
                then e\<lparr>branches := [], le_match_type := (if pi_match_any it then MATCH_ANY else MATCH_FIXED)\<rparr>
                else e\<lparr>branches := [(0, 0)], le_match_type := MATCH_NONE\<rparr>))"

definition like_new :: "nat \<Rightarrow> nat \<Rightarrow> 'a like_syntax \<Rightarrow> 'a list \<Rightarrow> like_error + 'a like_evaluator" where
  "like_new alignment char_size q pattern =
     (let (p, n, a) = sa_alloc alignment (length pattern * char_size) sa_new in
      rbind (like_parse q pattern [new_item]) (\<lambda>items.
        case like_compile q alignment char_size 0 True items a of
          None \<Rightarrow> Inl like_fault
        | Some (items, a) \<Rightarrow>
            (case like_reset \<lparr>le_alloc = a, patternItems = items, branches = [], le_match_type = MATCH_NONE\<rparr> of
               None \<Rightarrow> Inl like_fault
             | Some e \<Rightarrow> Inr e)))"

definition like_getResult :: "'a like_evaluator \<Rightarrow> bool" where
  "like_getResult e \<longleftrightarrow> le_match_type e \<noteq> MATCH_NONE"

subsection \<open>Matching\<close>

text \<open>
  One branch at one character. Either the evaluation returns, with the branches, the kind of
  match (if it changes) and whether more data can matter, or the inner loop goes on with the next
  branch number, the branches and the candidate for the end of the match.
\<close>

datatype branch_action =
    Return bool "branch_item list" "match_type option"
  | Go nat "branch_item list" int

text \<open>A fixed item that has taken the character: the next offset, the next item, or the end.\<close>

definition fixed_step ::
  "'a pattern_item list \<Rightarrow> nat \<Rightarrow> nat \<Rightarrow> nat \<Rightarrow> branch_item list \<Rightarrow> int \<Rightarrow> 'a pattern_item \<Rightarrow> nat \<Rightarrow> int \<Rightarrow> branch_action" where
  "fixed_step items data_pos data_len n bs finish it pat off =
     (let off = off + 1 in
      if int (str_length it) \<le> off then
        if pi_match_any it then
          if length items \<le> pat + 1 then Return False [] (Some MATCH_ANY)
          else Go 1 [(pat + 1, 0)] finish
        else if length items \<le> pat + 1 then
          let finish = int data_pos; bs = remove_at n 1 bs in
          if bs = [] then
            if data_pos = data_len - 1 then Return True bs (Some MATCH_FIXED) else Return False bs None
          else Go n bs finish
        else Go (n + 1) (bs[n := (pat + 1, 0)]) finish
      else Go (n + 1) (bs[n := (pat, off)]) finish)"

definition search_step ::
  "'a pattern_item list \<Rightarrow> 'a \<Rightarrow> nat \<Rightarrow> nat \<Rightarrow> branch_item list \<Rightarrow> int \<Rightarrow> 'a pattern_item \<Rightarrow> nat \<Rightarrow> int \<Rightarrow> branch_action option" where
  "search_step items c data_pos n bs finish it pat off = do {
     off \<leftarrow> kmp_fall (item_str it) (str_kmpNext it) c off;
     (let off = off + 1 in
      if int (str_length it) \<le> off then
        if length items \<le> pat + 1 then
          if pi_match_any it then Some (Return False [] (Some MATCH_ANY))
          else do { off \<leftarrow> rd (str_kmpNext it) off; Some (Go (n + 1) (bs[n := (pat, off)]) (int data_pos)) }
        else if pi_type (items ! (pat + 1)) = piSearch then Some (Go (n + 1) (bs[n := (pat + 1, 0)]) finish)
        else do {
          off \<leftarrow> rd (str_kmpNext it) off;
          Some (Go (n + 2) (insert_at (n + 1) [(pat + 1, 0)] (bs[n := (pat, off)])) finish) }
      else Some (Go (n + 1) (bs[n := (pat, off)]) finish)) }"

definition branch_step ::
  "'a pattern_item list \<Rightarrow> 'a \<Rightarrow> nat \<Rightarrow> nat \<Rightarrow> nat \<Rightarrow> branch_item list \<Rightarrow> int \<Rightarrow> branch_action option" where
  "branch_step items c data_pos data_len n bs finish =
     (let (pat, off) = bs ! n in do {
        it \<leftarrow> rd items (int pat);
        (case pi_type it of
           piDirectMatch \<Rightarrow> do {
             x \<leftarrow> rd (item_str it) off;
             if c \<noteq> x then
               let bs = remove_at n 1 bs in
               Some (if bs = [] then Return False bs None else Go n bs finish)
             else Some (fixed_step items data_pos data_len n bs finish it pat off) }
         | piSkipFixed \<Rightarrow> Some (fixed_step items data_pos data_len n bs finish it pat off)
         | piSearch \<Rightarrow> search_step items c data_pos n bs finish it pat off
         | _ \<Rightarrow> Some (Go (n + 1) bs finish)) })"

lemma fixed_step_measure:
  "fixed_step items data_pos data_len n bs finish it pat off = Go n' bs' finish' \<Longrightarrow> n < length bs \<Longrightarrow>
   length bs' - n' < length bs - n"
  by (auto simp: fixed_step_def Let_def remove_at_def split: if_splits)

lemma search_step_measure:
  "search_step items c data_pos n bs finish it pat off = Some (Go n' bs' finish') \<Longrightarrow> n < length bs \<Longrightarrow>
   length bs' - n' < length bs - n"
  by (auto simp: search_step_def Let_def insert_at_def bind_eq_Some_conv split: if_splits)

lemma branch_step_measure:
  assumes "branch_step items c data_pos data_len n bs finish = Some (Go n' bs' finish')" and "n < length bs"
  shows "length bs' - n' < length bs - n"
proof -
  obtain pat off where b: "bs ! n = (pat, off)" by (cases "bs ! n")
  then obtain it where it: "rd items (int pat) = Some it" using assms(1) by (auto simp: branch_step_def bind_eq_Some_conv)
  have r: "length (remove_at n 1 bs) - n < length bs - n" using assms(2) by (simp add: remove_at_def)
  show ?thesis
  proof (cases "pi_type it")
    case piDirectMatch
    then show ?thesis using assms b it r
      by (auto simp: branch_step_def bind_eq_Some_conv Let_def split: if_splits dest: fixed_step_measure)
  qed (use assms b it in \<open>auto simp: branch_step_def dest: fixed_step_measure search_step_measure\<close>)
qed

text \<open>The inner loop over the branches, and the loop over the characters.\<close>

function branch_loop ::
  "'a pattern_item list \<Rightarrow> 'a \<Rightarrow> nat \<Rightarrow> nat \<Rightarrow> nat \<Rightarrow> branch_item list \<Rightarrow> int \<Rightarrow> branch_action option" where
  "branch_loop items c data_pos data_len n bs finish =
     (if n < length bs then
        (case branch_step items c data_pos data_len n bs finish of
           None \<Rightarrow> None
         | Some (Return r bs' m) \<Rightarrow> Some (Return r bs' m)
         | Some (Go n' bs' finish') \<Rightarrow> branch_loop items c data_pos data_len n' bs' finish')
      else Some (Go n bs finish))"
  by pat_completeness auto
termination
  by (relation "measure (\<lambda>(items, c, data_pos, data_len, n, bs, finish). length bs - n)")
     (auto dest: branch_step_measure)

declare branch_loop.simps [simp del]

fun like_chars :: "'a list \<Rightarrow> nat \<Rightarrow> nat \<Rightarrow> int \<Rightarrow> 'a like_evaluator \<Rightarrow> (bool \<times> 'a like_evaluator) option" where
  "like_chars [] data_pos data_len finish e =
     Some (True, if finish = int data_len - 1 then e\<lparr>le_match_type := MATCH_FIXED\<rparr> else e)"
| "like_chars (c # data) data_pos data_len finish e =
     (case branch_loop (patternItems e) c data_pos data_len 0 (branches e) finish of
        None \<Rightarrow> None
      | Some (Return r bs m) \<Rightarrow>
          Some (r, e\<lparr>branches := bs, le_match_type := (case m of None \<Rightarrow> le_match_type e | Some m \<Rightarrow> m)\<rparr>)
      | Some (Go n bs finish) \<Rightarrow> like_chars data (data_pos + 1) data_len finish (e\<lparr>branches := bs\<rparr>))"

definition like_process :: "'a list \<Rightarrow> 'a like_evaluator \<Rightarrow> (bool \<times> 'a like_evaluator) option" where
  "like_process data e =
     (if data = [] then Some (branches e \<noteq> [] \<or> le_match_type e = MATCH_FIXED, e)
      else
        let e = (if le_match_type e = MATCH_FIXED then e\<lparr>le_match_type := MATCH_NONE\<rparr> else e) in
        if branches e = [] then Some (False, e)
        else like_chars data 0 (length data) (- 1) e)"

subsection \<open>The meaning of a pattern\<close>

datatype 'a like_token = Lit 'a | One | Any

fun like_tokens :: "'a like_syntax \<Rightarrow> 'a list \<Rightarrow> 'a like_token list option" where
  "like_tokens q [] = Some []"
| "like_tokens q (c # rest) =
     (if use_escape q \<and> c = escape_char q then
        (case rest of
           [] \<Rightarrow> None
         | c' # rest' \<Rightarrow>
             if c' = escape_char q \<or> c' = sql_match_any q \<or> c' = sql_match_one q
             then do { ts \<leftarrow> like_tokens q rest'; Some (Lit c' # ts) } else None)
      else do { ts \<leftarrow> like_tokens q rest;
                Some ((if c = sql_match_any q then Any else if c = sql_match_one q then One else Lit c) # ts) })"

fun like_match :: "'a like_token list \<Rightarrow> 'a list \<Rightarrow> bool" where
  "like_match [] s \<longleftrightarrow> s = []"
| "like_match (Lit c # p) s \<longleftrightarrow> (case s of [] \<Rightarrow> False | d # s' \<Rightarrow> d = c \<and> like_match p s')"
| "like_match (One # p) s \<longleftrightarrow> (case s of [] \<Rightarrow> False | d # s' \<Rightarrow> like_match p s')"
| "like_match (Any # p) s \<longleftrightarrow> like_match p s \<or> (case s of [] \<Rightarrow> False | d # s' \<Rightarrow> like_match (Any # p) s')"

declare like_match.simps(2-4) [simp del]

lemma like_match_Lit [simp]: "like_match (Lit c # p) s \<longleftrightarrow> (\<exists>s'. s = c # s' \<and> like_match p s')"
  by (subst like_match.simps) (auto split: list.splits)

lemma like_match_One [simp]: "like_match (One # p) s \<longleftrightarrow> (\<exists>d s'. s = d # s' \<and> like_match p s')"
  by (subst like_match.simps) (auto split: list.splits)

lemma like_match_Any: "like_match (Any # p) s \<longleftrightarrow> (\<exists>u v. s = u @ v \<and> like_match p v)"
proof (induction s)
  case Nil
  then show ?case by (subst like_match.simps) simp
next
  case (Cons d s)
  then show ?case by (subst like_match.simps) (auto simp: Cons_eq_append_conv)
qed

lemma like_match_append: "like_match (p @ r) s \<longleftrightarrow> (\<exists>u v. s = u @ v \<and> like_match p u \<and> like_match r v)"
proof (induction p arbitrary: s)
  case (Cons t p)
  show ?case
  proof (cases t)
    case (Lit c)
    have "(\<exists>s'. s = c # s' \<and> (\<exists>u v. s' = u @ v \<and> like_match p u \<and> like_match r v))
      \<longleftrightarrow> (\<exists>u v. s = u @ v \<and> (\<exists>s'. u = c # s' \<and> like_match p s') \<and> like_match r v)" by (metis append_Cons)
    then show ?thesis using Lit Cons by simp
  next
    case One
    have "(\<exists>d s'. s = d # s' \<and> (\<exists>u v. s' = u @ v \<and> like_match p u \<and> like_match r v))
      \<longleftrightarrow> (\<exists>u v. s = u @ v \<and> (\<exists>d s'. u = d # s' \<and> like_match p s') \<and> like_match r v)" by (metis append_Cons)
    then show ?thesis using One Cons by simp
  next
    case Any
    have "(\<exists>u v. s = u @ v \<and> like_match (p @ r) v) \<longleftrightarrow> (\<exists>u v w. s = u @ v @ w \<and> like_match p v \<and> like_match r w)"
      using Cons by metis
    also have "\<dots> \<longleftrightarrow> (\<exists>u w. s = u @ w \<and> (\<exists>u' v. u = u' @ v \<and> like_match p v) \<and> like_match r w)"
      by (metis append.assoc)
    finally show ?thesis using Any by (simp add: like_match_Any)
  qed
qed simp

lemma like_match_lits: "like_match (map Lit x) s \<longleftrightarrow> s = x"
  by (induction x arbitrary: s) auto

lemma like_match_ones: "like_match (replicate n One) s \<longleftrightarrow> length s = n"
  by (induction n arbitrary: s) (auto simp: length_Suc_conv)

text \<open>Patterns that match the same strings.\<close>

definition like_eq :: "'a like_token list \<Rightarrow> 'a like_token list \<Rightarrow> bool" where
  "like_eq p r \<longleftrightarrow> (\<forall>s. like_match p s = like_match r s)"

lemma like_eq_refl [simp]: "like_eq p p"
  by (simp add: like_eq_def)

lemma like_eq_sym: "like_eq p r \<Longrightarrow> like_eq r p"
  by (simp add: like_eq_def)

lemma like_eq_trans [trans]: "like_eq p r \<Longrightarrow> like_eq r t \<Longrightarrow> like_eq p t"
  by (simp add: like_eq_def)

lemma like_eq_append: "like_eq p p' \<Longrightarrow> like_eq r r' \<Longrightarrow> like_eq (p @ r) (p' @ r')"
  by (simp add: like_eq_def like_match_append)

lemma like_eq_Any_Any: "like_eq [Any, Any] [Any]"
  by (auto simp: like_eq_def like_match_Any)

lemma like_eq_Any_ones: "like_eq (Any # replicate n One) (replicate n One @ [Any])"
proof -
  have "(\<exists>u v. s = u @ v \<and> length v = n) \<longleftrightarrow> n \<le> length s" for s :: "'a list"
    by (metis append_take_drop_id diff_diff_cancel length_append length_drop le_add2)
  moreover have "(\<exists>u v. s = u @ v \<and> length u = n) \<longleftrightarrow> n \<le> length s" for s :: "'a list"
    by (metis append_take_drop_id le_add1 length_append length_take min.absorb2)
  ultimately show ?thesis by (simp add: like_eq_def like_match_append like_match_Any like_match_ones)
qed

subsection \<open>The parser is right\<close>

definition is_str :: "'a pattern_item \<Rightarrow> bool" where
  "is_str it \<longleftrightarrow> pi_type it = piSearch \<or> pi_type it = piEscapedString"

text \<open>The tokens that a parsed item stands for.\<close>

definition parsed_tokens :: "'a like_syntax \<Rightarrow> 'a pattern_item \<Rightarrow> 'a like_token list" where
  "parsed_tokens q it =
     (case pi_type it of
        piSearch \<Rightarrow> map Lit (item_str it)
      | piEscapedString \<Rightarrow> map Lit (the (unescape q (str_length it) (str_data it)))
      | piSkipFixed \<Rightarrow> replicate (str_length it) One
      | piSkipMore \<Rightarrow> replicate (str_length it) One @ [Any]
      | _ \<Rightarrow> [])"

definition parsed_item :: "'a like_syntax \<Rightarrow> 'a pattern_item \<Rightarrow> bool" where
  "parsed_item q it \<longleftrightarrow> \<not> pi_match_any it \<and>
     (case pi_type it of
        piSearch \<Rightarrow> 0 < str_length it \<and> str_length it \<le> length (str_data it)
      | piEscapedString \<Rightarrow> 0 < str_length it \<and> unescape q (str_length it) (str_data it) \<noteq> None
      | piSkipFixed \<Rightarrow> 0 < str_length it
      | piSkipMore \<Rightarrow> True
      | _ \<Rightarrow> False)"

text \<open>\<open>spells q w s\<close>: \<open>w\<close> is a way to write \<open>s\<close> with escapes.\<close>

inductive spells :: "'a like_syntax \<Rightarrow> 'a list \<Rightarrow> 'a list \<Rightarrow> bool" for q where
  empty: "spells q [] []"
| plain: "\<not> (use_escape q \<and> c = escape_char q) \<Longrightarrow> spells q w s \<Longrightarrow> spells q (c # w) (c # s)"
| escaped: "use_escape q \<Longrightarrow> spells q w s \<Longrightarrow> spells q (escape_char q # c # w) (c # s)"

lemma spells_append: "spells q w s \<Longrightarrow> spells q w' s' \<Longrightarrow> spells q (w @ w') (s @ s')"
  by (induction rule: spells.induct) (auto intro: spells.intros)

lemma unescape_spelled: "spells q w s \<Longrightarrow> unescape q (length s) (w @ r) = Some s"
  by (induction rule: spells.induct) auto

text \<open>A string that may still grow: \<open>w\<close> of its data is consumed, the rest of the pattern follows.\<close>

definition open_str :: "'a like_syntax \<Rightarrow> 'a pattern_item \<Rightarrow> 'a list \<Rightarrow> bool" where
  "open_str q it rest \<longleftrightarrow> (\<exists>w s. str_data it = w @ rest \<and> spells q w s \<and> length s = str_length it
     \<and> (pi_type it = piSearch \<longrightarrow> w = s))"

definition parse_inv :: "'a like_syntax \<Rightarrow> 'a pattern_item list \<Rightarrow> 'a list \<Rightarrow> bool" where
  "parse_inv q items rest \<longleftrightarrow> items = [new_item] \<or> (items \<noteq> [] \<and> (\<forall>it \<in> set items. parsed_item q it)
     \<and> successively (\<lambda>a b. is_str a \<noteq> is_str b) items \<and> (is_str (last items) \<longrightarrow> open_str q (last items) rest))"

lemma parse_inv_last:
  assumes "parse_inv q (init @ [l]) rest" and "pi_type l \<noteq> piNone"
    and "parsed_item q l'" and "is_str l' = is_str l" and "is_str l' \<Longrightarrow> open_str q l' rest'"
  shows "parse_inv q (init @ [l']) rest'"
  using assms by (auto simp: parse_inv_def successively_append_iff new_item_def)

lemma parse_inv_snoc:
  assumes "parse_inv q items rest" and "pi_type (last items) \<noteq> piNone"
    and "parsed_item q l'" and "is_str l' \<noteq> is_str (last items)" and "is_str l' \<Longrightarrow> open_str q l' rest'"
  shows "parse_inv q (items @ [l']) rest'"
  using assms by (auto simp: parse_inv_def successively_append_iff new_item_def)

lemma parse_inv_first:
  assumes "parsed_item q l'" and "is_str l' \<Longrightarrow> open_str q l' rest'"
  shows "parse_inv q [l'] rest'"
  using assms by (auto simp: parse_inv_def)

lemma parse_inv_None: "parse_inv q items rest \<Longrightarrow> pi_type (last items) = piNone \<Longrightarrow> items = [new_item]"
  by (fastforce simp: parse_inv_def parsed_item_def dest: last_in_set)

lemma on_last_snoc [simp]: "on_last f (init @ [l]) = init @ [f l]" "on_last f [l] = [f l]"
  by (simp_all add: on_last_def)

lemma open_str_item:
  assumes "open_str q it rest" and "is_str it"
  shows "\<exists>w s. str_data it = w @ rest \<and> spells q w s \<and> length s = str_length it \<and> parsed_tokens q it = map Lit s
    \<and> (pi_type it = piSearch \<longrightarrow> w = s)"
proof -
  obtain w s where w: "str_data it = w @ rest" "spells q w s" "length s = str_length it" "pi_type it = piSearch \<longrightarrow> w = s"
    using assms(1) by (auto simp: open_str_def)
  have "unescape q (str_length it) (w @ rest) = Some s" using unescape_spelled [OF w(2), of rest] w(3) by simp
  then have "parsed_tokens q it = map Lit s"
    using assms(2) w by (auto simp: is_str_def parsed_tokens_def item_str_def)
  then show ?thesis using w by blast
qed

text \<open>A string grows by a character, spelled \<open>v\<close>.\<close>

lemma grow_str:
  assumes "open_str q l (v @ rest)" and "is_str l" and "parsed_item q l" and "spells q v [c]"
    and "l' = l\<lparr>pi_type := t, str_length := str_length l + 1\<rparr>"
    and "t = piEscapedString \<or> (t = piSearch \<and> pi_type l = piSearch \<and> v = [c])"
  shows "parsed_item q l' \<and> is_str l' \<and> open_str q l' rest \<and> parsed_tokens q l' = parsed_tokens q l @ [Lit c]"
proof -
  obtain w s where w: "str_data l = w @ v @ rest" "spells q w s" "length s = str_length l"
      "parsed_tokens q l = map Lit s" "pi_type l = piSearch \<longrightarrow> w = s"
    using open_str_item [OF assms(1,2)] by blast
  have sp: "spells q (w @ v) (s @ [c])" by (rule spells_append [OF w(2) assms(4)])
  have str: "is_str l'" using assms(5,6) by (auto simp: is_str_def)
  have op: "open_str q l' rest"
    unfolding open_str_def by (rule exI [of _ "w @ v"], rule exI [of _ "s @ [c]"]) (use sp w assms(5,6) in auto)
  have u: "unescape q (Suc (length s)) (w @ v @ rest) = Some (s @ [c])" using unescape_spelled [OF sp, of rest] by simp
  have "parsed_item q l'" using assms(3,5,6) w u by (auto simp: parsed_item_def split: pattern_item_type.splits)
  moreover have "parsed_tokens q l' = map Lit s @ [Lit c]"
    using assms(5,6) w u by (auto simp: parsed_tokens_def item_str_def)
  ultimately show ?thesis using str op w(4) by simp
qed

text \<open>A string begins.\<close>

lemma begin_str:
  assumes "spells q v [c]" and "l' = new_item\<lparr>pi_type := t, str_data := v @ rest, str_length := 1\<rparr>"
    and "t = piEscapedString \<or> (t = piSearch \<and> v = [c])"
  shows "parsed_item q l' \<and> is_str l' \<and> open_str q l' rest \<and> parsed_tokens q l' = [Lit c]"
proof -
  have u: "unescape q (Suc 0) (v @ rest) = Some [c]" using unescape_spelled [OF assms(1), of rest] by simp
  have "open_str q l' rest"
    unfolding open_str_def by (rule exI [of _ v], rule exI [of _ "[c]"]) (use assms in auto)
  then show ?thesis using u assms(2,3)
    by (auto simp: parsed_item_def parsed_tokens_def item_str_def is_str_def new_item_def)
qed

definition tokens_of :: "'a like_syntax \<Rightarrow> 'a pattern_item list \<Rightarrow> 'a like_token list" where
  "tokens_of q items = concat (map (parsed_tokens q) items)"

lemma tokens_of_simps [simp]: "tokens_of q [] = []" "tokens_of q (x # xs) = parsed_tokens q x @ tokens_of q xs"
  "tokens_of q (xs @ ys) = tokens_of q xs @ tokens_of q ys"
  by (simp_all add: tokens_of_def)

lemma parsed_tokens_None [simp]: "parsed_tokens q new_item = []"
  by (simp add: parsed_tokens_def new_item_def)

lemma parse_inv_cases:
  assumes "parse_inv q items rest"
  obtains "items = [new_item]" |
    init l where "items = init @ [l]" "parsed_item q l" "is_str l" "open_str q l rest" |
    init l where "items = init @ [l]" "parsed_item q l" "\<not> is_str l" "pi_type l = piSkipFixed \<or> pi_type l = piSkipMore"
proof (cases "items = [new_item]")
  case False
  then have i: "items \<noteq> []" "\<forall>it \<in> set items. parsed_item q it" "is_str (last items) \<longrightarrow> open_str q (last items) rest"
    using assms by (auto simp: parse_inv_def)
  then have l: "items = butlast items @ [last items]" "parsed_item q (last items)" by auto
  then show thesis using that(2,3) i(3)
    by (cases "pi_type (last items)") (auto simp: is_str_def parsed_item_def)
qed (rule that(1))

lemma put_str_ok:
  assumes inv: "parse_inv q items (v @ rest)" and sp: "spells q v [c]"
    and put: "items' = put_escaped (v @ rest) items \<or> (v = [c] \<and> items' = put_char (v @ rest) items)"
  shows "parse_inv q items' rest \<and> tokens_of q items' = tokens_of q items @ [Lit c]"
  using inv
proof (cases rule: parse_inv_cases)
  case 1
  define t where "t = (if items' = put_escaped (v @ rest) items then piEscapedString else piSearch)"
  have "items' = [new_item\<lparr>pi_type := t, str_data := v @ rest, str_length := 1\<rparr>]"
    using put 1 by (auto simp: t_def put_escaped_def put_char_def new_item_def)
  moreover have "t = piEscapedString \<or> (t = piSearch \<and> v = [c])" using put by (auto simp: t_def)
  ultimately show ?thesis using begin_str [OF sp refl, of t rest] 1 parse_inv_first by auto
next
  case (2 init l)
  define t where "t = (if items' = put_escaped (v @ rest) items then piEscapedString else pi_type l)"
  have p: "items' = init @ [l\<lparr>pi_type := t, str_length := str_length l + 1\<rparr>]"
    using put 2 by (auto simp: t_def put_escaped_def put_char_def is_str_def split: pattern_item_type.splits)
  have "t = piEscapedString \<or> (t = piSearch \<and> pi_type l = piSearch \<and> v = [c])"
    using put 2(3) by (auto simp: t_def is_str_def)
  then show ?thesis
    using grow_str [OF 2(4,3,2) sp refl] p 2 parse_inv_last [OF inv [unfolded 2(1)]] by (auto simp: is_str_def)
next
  case (3 init l)
  define t where "t = (if items' = put_escaped (v @ rest) items then piEscapedString else piSearch)"
  have "items' = items @ [new_item\<lparr>pi_type := t, str_data := v @ rest, str_length := 1\<rparr>]"
    using put 3 by (auto simp: t_def put_escaped_def put_char_def)
  moreover have "t = piEscapedString \<or> (t = piSearch \<and> v = [c])" using put by (auto simp: t_def)
  ultimately show ?thesis using begin_str [OF sp refl, of t rest] 3 parse_inv_snoc [OF inv] by auto
qed

lemma put_any_ok:
  fixes items :: "'a pattern_item list"
  assumes inv: "parse_inv q items rest"
  shows "parse_inv q (put_any items) rest' \<and> like_eq (tokens_of q (put_any items)) (tokens_of q items @ [Any])"
  using inv
proof (cases rule: parse_inv_cases)
  case 1
  then show ?thesis
    by (auto simp: put_any_def new_item_def parsed_item_def is_str_def parsed_tokens_def intro!: parse_inv_first)
next
  case (2 init l)
  define l' where "l' = (new_item\<lparr>pi_type := piSkipMore\<rparr> :: 'a pattern_item)"
  have p: "put_any items = items @ [l']" using 2 by (auto simp: put_any_def is_str_def l'_def)
  have "parse_inv q (items @ [l']) rest'"
    by (rule parse_inv_snoc [OF inv]) (use 2 in \<open>auto simp: l'_def new_item_def parsed_item_def is_str_def\<close>)
  then show ?thesis using p by (simp add: l'_def new_item_def parsed_tokens_def)
next
  case (3 init l)
  define l' where "l' = l\<lparr>pi_type := piSkipMore\<rparr>"
  have p: "put_any items = init @ [l']" using 3 by (auto simp: put_any_def l'_def)
  have "parse_inv q (init @ [l']) rest'"
    by (rule parse_inv_last [OF inv [unfolded 3(1)]]) (use 3 in \<open>auto simp: l'_def parsed_item_def is_str_def\<close>)
  moreover have "like_eq (parsed_tokens q l') (parsed_tokens q l @ [Any])"
  proof (cases "pi_type l = piSkipMore")
    case True
    then show ?thesis
      using like_eq_append [OF like_eq_refl like_eq_Any_Any, of "replicate (str_length l) One"]
      by (auto simp: l'_def parsed_tokens_def like_eq_def)
  qed (use 3 in \<open>auto simp: l'_def parsed_tokens_def\<close>)
  ultimately show ?thesis using 3(1) p like_eq_append [OF like_eq_refl, of _ _ "tokens_of q init"] by simp
qed

lemma put_one_ok:
  fixes items :: "'a pattern_item list"
  assumes inv: "parse_inv q items rest"
  shows "parse_inv q (put_one items) rest' \<and> like_eq (tokens_of q (put_one items)) (tokens_of q items @ [One])"
  using inv
proof (cases rule: parse_inv_cases)
  case 1
  then show ?thesis
    by (auto simp: put_one_def new_item_def parsed_item_def is_str_def parsed_tokens_def intro!: parse_inv_first)
next
  case (2 init l)
  define l' where "l' = (new_item\<lparr>pi_type := piSkipFixed, str_length := 1\<rparr> :: 'a pattern_item)"
  have p: "put_one items = items @ [l']" using 2 by (auto simp: put_one_def is_str_def l'_def)
  have "parse_inv q (items @ [l']) rest'"
    by (rule parse_inv_snoc [OF inv]) (use 2 in \<open>auto simp: l'_def new_item_def parsed_item_def is_str_def\<close>)
  then show ?thesis using p by (simp add: l'_def new_item_def parsed_tokens_def)
next
  case (3 init l)
  define l' where "l' = l\<lparr>str_length := str_length l + 1\<rparr>"
  have p: "put_one items = init @ [l']" using 3 by (auto simp: put_one_def l'_def)
  have "parse_inv q (init @ [l']) rest'"
    by (rule parse_inv_last [OF inv [unfolded 3(1)]]) (use 3 in \<open>auto simp: l'_def parsed_item_def is_str_def\<close>)
  moreover have "like_eq (parsed_tokens q l') (parsed_tokens q l @ [One])"
  proof (cases "pi_type l = piSkipMore")
    case True
    have "like_eq (replicate (str_length l) One @ [One] @ [Any]) (replicate (str_length l) One @ [Any, One])"
      by (rule like_eq_append) (use like_eq_sym [OF like_eq_Any_ones [of 1]] in simp_all)
    then show ?thesis using True by (simp add: l'_def parsed_tokens_def replicate_app_Cons_same)
  qed (use 3 in \<open>auto simp: l'_def parsed_tokens_def replicate_append_same\<close>)
  ultimately show ?thesis using 3(1) p like_eq_append [OF like_eq_refl, of _ _ "tokens_of q init"] by simp
qed

lemma like_parse_ok:
  assumes "parse_inv q items rest"
  shows "case like_tokens q rest of
      None \<Rightarrow> like_parse q rest items = Inl isc_like_escape_invalid
    | Some ts \<Rightarrow> \<exists>items'. like_parse q rest items = Inr items' \<and> parse_inv q items' []
        \<and> like_eq (tokens_of q items') (tokens_of q items @ ts)"
  using assms
proof (induction q rest items rule: like_parse.induct)
  case (2 q c rest items)
  have step: ?case if s: "like_parse q (c # rest) items = like_parse q r items1" "parse_inv q items1 r"
      "like_tokens q (c # rest) = map_option (\<lambda>ts. t # ts) (like_tokens q r)"
      "like_eq (tokens_of q items1) (tokens_of q items @ [t])"
      and IH: "parse_inv q items1 r \<Longrightarrow> case like_tokens q r of
        None \<Rightarrow> like_parse q r items1 = Inl isc_like_escape_invalid
      | Some ts \<Rightarrow> \<exists>items'. like_parse q r items1 = Inr items' \<and> parse_inv q items' []
          \<and> like_eq (tokens_of q items') (tokens_of q items1 @ ts)" for r items1 t
  proof (cases "like_tokens q r")
    case (Some ts)
    then obtain items' where i: "like_parse q r items1 = Inr items'" "parse_inv q items' []"
        "like_eq (tokens_of q items') (tokens_of q items1 @ ts)"
      using IH [OF s(2)] by auto
    have "like_eq (tokens_of q items1 @ ts) ((tokens_of q items @ [t]) @ ts)"
      by (rule like_eq_append [OF s(4) like_eq_refl])
    then show ?thesis using i s Some like_eq_trans [OF i(3)] by simp
  qed (use IH [OF s(2)] s in simp)
  show ?case
  proof (cases "use_escape q \<and> c = escape_char q")
    case True
    show ?thesis
    proof (cases rest)
      case (Cons c' rest')
      show ?thesis
      proof (cases "c' = escape_char q \<or> c' = sql_match_any q \<or> c' = sql_match_one q")
        case special: True
        have "spells q [c, c'] [c']" using True by (auto intro: spells.intros)
        then have p: "parse_inv q (put_escaped (c # rest) items) rest' \<and>
            tokens_of q (put_escaped (c # rest) items) = tokens_of q items @ [Lit c']"
          using put_str_ok [of q items "[c, c']" rest' c'] 2(5) Cons by simp
        show ?thesis
        proof (rule step [where t = "Lit c'"])
          show "like_parse q (c # rest) items = like_parse q rest' (put_escaped (c # rest) items)"
            using True special Cons by simp
          show "like_tokens q (c # rest) = map_option (\<lambda>ts. Lit c' # ts) (like_tokens q rest')"
            using True special Cons by (cases "like_tokens q rest'") auto
        qed (use p 2(1) True Cons special in auto)
      qed (use True Cons in auto)
    qed (use True in simp)
  next
    case False
    then have sp: "spells q [c] [c]" by (auto intro: spells.intros)
    have t: "like_tokens q (c # rest) = map_option (\<lambda>ts. (if c = sql_match_any q then Any else if c = sql_match_one q then One else Lit c) # ts)
        (like_tokens q rest)"
      using False by (cases "like_tokens q rest") auto
    show ?thesis
    proof (cases "c = sql_match_any q")
      case any: True
      show ?thesis
        by (rule step [where t = Any and r = rest and ?items1.0 = "put_any items"])
           (use False any t put_any_ok [OF 2(5), of rest] 2(2) in auto)
    next
      case noany: False
      show ?thesis
      proof (cases "c = sql_match_one q")
        case True
        show ?thesis
          by (rule step [where t = One and r = rest and ?items1.0 = "put_one items"])
             (use False True noany t put_one_ok [OF 2(5), of rest] 2(3) in auto)
      next
        case noone: False
        show ?thesis
          by (rule step [where t = "Lit c" and r = rest and ?items1.0 = "put_char (c # rest) items"])
             (use False noany noone t put_str_ok [of q items "[c]" rest c, OF _ sp] 2(4,5) in auto)
      qed
    qed
  qed
qed simp

subsection \<open>The compiler is right\<close>

definition search_table :: "'a pattern_item \<Rightarrow> bool" where
  "search_table it \<longleftrightarrow> (\<forall>j < str_length it. table_ok (item_str it) (str_kmpNext it) j)
     \<and> str_length it < length (str_kmpNext it)
     \<and> best (border (item_str it) (str_length it)) (str_kmpNext it ! str_length it)"

definition compiled_item :: "'a pattern_item \<Rightarrow> bool" where
  "compiled_item it \<longleftrightarrow> 0 < str_length it \<and>
     (case pi_type it of
        piSearch \<Rightarrow> str_length it \<le> length (str_data it) \<and> search_table it
      | piDirectMatch \<Rightarrow> str_length it \<le> length (str_data it)
      | piSkipFixed \<Rightarrow> True
      | _ \<Rightarrow> False)"

text \<open>Strings are searched for exactly behind a percent sign.\<close>

fun compiled :: "bool \<Rightarrow> 'a pattern_item list \<Rightarrow> bool" where
  "compiled lead [] = True"
| "compiled lead (it # items) = (compiled_item it \<and> (pi_type it = piSearch \<longleftrightarrow> lead) \<and> compiled (pi_match_any it) items)"

definition any_tokens :: "bool \<Rightarrow> 'a like_token list" where
  "any_tokens b = (if b then [Any] else [])"

definition item_tokens :: "'a pattern_item \<Rightarrow> 'a like_token list" where
  "item_tokens it = (if pi_type it = piSkipFixed then replicate (str_length it) One else map Lit (item_str it))
     @ any_tokens (pi_match_any it)"

definition compiled_tokens :: "'a pattern_item list \<Rightarrow> 'a like_token list" where
  "compiled_tokens items = concat (map item_tokens items)"

lemma compiled_tokens_simps [simp]: "compiled_tokens [] = []"
  "compiled_tokens (x # xs) = item_tokens x @ compiled_tokens xs"
  "compiled_tokens (xs @ ys) = compiled_tokens xs @ compiled_tokens ys"
  by (simp_all add: compiled_tokens_def)

definition lead_after :: "bool \<Rightarrow> 'a pattern_item list \<Rightarrow> bool" where
  "lead_after lead items = (if items = [] then lead else pi_match_any (last items))"

lemma lead_after_simps [simp]: "lead_after lead [] = lead" "lead_after lead (xs @ [x]) = pi_match_any x"
  by (simp_all add: lead_after_def)

lemma compiled_append: "compiled lead (xs @ ys) \<longleftrightarrow> compiled lead xs \<and> compiled (lead_after lead xs) ys"
  by (induction xs arbitrary: lead) (auto simp: lead_after_def)

lemma length_item_str [simp]: "length (item_str it) = min (str_length it) (length (str_data it))"
  by (simp add: item_str_def min.commute)

text \<open>A string item is unescaped and gets its table.\<close>

lemma unescape_length: "unescape q n p = Some s \<Longrightarrow> length s = n"
  by (induction q n p arbitrary: s rule: unescape.induct) (auto simp: bind_eq_Some_conv split: if_splits list.splits)

lemma like_unescape_ok:
  assumes "parsed_item q it" and "is_str it"
  shows "\<exists>it' a'. like_unescape q alignment char_size it a = Some (it', a') \<and> pi_type it' = piSearch
    \<and> str_length it' = str_length it \<and> 0 < str_length it' \<and> str_length it' \<le> length (str_data it')
    \<and> \<not> pi_match_any it' \<and> map Lit (item_str it') = parsed_tokens q it"
proof (cases "pi_type it = piEscapedString")
  case True
  then obtain s where s: "unescape q (str_length it) (str_data it) = Some s" using assms(1) by (auto simp: parsed_item_def)
  obtain p n a' where "sa_alloc alignment (str_length it * char_size) a = (p, n, a')"
    by (cases "sa_alloc alignment (str_length it * char_size) a")
  then show ?thesis
    using True s unescape_length [OF s] assms(1)
    by (auto simp: like_unescape_def parsed_item_def parsed_tokens_def item_str_def)
next
  case False
  then show ?thesis using assms by (auto simp: like_unescape_def is_str_def parsed_item_def parsed_tokens_def)
qed

lemma like_string_ok:
  assumes "pi_type it = piSearch" and "0 < str_length it" and "str_length it \<le> length (str_data it)" and "0 < alignment"
    and "\<not> pi_match_any it"
  shows "\<exists>it' a'. like_string directMatch alignment it a = Some (it', a') \<and> compiled_item it'
    \<and> (pi_type it' = piSearch \<longleftrightarrow> \<not> directMatch) \<and> \<not> pi_match_any it' \<and> item_tokens it' = map Lit (item_str it)"
proof (cases directMatch)
  case True
  then show ?thesis
    using assms by (auto simp: like_string_def compiled_item_def item_tokens_def item_str_def any_tokens_def)
next
  case False
  obtain p n a' where al: "sa_alloc alignment ((str_length it + 1) * 4) a = (p, n, a')"
    by (cases "sa_alloc alignment ((str_length it + 1) * 4) a")
  have "(str_length it + 1) * 4 \<le> n" by (rule alloc_size [OF assms(4) al])
  then have cells: "str_length it < n div 4" using div_le_mono [of "(str_length it + 1) * 4" n 4] by simp
  have x: "length (item_str it) = str_length it" using assms(3) by simp
  then have "item_str it \<noteq> []" using assms(2) by (metis length_0_conv less_irrefl)
  then obtain t where t: "preKmp (item_str it) (replicate (n div 4) 0) = Some t"
      "\<forall>j < str_length it. table_ok (item_str it) t j" "str_length it < length t"
      "best (border (item_str it) (str_length it)) (t ! str_length it)"
    using preKmp_table [of "item_str it" "replicate (n div 4) 0"] cells unfolding x by auto
  define it' where "it' = it\<lparr>str_kmpNext := t\<rparr>"
  have "item_str it' = item_str it" by (simp add: it'_def item_str_def)
  then have "compiled_item it'" using assms t by (simp add: compiled_item_def search_table_def it'_def)
  moreover have "like_string directMatch alignment it a = Some (it', a')"
    using False al t(1) by (simp add: like_string_def it'_def)
  moreover have "item_tokens it' = map Lit (item_str it)"
    using assms \<open>item_str it' = item_str it\<close> by (simp add: item_tokens_def any_tokens_def it'_def)
  ultimately show ?thesis using assms False by (auto simp: it'_def)
qed

text \<open>
  The second pass: \<open>done\<close> is compiled, \<open>todo\<close> is not; behind a percent sign the next item is a
  string.
\<close>

definition compile_inv :: "'a like_syntax \<Rightarrow> bool \<Rightarrow> 'a pattern_item list \<Rightarrow> 'a pattern_item list \<Rightarrow> bool" where
  "compile_inv q lead done todo \<longleftrightarrow> compiled lead done \<and> (\<forall>it \<in> set todo. parsed_item q it)
     \<and> successively (\<lambda>a b. is_str a \<noteq> is_str b) todo
     \<and> (lead_after lead done \<longrightarrow> todo \<noteq> [] \<longrightarrow> is_str (hd todo))
     \<and> (done = [] \<longrightarrow> todo \<noteq> [] \<and> (length todo = 1 \<longrightarrow> pi_type (hd todo) = piSkipMore \<longrightarrow> str_length (hd todo) \<noteq> 0))"

lemma compile_inv_next:
  assumes "compile_inv q lead done (it # todo)" and "compiled lead' done'"
    and "done' \<noteq> [] \<or> (todo \<noteq> [] \<and> \<not> is_str it)" and "lead_after lead' done' \<Longrightarrow> \<not> is_str it"
  shows "compile_inv q lead' done' todo"
proof (cases todo)
  case Nil
  then show ?thesis using assms by (auto simp: compile_inv_def)
next
  case (Cons it' todo')
  then have "is_str it \<noteq> is_str it'" using assms(1) by (simp add: compile_inv_def)
  then show ?thesis using assms Cons by (auto simp: compile_inv_def is_str_def)
qed

text \<open>One round of the loop.\<close>

lemma compile_step:
  assumes inv: "compile_inv q lead done (it # todo)" and al: "0 < alignment"
  shows "\<exists>lead' done' a'. like_compile q alignment char_size (length done) (\<not> lead_after lead done) (done @ it # todo) a
      = like_compile q alignment char_size (length done') (\<not> lead_after lead' done') (done' @ todo) a'
    \<and> compile_inv q lead' done' todo
    \<and> like_eq (any_tokens lead' @ compiled_tokens done') (any_tokens lead @ compiled_tokens done @ parsed_tokens q it)"
proof -
  have ok: "parsed_item q it" "compiled lead done" "lead_after lead done \<Longrightarrow> is_str it"
    using inv by (auto simp: compile_inv_def)
  have nth: "length done < length (done @ it # todo)" "(done @ it # todo) ! length done = it" by simp_all
  have upd: "(done @ it # todo)[length done := x] = (done @ [x]) @ todo" for x by simp
  consider (str) "is_str it" | (fixed) "pi_type it = piSkipFixed" | (skip) "pi_type it = piSkipMore" "str_length it \<noteq> 0"
    | (mark) "pi_type it = piSkipMore" "str_length it = 0" "done \<noteq> []"
    | (drop) "pi_type it = piSkipMore" "str_length it = 0" "done = []"
    using ok(1) by (cases "pi_type it") (auto simp: parsed_item_def is_str_def)
  then show ?thesis
  proof cases
    case str
    obtain it1 a1 where 1: "like_unescape q alignment char_size it a = Some (it1, a1)" "pi_type it1 = piSearch"
        "0 < str_length it1" "str_length it1 \<le> length (str_data it1)" "\<not> pi_match_any it1"
        "map Lit (item_str it1) = parsed_tokens q it"
      using like_unescape_ok [OF ok(1) str] by blast
    obtain it2 a2 where 2: "like_string (\<not> lead_after lead done) alignment it1 a1 = Some (it2, a2)" "compiled_item it2"
        "pi_type it2 = piSearch \<longleftrightarrow> lead_after lead done" "\<not> pi_match_any it2" "item_tokens it2 = map Lit (item_str it1)"
      using like_string_ok [OF 1(2-4) al 1(5)] by blast
    have c: "compiled lead (done @ [it2])" using ok(2) 2 by (simp add: compiled_append)
    show ?thesis
      by (rule exI [of _ lead], rule exI [of _ "done @ [it2]"], rule exI [of _ a2], subst like_compile.simps)
         (use str 1 2 compile_inv_next [OF inv c] in \<open>simp add: is_str_def disj_commute\<close>)
  next
    case fixed
    then have l: "\<not> lead_after lead done" "\<not> pi_match_any it" "0 < str_length it"
      using ok by (auto simp: is_str_def parsed_item_def)
    then have c: "compiled lead (done @ [it])" using ok(2) fixed by (simp add: compiled_append compiled_item_def)
    show ?thesis
      by (rule exI [of _ lead], rule exI [of _ "done @ [it]"], rule exI [of _ a], subst like_compile.simps)
         (use fixed l compile_inv_next [OF inv c] in \<open>simp add: is_str_def item_tokens_def any_tokens_def parsed_tokens_def\<close>)
  next
    case skip
    define it' where "it' = it\<lparr>pi_type := piSkipFixed, pi_match_any := True\<rparr>"
    have l: "\<not> lead_after lead done" using ok skip by (auto simp: is_str_def)
    then have c: "compiled lead (done @ [it'])" using ok(2) skip by (simp add: compiled_append compiled_item_def it'_def)
    have t: "item_tokens it' = parsed_tokens q it" using skip by (simp add: item_tokens_def any_tokens_def parsed_tokens_def it'_def)
    have m: "pi_match_any it'" by (simp add: it'_def)
    show ?thesis
      by (rule exI [of _ lead], rule exI [of _ "done @ [it']"], rule exI [of _ a], subst like_compile.simps)
         (use skip l t m compile_inv_next [OF inv c] in \<open>simp add: is_str_def it'_def [symmetric]\<close>)
  next
    case mark
    then obtain d x where d: "done = d @ [x]" by (metis rev_exhaust)
    define x' where "x' = x\<lparr>pi_match_any := True\<rparr>"
    have l: "\<not> pi_match_any x" using ok mark d by (auto simp: is_str_def)
    have "compiled lead (d @ [x'])"
      using ok(2) d by (auto simp: compiled_append compiled_item_def x'_def search_table_def item_str_def
          split: pattern_item_type.splits)
    moreover have m: "pi_match_any x'" by (simp add: x'_def)
    moreover have "item_tokens x' = item_tokens x @ [Any]" using l by (simp add: item_tokens_def any_tokens_def x'_def item_str_def)
    moreover have "remove_at (length done) 1 ((done @ it # todo)[length done - 1 := x']) = (d @ [x']) @ todo"
      by (simp add: d remove_at_def)
    moreover have "(done @ it # todo) ! (length done - 1) = x" by (simp add: d nth_append)
    ultimately show ?thesis
      by (intro exI [of _ lead] exI [of _ "d @ [x']"] exI [of _ a], subst like_compile.simps)
         (use mark nth d compile_inv_next [OF inv, of lead "d @ [x']"] in
           \<open>simp add: is_str_def parsed_tokens_def x'_def [symmetric]\<close>)
  next
    case drop
    have "todo \<noteq> []" using inv drop by (auto simp: compile_inv_def)
    moreover have "\<not> lead" using ok(3) drop by (auto simp: is_str_def)
    ultimately show ?thesis
      by (intro exI [of _ True] exI [of _ "[]"] exI [of _ a], subst like_compile.simps)
         (use drop compile_inv_next [OF inv, of True "[]"] in
           \<open>simp add: is_str_def parsed_tokens_def any_tokens_def remove_at_def\<close>)
  qed
qed

lemma like_compile_ok:
  assumes "compile_inv q lead done todo" and "0 < alignment"
  shows "\<exists>items a' lead'. like_compile q alignment char_size (length done) (\<not> lead_after lead done) (done @ todo) a = Some (items, a')
    \<and> compiled lead' items \<and> items \<noteq> []
    \<and> like_eq (any_tokens lead' @ compiled_tokens items) (any_tokens lead @ compiled_tokens done @ tokens_of q todo)"
  using assms(1)
proof (induction todo arbitrary: lead "done" a)
  case Nil
  then show ?case by (subst like_compile.simps) (auto simp: compile_inv_def)
next
  case (Cons it todo)
  obtain lead1 done1 a1 where s: "like_compile q alignment char_size (length done) (\<not> lead_after lead done) (done @ it # todo) a
      = like_compile q alignment char_size (length done1) (\<not> lead_after lead1 done1) (done1 @ todo) a1"
      "compile_inv q lead1 done1 todo"
      "like_eq (any_tokens lead1 @ compiled_tokens done1) (any_tokens lead @ compiled_tokens done @ parsed_tokens q it)"
    using compile_step [OF Cons.prems assms(2)] by blast
  obtain items a' lead' where i: "like_compile q alignment char_size (length done1) (\<not> lead_after lead1 done1) (done1 @ todo) a1 = Some (items, a')"
      "compiled lead' items" "items \<noteq> []"
      "like_eq (any_tokens lead' @ compiled_tokens items) (any_tokens lead1 @ compiled_tokens done1 @ tokens_of q todo)"
    using Cons.IH [OF s(2)] by blast
  have "like_eq ((any_tokens lead1 @ compiled_tokens done1) @ tokens_of q todo)
      ((any_tokens lead @ compiled_tokens done @ parsed_tokens q it) @ tokens_of q todo)"
    by (rule like_eq_append [OF s(3) like_eq_refl])
  then show ?case using s(1) i like_eq_trans [OF i(4)] by auto
qed

subsection \<open>What a branch still has to match\<close>

definition resid :: "'a pattern_item list \<Rightarrow> branch_item \<Rightarrow> 'a list \<Rightarrow> bool" where
  "resid items b U =
     (let (pat, off) = b; it = items ! pat; rest = compiled_tokens (drop (Suc pat) items) in
      if pi_type it = piSearch then like_match (Any # item_tokens it @ rest) (take (nat off) (item_str it) @ U)
      else like_match (drop (nat off) (item_tokens it) @ rest) U)"

definition branch_ok :: "'a pattern_item list \<Rightarrow> branch_item \<Rightarrow> bool" where
  "branch_ok items b \<longleftrightarrow> fst b < length items \<and> 0 \<le> snd b \<and> snd b < int (str_length (items ! fst b))"

text \<open>What follows a fixed item or a string that was found.\<close>

definition cont :: "'a pattern_item list \<Rightarrow> nat \<Rightarrow> 'a list \<Rightarrow> bool" where
  "cont items pat U = like_match (any_tokens (pi_match_any (items ! pat)) @ compiled_tokens (drop (Suc pat) items)) U"

lemma compiled_nth:
  "compiled lead items \<Longrightarrow> i < length items \<Longrightarrow> compiled_item (items ! i) \<and>
   (pi_type (items ! i) = piSearch \<longleftrightarrow> (if i = 0 then lead else pi_match_any (items ! (i - 1))))"
proof (induction items arbitrary: lead i)
  case (Cons it items)
  show ?case
  proof (cases i)
    case (Suc j)
    then show ?thesis using Cons.IH [of "pi_match_any it" j] Cons.prems by (cases j) auto
  qed (use Cons.prems in simp)
qed simp

lemma drop_tokens: "pat < length items \<Longrightarrow> compiled_tokens (drop pat items) = item_tokens (items ! pat) @ compiled_tokens (drop (Suc pat) items)"
  by (simp add: Cons_nth_drop_Suc [symmetric])

lemma cont_cases:
  assumes "compiled lead items" and "pat < length items"
  shows "cont items pat U = (if length items \<le> pat + 1 then pi_match_any (items ! pat) \<or> U = [] else resid items (pat + 1, 0) U)"
proof (cases "length items \<le> pat + 1")
  case True
  then show ?thesis by (auto simp: cont_def any_tokens_def like_match_Any)
next
  case False
  then have s: "pi_type (items ! Suc pat) = piSearch \<longleftrightarrow> pi_match_any (items ! pat)"
    using compiled_nth [OF assms(1), of "Suc pat"] by simp
  show ?thesis using False s drop_tokens [of "Suc pat" items]
    by (auto simp: cont_def resid_def any_tokens_def Let_def)
qed

definition base_tokens :: "'a pattern_item \<Rightarrow> 'a like_token list" where
  "base_tokens it = (if pi_type it = piSkipFixed then replicate (str_length it) One else map Lit (item_str it))"

lemma item_tokens_base: "item_tokens it = base_tokens it @ any_tokens (pi_match_any it)"
  by (simp add: item_tokens_def base_tokens_def)

lemma length_base: "compiled_item it \<Longrightarrow> length (base_tokens it) = str_length it"
  by (auto simp: base_tokens_def compiled_item_def split: pattern_item_type.splits)

lemma base_nth: "compiled_item it \<Longrightarrow> i < str_length it \<Longrightarrow>
  base_tokens it ! i = (if pi_type it = piSkipFixed then One else Lit (item_str it ! i))"
  by (auto simp: base_tokens_def compiled_item_def split: pattern_item_type.splits)

text \<open>A fixed branch and a character.\<close>

lemma resid_fixed:
  assumes "compiled lead items" and "branch_ok items (pat, off)" and "pi_type (items ! pat) \<noteq> piSearch"
  shows "resid items (pat, off) (c # U) \<longleftrightarrow>
    (pi_type (items ! pat) = piDirectMatch \<longrightarrow> c = item_str (items ! pat) ! nat off) \<and>
    (if int (str_length (items ! pat)) \<le> off + 1 then cont items pat U else resid items (pat, off + 1) U)"
    and "\<not> resid items (pat, off) []"
proof -
  define it where "it = items ! pat"
  define k where "k = nat off"
  have it: "compiled_item it" and k: "k < str_length it" "off = int k" "nat (off + 1) = Suc k"
    using compiled_nth [OF assms(1)] assms(2) by (auto simp: it_def k_def branch_ok_def)
  let ?rest = "compiled_tokens (drop (Suc pat) items)" and ?a = "any_tokens (pi_match_any it)"
  have d: "drop k (item_tokens it) = base_tokens it ! k # drop (Suc k) (base_tokens it) @ ?a"
    using k(1) length_base [OF it] by (simp add: item_tokens_base Cons_nth_drop_Suc)
  have d': "drop (Suc k) (item_tokens it) = drop (Suc k) (base_tokens it) @ ?a"
    using k(1) length_base [OF it] by (simp add: item_tokens_base)
  have r: "resid items (pat, off) V = like_match (base_tokens it ! k # drop (Suc k) (item_tokens it) @ ?rest) V" for V
    using assms(3) d d' k by (simp add: resid_def it_def [symmetric])
  have n: "base_tokens it ! k = (if pi_type it = piSkipFixed then One else Lit (item_str it ! k))"
    by (rule base_nth [OF it k(1)])
  then show "\<not> resid items (pat, off) []" using r [of "[]"] by simp
  have t: "pi_type it = piSkipFixed \<or> pi_type it = piDirectMatch"
    using it assms(3) by (auto simp: compiled_item_def it_def split: pattern_item_type.splits)
  have e: "drop (Suc k) (item_tokens it) = ?a" if "str_length it \<le> Suc k"
    using that d' length_base [OF it] by simp
  have "like_match (drop (Suc k) (item_tokens it) @ ?rest) U =
      (if int (str_length it) \<le> off + 1 then cont items pat U else resid items (pat, off + 1) U)"
    using assms(3) e k by (auto simp: cont_def resid_def it_def [symmetric])
  then show "resid items (pat, off) (c # U) \<longleftrightarrow>
    (pi_type (items ! pat) = piDirectMatch \<longrightarrow> c = item_str (items ! pat) ! nat off) \<and>
    (if int (str_length (items ! pat)) \<le> off + 1 then cont items pat U else resid items (pat, off + 1) U)"
    using r [of "c # U"] n t k by (auto simp: it_def [symmetric])
qed

subsection \<open>Searching\<close>

lemma like_match_search:
  "like_match (Any # map Lit x @ r) s \<longleftrightarrow> (\<exists>p t. s = p @ x @ t \<and> like_match r t)"
  by (simp add: like_match_Any like_match_append like_match_lits) metis

text \<open>
  An occurrence of \<open>x\<close> that begins in a short text \<open>w\<close> begins in its longest suffix that is a
  prefix of \<open>x\<close>.
\<close>

lemma occurrence_moves:
  assumes "length w \<le> length x" and "best (\<lambda>k. k \<le> length x \<and> suffix (take k x) w) (int k)"
  shows "(\<exists>p t. w @ U = p @ x @ t \<and> P t) \<longleftrightarrow> (\<exists>p t. take k x @ U = p @ x @ t \<and> P t)"
proof
  have k: "k \<le> length x" "suffix (take k x) w" "\<And>l. l \<le> length x \<Longrightarrow> suffix (take l x) w \<Longrightarrow> l \<le> k"
    using assms(2) by (auto simp: best_def)
  then obtain p0 where p0: "w = p0 @ take k x" by (auto simp: suffix_def)
  {
    assume "\<exists>p t. take k x @ U = p @ x @ t \<and> P t"
    then show "\<exists>p t. w @ U = p @ x @ t \<and> P t" using p0 by (metis append.assoc)
  next
    assume "\<exists>p t. w @ U = p @ x @ t \<and> P t"
    then obtain p t where p: "w @ U = p @ x @ t" "P t" by blast
    show "\<exists>p t. take k x @ U = p @ x @ t \<and> P t"
    proof (cases "length w \<le> length p")
      case True
      then obtain p' where "p = w @ p'" using p(1) by (auto simp: append_eq_append_conv2)
      then have "take k x @ U = (take k x @ p') @ x @ t" using p(1) by simp
      then show ?thesis using p(2) by blast
    next
      case False
      then obtain w' where w': "w = p @ w'" using p(1) by (auto simp: append_eq_append_conv2)
      then have e: "w' @ U = x @ t" using p(1) by simp
      have l: "length w' \<le> length x" using w' assms(1) by simp
      have x: "w' = take (length w') x" using arg_cong [OF e, of "take (length w')"] l by simp
      then have "length w' \<le> k" using k(3) [OF l] w' by (metis suffixI)
      moreover have "suffix w' w" "suffix (take k x) w" using w' k(2) by (auto simp: suffix_def)
      ultimately have "suffix w' (take k x)" using k(1) by (auto intro: suffix_length_suffix)
      then obtain p'' where "take k x = p'' @ w'" by (auto simp: suffix_def)
      then have "take k x @ U = p'' @ x @ t" using e by simp
      then show ?thesis using p(2) by blast
    qed
  }
qed

text \<open>After a full match the search goes on behind the longest border.\<close>

lemma occurrence_full:
  assumes "x \<noteq> []" and "best (border x (length x)) (int k)"
  shows "(\<exists>p t. x @ U = p @ x @ t \<and> P t) \<longleftrightarrow> P U \<or> (\<exists>p t. take k x @ U = p @ x @ t \<and> P t)"
proof -
  obtain a y where x: "x = a # y" using assms(1) by (cases x) auto
  have b: "border x (length x) l \<longleftrightarrow> l \<le> length x \<and> suffix (take l x) y" for l
  proof (cases "l = length x")
    case True
    then show ?thesis using x suffix_length_le [of x y] by (auto simp: border_def)
  next
    case False
    have "suffix (take l x) x \<longleftrightarrow> suffix (take l x) y" if "l < length x"
    proof -
      have "take l x \<noteq> x" using that by (auto dest: arg_cong [of _ _ length])
      then show ?thesis using x by (auto simp: suffix_Cons)
    qed
    then show ?thesis using False by (auto simp: border_def)
  qed
  then have "best (\<lambda>l. l \<le> length x \<and> suffix (take l x) y) (int k)" using assms(2) by (simp add: best_def b)
  then have "(\<exists>p t. y @ U = p @ x @ t \<and> P t) \<longleftrightarrow> (\<exists>p t. take k x @ U = p @ x @ t \<and> P t)"
    by (intro occurrence_moves) (simp_all add: x)
  moreover have "(\<exists>p t. x @ U = p @ x @ t \<and> P t) \<longleftrightarrow> P U \<or> (\<exists>p t. y @ U = p @ x @ t \<and> P t)"
    unfolding x by (auto simp: Cons_eq_append_conv)
  ultimately show ?thesis by simp
qed

lemma resid_search:
  assumes "pi_type (items ! pat) = piSearch"
  shows "resid items (pat, off) U \<longleftrightarrow>
    (\<exists>p t. take (nat off) (item_str (items ! pat)) @ U = p @ item_str (items ! pat) @ t \<and> cont items pat t)"
  using assms by (simp add: resid_def item_tokens_def cont_def like_match_search Let_def)

text \<open>
  A searching branch and a character: the automaton moves to the next offset; if it reaches the end
  of the string, what follows may begin, and the search goes on from the table's last entry.
\<close>

lemma search_fall:
  assumes "compiled lead items" and "branch_ok items (pat, off)" and "pi_type (items ! pat) = piSearch"
  defines "x \<equiv> item_str (items ! pat)"
  shows "\<exists>v. kmp_fall x (str_kmpNext (items ! pat)) c off = Some v \<and> 0 \<le> v + 1 \<and> v + 1 \<le> int (length x)
    \<and> (\<forall>U. resid items (pat, off) (c # U) =
        (\<exists>p t. take (nat (v + 1)) x @ U = p @ x @ t \<and> cont items pat t))"
proof -
  define k where "k = nat off"
  have it: "compiled_item (items ! pat)" using compiled_nth [OF assms(1)] assms(2) by (auto simp: branch_ok_def)
  then have len: "length x = str_length (items ! pat)" and tab: "search_table (items ! pat)"
    using assms(3) by (auto simp: compiled_item_def x_def)
  have k: "k < length x" "off = int k" using assms(2) len by (auto simp: k_def branch_ok_def)
  have "best (\<lambda>l. l < length x \<and> suffix (take l x) (take k x)) off"
    unfolding k(2) using k(1) by (intro bestI) (auto dest: suffix_length_le)
  then obtain v where v: "kmp_fall x (str_kmpNext (items ! pat)) c off = Some v"
      "best (\<lambda>l. (l < length x \<and> suffix (take l x) (take k x)) \<and> x ! l = c) v"
    using table_fall [of x "str_kmpNext (items ! pat)" "take k x" off c] tab len by (auto simp: search_table_def x_def)
  have b: "best (\<lambda>l. l \<le> length x \<and> suffix (take l x) (take k x @ [c])) (v + 1)"
    by (rule best_after [OF _ v(2)]) (use k in auto)
  then have v1: "0 \<le> v + 1" "v + 1 \<le> int (length x)" by (auto simp: best_def)
  then have "best (\<lambda>l. l \<le> length x \<and> suffix (take l x) (take k x @ [c])) (int (nat (v + 1)))" using b by simp
  from occurrence_moves [OF _ this] k(1)
  have "(\<exists>p t. take k x @ c # U = p @ x @ t \<and> cont items pat t)
      = (\<exists>p t. take (nat (v + 1)) x @ U = p @ x @ t \<and> cont items pat t)" for U by simp
  then show ?thesis using v(1) v1 resid_search [OF assms(3), of off] by (auto simp: x_def k_def)
qed

lemma search_full:
  assumes "compiled lead items" and "pat < length items" and "pi_type (items ! pat) = piSearch"
  defines "x \<equiv> item_str (items ! pat)"
  shows "\<exists>k. rd (str_kmpNext (items ! pat)) (int (length x)) = Some k \<and> branch_ok items (pat, k)
    \<and> (\<forall>U. (\<exists>p t. x @ U = p @ x @ t \<and> cont items pat t) = (cont items pat U \<or> resid items (pat, k) U))"
proof -
  have it: "compiled_item (items ! pat)" using compiled_nth [OF assms(1,2)] by simp
  then have len: "length x = str_length (items ! pat)" "0 < str_length (items ! pat)"
      and tab: "search_table (items ! pat)"
    using assms(3) by (auto simp: compiled_item_def x_def)
  define b where "b = str_kmpNext (items ! pat) ! length x"
  have best: "best (border x (length x)) b" and cells: "length x < length (str_kmpNext (items ! pat))"
    using tab len by (simp_all add: search_table_def b_def x_def)
  have "border x (length x) 0" using len by simp
  then obtain k where k: "b = int k" "k < length x" using best by (auto simp: best_def border_def)
  have "x \<noteq> []" using len by auto
  from occurrence_full [OF this best [unfolded k(1)]]
  have "(\<exists>p t. x @ U = p @ x @ t \<and> cont items pat t) = (cont items pat U \<or> resid items (pat, b) U)" for U
    using resid_search [OF assms(3), of b U] k by (simp add: x_def)
  moreover have "branch_ok items (pat, b)" using k len assms(2) by (simp add: branch_ok_def)
  ultimately show ?thesis using cells rd_nat [of _ "length x"] by (auto simp: b_def)
qed

lemma search_length:
  assumes "compiled lead items" and "branch_ok items (pat, off)" and "pi_type (items ! pat) = piSearch"
  shows "length (item_str (items ! pat)) = str_length (items ! pat)"
proof -
  have "compiled_item (items ! pat)" using compiled_nth [OF assms(1)] assms(2) by (simp add: branch_ok_def)
  then show ?thesis using assms(3) by (simp add: compiled_item_def)
qed

lemma resid_search_Nil:
  assumes "compiled lead items" and "branch_ok items (pat, off)" and "pi_type (items ! pat) = piSearch"
  shows "\<not> resid items (pat, off) []"
proof
  assume "resid items (pat, off) []"
  then obtain p t where "take (nat off) (item_str (items ! pat)) = p @ item_str (items ! pat) @ t"
    using resid_search [OF assms(3)] by auto
  from arg_cong [OF this, of length] have "length (item_str (items ! pat)) \<le> nat off"
    by (simp only: length_take length_append)
  moreover have "length (item_str (items ! pat)) = str_length (items ! pat)"
    by (rule search_length [OF assms])
  ultimately show False using assms(2) by (auto simp: branch_ok_def)
qed

subsection \<open>Branches of the same part of the pattern\<close>

text \<open>
  The branches all lie between two percent signs: the first may be a search, the others follow a
  string that it has found.
\<close>

definition shape :: "'a pattern_item list \<Rightarrow> branch_item list \<Rightarrow> bool" where
  "shape items bs \<longleftrightarrow> bs \<noteq> [] \<and> (\<forall>b \<in> set bs. branch_ok items b)
     \<and> (pi_type (items ! fst (hd bs)) = piSearch \<or> length bs = 1)
     \<and> (\<forall>b \<in> set (tl bs). fst (hd bs) < fst b \<and> (\<forall>j. fst (hd bs) \<le> j \<and> j < fst b \<longrightarrow> \<not> pi_match_any (items ! j)))"

lemma like_match_suffix: "like_match (Any # N) t \<Longrightarrow> like_match (Any # N) (u @ t)"
  unfolding like_match_Any by (metis append.assoc)

lemma like_match_dominated: "like_match (Q @ Any # N) s \<Longrightarrow> like_match (Any # N) s"
  unfolding like_match_append by (auto intro: like_match_suffix)

lemma segment_tokens:
  assumes "k \<le> pat" and "pat < length items" and "pi_match_any (items ! pat)"
  shows "\<exists>Q. compiled_tokens (drop k items) = Q @ Any # compiled_tokens (drop (Suc pat) items)"
proof -
  have "drop k items = take (pat - k) (drop k items) @ drop pat items"
    using assms(1) append_take_drop_id [of "pat - k" "drop k items"] by simp
  then have "compiled_tokens (drop k items) = compiled_tokens (take (pat - k) (drop k items)) @ compiled_tokens (drop pat items)"
    by (metis compiled_tokens_simps(3))
  also have "compiled_tokens (drop pat items) = base_tokens (items ! pat) @ Any # compiled_tokens (drop (Suc pat) items)"
    using drop_tokens [OF assms(2)] assms(3) by (simp add: item_tokens_base any_tokens_def)
  finally show ?thesis by (metis append.assoc)
qed

lemma cont_dominated:
  assumes "pat' \<le> pat" and "pat < length items" and "pi_match_any (items ! pat)" and "cont items pat' U"
  shows "like_match (Any # compiled_tokens (drop (Suc pat) items)) U"
proof (cases "pat' = pat")
  case True
  then show ?thesis using assms by (simp add: cont_def any_tokens_def)
next
  case False
  then obtain Q where "compiled_tokens (drop (Suc pat') items) = Q @ Any # compiled_tokens (drop (Suc pat) items)"
    using segment_tokens [of "Suc pat'" pat items] assms by auto
  then have "like_match ((any_tokens (pi_match_any (items ! pat')) @ Q) @ Any # compiled_tokens (drop (Suc pat) items)) U"
    using assms(4) by (simp add: cont_def)
  then show ?thesis by (rule like_match_dominated)
qed

text \<open>When the end of the part is reached, all its branches are covered by the search for what follows.\<close>

lemma resid_dominated:
  assumes "compiled lead items" and "branch_ok items (pat', off)" and "pat' \<le> pat" and "pat < length items"
    and "pi_match_any (items ! pat)" and "resid items (pat', off) U"
  shows "like_match (Any # compiled_tokens (drop (Suc pat) items)) U"
proof (cases "pi_type (items ! pat') = piSearch")
  case True
  let ?x = "item_str (items ! pat')"
  obtain p t where t: "take (nat off) ?x @ U = p @ ?x @ t" "cont items pat' t"
    using assms(6) resid_search [OF True] by blast
  have "length ?x = str_length (items ! pat')"
    by (rule search_length [OF assms(1,2) True])
  then have "length (take (nat off) ?x) \<le> length (p @ ?x)" by simp
  then obtain u where "U = u @ t" using t(1) by (metis append.assoc append_eq_append_conv_if)
  then show ?thesis using cont_dominated [OF assms(3-5) t(2)] like_match_suffix by blast
next
  case False
  let ?it = "items ! pat'" and ?N = "compiled_tokens (drop (Suc pat) items)"
  have k: "nat off < length (base_tokens ?it)" using length_base [of ?it] compiled_nth [OF assms(1)] assms(2) by (auto simp: branch_ok_def)
  have "\<exists>Q. drop (nat off) (item_tokens ?it) @ compiled_tokens (drop (Suc pat') items) = Q @ Any # ?N"
  proof (cases "pat' = pat")
    case True
    then show ?thesis using assms(5) k by (auto simp: item_tokens_base any_tokens_def)
  next
    case False
    then obtain Q where "compiled_tokens (drop (Suc pat') items) = Q @ Any # ?N"
      using segment_tokens [of "Suc pat'" pat items] assms(3-5) by auto
    then show ?thesis by (metis append.assoc)
  qed
  then show ?thesis using assms(6) False by (auto simp: resid_def Let_def intro: like_match_dominated)
qed

lemma resid_dominated_Cons:
  assumes "compiled lead items" and "branch_ok items (pat', off)" and "pat' \<le> pat" and "pat < length items"
    and "pi_match_any (items ! pat)" and "resid items (pat', off) (c # U)"
  shows "like_match (Any # compiled_tokens (drop (Suc pat) items)) U"
proof (cases "pi_type (items ! pat') = piSearch")
  case True
  let ?x = "item_str (items ! pat')"
  obtain p t where t: "take (nat off) ?x @ c # U = p @ ?x @ t" "cont items pat' t"
    using assms(6) resid_search [OF True] by blast
  have "length ?x = str_length (items ! pat')"
    by (rule search_length [OF assms(1,2) True])
  then have "length (take (nat off) ?x @ [c]) \<le> length (p @ ?x)" using assms(2) by (auto simp: branch_ok_def)
  moreover have "(take (nat off) ?x @ [c]) @ U = (p @ ?x) @ t" using t(1) by simp
  ultimately obtain u where "U = u @ t" by (metis append_eq_append_conv_if)
  then show ?thesis using cont_dominated [OF assms(3-5) t(2)] like_match_suffix by blast
next
  case False
  then have "if int (str_length (items ! pat')) \<le> off + 1 then cont items pat' U else resid items (pat', off + 1) U"
    using resid_fixed(1) [OF assms(1,2) False] assms(6) by simp
  moreover have "branch_ok items (pat', off + 1)" if "\<not> int (str_length (items ! pat')) \<le> off + 1"
    using that assms(2) by (simp add: branch_ok_def)
  ultimately show ?thesis
    using cont_dominated [OF assms(3-5)] resid_dominated [OF assms(1) _ assms(3-5)] by (auto split: if_splits)
qed

lemma resid_Nil: "compiled lead items \<Longrightarrow> branch_ok items b \<Longrightarrow> \<not> resid items b []"
  by (cases b) (metis resid_fixed(2) resid_search_Nil)

subsection \<open>One character\<close>

text \<open>
  Inside the loop over the branches: \<open>ps\<close> are done with the character \<open>c\<close>, \<open>qs\<close> are not. What the
  whole text may continue with (\<open>goal\<close>) is what one of the branches wants, and nothing more is
  needed if a match has ended here.
\<close>

definition loop_inv ::
  "'a pattern_item list \<Rightarrow> 'a \<Rightarrow> nat \<Rightarrow> ('a list \<Rightarrow> bool) \<Rightarrow> branch_item list \<Rightarrow> branch_item list \<Rightarrow> int \<Rightarrow> bool" where
  "loop_inv items c data_pos goal ps qs finish \<longleftrightarrow> shape items (ps @ qs) \<and> finish \<le> int data_pos
     \<and> (pi_type (items ! fst (hd (ps @ qs))) \<noteq> piSearch \<longrightarrow> finish < int data_pos)
     \<and> (\<forall>U. goal U \<longleftrightarrow> (\<exists>b \<in> set ps. resid items b U) \<or> (\<exists>b \<in> set qs. resid items b (c # U))
          \<or> (finish = int data_pos \<and> U = []))"

text \<open>When the evaluation returns, \<open>rest\<close> is the data it has not looked at.\<close>

definition return_ok :: "('a list \<Rightarrow> bool) \<Rightarrow> 'a list \<Rightarrow> bool \<Rightarrow> branch_item list \<Rightarrow> match_type option \<Rightarrow> bool" where
  "return_ok goal rest r bs m \<longleftrightarrow> bs = [] \<and>
     (case m of
        None \<Rightarrow> \<not> r \<and> (\<forall>U. \<not> goal (rest @ U))
      | Some MATCH_NONE \<Rightarrow> False
      | Some MATCH_FIXED \<Rightarrow> r \<and> rest = [] \<and> (\<forall>U. goal U \<longleftrightarrow> U = [])
      | Some MATCH_ANY \<Rightarrow> \<not> r \<and> (\<forall>U. goal U))"

definition action_ok ::
  "'a pattern_item list \<Rightarrow> 'a \<Rightarrow> nat \<Rightarrow> ('a list \<Rightarrow> bool) \<Rightarrow> 'a list \<Rightarrow> branch_action option \<Rightarrow> bool" where
  "action_ok items c data_pos goal rest act \<longleftrightarrow>
     (case act of
        None \<Rightarrow> False
      | Some (Return r bs m) \<Rightarrow> return_ok goal rest r bs m
      | Some (Go n bs finish) \<Rightarrow> n \<le> length bs \<and> loop_inv items c data_pos goal (take n bs) (drop n bs) finish)"

lemma shape_single: "branch_ok items b \<Longrightarrow> shape items [b]"
  by (simp add: shape_def)

lemma shape_same: "shape items (ps @ (pat, off) # qs) \<Longrightarrow> branch_ok items (pat, off') \<Longrightarrow> shape items (ps @ (pat, off') # qs)"
  by (cases ps) (auto simp: shape_def)

text \<open>A branch goes on to the next item of its part.\<close>

lemma shape_next:
  assumes "shape items (ps @ (pat, off) # qs)" and "branch_ok items (pat + 1, 0)" and "\<not> pi_match_any (items ! pat)"
    and "ps \<noteq> [] \<or> qs = []"
  shows "shape items (ps @ (pat + 1, 0) # qs)"
  using assms by (cases ps) (auto simp: shape_def less_Suc_eq)

lemma shape_insert:
  assumes "shape items ((pat, off) # qs)" and "branch_ok items (pat + 1, 0)" and "\<not> pi_match_any (items ! pat)"
    and "pi_type (items ! pat) = piSearch" and "branch_ok items (pat, off')"
  shows "shape items ((pat, off') # (pat + 1, 0) # qs)"
  using assms by (auto simp: shape_def less_Suc_eq)

lemma shape_remove:
  "shape items (ps @ b # qs) \<Longrightarrow> ps \<noteq> [] \<Longrightarrow> shape items (ps @ qs)"
  by (cases ps) (auto simp: shape_def)

lemma shape_segment:
  assumes "shape items bs" and "(pat, off) \<in> set bs" and "b \<in> set bs" and "pi_match_any (items ! pat)"
  shows "fst b \<le> pat"
proof (rule ccontr)
  assume n: "\<not> fst b \<le> pat"
  have le: "fst (hd bs) \<le> pat" using assms(1,2) by (cases bs) (auto simp: shape_def)
  then have "b \<noteq> hd bs" using n by auto
  then have "b \<in> set (tl bs)" using assms(1,3) by (cases bs) (auto simp: shape_def)
  then show False using assms(1,4) le n by (auto simp: shape_def)
qed

lemma shape_search:
  assumes "compiled lead items" and "shape items (ps @ (pat, off) # qs)" and "pi_type (items ! pat) = piSearch"
  shows "ps = []" and "pi_match_any (items ! pat) \<Longrightarrow> qs = []"
proof -
  show "ps = []"
  proof (cases ps)
    case (Cons b ps')
    then have b: "fst b < pat" "\<And>j. fst b \<le> j \<Longrightarrow> j < pat \<Longrightarrow> \<not> pi_match_any (items ! j)" "pat < length items"
      using assms(2) by (auto simp: shape_def branch_ok_def)
    then have "\<not> pi_match_any (items ! (pat - 1))" by simp
    then show ?thesis using compiled_nth [OF assms(1) b(3)] assms(3) b(1) by simp
  qed
  then show "pi_match_any (items ! pat) \<Longrightarrow> qs = []" using assms(2) by (cases qs) (auto simp: shape_def)
qed

lemma action_Go: "action_ok items c data_pos goal rest (Some (Go (length ps) (ps @ qs) finish)) \<longleftrightarrow> loop_inv items c data_pos goal ps qs finish"
  by (simp add: action_ok_def)

lemma action_next:
  "n = length ps \<Longrightarrow> action_ok items c data_pos goal rest (Some (Go (n + 1) ((ps @ b # qs)[n := b']) finish))
    \<longleftrightarrow> loop_inv items c data_pos goal (ps @ [b']) qs finish"
  using action_Go [of items c data_pos goal rest "ps @ [b']" qs finish] by simp

lemma remove_at_mid [simp]: "remove_at (length ps) (Suc 0) (ps @ b # qs) = ps @ qs"
  by (simp add: remove_at_def)

lemma loop_replace:
  assumes "loop_inv items c data_pos goal ps ((pat, off) # qs) finish" and "shape items (ps @ b' # qs)"
    and "\<And>U. resid items (pat, off) (c # U) = resid items b' U"
    and "ps = [] \<Longrightarrow> pi_type (items ! fst b') = piSearch \<or> pi_type (items ! pat) \<noteq> piSearch"
  shows "loop_inv items c data_pos goal (ps @ [b']) qs finish"
  using assms by (cases ps) (auto simp: loop_inv_def)

text \<open>Everything is covered by the search for what follows a percent sign.\<close>

lemma loop_dominated:
  assumes inv: "loop_inv items c data_pos goal ps ((pat, off) # qs) finish" and ok: "compiled lead items"
    and m: "pi_match_any (items ! pat)" and here: "\<And>U. resid items (pat, off) (c # U) \<longleftrightarrow> cont items pat U"
  shows "goal U \<longleftrightarrow> cont items pat U \<or> (finish = int data_pos \<and> U = [])"
proof -
  let ?N = "like_match (Any # compiled_tokens (drop (Suc pat) items))"
  have sh: "shape items (ps @ (pat, off) # qs)" using inv by (simp add: loop_inv_def)
  have b: "branch_ok items b \<and> fst b \<le> pat" if "b \<in> set (ps @ (pat, off) # qs)" for b
    using that sh shape_segment [OF sh _ that m] by (auto simp: shape_def)
  from b [of "(pat, off)"] have p: "pat < length items" by (simp add: branch_ok_def)
  have c: "cont items pat U = ?N U" for U using m by (simp add: cont_def any_tokens_def)
  have "resid items b U \<Longrightarrow> ?N U" if "b \<in> set ps" for b
    using that b [of b] resid_dominated [OF ok _ _ p m, of "fst b" "snd b" U] by auto
  moreover have "resid items b (c # U) \<Longrightarrow> ?N U" if "b \<in> set qs" for b
    using that b [of b] resid_dominated_Cons [OF ok _ _ p m, of "fst b" "snd b" c U] by auto
  ultimately show ?thesis using inv here [of U] c [of U] by (auto simp: loop_inv_def)
qed

lemma fixed_step_ok:
  assumes inv: "loop_inv items c data_pos goal ps ((pat, off) # qs) finish" and ok: "compiled lead items"
    and t: "pi_type (items ! pat) \<noteq> piSearch" and dl: "data_len = data_pos + 1 + length rest"
    and ch: "pi_type (items ! pat) = piDirectMatch \<longrightarrow> c = item_str (items ! pat) ! nat off" and n: "n = length ps"
  shows "action_ok items c data_pos goal rest
    (Some (fixed_step items data_pos data_len n (ps @ (pat, off) # qs) finish (items ! pat) pat off))"
proof -
  let ?it = "items ! pat"
  have sh: "shape items (ps @ (pat, off) # qs)" and fin: "finish \<le> int data_pos" using inv by (auto simp: loop_inv_def)
  have b: "branch_ok items (pat, off)" using sh by (simp add: shape_def)
  then have p: "pat < length items" by (simp add: branch_ok_def)
  have r: "resid items (pat, off) (c # U) = (if int (str_length ?it) \<le> off + 1 then cont items pat U else resid items (pat, off + 1) U)" for U
    using resid_fixed(1) [OF ok b t] ch by simp
  consider (inside) "\<not> int (str_length ?it) \<le> off + 1"
    | (any) "int (str_length ?it) \<le> off + 1" "pi_match_any ?it"
    | (over) "int (str_length ?it) \<le> off + 1" "\<not> pi_match_any ?it" "length items \<le> pat + 1"
    | (step) "int (str_length ?it) \<le> off + 1" "\<not> pi_match_any ?it" "\<not> length items \<le> pat + 1"
    by blast
  then show ?thesis
  proof cases
    case inside
    have "branch_ok items (pat, off + 1)" using b inside by (simp add: branch_ok_def)
    then have "loop_inv items c data_pos goal (ps @ [(pat, off + 1)]) qs finish"
      using loop_replace [OF inv] shape_same [OF sh] r inside t by simp
    then show ?thesis using inside by (simp add: fixed_step_def action_next [OF n, simplified])
  next
    case any
    have g: "goal U \<longleftrightarrow> cont items pat U \<or> (finish = int data_pos \<and> U = [])" for U
      by (rule loop_dominated [OF inv ok any(2)]) (use r any in simp)
    show ?thesis
    proof (cases "length items \<le> pat + 1")
      case True
      then have "\<forall>U. goal U" using g cont_cases [OF ok p] any by simp
      then show ?thesis using any True by (simp add: fixed_step_def action_ok_def return_ok_def)
    next
      case False
      then have nx: "compiled_item (items ! Suc pat)" "pi_type (items ! Suc pat) = piSearch"
        using compiled_nth [OF ok, of "Suc pat"] any(2) by auto
      then have "shape items [(pat + 1, 0)]" using False by (intro shape_single) (auto simp: branch_ok_def compiled_item_def)
      then have "loop_inv items c data_pos goal [(pat + 1, 0)] [] finish"
        using g cont_cases [OF ok p] False nx(2) fin by (simp add: loop_inv_def)
      then show ?thesis using any False action_Go [of items c data_pos goal rest "[(pat + 1, 0)]" "[]" finish]
        by (simp add: fixed_step_def)
    qed
  next
    case over
    have c: "cont items pat U \<longleftrightarrow> U = []" for U using cont_cases [OF ok p, of U] over by simp
    show ?thesis
    proof (cases "ps @ qs = []")
      case True
      then have "\<forall>U. goal U \<longleftrightarrow> U = []" using inv r c over t by (auto simp: loop_inv_def)
      moreover have "data_pos = data_len - 1 \<longleftrightarrow> rest = []" using dl by simp
      ultimately show ?thesis using over True n by (simp add: fixed_step_def action_ok_def return_ok_def remove_at_def)
    next
      case False
      then have ps: "ps \<noteq> []" and hd: "pi_type (items ! fst (hd ps)) = piSearch"
        using sh t by (cases ps; auto simp: shape_def)+
      have "loop_inv items c data_pos goal ps qs (int data_pos)"
        using inv over shape_remove [OF sh ps] hd ps by (simp add: loop_inv_def r c) blast
      then show ?thesis using over False n action_Go [of items c data_pos goal rest ps qs "int data_pos"]
        by (auto simp: fixed_step_def Let_def)
    qed
  next
    case step
    then have nx: "compiled_item (items ! Suc pat)" "pi_type (items ! Suc pat) \<noteq> piSearch"
      using compiled_nth [OF ok, of "Suc pat"] by auto
    have "shape items (ps @ (pat + 1, 0) # qs)"
      by (rule shape_next [OF sh]) (use step nx sh t in \<open>cases ps; auto simp: branch_ok_def compiled_item_def shape_def\<close>)+
    then have "loop_inv items c data_pos goal (ps @ [(pat + 1, 0)]) qs finish"
      by (rule loop_replace [OF inv]) (use r step cont_cases [OF ok p] t in auto)
    then show ?thesis using step by (simp add: fixed_step_def action_next [OF n, simplified])
  qed
qed

lemma search_step_ok:
  assumes inv: "loop_inv items c data_pos goal ps ((pat, off) # qs) finish" and ok: "compiled lead items"
    and t: "pi_type (items ! pat) = piSearch" and n: "n = length ps"
  shows "action_ok items c data_pos goal rest
    (search_step items c data_pos n (ps @ (pat, off) # qs) finish (items ! pat) pat off)"
proof -
  let ?it = "items ! pat" and ?x = "item_str (items ! pat)"
  have sh: "shape items (ps @ (pat, off) # qs)" and fin: "finish \<le> int data_pos" using inv by (auto simp: loop_inv_def)
  have b: "branch_ok items (pat, off)" using sh by (simp add: shape_def)
  then have p: "pat < length items" by (simp add: branch_ok_def)
  have ps: "ps = []" by (rule shape_search(1) [OF ok sh t])
  have len: "length ?x = str_length ?it" by (rule search_length [OF ok b t])
  obtain v where v: "kmp_fall ?x (str_kmpNext ?it) c off = Some v" "0 \<le> v + 1" "v + 1 \<le> int (length ?x)"
      "\<And>U. resid items (pat, off) (c # U) = (\<exists>p t. take (nat (v + 1)) ?x @ U = p @ ?x @ t \<and> cont items pat t)"
    using search_fall [OF ok b t, of c] by blast
  show ?thesis
  proof (cases "int (str_length ?it) \<le> v + 1")
    case False
    have "branch_ok items (pat, v + 1)" using False v(2) p by (simp add: branch_ok_def)
    moreover have "resid items (pat, off) (c # U) = resid items (pat, v + 1) U" for U
      using v(4) resid_search [OF t, of "v + 1" U] by simp
    ultimately have "loop_inv items c data_pos goal (ps @ [(pat, v + 1)]) qs finish"
      using loop_replace [OF inv] shape_same [OF sh] t by simp
    then show ?thesis using False v(1) by (simp add: search_step_def action_next [OF n, simplified])
  next
    case True
    then have e: "v + 1 = int (length ?x)" using v(3) len by simp
    obtain k where k: "rd (str_kmpNext ?it) (v + 1) = Some k" "branch_ok items (pat, k)"
        "\<And>U. (\<exists>p t. ?x @ U = p @ ?x @ t \<and> cont items pat t) = (cont items pat U \<or> resid items (pat, k) U)"
      using search_full [OF ok p t] e by auto
    have r: "resid items (pat, off) (c # U) = (cont items pat U \<or> resid items (pat, k) U)" for U
      using v(4) k(3) e by simp
    have dom: "resid items (pat, k) U \<Longrightarrow> cont items pat U" if "pi_match_any ?it" for U
      using resid_dominated [OF ok k(2) order_refl p that] that by (simp add: cont_def any_tokens_def)
    have sh': "shape items ((pat, k) # qs)" using shape_same [OF sh k(2)] ps by simp
    have qs: "qs = []" if "pi_match_any ?it" by (rule shape_search(2) [OF ok sh t that])
    consider (any) "length items \<le> pat + 1" "pi_match_any ?it" | (over) "length items \<le> pat + 1" "\<not> pi_match_any ?it"
      | (search) "\<not> length items \<le> pat + 1" "pi_match_any ?it" | (branch) "\<not> length items \<le> pat + 1" "\<not> pi_match_any ?it"
      by blast
    then show ?thesis
    proof cases
      case any
      then have "\<forall>U. goal U" using inv r cont_cases [OF ok p] by (simp add: loop_inv_def)
      then show ?thesis using any True v(1) by (simp add: search_step_def action_ok_def return_ok_def)
    next
      case over
      then have "loop_inv items c data_pos goal [(pat, k)] qs (int data_pos)"
        using inv r cont_cases [OF ok p] sh' t ps by (auto simp: loop_inv_def)
      then show ?thesis using over True v(1) k(1) ps n action_Go [of items c data_pos goal rest "[(pat, k)]" qs "int data_pos"]
        by (simp add: search_step_def)
    next
      case search
      then have nx: "compiled_item (items ! Suc pat)" "pi_type (items ! Suc pat) = piSearch"
        using compiled_nth [OF ok, of "Suc pat"] by auto
      have "shape items [(pat + 1, 0)]" using search nx by (intro shape_single) (auto simp: branch_ok_def compiled_item_def)
      then have "loop_inv items c data_pos goal [(pat + 1, 0)] qs finish"
        using inv r dom cont_cases [OF ok p] search nx ps qs by (auto simp: loop_inv_def)
      then show ?thesis using search True v(1) ps n nx(2) action_Go [of items c data_pos goal rest "[(pat + 1, 0)]" qs finish]
        by (simp add: search_step_def)
    next
      case branch
      then have nx: "compiled_item (items ! Suc pat)" "pi_type (items ! Suc pat) \<noteq> piSearch"
        using compiled_nth [OF ok, of "Suc pat"] by auto
      have "shape items ((pat, k) # (pat + 1, 0) # qs)"
        by (rule shape_insert [OF _ _ branch(2) t k(2)]) (use sh' branch nx in \<open>auto simp: branch_ok_def compiled_item_def\<close>)
      then have "loop_inv items c data_pos goal [(pat, k), (pat + 1, 0)] qs finish"
        using inv r cont_cases [OF ok p] branch t ps by (auto simp: loop_inv_def)
      then show ?thesis using branch True v(1) k(1) ps n nx(2)
          action_Go [of items c data_pos goal rest "[(pat, k), (pat + 1, 0)]" qs finish]
        by (simp add: search_step_def insert_at_def)
    qed
  qed
qed

lemma branch_step_ok:
  assumes inv: "loop_inv items c data_pos goal ps (b # qs) finish" and ok: "compiled lead items"
    and dl: "data_len = data_pos + 1 + length rest" and n: "n = length ps"
  shows "action_ok items c data_pos goal rest (branch_step items c data_pos data_len n (ps @ b # qs) finish)"
proof -
  obtain pat off where b: "b = (pat, off)" by (cases b)
  have sh: "shape items (ps @ (pat, off) # qs)" using inv b by (auto simp: loop_inv_def)
  then have bo: "branch_ok items (pat, off)" by (simp add: shape_def)
  then have p: "pat < length items" "0 \<le> off" "nat off < str_length (items ! pat)" by (auto simp: branch_ok_def)
  have it: "compiled_item (items ! pat)" using compiled_nth [OF ok p(1)] by simp
  have nth: "(ps @ b # qs) ! n = (pat, off)" "rd items (int pat) = Some (items ! pat)" using p n b by simp_all
  consider (search) "pi_type (items ! pat) = piSearch" | (skip) "pi_type (items ! pat) = piSkipFixed"
    | (direct) "pi_type (items ! pat) = piDirectMatch"
    using it by (auto simp: compiled_item_def split: pattern_item_type.splits)
  then show ?thesis
  proof cases
    case search
    then show ?thesis using search_step_ok [OF inv [unfolded b] ok search n] nth b by (simp add: branch_step_def)
  next
    case skip
    then show ?thesis using fixed_step_ok [OF inv [unfolded b] ok _ dl _ n] nth b by (simp add: branch_step_def)
  next
    case direct
    have x: "rd (item_str (items ! pat)) off = Some (item_str (items ! pat) ! nat off)"
      using direct it p by (simp add: rd_def compiled_item_def)
    show ?thesis
    proof (cases "c = item_str (items ! pat) ! nat off")
      case True
      then show ?thesis using fixed_step_ok [OF inv [unfolded b] ok _ dl _ n] direct nth b x by (simp add: branch_step_def)
    next
      case False
      have r: "\<not> resid items (pat, off) (c # U)" for U using resid_fixed(1) [OF ok bo] direct False by simp
      show ?thesis
      proof (cases "ps @ qs = []")
        case True
        then have "\<not> goal U" for U using inv b r direct by (auto simp: loop_inv_def)
        then show ?thesis using direct False nth b x True n
          by (simp add: branch_step_def action_ok_def return_ok_def remove_at_def)
      next
        case ne: False
        then have ps: "ps \<noteq> []" using sh direct by (cases ps; auto simp: shape_def)
        have "loop_inv items c data_pos goal ps qs finish"
          using inv b r shape_remove [OF sh ps] ps by (auto simp: loop_inv_def)
        then show ?thesis using direct False nth b x ne n action_Go [of items c data_pos goal rest ps qs finish]
          by (auto simp: branch_step_def Let_def)
      qed
    qed
  qed
qed

lemma branch_loop_ok:
  assumes "loop_inv items c data_pos goal (take n bs) (drop n bs) finish" and "n \<le> length bs" and ok: "compiled lead items"
    and dl: "data_len = data_pos + 1 + length rest"
  shows "case branch_loop items c data_pos data_len n bs finish of
      None \<Rightarrow> False
    | Some (Return r bs' m) \<Rightarrow> return_ok goal rest r bs' m
    | Some (Go n' bs' finish') \<Rightarrow> loop_inv items c data_pos goal bs' [] finish'"
  using assms(1,2)
proof (induction "length bs - n" arbitrary: n bs finish rule: less_induct)
  case less
  show ?case
  proof (cases "n < length bs")
    case False
    then show ?thesis using less.prems by (subst branch_loop.simps) simp
  next
    case True
    have d: "drop n bs = bs ! n # drop (Suc n) bs" using True by (simp add: Cons_nth_drop_Suc)
    have "action_ok items c data_pos goal rest (branch_step items c data_pos data_len n (take n bs @ bs ! n # drop (Suc n) bs) finish)"
      by (rule branch_step_ok [OF less.prems(1) [unfolded d] ok dl]) (use True in simp)
    then have a: "action_ok items c data_pos goal rest (branch_step items c data_pos data_len n bs finish)"
      using True by (simp add: id_take_nth_drop [symmetric])
    show ?thesis
    proof (cases "branch_step items c data_pos data_len n bs finish")
      case (Some act)
      show ?thesis
      proof (cases act)
        case (Go n' bs' finish')
        have "length bs' - n' < length bs - n"
          by (rule branch_step_measure) (use Some Go True in auto)
        then show ?thesis using less.hyps [of bs' n' finish'] a Some Go True
          by (subst branch_loop.simps) (simp add: action_ok_def)
      qed (use a Some True in \<open>subst branch_loop.simps, simp add: action_ok_def\<close>)
    qed (use a in \<open>simp add: action_ok_def\<close>)
  qed
qed

subsection \<open>Chunks\<close>

text \<open>The state of an evaluator when the text read so far may continue with what satisfies \<open>goal\<close>.\<close>

definition like_state :: "('a list \<Rightarrow> bool) \<Rightarrow> 'a like_evaluator \<Rightarrow> bool" where
  "like_state goal e \<longleftrightarrow>
     (if branches e = [] then
        (case le_match_type e of
           MATCH_NONE \<Rightarrow> \<forall>U. \<not> goal U
         | MATCH_FIXED \<Rightarrow> \<forall>U. goal U \<longleftrightarrow> U = []
         | MATCH_ANY \<Rightarrow> \<forall>U. goal U)
      else (\<exists>lead. compiled lead (patternItems e)) \<and> shape (patternItems e) (branches e) \<and> le_match_type e \<noteq> MATCH_ANY
        \<and> (\<forall>U. goal U \<longleftrightarrow> (\<exists>b \<in> set (branches e). resid (patternItems e) b U) \<or> (le_match_type e = MATCH_FIXED \<and> U = [])))"

lemma like_chars_ok:
  assumes "compiled lead (patternItems e)" and "shape (patternItems e) (branches e)" and "le_match_type e = MATCH_NONE"
    and "finish < int data_pos" and "data_len = data_pos + length data" and "0 < data_len"
    and "\<And>U. goal U \<longleftrightarrow> (\<exists>b \<in> set (branches e). resid (patternItems e) b U) \<or> (0 < data_pos \<and> finish = int data_pos - 1 \<and> U = [])"
  shows "\<exists>r e'. like_chars data data_pos data_len finish e = Some (r, e') \<and> like_state (\<lambda>U. goal (data @ U)) e'
    \<and> (\<not> r \<longrightarrow> (\<forall>U. goal (data @ U)) \<or> (\<forall>U. \<not> goal (data @ U)))"
  using assms
proof (induction data arbitrary: data_pos finish e goal)
  case Nil
  then have "branches e \<noteq> []" by (simp add: shape_def)
  then show ?case using Nil by (auto simp: like_state_def)
next
  case (Cons c data)
  let ?items = "patternItems e"
  have "loop_inv ?items c data_pos (\<lambda>U. goal (c # U)) (take 0 (branches e)) (drop 0 (branches e)) finish"
    using Cons.prems by (auto simp: loop_inv_def)
  from branch_loop_ok [OF this _ Cons.prems(1), of data_len data] Cons.prems(5)
  have l: "case branch_loop ?items c data_pos data_len 0 (branches e) finish of
      None \<Rightarrow> False
    | Some (Return r bs' m) \<Rightarrow> return_ok (\<lambda>U. goal (c # U)) data r bs' m
    | Some (Go n' bs' finish') \<Rightarrow> loop_inv ?items c data_pos (\<lambda>U. goal (c # U)) bs' [] finish'" by simp
  show ?case
  proof (cases "branch_loop ?items c data_pos data_len 0 (branches e) finish")
    case (Some act)
    show ?thesis
    proof (cases act)
      case (Return r bs m)
      then have ret: "return_ok (\<lambda>U. goal (c # U)) data r bs m" using l Some by simp
      show ?thesis
      proof (cases m)
        case None
        then show ?thesis using ret Some Return Cons.prems(3) by (simp add: return_ok_def like_state_def) blast
      next
        case (Some m')
        then show ?thesis using ret \<open>branch_loop _ _ _ _ _ _ _ = _\<close> Return
          by (cases m') (simp_all add: return_ok_def like_state_def, blast+)
      qed
    next
      case (Go n bs finish')
      define e1 where "e1 = e\<lparr>branches := bs\<rparr>"
      have li: "loop_inv ?items c data_pos (\<lambda>U. goal (c # U)) bs [] finish'" using l Some Go by simp
      have "\<exists>r e'. like_chars data (data_pos + 1) data_len finish' e1 = Some (r, e')
          \<and> like_state (\<lambda>U. goal (c # data @ U)) e'
          \<and> (\<not> r \<longrightarrow> (\<forall>U. goal (c # data @ U)) \<or> (\<forall>U. \<not> goal (c # data @ U)))"
        by (rule Cons.IH) (use li Cons.prems in \<open>auto simp: e1_def loop_inv_def\<close>)
      then show ?thesis using Some Go by (simp add: e1_def)
    qed
  qed (use l in simp)
qed

definition like_seen :: "'a like_token list \<Rightarrow> 'a like_evaluator \<Rightarrow> 'a list \<Rightarrow> bool" where
  "like_seen ts e T = like_state (\<lambda>U. like_match ts (T @ U)) e"

lemma like_process_ok:
  assumes "like_state goal e"
  shows "\<exists>r e'. like_process d e = Some (r, e') \<and> like_state (\<lambda>U. goal (d @ U)) e'
    \<and> (\<not> r \<longrightarrow> (\<forall>U. goal (d @ U)) \<or> (\<forall>U. \<not> goal (d @ U)))"
proof (cases "d = []")
  case True
  have "(\<forall>U. goal U) \<or> (\<forall>U. \<not> goal U)" if "branches e = []" "le_match_type e \<noteq> MATCH_FIXED"
    using assms that by (cases "le_match_type e") (simp_all add: like_state_def)
  then show ?thesis using assms True by (simp add: like_process_def)
next
  case False
  define e1 where "e1 = (if le_match_type e = MATCH_FIXED then e\<lparr>le_match_type := MATCH_NONE\<rparr> else e)"
  have p: "like_process d e = (if branches e1 = [] then Some (False, e1) else like_chars d 0 (length d) (- 1) e1)"
    using False by (simp add: like_process_def e1_def)
  show ?thesis
  proof (cases "branches e = []")
    case True
    then show ?thesis using assms False p by (cases "le_match_type e") (auto simp: like_state_def e1_def)
  next
    case ne: False
    then obtain lead where s: "compiled lead (patternItems e)" "shape (patternItems e) (branches e)" "le_match_type e \<noteq> MATCH_ANY"
        "\<And>U. goal U \<longleftrightarrow> (\<exists>b \<in> set (branches e). resid (patternItems e) b U) \<or> (le_match_type e = MATCH_FIXED \<and> U = [])"
      using assms by (auto simp: like_state_def)
    have e1: "patternItems e1 = patternItems e" "branches e1 = branches e" by (simp_all add: e1_def)
    have m: "le_match_type e1 = MATCH_NONE" using s(3) by (cases "le_match_type e") (simp_all add: e1_def)
    define g where "g U \<longleftrightarrow> (\<exists>b \<in> set (branches e). resid (patternItems e) b U)" for U
    have g: "g (d @ U) = goal (d @ U)" for U using s(4) False by (auto simp: g_def)
    have "\<exists>r e'. like_chars d 0 (length d) (- 1) e1 = Some (r, e') \<and> like_state (\<lambda>U. g (d @ U)) e'
        \<and> (\<not> r \<longrightarrow> (\<forall>U. g (d @ U)) \<or> (\<forall>U. \<not> g (d @ U)))"
      by (rule like_chars_ok [where lead = lead]) (use s(1,2) e1 m False in \<open>auto simp: g_def\<close>)
    then show ?thesis using p ne e1 by (simp add: g)
  qed
qed

interpretation like: chunk_evaluator like_process like_getResult "like_seen ts" "like_match ts"
proof
  fix e :: "'a like_evaluator" and T d :: "'a list"
  assume s: "like_seen ts e T"
  show "like_getResult e = like_match ts T"
  proof (cases "branches e = []")
    case True
    have "like_match ts T = like_match ts (T @ [])" by simp
    then show ?thesis using s True
      by (cases "le_match_type e") (simp_all add: like_seen_def like_state_def like_getResult_def del: append_Nil2)
  next
    case False
    then obtain lead where i: "compiled lead (patternItems e)" "shape (patternItems e) (branches e)" "le_match_type e \<noteq> MATCH_ANY"
        "\<And>U. like_match ts (T @ U) \<longleftrightarrow> (\<exists>b \<in> set (branches e). resid (patternItems e) b U) \<or> (le_match_type e = MATCH_FIXED \<and> U = [])"
      using s by (auto simp: like_seen_def like_state_def)
    have "\<not> resid (patternItems e) b []" if "b \<in> set (branches e)" for b
      using that i(2) resid_Nil [OF i(1)] by (simp add: shape_def)
    then show ?thesis using i(3) i(4) [of "[]"] by (cases "le_match_type e") (auto simp: like_getResult_def)
  qed
  show "\<exists>more e'. like_process d e = Some (more, e') \<and> like_seen ts e' (T @ d)
      \<and> (\<not> more \<longrightarrow> (\<forall>U. like_match ts (T @ d @ U) = like_match ts (T @ d)))"
  proof -
    obtain r e' where r: "like_process d e = Some (r, e')" "like_state (\<lambda>U. like_match ts (T @ d @ U)) e'"
        "\<not> r \<Longrightarrow> (\<forall>U. like_match ts (T @ d @ U)) \<or> (\<forall>U. \<not> like_match ts (T @ d @ U))"
      using like_process_ok [OF s [unfolded like_seen_def], of d] by blast
    have "like_match ts (T @ d @ U) = like_match ts (T @ d)" if "\<not> r" for U
    proof -
      from r(3) [OF that] have "like_match ts (T @ d @ U) = like_match ts (T @ d @ [])" by blast
      then show ?thesis by simp
    qed
    then show ?thesis using r(1,2) by (simp add: like_seen_def)
  qed
qed

subsection \<open>The evaluator\<close>

lemma like_new_ok:
  assumes "0 < alignment" and "like_tokens q pattern = Some ts"
  shows "\<exists>e. like_new alignment char_size q pattern = Inr e \<and> like_seen ts e []"
proof -
  obtain p n a where al: "sa_alloc alignment (length pattern * char_size) sa_new = (p, n, a)"
    by (cases "sa_alloc alignment (length pattern * char_size) sa_new")
  have "parse_inv q [new_item] pattern" by (simp add: parse_inv_def)
  from like_parse_ok [OF this] assms(2)
  obtain items where i: "like_parse q pattern [new_item] = Inr items" "parse_inv q items []" "like_eq (tokens_of q items) ts"
    by auto
  have new: "like_new alignment char_size q pattern = (case like_compile q alignment char_size 0 True items a of
      None \<Rightarrow> Inl like_fault
    | Some (items, a) \<Rightarrow>
        (case like_reset \<lparr>le_alloc = a, patternItems = items, branches = [], le_match_type = MATCH_NONE\<rparr> of
           None \<Rightarrow> Inl like_fault | Some e \<Rightarrow> Inr e))"
    using al i(1) by (simp add: like_new_def)
  have m: "like_match ts U = like_match (tokens_of q items) U" for U using i(3) by (simp add: like_eq_def)
  consider (empty) "items = [new_item]" | (any) it where "items = [it]" "pi_type it = piSkipMore" "str_length it = 0"
    | (many) "compile_inv q False [] items"
  proof (cases "items = [new_item]")
    case False
    then have p: "items \<noteq> []" "\<forall>it \<in> set items. parsed_item q it" "successively (\<lambda>a b. is_str a \<noteq> is_str b) items"
      using i(2) by (simp_all add: parse_inv_def)
    show thesis
    proof (cases "length items = 1 \<and> pi_type (hd items) = piSkipMore \<and> str_length (hd items) = 0")
      case True
      then show thesis using any [of "hd items"] by (cases items) auto
    next
      case False
      then show thesis using many p by (simp add: compile_inv_def)
    qed
  qed (rule empty)
  then show ?thesis
  proof cases
    case empty
    have "like_compile q alignment char_size 0 True items a = Some (items, a)"
      using empty by (simp add: like_compile.simps new_item_def)
    then show ?thesis using new empty m by (auto simp: like_reset_def like_seen_def like_state_def new_item_def parsed_tokens_def)
  next
    case any
    have "like_compile q alignment char_size 0 True items a = Some ([it\<lparr>pi_type := piNone, pi_match_any := True\<rparr>], a)"
      using any by (simp add: like_compile.simps)
    then show ?thesis using new any m
      by (auto simp: like_reset_def like_seen_def like_state_def parsed_tokens_def like_match_Any)
  next
    case many
    obtain its a' lead where c: "like_compile q alignment char_size 0 True items a = Some (its, a')"
        "compiled lead its" "its \<noteq> []" "like_eq (any_tokens lead @ compiled_tokens its) (tokens_of q items)"
      using like_compile_ok [OF many assms(1), of char_size a] by (auto simp: any_tokens_def)
    have k: "compiled_item (its ! 0)" "pi_type (its ! 0) = piSearch \<longleftrightarrow> lead" "0 < length its"
      using compiled_nth [OF c(2), of 0] c(3) by simp_all
    have "shape its [(0, 0)]" using k by (intro shape_single) (auto simp: branch_ok_def compiled_item_def)
    moreover have "like_match ts U = resid its (0, 0) U" for U
    proof -
      have "like_match ts U = like_match (any_tokens lead @ compiled_tokens its) U" using m [of U] c(4) by (simp add: like_eq_def)
      moreover have "compiled_tokens its = item_tokens (its ! 0) @ compiled_tokens (drop (Suc 0) its)"
        using drop_tokens [OF k(3)] by simp
      ultimately show ?thesis using k(2) by (cases lead) (simp_all add: resid_def Let_def any_tokens_def)
    qed
    moreover have "pi_type (hd its) \<noteq> piNone" using k c(3) by (auto simp: compiled_item_def hd_conv_nth)
    ultimately show ?thesis
      using new c by (cases its) (auto simp: like_reset_def like_seen_def like_state_def)
  qed
qed

text \<open>
  C34. \<^verbatim>\<open>LIKE\<close>: a pattern is refused exactly when an escape character is not followed by a special
  character. Otherwise the evaluator is built within its memory blocks, and however the
  subject is cut into chunks, every loop ends, no read leaves an array and the result is whether
  the pattern matches the whole subject: a percent sign any string, an underscore any
  character, everything else itself.
\<close>

theorem like_evaluator_correct:
  assumes "0 < alignment"
  shows "case like_tokens q pattern of
      None \<Rightarrow> like_new alignment char_size q pattern = Inl isc_like_escape_invalid
    | Some ts \<Rightarrow> \<exists>e e'. like_new alignment char_size q pattern = Inr e \<and> feed like_process chunks e = Some e'
        \<and> like_getResult e' = like_match ts (concat chunks)"
proof (cases "like_tokens q pattern")
  case None
  have "parse_inv q [new_item] pattern" by (simp add: parse_inv_def)
  from like_parse_ok [OF this] None show ?thesis by (auto simp: like_new_def split: prod.splits)
next
  case (Some ts)
  obtain e where e: "like_new alignment char_size q pattern = Inr e" "like_seen ts e []"
    using like_new_ok [OF assms Some] by blast
  then show ?thesis using like.feed_verdict [OF e(2), of chunks] Some by auto
qed

definition sql_syntax :: "char like_syntax" where
  "sql_syntax = \<lparr>escape_char = CHR ''!'', use_escape = True, sql_match_any = CHR ''%'', sql_match_one = CHR ''_''\<rparr>"

theorem like_evaluator_correct_witness:
  "(\<exists>e e'. like_new 8 1 sql_syntax ''a%b_!%'' = Inr e \<and> feed like_process [''axb'', ''b'', ''c%''] e = Some e' \<and> like_getResult e')
   \<and> like_new 8 1 sql_syntax ''a!b'' = Inl isc_like_escape_invalid"
proof
  have t: "like_tokens sql_syntax ''a%b_!%'' = Some [Lit CHR ''a'', Any, Lit CHR ''b'', One, Lit CHR ''%'']"
    by (simp add: sql_syntax_def)
  have "like_match [Lit CHR ''a'', Any, Lit CHR ''b'', One, Lit CHR ''%''] ''axbbc%''"
    by (simp add: like_match.simps)
  then show "\<exists>e e'. like_new 8 1 sql_syntax ''a%b_!%'' = Inr e \<and> feed like_process [''axb'', ''b'', ''c%''] e = Some e' \<and> like_getResult e'"
    using like_evaluator_correct [of 8 1 sql_syntax "''a%b_!%''" "[''axb'', ''b'', ''c%'']"] t by simp
  have "like_tokens sql_syntax ''a!b'' = None" by (simp add: sql_syntax_def)
  then show "like_new 8 1 sql_syntax ''a!b'' = Inl isc_like_escape_invalid"
    using like_evaluator_correct [of 8 1 sql_syntax "''a!b''" "[]"] by simp
qed

end
