(* ===== verification/FB_SortKey.thy ===== *)
theory FB_SortKey
  imports FB_Prelude "HOL-Library.List_Lexorder" "HOL-Library.Monad_Syntax"
begin

unbundle bit_operations_syntax

section \<open>Sort keys\<close>

text \<open>
  The key descriptions of \<^verbatim>\<open>jrd/sort.h\<close> and \<^verbatim>\<open>diddle_key\<close> of \<^verbatim>\<open>jrd/sort.cpp\<close> (the variant for little
  endian machines with IEEE numbers), which turns the fields of a record in place into longwords that
  can be compared as unsigned numbers, and back. A record is the list of its bytes; an access outside
  it makes the operation fail.
\<close>

subsection \<open>Descriptions\<close>

datatype skd_type = SKD_long | SKD_ulong | SKD_short | SKD_ushort | SKD_text | SKD_float | SKD_double
  | SKD_quad | SKD_timestamp1 | SKD_bytes | SKD_d_float | SKD_varying | SKD_cstring | SKD_sql_time
  | SKD_sql_date | SKD_timestamp2 | SKD_int64

record sort_key_def =
  skd_dtype :: skd_type
  skd_flags :: byte
  skd_length :: nat
  skd_offset :: nat
  skd_vary_offset :: nat

definition SKD_descending :: byte where "SKD_descending = 1"

definition SKD_binary :: byte where "SKD_binary = 4"

subsection \<open>Access to the bytes of a record\<close>

definition get_ushort :: "nat \<Rightarrow> byte list \<Rightarrow> nat" where
  "get_ushort i bs = le_val [bs ! i, bs ! (i + 1)]"

definition put_ushort :: "nat \<Rightarrow> nat \<Rightarrow> byte list \<Rightarrow> byte list" where
  "put_ushort i v bs = bs[i := word_of_nat v, i + 1 := word_of_nat (v div 256)]"

primrec memset :: "nat \<Rightarrow> byte \<Rightarrow> nat \<Rightarrow> byte list \<Rightarrow> byte list" where
  "memset i c 0 bs = bs"
| "memset i c (Suc n) bs = memset (Suc i) c n (bs[i := c])"

text \<open>\<^verbatim>\<open>p[i] ^= 1 << 7\<close>\<close>

definition flip_sign :: "nat \<Rightarrow> byte list \<Rightarrow> byte list" where
  "flip_sign i bs = bs[i := (bs ! i) XOR 128]"

definition sign_bit :: "nat \<Rightarrow> byte list \<Rightarrow> bool" where
  "sign_bit i bs = (drop_bit 7 (bs ! i) = 1)"

text \<open>\<^verbatim>\<open>SWAP_LONGS(lwp[0], lwp[1], lw)\<close>\<close>

definition swap_longs :: "nat \<Rightarrow> byte list \<Rightarrow> byte list" where
  "swap_longs i bs = take i bs @ take 4 (drop (i + 4) bs) @ take 4 (drop i bs) @ drop (i + 8) bs"

text \<open>The loop that turns the four bytes of each longword around.\<close>

primrec reverse_longs :: "nat \<Rightarrow> nat \<Rightarrow> byte list \<Rightarrow> byte list" where
  "reverse_longs i 0 bs = bs"
| "reverse_longs i (Suc m) bs = reverse_longs (i + 4) m
    (bs[i := bs ! (i + 3), i + 3 := bs ! i, i + 1 := bs ! (i + 2), i + 2 := bs ! (i + 1)])"

text \<open>\<^verbatim>\<open>do { *p++ ^= -1; } while (--n)\<close>\<close>

primrec complement_bytes :: "nat \<Rightarrow> nat \<Rightarrow> byte list \<Rightarrow> byte list" where
  "complement_bytes i 0 bs = bs"
| "complement_bytes i (Suc n) bs = complement_bytes (Suc i) n (bs[i := NOT (bs ! i)])"

subsection \<open>The conversion of one field\<close>

definition skd_rounded :: "sort_key_def \<Rightarrow> nat" where
  "skd_rounded key = to_ushort (ROUNDUP (skd_length key) 4)"

definition is_descending :: "sort_key_def \<Rightarrow> bool" where
  "is_descending key = ((skd_flags key AND SKD_descending) \<noteq> 0)"

definition fill_char :: "sort_key_def \<Rightarrow> byte" where
  "fill_char key = (if (skd_flags key AND SKD_binary) \<noteq> 0 then 0 else 32)"

fun skd_width :: "skd_type \<Rightarrow> nat" where
  "skd_width SKD_short = 2"
| "skd_width SKD_varying = 2"
| "skd_width SKD_quad = 8"
| "skd_width SKD_int64 = 8"
| "skd_width SKD_double = 8"
| "skd_width SKD_ulong = 0"
| "skd_width SKD_ushort = 0"
| "skd_width SKD_text = 0"
| "skd_width SKD_bytes = 0"
| "skd_width SKD_cstring = 0"
| "skd_width SKD_d_float = 0"
| "skd_width _ = 4"

text \<open>The field lies within the record, and so does the place for its stashed length.\<close>

definition key_fits :: "sort_key_def \<Rightarrow> byte list \<Rightarrow> bool" where
  "key_fits key bs = (skd_offset key + max (skd_rounded key) (skd_width (skd_dtype key)) \<le> length bs \<and>
     (skd_dtype key \<in> {SKD_varying, SKD_cstring} \<longrightarrow> skd_vary_offset key + 2 \<le> length bs))"

text \<open>
  Before a record is compared, the length of a \<^verbatim>\<open>varying\<close> or \<^verbatim>\<open>cstring\<close> is stashed away and the rest of the
  field is filled. The fill length is unsigned: with a length beyond the field it would wrap and the fill
  would leave the record.
\<close>

definition stash_length :: "bool \<Rightarrow> sort_key_def \<Rightarrow> byte list \<Rightarrow> byte list option" where
  "stash_length sorted_flag key bs =
    (let p = skd_offset key; v = skd_vary_offset key; n = skd_rounded key in
     if skd_dtype key = SKD_varying then
       if sorted_flag then Some (put_ushort p 0 bs)
       else (let l = get_ushort p bs in
             if 2 + l \<le> n
             then Some (put_ushort p 0 (memset (p + 2 + l) (fill_char key) (n - 2 - l) (put_ushort v l bs)))
             else None)
     else if skd_dtype key = SKD_cstring then
       if sorted_flag
       then (let l = get_ushort v bs in
             if p + l < length bs then Some (bs[p + l := fill_char key]) else None)
       else (let l = length (takeWhile (\<lambda>b. b \<noteq> 0) (drop p bs)) in
             if p + l < length bs \<and> l \<le> n
             then Some (memset (p + l) (fill_char key) (n - l) (put_ushort v l bs))
             else None)
     else Some bs)"

text \<open>Floating point numbers: the sign decides whether to set the sign bit or to complement everything.\<close>

definition convert_sign :: "bool \<Rightarrow> nat \<Rightarrow> bool \<Rightarrow> byte list \<Rightarrow> bool \<times> byte list" where
  "convert_sign direction i complement bs =
    (let flag = (if direction \<or> \<not> complement then direction else True) in
     if flag \<noteq> sign_bit i bs then (complement, flip_sign i bs) else (\<not> complement, bs))"

text \<open>The \<^verbatim>\<open>switch\<close>; the result has the updated \<^verbatim>\<open>complement\<close>.\<close>

definition convert_field :: "bool \<Rightarrow> sort_key_def \<Rightarrow> byte list \<Rightarrow> bool \<times> byte list" where
  "convert_field direction key bs =
    (let p = skd_offset key; complement = is_descending key in
     case skd_dtype key of
       SKD_timestamp1 \<Rightarrow> (complement, flip_sign (p + 3) bs)
     | SKD_timestamp2 \<Rightarrow> (complement, flip_sign (p + 3) bs)
     | SKD_sql_time \<Rightarrow> (complement, flip_sign (p + 3) bs)
     | SKD_sql_date \<Rightarrow> (complement, flip_sign (p + 3) bs)
     | SKD_ulong \<Rightarrow> (complement, bs)
     | SKD_ushort \<Rightarrow> (complement, bs)
     | SKD_text \<Rightarrow> (complement, reverse_longs p (skd_rounded key div 4) bs)
     | SKD_bytes \<Rightarrow> (complement, reverse_longs p (skd_rounded key div 4) bs)
     | SKD_cstring \<Rightarrow> (complement, reverse_longs p (skd_rounded key div 4) bs)
     | SKD_varying \<Rightarrow> (complement, reverse_longs p (skd_rounded key div 4) bs)
     | SKD_short \<Rightarrow> (complement, flip_sign (p + 1) bs)
     | SKD_long \<Rightarrow> (complement, flip_sign (p + 3) bs)
     | SKD_quad \<Rightarrow> (complement, flip_sign (p + 7) bs)
     | SKD_int64 \<Rightarrow>
         (complement,
          (if direction then swap_longs p else (\<lambda>x. x))
            (flip_sign (p + 7) ((if direction then (\<lambda>x. x) else swap_longs p) bs)))
     | SKD_double \<Rightarrow>
         (let (c, x) = convert_sign direction (p + 7) complement
                         ((if direction then (\<lambda>x. x) else swap_longs p) bs)
          in (c, (if direction then swap_longs p else (\<lambda>x. x)) x))
     | SKD_float \<Rightarrow> convert_sign direction (p + 3) complement bs
     | SKD_d_float \<Rightarrow> (complement, bs))"

text \<open>When a record is given back, the stashed length is put into place again.\<close>

definition restore_length :: "sort_key_def \<Rightarrow> byte list \<Rightarrow> byte list option" where
  "restore_length key bs =
    (let p = skd_offset key; l = get_ushort (skd_vary_offset key) bs in
     if skd_dtype key = SKD_varying then Some (put_ushort p l bs)
     else if skd_dtype key = SKD_cstring then if p + l < length bs then Some (bs[p + l := 0]) else None
     else Some bs)"

definition diddle_field :: "bool \<Rightarrow> bool \<Rightarrow> sort_key_def \<Rightarrow> byte list \<Rightarrow> byte list option" where
  "diddle_field sorted_flag direction key bs =
    (if key_fits key bs then do {
       bs1 \<leftarrow> (if direction then stash_length sorted_flag key bs else Some bs);
       let (complement, bs2) = convert_field direction key bs1;
       let bs3 = (if complement then complement_bytes (skd_offset key) (skd_rounded key) bs2 else bs2);
       (if direction then Some bs3 else restore_length key bs3)
     } else None)"

primrec diddle_key :: "bool \<Rightarrow> bool \<Rightarrow> sort_key_def list \<Rightarrow> byte list \<Rightarrow> byte list option" where
  "diddle_key sorted_flag direction [] bs = Some bs"
| "diddle_key sorted_flag direction (key # keys) bs =
    do { bs1 \<leftarrow> diddle_field sorted_flag direction key bs; diddle_key sorted_flag direction keys bs1 }"

subsection \<open>Longwords\<close>

text \<open>The record seen as an array of \<^verbatim>\<open>SORTP\<close>.\<close>

fun longs_of :: "byte list \<Rightarrow> ulong list" where
  "longs_of (a # b # c # d # bs) = word_of_nat (le_val [a, b, c, d]) # longs_of bs"
| "longs_of _ = []"

lemma length_longs_of [simp]: "length (longs_of bs) = length bs div 4"
  by (induction bs rule: longs_of.induct) auto

end
