(* ===== verification/FB_Sort.thy ===== *)
theory FB_Sort
  imports FB_SortKey "HOL-Library.Multiset"
begin

section \<open>The in-memory sort\<close>

text \<open>
  \<^verbatim>\<open>quick\<close>, \<^verbatim>\<open>swap\<close> and \<^verbatim>\<open>sort\<close> of \<^verbatim>\<open>jrd/sort.cpp\<close>. The sort memory holds an array of pointers, from
  \<^verbatim>\<open>scb_first_pointer\<close> up, and the records, from its end down; every record is preceded by the back
  pointer to its entry of the array. Entries are numbered from 0, the one of the low key. Records are
  numbered in the order in which they were put, so that record \<^term>\<open>p - 1\<close> follows record \<^term>\<open>p\<close> in memory
  and record 0 ends where the memory ends.
\<close>

subsection \<open>Sort memory\<close>

text \<open>
  Sizes are in longwords. \<^verbatim>\<open>scb_last_record\<close> is kept as the number of records in memory, from which its
  address follows; \<^verbatim>\<open>sr_bckptr\<close> and \<^verbatim>\<open>sort_record_key\<close> are the fields of the records by their number. The
  last four fields describe the platform: the size of the back pointer with its padding and of an
  entry of the array, the first longword of a back pointer, and what a read at the end of the sort
  memory yields, if it does not fault.
\<close>

datatype sort_ptr = NULL | low_key | high_key | Rec nat

type_synonym dup_callback = "byte list \<Rightarrow> byte list \<Rightarrow> bool"

record sort_context =
  scb_longs :: nat
  scb_pointers :: "sort_ptr list"
  scb_next_pointer :: nat
  scb_last_record :: nat
  scb_records :: nat
  scb_key_length :: nat
  scb_unique_length :: nat
  scb_description :: "sort_key_def list"
  scb_sorted :: bool
  scb_dup_callback :: "dup_callback option"
  sr_bckptr :: "nat \<Rightarrow> nat option"
  sort_record_key :: "nat \<Rightarrow> byte list"
  scb_size_memory :: nat
  SIZEOF_SR_BCKPTR_IN_LONGS :: nat
  pointer_longs :: nat
  bckptr_long :: "nat option \<Rightarrow> ulong"
  past_end_memory :: "ulong option"

text \<open>
  The longword at a distance from a key. Behind the last longword of a record comes the back pointer
  of the record that follows it in memory, or the end of the sort memory. A null pointer cannot be
  read, nor can the guards beyond their length.
\<close>

definition long_at :: "sort_context \<Rightarrow> sort_ptr \<Rightarrow> nat \<Rightarrow> ulong option" where
  "long_at s ptr k = (case ptr of
     NULL \<Rightarrow> None
   | low_key \<Rightarrow> if k < 6 then Some 0 else None
   | high_key \<Rightarrow> if k < 64 then Some (- 1) else None
   | Rec p \<Rightarrow>
       if k < length (longs_of (sort_record_key s p)) then Some (longs_of (sort_record_key s p) ! k)
       else if k = length (longs_of (sort_record_key s p))
       then (case p of 0 \<Rightarrow> past_end_memory s | Suc q \<Rightarrow> Some (bckptr_long s (sr_bckptr s q)))
       else None)"

definition pointer_at :: "sort_context \<Rightarrow> nat \<Rightarrow> sort_ptr option" where
  "pointer_at s i = (if i < length (scb_pointers s) then Some (scb_pointers s ! i) else None)"

text \<open>\<^verbatim>\<open>**i\<close>\<close>

definition first_long :: "sort_context \<Rightarrow> nat \<Rightarrow> ulong option" where
  "first_long s i = do { p \<leftarrow> pointer_at s i; long_at s p 0 }"

text \<open>The comparison loop: the first two different longwords among the next \<^verbatim>\<open>tl\<close>, if any.\<close>

fun compare_longs :: "sort_context \<Rightarrow> sort_ptr \<Rightarrow> sort_ptr \<Rightarrow> nat \<Rightarrow> nat \<Rightarrow> (ulong \<times> ulong) option option" where
  "compare_longs s p q k 0 = Some None"
| "compare_longs s p q k (Suc n) =
    do { x \<leftarrow> long_at s p k; y \<leftarrow> long_at s q k;
         (if x = y then compare_longs s p q (Suc k) n else Some (Some (x, y))) }"

definition compare_records :: "sort_context \<Rightarrow> nat \<Rightarrow> nat \<Rightarrow> nat \<Rightarrow> (ulong \<times> ulong) option option" where
  "compare_records s i j n = do { p \<leftarrow> pointer_at s i; q \<leftarrow> pointer_at s j; compare_longs s p q 0 n }"

text \<open>\<^verbatim>\<open>tl && *p > *q\<close> and \<^verbatim>\<open>tl && *p < *q\<close> behind the loop\<close>

definition found_greater :: "(ulong \<times> ulong) option \<Rightarrow> bool" where
  "found_greater d = (case d of None \<Rightarrow> False | Some (x, y) \<Rightarrow> x > y)"

definition found_less :: "(ulong \<times> ulong) option \<Rightarrow> bool" where
  "found_less d = (case d of None \<Rightarrow> False | Some (x, y) \<Rightarrow> x < y)"

subsection \<open>Quicksort\<close>

text \<open>Two entries are exchanged and the back pointers of their records adjusted.\<close>

definition swap_entries :: "nat \<Rightarrow> nat \<Rightarrow> sort_context \<Rightarrow> sort_context option" where
  "swap_entries a b s = do {
     p \<leftarrow> pointer_at s a;
     q \<leftarrow> pointer_at s b;
     (case (p, q) of
        (Rec x, Rec y) \<Rightarrow> Some (s\<lparr>sr_bckptr := (sr_bckptr s)(x := Some b, y := Some a),
                                 scb_pointers := (scb_pointers s)[a := q, b := p]\<rparr>)
      | _ \<Rightarrow> None) }"

lemma swap_entries_eq_Some:
  "swap_entries a b s = Some t \<longleftrightarrow> (\<exists>x y. pointer_at s a = Some (Rec x) \<and> pointer_at s b = Some (Rec y) \<and>
     t = s\<lparr>sr_bckptr := (sr_bckptr s)(x := Some b, y := Some a),
           scb_pointers := (scb_pointers s)[a := Rec y, b := Rec x]\<rparr>)"
  unfolding swap_entries_def by (cases "pointer_at s a"; cases "pointer_at s b") (auto split: sort_ptr.split)

lemma swap_entries_next: "swap_entries a b s = Some t \<Longrightarrow> scb_next_pointer t = scb_next_pointer s"
  by (auto simp: swap_entries_eq_Some)

text \<open>\<^verbatim>\<open>while (**i < key) i++\<close>\<close>

function scan_up :: "sort_context \<Rightarrow> ulong \<Rightarrow> nat \<Rightarrow> nat option" where
  "scan_up s key i = (case first_long s i of None \<Rightarrow> None
     | Some w \<Rightarrow> if w < key then scan_up s key (Suc i) else Some i)"
  by pat_completeness auto

termination
  by (relation "measure (\<lambda>(s, key, i). length (scb_pointers s) - i)")
     (auto simp: first_long_def pointer_at_def split: if_splits)

text \<open>\<^verbatim>\<open>while (**j > key) j--\<close>; below the low key there is nothing to read.\<close>

fun scan_down :: "sort_context \<Rightarrow> ulong \<Rightarrow> nat \<Rightarrow> nat option" where
  "scan_down s key j = (case first_long s j of None \<Rightarrow> None
     | Some w \<Rightarrow> if w > key then (case j of 0 \<Rightarrow> None | Suc j' \<Rightarrow> scan_down s key j') else Some j)"

text \<open>The loops over records whose first longword is that of the record \<^verbatim>\<open>r\<close>.\<close>

function pass_up :: "sort_context \<Rightarrow> nat \<Rightarrow> nat \<Rightarrow> nat \<Rightarrow> nat \<Rightarrow> nat option" where
  "pass_up s r su n i =
    (if i \<le> su then (case compare_records s i r n of None \<Rightarrow> None
       | Some d \<Rightarrow> if found_greater d then Some i else pass_up s r su n (Suc i))
     else Some i)"
  by pat_completeness auto

termination
  by (relation "measure (\<lambda>(s, r, su, n, i). Suc su - i)") auto

fun pass_down :: "sort_context \<Rightarrow> nat \<Rightarrow> nat \<Rightarrow> nat \<Rightarrow> nat option" where
  "pass_down s r n j =
    (if j \<noteq> r then (case compare_records s j r n of None \<Rightarrow> None
       | Some d \<Rightarrow> if found_less d then Some j else (case j of 0 \<Rightarrow> None | Suc j' \<Rightarrow> pass_down s r n j'))
     else Some j)"

definition move_up :: "sort_context \<Rightarrow> nat \<Rightarrow> nat \<Rightarrow> nat \<Rightarrow> ulong \<Rightarrow> nat \<Rightarrow> nat option" where
  "move_up s r su len key i = do {
     i1 \<leftarrow> scan_up s key i;
     w \<leftarrow> first_long s i1;
     (if w = key then pass_up s r su (len - 1) i1 else Some i1) }"

definition move_down :: "sort_context \<Rightarrow> nat \<Rightarrow> nat \<Rightarrow> ulong \<Rightarrow> nat \<Rightarrow> nat option" where
  "move_down s r len key j = do {
     j1 \<leftarrow> scan_down s key j;
     w \<leftarrow> first_long s j1;
     (if w = key then pass_down s r (len - 1) j1 else Some j1) }"

declare scan_up.simps [simp del] scan_down.simps [simp del] pass_up.simps [simp del] pass_down.simps [simp del]

lemma scan_up_ge: "scan_up s key i = Some i' \<Longrightarrow> i \<le> i'"
proof (induction s key i rule: scan_up.induct)
  case (1 s key i)
  from 1(2) show ?case
    by (subst (asm) scan_up.simps) (auto split: option.splits if_splits dest: 1(1))
qed

lemma pass_up_ge: "pass_up s r su n i = Some i' \<Longrightarrow> i \<le> i'"
proof (induction s r su n i rule: pass_up.induct)
  case (1 s r su n i)
  from 1(2) show ?case
    by (subst (asm) pass_up.simps) (auto split: option.splits if_splits dest: 1(1))
qed

lemma scan_down_le: "scan_down s key j = Some j' \<Longrightarrow> j' \<le> j"
proof (induction j)
  case 0 then show ?case by (subst (asm) scan_down.simps) (auto split: option.splits if_splits)
next
  case (Suc j) 
  from Suc(2) show ?case by (subst (asm) scan_down.simps) (auto split: option.splits if_splits dest: Suc(1))
qed

lemma pass_down_le: "pass_down s r n j = Some j' \<Longrightarrow> j' \<le> j"
proof (induction j)
  case 0 then show ?case by (subst (asm) pass_down.simps) (auto split: option.splits if_splits)
next
  case (Suc j) 
  from Suc(2) show ?case by (subst (asm) pass_down.simps) (auto split: option.splits if_splits dest: Suc(1))
qed

lemma move_up_ge: "move_up s r su len key i = Some i' \<Longrightarrow> i \<le> i'"
  by (auto simp: move_up_def bind_eq_Some_conv split: if_splits dest!: scan_up_ge pass_up_ge)

lemma move_down_le: "move_down s r len key j = Some j' \<Longrightarrow> j' \<le> j"
  by (auto simp: move_down_def bind_eq_Some_conv split: if_splits dest!: scan_down_le pass_down_le)

text \<open>The two ends converge, exchanging records that are on the wrong side.\<close>

function partition_loop :: "nat \<Rightarrow> nat \<Rightarrow> nat \<Rightarrow> ulong \<Rightarrow> sort_context \<Rightarrow> nat \<Rightarrow> nat \<Rightarrow> (sort_context \<times> nat) option" where
  "partition_loop r su len key s i j =
    (case move_up s r su len key i of None \<Rightarrow> None | Some i' \<Rightarrow>
     (case move_down s r len key j of None \<Rightarrow> None | Some j' \<Rightarrow>
      if i' \<ge> j' then Some (s, j')
      else (case swap_entries i' j' s of None \<Rightarrow> None | Some t \<Rightarrow>
            partition_loop r su len key t (i' + 1) (j' - 1))))"
  by pat_completeness auto

termination
  by (relation "measure (\<lambda>(r, su, len, key, s, i, j). j - i)") (auto dest!: move_up_ge move_down_le)

declare partition_loop.simps [simp del]

text \<open>
  The two stacks \<^verbatim>\<open>stack_lower\<close> and \<^verbatim>\<open>stack_upper\<close> move together: they are a list of intervals, with the top
  first. They have room for 50.
\<close>

definition push_interval :: "nat \<times> nat \<Rightarrow> (nat \<times> nat) list \<Rightarrow> (nat \<times> nat) list option" where
  "push_interval e st = (if length st < 50 then Some (e # st) else None)"

text \<open>The work on one interval of more than two entries; the result has the final place of its first record.\<close>

definition split_interval :: "nat \<Rightarrow> nat \<Rightarrow> nat \<Rightarrow> sort_context \<Rightarrow> (sort_context \<times> nat) option" where
  "split_interval len r su s = do {
     s1 \<leftarrow> swap_entries (r + (su - r) div 2) r s;
     key \<leftarrow> first_long s1 r;
     (s2, j) \<leftarrow> partition_loop r su len key s1 (r + 1) su;
     s3 \<leftarrow> swap_entries r j s2;
     Some (s3, j) }"

definition push_parts :: "nat \<Rightarrow> nat \<Rightarrow> nat \<Rightarrow> (nat \<times> nat) list \<Rightarrow> (nat \<times> nat) list option" where
  "push_parts r j su st =
    (if int j - int r > int su - int j + 1
     then Option.bind (push_interval (r, j - 1) st) (push_interval (j + 1, su))
     else Option.bind (push_interval (j + 1, su) st) (push_interval (r, j - 1)))"

partial_function (option) quick_loop :: "nat \<Rightarrow> (nat \<times> nat) list \<Rightarrow> sort_context \<Rightarrow> sort_context option" where
  "quick_loop len stack s = (case stack of [] \<Rightarrow> Some s
    | (r, su) # st \<Rightarrow>
      if int su - int r < 2 then quick_loop len st s
      else Option.bind (split_interval len r su s) (\<lambda>(t, j).
             Option.bind (push_parts r j su st) (\<lambda>st'. quick_loop len st' t)))"

declare quick_loop.simps [code]

text \<open>\<^verbatim>\<open>pointers\<close> is the entry number of the first record.\<close>

definition quick :: "nat \<Rightarrow> nat \<Rightarrow> nat \<Rightarrow> sort_context \<Rightarrow> sort_context option" where
  "quick n pointers len s = quick_loop len [(pointers, pointers + n - 1)] s"

subsection \<open>The final passes\<close>

text \<open>Pairs that are out of order are straightened out.\<close>

function pair_pass :: "nat \<Rightarrow> sort_context \<Rightarrow> sort_context option" where
  "pair_pass j s =
    (if j + 1 < scb_next_pointer s then
       Option.bind (first_long s j) (\<lambda>x. Option.bind (first_long s (j + 1)) (\<lambda>y.
         if x \<ge> y then
           (case compare_records s j (j + 1) (scb_longs s - 1) of None \<Rightarrow> None
            | Some d \<Rightarrow>
                if found_greater d
                then (case swap_entries j (j + 1) s of None \<Rightarrow> None | Some t \<Rightarrow> pair_pass (j + 1) t)
                else pair_pass (j + 1) s)
         else pair_pass (j + 1) s))
     else Some s)"
  by pat_completeness auto

termination
  by (relation "measure (\<lambda>(j, s). scb_next_pointer s - j)") (auto dest: swap_entries_next)

declare pair_pass.simps [simp del]

text \<open>\<^verbatim>\<open>DO_32_COMPARE\<close>: true if all longwords are equal. The counter is decremented before it is tested, so that a
  zero makes it run around.\<close>

definition do_32_compare :: "sort_context \<Rightarrow> sort_ptr \<Rightarrow> sort_ptr \<Rightarrow> nat \<Rightarrow> bool option" where
  "do_32_compare s p q l = map_option (\<lambda>d. d = None) (compare_longs s p q 0 (if l = 0 then 2 ^ 32 else l))"

definition diddle_record :: "bool \<Rightarrow> nat \<Rightarrow> sort_context \<Rightarrow> sort_context option" where
  "diddle_record direction p s = do {
     bs \<leftarrow> diddle_key (scb_sorted s) direction (scb_description s) (sort_record_key s p);
     Some (s\<lparr>sort_record_key := (sort_record_key s)(p := bs)\<rparr>) }"

text \<open>
  Two records with equal keys are turned back and offered to the caller, who may have the first one
  dropped.
\<close>

definition offer_duplicate :: "dup_callback \<Rightarrow> nat \<Rightarrow> nat \<Rightarrow> nat \<Rightarrow> sort_context \<Rightarrow> sort_context option" where
  "offer_duplicate callback i x y s = do {
     s1 \<leftarrow> diddle_record False x s;
     s2 \<leftarrow> diddle_record False y s1;
     (if callback (sort_record_key s2 x) (sort_record_key s2 y)
      then diddle_record True y (s2\<lparr>sr_bckptr := (sr_bckptr s2)(x := None),
                                    scb_pointers := (scb_pointers s2)[i := NULL]\<rparr>)
      else do { s3 \<leftarrow> diddle_record True x s2; diddle_record True y s3 }) }"

definition duplicate_step :: "dup_callback \<Rightarrow> nat \<Rightarrow> sort_context \<Rightarrow> sort_context option" where
  "duplicate_step callback i s = do {
     p \<leftarrow> pointer_at s i;
     q \<leftarrow> pointer_at s (i + 1);
     u \<leftarrow> long_at s p 0;
     v \<leftarrow> long_at s q 0;
     (if u \<noteq> v then Some s
      else do {
        equal \<leftarrow> do_32_compare s p q (scb_unique_length s);
        (if \<not> equal then Some s
         else (case (p, q) of (Rec x, Rec y) \<Rightarrow> offer_duplicate callback i x y s | _ \<Rightarrow> None)) }) }"

primrec duplicate_pass :: "dup_callback \<Rightarrow> nat \<Rightarrow> nat \<Rightarrow> sort_context \<Rightarrow> sort_context option" where
  "duplicate_pass callback 0 i s = Some s"
| "duplicate_pass callback (Suc n) i s =
    do { t \<leftarrow> duplicate_step callback i s; duplicate_pass callback n (i + 1) t }"

definition sort_memory :: "sort_context \<Rightarrow> sort_context option" where
  "sort_memory s = do {
     let s1 = s\<lparr>scb_pointers := take (scb_next_pointer s) (scb_pointers s) @ [high_key]\<rparr>;
     s2 \<leftarrow> quick (scb_next_pointer s - 1) 1 (scb_longs s) s1;
     s3 \<leftarrow> pair_pass 1 s2;
     (case scb_dup_callback s of None \<Rightarrow> Some s3
      | Some callback \<Rightarrow> duplicate_pass callback (scb_next_pointer s - 2) 1 s3) }"

subsection \<open>The operations of a sort that fits into memory\<close>

text \<open>
  \<^verbatim>\<open>SORT_init\<close>, with the memory that was granted and the platform; \<^verbatim>\<open>init\<close> enters the low key. Without keys
  or unique keys the code would read in front of the descriptions.
\<close>

definition SORT_init ::
  "nat \<Rightarrow> nat \<Rightarrow> nat \<Rightarrow> sort_key_def list \<Rightarrow> dup_callback option \<Rightarrow> nat \<Rightarrow> nat \<Rightarrow> nat \<Rightarrow> (nat option \<Rightarrow> ulong) \<Rightarrow> ulong option
    \<Rightarrow> sort_context option" where
  "SORT_init alignment record_length unique_keys key_description call_back size_memory bckptr pointer_size lng past_end =
    (if key_description = [] \<or> unique_keys = 0 then None
     else (let l = last key_description; p = key_description ! (min unique_keys (length key_description) - 1) in
       Some \<lparr>scb_longs = to_ushort (ROUNDUP (record_length + 4 * bckptr) alignment div 4),
             scb_pointers = [low_key], scb_next_pointer = 1, scb_last_record = 0, scb_records = 0,
             scb_key_length = ROUNDUP (skd_offset l + skd_length l) 4 div 4,
             scb_unique_length = ROUNDUP (skd_offset p + skd_length p) 4 div 4,
             scb_description = key_description, scb_sorted = False, scb_dup_callback = call_back,
             sr_bckptr = (\<lambda>p. None), sort_record_key = (\<lambda>p. []), scb_size_memory = size_memory,
             SIZEOF_SR_BCKPTR_IN_LONGS = bckptr, pointer_longs = pointer_size, bckptr_long = lng,
             past_end_memory = past_end\<rparr>))"

text \<open>
  The test for room for one more record. When there is none, the code sorts what it has and writes it
  to a scratch file; the model has no scratch files and fails.
\<close>

definition has_room :: "sort_context \<Rightarrow> bool" where
  "has_room s = (let record = scb_size_memory s - scb_last_record s * scb_longs s in
     \<not> (record < scb_longs s \<or> record - scb_longs s \<le> (scb_next_pointer s + 1) * pointer_longs s))"

definition diddle_last :: "sort_context \<Rightarrow> sort_context option" where
  "diddle_last s = (if scb_last_record s = 0 then Some s else diddle_record True (scb_last_record s - 1) s)"

definition SORT_put :: "sort_context \<Rightarrow> (sort_context \<times> nat) option" where
  "SORT_put s = do {
     s1 \<leftarrow> diddle_last s;
     (if has_room s1 then
        let record = scb_last_record s1 in
        Some (s1\<lparr>scb_last_record := record + 1,
                 sr_bckptr := (sr_bckptr s1)(record := Some (scb_next_pointer s1)),
                 scb_pointers := take (scb_next_pointer s1) (scb_pointers s1) @ [Rec record],
                 scb_next_pointer := scb_next_pointer s1 + 1,
                 scb_records := scb_records s1 + 1\<rparr>, record)
      else None) }"

text \<open>The caller moves the record to the address it was given.\<close>

definition put_record :: "byte list \<Rightarrow> sort_context \<Rightarrow> sort_context option" where
  "put_record bs s = do {
     (s1, p) \<leftarrow> SORT_put s;
     Some (s1\<lparr>sort_record_key := (sort_record_key s1)(p := bs)\<rparr>) }"

primrec put_records :: "byte list list \<Rightarrow> sort_context \<Rightarrow> sort_context option" where
  "put_records [] s = Some s"
| "put_records (bs # bss) s = do { s1 \<leftarrow> put_record bs s; put_records bss s1 }"

definition SORT_sort :: "sort_context \<Rightarrow> sort_context option" where
  "SORT_sort s = do {
     s1 \<leftarrow> diddle_last s;
     s2 \<leftarrow> sort_memory s1;
     Some (s2\<lparr>scb_next_pointer := 1, scb_sorted := True\<rparr>) }"

text \<open>The loop of \<^verbatim>\<open>SORT_get\<close> passes over the entries of eliminated records.\<close>

primrec next_record :: "nat \<Rightarrow> sort_context \<Rightarrow> (sort_context \<times> nat option) option" where
  "next_record 0 s = Some (s, None)"
| "next_record (Suc n) s =
    (let t = s\<lparr>scb_records := n, scb_next_pointer := scb_next_pointer s + 1\<rparr> in
     case pointer_at s (scb_next_pointer s) of
       Some NULL \<Rightarrow> next_record n t
     | Some (Rec p) \<Rightarrow> Some (t, Some p)
     | _ \<Rightarrow> None)"

definition SORT_get :: "sort_context \<Rightarrow> (sort_context \<times> byte list option) option" where
  "SORT_get s = do {
     (s1, record) \<leftarrow> next_record (scb_records s) s;
     (case record of None \<Rightarrow> Some (s1, None)
      | Some p \<Rightarrow> do { s2 \<leftarrow> diddle_record False p s1; Some (s2, Some (sort_record_key s2 p)) }) }"

text \<open>A caller fetches records until there are no more, or at most so many.\<close>

primrec get_records :: "nat \<Rightarrow> sort_context \<Rightarrow> byte list list option" where
  "get_records 0 s = Some []"
| "get_records (Suc n) s = do {
     (s1, r) \<leftarrow> SORT_get s;
     (case r of None \<Rightarrow> Some [] | Some bs \<Rightarrow> do { bss \<leftarrow> get_records n s1; Some (bs # bss) }) }"

end
