(* ===== verification/FB_SortMem.thy ===== *)
theory FB_SortMem
  imports FB_Sort
begin

section \<open>The in-memory sort is correct\<close>

text \<open>
  What the scans, the partition, the loop over the intervals and the pass over the pairs do to the
  keys, seen through the array of pointers, and that the stacks never overflow.
\<close>

subsection \<open>Sort memory during the sort\<close>

definition in_memory :: "nat \<Rightarrow> sort_context \<Rightarrow> bool" where
  "in_memory n s = (length (scb_pointers s) = n + 2 \<and> scb_next_pointer s = n + 1 \<and>
     scb_pointers s ! 0 = low_key \<and> scb_pointers s ! (n + 1) = high_key \<and>
     (\<forall>i. 1 \<le> i \<and> i \<le> n \<longrightarrow> (\<exists>p. scb_pointers s ! i = Rec p \<and> sr_bckptr s p = Some i \<and>
        length (sort_record_key s p) = 4 * (scb_longs s - SIZEOF_SR_BCKPTR_IN_LONGS s))) \<and>
     SIZEOF_SR_BCKPTR_IN_LONGS s \<in> {1, 2} \<and> SIZEOF_SR_BCKPTR_IN_LONGS s < scb_longs s \<and>
     (SIZEOF_SR_BCKPTR_IN_LONGS s = 2 \<longrightarrow> past_end_memory s \<noteq> None))"

text \<open>The longwords of the record at an entry.\<close>

definition entry_longs :: "sort_context \<Rightarrow> nat \<Rightarrow> ulong list" where
  "entry_longs s i = (case scb_pointers s ! i of Rec p \<Rightarrow> longs_of (sort_record_key s p) | _ \<Rightarrow> [])"

lemma entry_longs_cong:
  "scb_pointers t ! x = scb_pointers s ! y \<Longrightarrow> sort_record_key t = sort_record_key s \<Longrightarrow> entry_longs t x = entry_longs s y"
  by (simp add: entry_longs_def split: sort_ptr.split)

lemma in_memory_entry:
  assumes "in_memory n s" and "1 \<le> i" and "i \<le> n"
  obtains p where "scb_pointers s ! i = Rec p" "sr_bckptr s p = Some i"
    "length (sort_record_key s p) = 4 * (scb_longs s - SIZEOF_SR_BCKPTR_IN_LONGS s)"
    "pointer_at s i = Some (Rec p)" "entry_longs s i = longs_of (sort_record_key s p)"
  using assms unfolding in_memory_def pointer_at_def entry_longs_def by fastforce

subsection \<open>Comparisons\<close>

lemma compare_longs_order:
  assumes "length (longs_of (sort_record_key s p)) = m" and "length (longs_of (sort_record_key s q)) = m"
    and "k \<le> m" and "m \<le> k + n" and "k + n \<le> m + 1"
    and "m < k + n \<Longrightarrow> past_end_memory s \<noteq> None"
  shows "\<exists>d. compare_longs s (Rec p) (Rec q) k n = Some d \<and>
    (found_greater d \<longrightarrow> drop k (longs_of (sort_record_key s q)) \<le> drop k (longs_of (sort_record_key s p))) \<and>
    (\<not> found_greater d \<longrightarrow> drop k (longs_of (sort_record_key s p)) \<le> drop k (longs_of (sort_record_key s q))) \<and>
    (found_less d \<longrightarrow> drop k (longs_of (sort_record_key s p)) \<le> drop k (longs_of (sort_record_key s q))) \<and>
    (\<not> found_less d \<longrightarrow> drop k (longs_of (sort_record_key s q)) \<le> drop k (longs_of (sort_record_key s p)))"
  using assms(3-6)
proof (induction n arbitrary: k)
  case 0
  then show ?case using assms(1,2) by (auto simp: found_greater_def found_less_def)
next
  case (Suc n)
  let ?x = "longs_of (sort_record_key s p)" and ?y = "longs_of (sort_record_key s q)"
  show ?case
  proof (cases "k = m")
    case True
    have "\<exists>w. long_at s (Rec r) k = Some w" if "length (longs_of (sort_record_key s r)) = m" for r
      using Suc.prems True that by (cases r) (auto simp: long_at_def)
    then obtain u v where "long_at s (Rec p) k = Some u" "long_at s (Rec q) k = Some v"
      using assms(1,2) by blast
    moreover have "n = 0" using Suc.prems True by simp
    ultimately show ?thesis using True assms(1,2) by simp
  next
    case False
    then have k: "k < m" using Suc.prems by simp
    have l: "long_at s (Rec p) k = Some (?x ! k)" "long_at s (Rec q) k = Some (?y ! k)"
      using k assms(1,2) by (simp_all add: long_at_def)
    have d: "drop k ?x = ?x ! k # drop (Suc k) ?x" "drop k ?y = ?y ! k # drop (Suc k) ?y"
      using k assms(1,2) by (simp_all add: Cons_nth_drop_Suc)
    show ?thesis
    proof (cases "?x ! k = ?y ! k")
      case True
      then show ?thesis using l Suc.IH [of "Suc k"] Suc.prems k d by (simp del: drop_Suc)
    next
      case False
      then show ?thesis using l d by (auto simp: found_greater_def found_less_def)
    qed
  qed
qed

lemma compare_records_order:
  assumes m: "in_memory n s" and "1 \<le> a" "a \<le> n" "1 \<le> b" "b \<le> n"
  obtains d where "compare_records s a b (scb_longs s - 1) = Some d"
    and "found_greater d \<Longrightarrow> entry_longs s b \<le> entry_longs s a"
    and "\<not> found_greater d \<Longrightarrow> entry_longs s a \<le> entry_longs s b"
    and "found_less d \<Longrightarrow> entry_longs s a \<le> entry_longs s b"
    and "\<not> found_less d \<Longrightarrow> entry_longs s b \<le> entry_longs s a"
proof -
  obtain p where p: "pointer_at s a = Some (Rec p)" "entry_longs s a = longs_of (sort_record_key s p)"
      "length (sort_record_key s p) = 4 * (scb_longs s - SIZEOF_SR_BCKPTR_IN_LONGS s)"
    using in_memory_entry [OF m assms(2,3)] by metis
  obtain q where q: "pointer_at s b = Some (Rec q)" "entry_longs s b = longs_of (sort_record_key s q)"
      "length (sort_record_key s q) = 4 * (scb_longs s - SIZEOF_SR_BCKPTR_IN_LONGS s)"
    using in_memory_entry [OF m assms(4,5)] by metis
  have "SIZEOF_SR_BCKPTR_IN_LONGS s \<in> {1, 2}" "SIZEOF_SR_BCKPTR_IN_LONGS s < scb_longs s"
    "SIZEOF_SR_BCKPTR_IN_LONGS s = 2 \<longrightarrow> past_end_memory s \<noteq> None"
    using m by (auto simp: in_memory_def)
  then have "\<exists>d. compare_longs s (Rec p) (Rec q) 0 (scb_longs s - 1) = Some d \<and>
      (found_greater d \<longrightarrow> entry_longs s b \<le> entry_longs s a) \<and>
      (\<not> found_greater d \<longrightarrow> entry_longs s a \<le> entry_longs s b) \<and>
      (found_less d \<longrightarrow> entry_longs s a \<le> entry_longs s b) \<and>
      (\<not> found_less d \<longrightarrow> entry_longs s b \<le> entry_longs s a)"
    using compare_longs_order [of s p _ q 0 "scb_longs s - 1"] p q by auto
  then show ?thesis using that p(1) q(1) by (auto simp: compare_records_def)
qed

lemma first_long_entry:
  assumes "in_memory n s" and "1 \<le> i" and "i \<le> n"
  obtains w ws where "first_long s i = Some w" "entry_longs s i = w # ws"
proof -
  obtain p where p: "pointer_at s i = Some (Rec p)" "entry_longs s i = longs_of (sort_record_key s p)"
      "length (sort_record_key s p) = 4 * (scb_longs s - SIZEOF_SR_BCKPTR_IN_LONGS s)"
    using in_memory_entry [OF assms] by metis
  moreover have "SIZEOF_SR_BCKPTR_IN_LONGS s < scb_longs s" using assms(1) by (simp add: in_memory_def)
  ultimately have l: "0 < length (entry_longs s i)" by simp
  then obtain w ws where "entry_longs s i = w # ws" by (cases "entry_longs s i") auto
  then show ?thesis using that p l by (auto simp: first_long_def long_at_def)
qed

lemma first_long_guard: "in_memory n s \<Longrightarrow> first_long s (n + 1) = Some (- 1)"
  by (auto simp: in_memory_def first_long_def pointer_at_def long_at_def)

subsection \<open>Rearrangements\<close>

text \<open>The entries from \<^term>\<open>l\<close> to \<^term>\<open>u\<close> are rearranged, and nothing else happens.\<close>

definition shuffled :: "nat \<Rightarrow> nat \<Rightarrow> nat \<Rightarrow> sort_context \<Rightarrow> sort_context \<Rightarrow> bool" where
  "shuffled n l u s t = (in_memory n t \<and> mset (scb_pointers t) = mset (scb_pointers s) \<and>
     sort_record_key t = sort_record_key s \<and> scb_longs t = scb_longs s \<and> scb_records t = scb_records s \<and>
     scb_dup_callback t = scb_dup_callback s \<and> scb_unique_length t = scb_unique_length s \<and>
     scb_description t = scb_description s \<and> scb_sorted t = scb_sorted s \<and>
     (\<forall>x. x < l \<or> u < x \<longrightarrow> scb_pointers t ! x = scb_pointers s ! x) \<and>
     (\<forall>x. l \<le> x \<and> x \<le> u \<longrightarrow> (\<exists>y. l \<le> y \<and> y \<le> u \<and> scb_pointers t ! x = scb_pointers s ! y)))"

lemma shuffled_refl: "in_memory n s \<Longrightarrow> shuffled n l u s s"
  unfolding shuffled_def by blast

lemma shuffled_trans: "shuffled n l u s t \<Longrightarrow> shuffled n l u t v \<Longrightarrow> shuffled n l u s v"
  unfolding shuffled_def by (metis (no_types, lifting))

lemma shuffled_longs:
  assumes "shuffled n l u s t"
  shows "x < l \<or> u < x \<Longrightarrow> entry_longs t x = entry_longs s x"
    and "l \<le> x \<Longrightarrow> x \<le> u \<Longrightarrow> \<exists>y. l \<le> y \<and> y \<le> u \<and> entry_longs t x = entry_longs s y"
proof -
  show "x < l \<or> u < x \<Longrightarrow> entry_longs t x = entry_longs s x"
    using assms unfolding shuffled_def by (blast intro: entry_longs_cong)
  assume "l \<le> x" "x \<le> u"
  then obtain y where "l \<le> y" "y \<le> u" "scb_pointers t ! x = scb_pointers s ! y"
    using assms unfolding shuffled_def by blast
  then show "\<exists>y. l \<le> y \<and> y \<le> u \<and> entry_longs t x = entry_longs s y"
    using assms unfolding shuffled_def by (blast intro: entry_longs_cong)
qed

lemma shuffled_widen:
  assumes sh: "shuffled n l' u' s t" and "l \<le> l'" "u' \<le> u"
  shows "shuffled n l u s t"
proof -
  have "\<exists>y. l \<le> y \<and> y \<le> u \<and> scb_pointers t ! x = scb_pointers s ! y" if x: "l \<le> x" "x \<le> u" for x
  proof (cases "x < l' \<or> u' < x")
    case True
    then show ?thesis using sh x unfolding shuffled_def by blast
  next
    case False
    then obtain y where "l' \<le> y" "y \<le> u'" "scb_pointers t ! x = scb_pointers s ! y"
      using sh unfolding shuffled_def by (meson not_le)
    then show ?thesis using assms(2,3) order_trans by blast
  qed
  moreover have "scb_pointers t ! x = scb_pointers s ! x" if "x < l \<or> u < x" for x
    using sh assms(2,3) that unfolding shuffled_def by auto
  ultimately show ?thesis using sh unfolding shuffled_def by blast
qed

lemma shuffled_memory: "shuffled n l u s t \<Longrightarrow> in_memory n t"
  by (simp add: shuffled_def)

lemma swap_entries_shuffled:
  assumes m: "in_memory n s" and "1 \<le> l" "u \<le> n" and a: "l \<le> a" "a \<le> u" and b: "l \<le> b" "b \<le> u"
  obtains t where "swap_entries a b s = Some t" "shuffled n l u s t"
    "entry_longs t = (entry_longs s)(a := entry_longs s b, b := entry_longs s a)"
proof -
  have r: "1 \<le> a" "a \<le> n" "1 \<le> b" "b \<le> n" using assms by auto
  obtain p where p: "scb_pointers s ! a = Rec p" "sr_bckptr s p = Some a" "pointer_at s a = Some (Rec p)"
    using in_memory_entry [OF m r(1,2)] by metis
  obtain q where q: "scb_pointers s ! b = Rec q" "sr_bckptr s q = Some b" "pointer_at s b = Some (Rec q)"
    using in_memory_entry [OF m r(3,4)] by metis
  have len: "length (scb_pointers s) = n + 2" using m by (simp add: in_memory_def)
  define t where "t = s\<lparr>sr_bckptr := (sr_bckptr s)(p := Some b, q := Some a),
           scb_pointers := (scb_pointers s)[a := Rec q, b := Rec p]\<rparr>"
  have sw: "swap_entries a b s = Some t" using p q by (auto simp: swap_entries_eq_Some t_def)
  have at: "scb_pointers t ! x = (if x = b then Rec p else if x = a then Rec q else scb_pointers s ! x)" for x
  proof (cases "x < n + 2")
    case False
    then show ?thesis using r len by (simp add: t_def nth_list_update_neq)
  qed (use r len in \<open>simp add: t_def nth_list_update\<close>)
  have ms: "mset (scb_pointers t) = mset (scb_pointers s)"
    using mset_swap [of b "scb_pointers s" a] r len p(1) q(1) by (simp add: t_def)
  have mt: "in_memory n t"
    unfolding in_memory_def
  proof (intro conjI allI impI)
    fix i assume i: "1 \<le> i \<and> i \<le> n"
    obtain x where x: "scb_pointers s ! i = Rec x" "sr_bckptr s x = Some i"
      "length (sort_record_key s x) = 4 * (scb_longs s - SIZEOF_SR_BCKPTR_IN_LONGS s)"
      using in_memory_entry [OF m] i by metis
    have lp: "length (sort_record_key s p) = 4 * (scb_longs s - SIZEOF_SR_BCKPTR_IN_LONGS s)"
       "length (sort_record_key s q) = 4 * (scb_longs s - SIZEOF_SR_BCKPTR_IN_LONGS s)"
      using in_memory_entry [OF m r(1,2)] in_memory_entry [OF m r(3,4)] p(1) q(1) by auto
    show "\<exists>y. scb_pointers t ! i = Rec y \<and> sr_bckptr t y = Some i \<and>
        length (sort_record_key t y) = 4 * (scb_longs t - SIZEOF_SR_BCKPTR_IN_LONGS t)"
      using x p q lp unfolding at by (auto simp: t_def)
  qed (use m r in \<open>auto simp: in_memory_def at\<close>, auto simp: t_def in_memory_def)
  have "shuffled n l u s t"
    unfolding shuffled_def using mt ms assms at p(1) q(1) by (auto simp: t_def)
  moreover have "entry_longs t = (entry_longs s)(a := entry_longs s b, b := entry_longs s a)"
  proof
    fix x
    have "entry_longs t x = entry_longs s (if x = b then a else if x = a then b else x)"
    proof (rule entry_longs_cong)
      show "scb_pointers t ! x = scb_pointers s ! (if x = b then a else if x = a then b else x)"
        using at [of x] p(1) q(1) by simp
    qed (simp add: t_def)
    then show "entry_longs t x = ((entry_longs s)(a := entry_longs s b, b := entry_longs s a)) x" by simp
  qed
  ultimately show ?thesis using sw that by blast
qed

subsection \<open>Scans\<close>

lemma scan_up_spec:
  assumes m: "in_memory n s" and i: "1 \<le> i" "i \<le> su + 1" "su \<le> n"
    and g: "first_long s (su + 1) = Some v" "key \<le> v"
  shows "\<exists>i' w. scan_up s key i = Some i' \<and> i \<le> i' \<and> i' \<le> su + 1 \<and> first_long s i' = Some w \<and> key \<le> w \<and>
    (\<forall>x. i \<le> x \<and> x < i' \<longrightarrow> (\<exists>y. first_long s x = Some y \<and> y < key))"
  using i(1,2)
proof (induction "su + 1 - i" arbitrary: i)
  case 0
  then show ?case using g by (subst scan_up.simps) (auto simp: not_less)
next
  case (Suc d)
  then have "i \<le> n" using i(3) by simp
  then obtain w ws where w: "first_long s i = Some w" using first_long_entry [OF m \<open>1 \<le> i\<close>] by metis
  show ?case
  proof (cases "w < key")
    case True
    have d: "d = su + 1 - Suc i" "1 \<le> Suc i" "Suc i \<le> su + 1" using Suc(2-4) by auto
    obtain i' u where IH: "scan_up s key (Suc i) = Some i'" "Suc i \<le> i'" "i' \<le> su + 1"
      "first_long s i' = Some u" "key \<le> u"
      "\<forall>x. Suc i \<le> x \<and> x < i' \<longrightarrow> (\<exists>y. first_long s x = Some y \<and> y < key)"
      using Suc(1) [OF d] by auto
    have "scan_up s key i = Some i'" using w True IH(1) by (subst scan_up.simps) simp
    moreover have "\<exists>y. first_long s x = Some y \<and> y < key" if "i \<le> x" "x < i'" for x
      using IH(6) that w True by (cases "x = i") auto
    ultimately show ?thesis using IH by auto
  next
    case False
    then show ?thesis using w Suc(4) by (subst scan_up.simps) (auto simp: not_less)
  qed
qed

lemma pass_up_spec:
  assumes m: "in_memory n s" and i: "1 \<le> i" "i \<le> su + 1" "su \<le> n" and r: "1 \<le> r" "r \<le> n"
  shows "\<exists>i'. pass_up s r su (scb_longs s - 1) i = Some i' \<and> i \<le> i' \<and> i' \<le> su + 1 \<and>
    (i' \<le> su \<longrightarrow> entry_longs s r \<le> entry_longs s i') \<and>
    (\<forall>x. i \<le> x \<and> x < i' \<longrightarrow> entry_longs s x \<le> entry_longs s r)"
  using i(1,2)
proof (induction "su + 1 - i" arbitrary: i)
  case 0
  then show ?case by (subst pass_up.simps) auto
next
  case (Suc d)
  then have "i \<le> n" "i \<le> su" using i(3) by auto
  obtain c where c: "compare_records s i r (scb_longs s - 1) = Some c"
    "found_greater c \<Longrightarrow> entry_longs s r \<le> entry_longs s i"
    "\<not> found_greater c \<Longrightarrow> entry_longs s i \<le> entry_longs s r"
    using compare_records_order [OF m \<open>1 \<le> i\<close> \<open>i \<le> n\<close> r] by metis
  show ?case
  proof (cases "found_greater c")
    case True
    then show ?thesis using c \<open>i \<le> su\<close> by (subst pass_up.simps) auto
  next
    case False
    have d: "d = su + 1 - Suc i" "1 \<le> Suc i" "Suc i \<le> su + 1" using Suc(2-4) by auto
    obtain i' where IH: "pass_up s r su (scb_longs s - 1) (Suc i) = Some i'" "Suc i \<le> i'" "i' \<le> su + 1"
      "i' \<le> su \<longrightarrow> entry_longs s r \<le> entry_longs s i'"
      "\<forall>x. Suc i \<le> x \<and> x < i' \<longrightarrow> entry_longs s x \<le> entry_longs s r"
      using Suc(1) [OF d] by auto
    have "pass_up s r su (scb_longs s - 1) i = Some i'"
      using c False \<open>i \<le> su\<close> IH(1) by (subst pass_up.simps) simp
    moreover have "entry_longs s x \<le> entry_longs s r" if "i \<le> x" "x < i'" for x
      using IH(5) that c(3) False by (cases "x = i") auto
    ultimately show ?thesis using IH by auto
  qed
qed

lemma scan_down_spec:
  assumes m: "in_memory n s" and r: "1 \<le> r" "first_long s r = Some key" and j: "r \<le> j" "j \<le> n"
  shows "\<exists>j' w. scan_down s key j = Some j' \<and> r \<le> j' \<and> j' \<le> j \<and> first_long s j' = Some w \<and> w \<le> key \<and>
    (\<forall>x. j' < x \<and> x \<le> j \<longrightarrow> (\<exists>y. first_long s x = Some y \<and> key < y))"
  using j
proof (induction "j - r" arbitrary: j)
  case 0
  then show ?case using r by (subst scan_down.simps) auto
next
  case (Suc d)
  obtain w ws where w: "first_long s j = Some w" using first_long_entry [OF m _ \<open>j \<le> n\<close>] Suc(3) r(1) by fastforce
  show ?case
  proof (cases "key < w")
    case True
    obtain i where i: "j = Suc i" "r \<le> i" using Suc(2,3) by (cases j) auto
    have d: "d = i - r" "r \<le> i" "i \<le> n" using Suc(2-4) i by auto
    obtain j' u where IH: "scan_down s key i = Some j'" "r \<le> j'" "j' \<le> i" "first_long s j' = Some u" "u \<le> key"
      "\<forall>x. j' < x \<and> x \<le> i \<longrightarrow> (\<exists>y. first_long s x = Some y \<and> key < y)"
      using Suc(1) [OF d] by auto
    have "scan_down s key j = Some j'" using w True IH(1) i by (subst scan_down.simps) simp
    moreover have "\<exists>y. first_long s x = Some y \<and> key < y" if "j' < x" "x \<le> j" for x
      using IH(6) that w True i by (cases "x = j") auto
    ultimately show ?thesis using IH i by auto
  next
    case False
    then show ?thesis using w Suc(3) by (subst scan_down.simps) (auto simp: not_less)
  qed
qed

lemma pass_down_spec:
  assumes m: "in_memory n s" and r: "1 \<le> r" and j: "r \<le> j" "j \<le> n"
  shows "\<exists>j'. pass_down s r (scb_longs s - 1) j = Some j' \<and> r \<le> j' \<and> j' \<le> j \<and>
    entry_longs s j' \<le> entry_longs s r \<and>
    (\<forall>x. j' < x \<and> x \<le> j \<longrightarrow> entry_longs s r \<le> entry_longs s x)"
  using j
proof (induction "j - r" arbitrary: j)
  case 0
  then show ?case by (subst pass_down.simps) auto
next
  case (Suc d)
  have "1 \<le> j" "r \<le> n" using Suc r by auto
  obtain c where c: "compare_records s j r (scb_longs s - 1) = Some c"
    "found_less c \<Longrightarrow> entry_longs s j \<le> entry_longs s r"
    "\<not> found_less c \<Longrightarrow> entry_longs s r \<le> entry_longs s j"
    using compare_records_order [OF m \<open>1 \<le> j\<close> \<open>j \<le> n\<close> r \<open>r \<le> n\<close>] by metis
  show ?case
  proof (cases "found_less c")
    case True
    then show ?thesis using c Suc by (subst pass_down.simps) auto
  next
    case False
    obtain i where i: "j = Suc i" "r \<le> i" "j \<noteq> r" using Suc(2,3) by (cases j) auto
    have d: "d = i - r" "r \<le> i" "i \<le> n" using Suc(2-4) i by auto
    obtain j' where IH: "pass_down s r (scb_longs s - 1) i = Some j'" "r \<le> j'" "j' \<le> i"
      "entry_longs s j' \<le> entry_longs s r"
      "\<forall>x. j' < x \<and> x \<le> i \<longrightarrow> entry_longs s r \<le> entry_longs s x"
      using Suc(1) [OF d] by auto
    have "pass_down s r (scb_longs s - 1) j = Some j'"
      using c False IH(1) i by (subst pass_down.simps) simp
    moreover have "entry_longs s r \<le> entry_longs s x" if "j' < x" "x \<le> j" for x
      using IH(5) that c(3) False i by (cases "x = j") auto
    ultimately show ?thesis using IH i by auto
  qed
qed

lemma first_long_order:
  assumes m: "in_memory n s" and "1 \<le> a" "a \<le> n" "1 \<le> b" "b \<le> n"
    and "first_long s a = Some x" "first_long s b = Some y" "x < y"
  shows "entry_longs s a \<le> entry_longs s b"
  using first_long_entry [OF m assms(2,3)] first_long_entry [OF m assms(4,5)] assms(6-8)
  by (metis Cons_le_Cons option.inject)

lemma move_up_spec:
  assumes m: "in_memory n s" and i: "1 \<le> i" "i \<le> su + 1" "su \<le> n" and r: "1 \<le> r" "r \<le> n"
    and key: "first_long s r = Some key" and g: "first_long s (su + 1) = Some v" "key \<le> v"
  shows "\<exists>i'. move_up s r su (scb_longs s) key i = Some i' \<and> i \<le> i' \<and> i' \<le> su + 1 \<and>
    (i' \<le> su \<longrightarrow> entry_longs s r \<le> entry_longs s i') \<and>
    (\<forall>x. i \<le> x \<and> x < i' \<longrightarrow> entry_longs s x \<le> entry_longs s r)"
proof -
  obtain i1 w where a: "scan_up s key i = Some i1" "i \<le> i1" "i1 \<le> su + 1" "first_long s i1 = Some w" "key \<le> w"
    "\<forall>x. i \<le> x \<and> x < i1 \<longrightarrow> (\<exists>y. first_long s x = Some y \<and> y < key)"
    using scan_up_spec [OF m i g] by auto
  have low: "entry_longs s x \<le> entry_longs s r" if "i \<le> x" "x < i1" for x
    using a(3,6) that i first_long_order [OF m _ _ r _ key] by fastforce
  show ?thesis
  proof (cases "w = key")
    case True
    obtain i' where b: "pass_up s r su (scb_longs s - 1) i1 = Some i'" "i1 \<le> i'" "i' \<le> su + 1"
      "i' \<le> su \<longrightarrow> entry_longs s r \<le> entry_longs s i'"
      "\<forall>x. i1 \<le> x \<and> x < i' \<longrightarrow> entry_longs s x \<le> entry_longs s r"
      using pass_up_spec [OF m _ a(3) i(3) r] a(2) i(1) by auto
    have "move_up s r su (scb_longs s) key i = Some i'" using a b True by (simp add: move_up_def)
    moreover have "entry_longs s x \<le> entry_longs s r" if "i \<le> x" "x < i'" for x
      using b(5) low that by (cases "x < i1") auto
    ultimately show ?thesis using a(2) b by auto
  next
    case False
    then have "i1 \<le> su \<longrightarrow> entry_longs s r \<le> entry_longs s i1"
      using first_long_order [OF m r _ _ key a(4)] a(2,5) i by auto
    then show ?thesis using a low False by (auto simp: move_up_def)
  qed
qed

lemma move_down_spec:
  assumes m: "in_memory n s" and r: "1 \<le> r" and key: "first_long s r = Some key" and j: "r \<le> j" "j \<le> n"
  shows "\<exists>j'. move_down s r (scb_longs s) key j = Some j' \<and> r \<le> j' \<and> j' \<le> j \<and>
    entry_longs s j' \<le> entry_longs s r \<and>
    (\<forall>x. j' < x \<and> x \<le> j \<longrightarrow> entry_longs s r \<le> entry_longs s x)"
proof -
  have rn: "r \<le> n" using j by simp
  obtain j1 w where a: "scan_down s key j = Some j1" "r \<le> j1" "j1 \<le> j" "first_long s j1 = Some w" "w \<le> key"
    "\<forall>x. j1 < x \<and> x \<le> j \<longrightarrow> (\<exists>y. first_long s x = Some y \<and> key < y)"
    using scan_down_spec [OF m r key j] by auto
  have high: "entry_longs s r \<le> entry_longs s x" if "j1 < x" "x \<le> j" for x
    using a(2,6) that j r first_long_order [OF m r rn _ _ key] by fastforce
  show ?thesis
  proof (cases "w = key")
    case True
    obtain j' where b: "pass_down s r (scb_longs s - 1) j1 = Some j'" "r \<le> j'" "j' \<le> j1"
      "entry_longs s j' \<le> entry_longs s r"
      "\<forall>x. j' < x \<and> x \<le> j1 \<longrightarrow> entry_longs s r \<le> entry_longs s x"
      using pass_down_spec [OF m r a(2)] a(3) j by auto
    have "move_down s r (scb_longs s) key j = Some j'" using a b True by (simp add: move_down_def)
    moreover have "entry_longs s r \<le> entry_longs s x" if "j' < x" "x \<le> j" for x
      using b(5) high that by (cases "x \<le> j1") auto
    ultimately show ?thesis using a(3) b by auto
  next
    case False
    then have "entry_longs s j1 \<le> entry_longs s r"
      using first_long_order [OF m _ _ r rn a(4) key] a(2,3,5) j r by auto
    then show ?thesis using a high False by (auto simp: move_down_def)
  qed
qed

subsection \<open>Partition\<close>

lemma first_long_shuffled:
  assumes "shuffled n l u s t" and "in_memory n s" and x: "1 \<le> x" "x \<le> n + 1" "x < l \<or> u < x"
  shows "first_long t x = first_long s x"
proof (cases "x = n + 1")
  case True
  then show ?thesis using first_long_guard assms(2) shuffled_memory [OF assms(1)] by simp
next
  case False
  then have "x \<le> n" using x by simp
  then show ?thesis
    using first_long_entry [OF assms(2) x(1)] first_long_entry [OF shuffled_memory [OF assms(1)] x(1)]
      shuffled_longs(1) [OF assms(1) x(3)] by (metis list.inject)
qed

lemma partition_spec:
  assumes "in_memory n s" "1 \<le> r" "su \<le> n" "len = scb_longs s" "first_long s r = Some key"
    "first_long s (su + 1) = Some v" "key \<le> v" "r < i" "i \<le> su + 1" "r \<le> j" "j \<le> su"
    "\<forall>x. r < x \<and> x < i \<longrightarrow> entry_longs s x \<le> entry_longs s r"
    "\<forall>x. j < x \<and> x \<le> su \<longrightarrow> entry_longs s r \<le> entry_longs s x"
  shows "\<exists>t k. partition_loop r su len key s i j = Some (t, k) \<and> shuffled n (r + 1) su s t \<and> r \<le> k \<and> k \<le> su \<and>
    (\<forall>x. r < x \<and> x \<le> k \<longrightarrow> entry_longs t x \<le> entry_longs t r) \<and>
    (\<forall>x. k < x \<and> x \<le> su \<longrightarrow> entry_longs t r \<le> entry_longs t x)"
  using assms
proof (induction r su len key s i j rule: partition_loop.induct)
  case (1 r su len key s i j)
  note m = "1.prems"(1) and len = "1.prems"(4) and low = "1.prems"(12) and high = "1.prems"(13)
  have b: "1 \<le> i" "r \<le> n" "j \<le> n" using "1.prems"(3,8,10,11) by auto
  obtain i' where i': "move_up s r su len key i = Some i'" "i \<le> i'" "i' \<le> su + 1"
    "i' \<le> su \<longrightarrow> entry_longs s r \<le> entry_longs s i'"
    "\<forall>x. i \<le> x \<and> x < i' \<longrightarrow> entry_longs s x \<le> entry_longs s r"
    using move_up_spec [OF m b(1) "1.prems"(9,3,2) b(2) "1.prems"(5,6,7)] len by auto
  obtain j' where j': "move_down s r len key j = Some j'" "r \<le> j'" "j' \<le> j" "entry_longs s j' \<le> entry_longs s r"
    "\<forall>x. j' < x \<and> x \<le> j \<longrightarrow> entry_longs s r \<le> entry_longs s x"
    using move_down_spec [OF m "1.prems"(2,5,10) b(3)] len by auto
  have low': "entry_longs s x \<le> entry_longs s r" if "r < x" "x < i'" for x
    using low i'(5) that by (cases "x < i") auto
  have high': "entry_longs s r \<le> entry_longs s x" if "j' < x" "x \<le> su" for x
    using high j'(5) that by (cases "x \<le> j") auto
  show ?case
  proof (cases "i' \<ge> j'")
    case True
    have "partition_loop r su len key s i j = Some (s, j')"
      using i'(1) j'(1) True by (subst partition_loop.simps) simp
    moreover have "entry_longs s x \<le> entry_longs s r" if "r < x" "x \<le> j'" for x
      using low' [OF that(1)] j'(4) that(2) True by (cases "x = j'") auto
    ultimately show ?thesis using shuffled_refl [OF m] j'(2,3) "1.prems"(11) high' by auto
  next
    case False
    have r': "1 \<le> r + 1" "r + 1 \<le> i'" "i' \<le> su" "r + 1 \<le> j'" "j' \<le> su"
      using False i'(2) j'(3) "1.prems"(8,11) by auto
    obtain t where t: "swap_entries i' j' s = Some t" "shuffled n (r + 1) su s t"
      "entry_longs t = (entry_longs s)(i' := entry_longs s j', j' := entry_longs s i')"
      using swap_entries_shuffled [OF m r'(1) "1.prems"(3) r'(2,3,4,5)] by metis
    have er: "entry_longs t r = entry_longs s r" using r' by (simp add: t(3))
    have f: "first_long t r = Some key" "first_long t (su + 1) = Some v"
      using first_long_shuffled [OF t(2) m] "1.prems"(2,3,5,6) b(2) by simp_all
    have "\<exists>v k. partition_loop r su len key t (i' + 1) (j' - 1) = Some (v, k) \<and> shuffled n (r + 1) su t v \<and>
        r \<le> k \<and> k \<le> su \<and> (\<forall>x. r < x \<and> x \<le> k \<longrightarrow> entry_longs v x \<le> entry_longs v r) \<and>
        (\<forall>x. k < x \<and> x \<le> su \<longrightarrow> entry_longs v r \<le> entry_longs v x)"
    proof (rule "1.IH" [OF i'(1) j'(1) False t(1) shuffled_memory [OF t(2)] "1.prems"(2,3) _ f "1.prems"(7)])
      show "len = scb_longs t" using t(2) len by (simp add: shuffled_def)
      show "r < i' + 1" "i' + 1 \<le> su + 1" "r \<le> j' - 1" "j' - 1 \<le> su" using r' False by auto
      show "\<forall>x. r < x \<and> x < i' + 1 \<longrightarrow> entry_longs t x \<le> entry_longs t r"
        using low' j'(4) False unfolding er by (auto simp: t(3) less_Suc_eq)
      show "\<forall>x. j' - 1 < x \<and> x \<le> su \<longrightarrow> entry_longs t r \<le> entry_longs t x"
      proof (intro allI impI)
        fix x assume x: "j' - 1 < x \<and> x \<le> su"
        show "entry_longs t r \<le> entry_longs t x"
          using high' [of x] i'(4) r'(3) x False unfolding er by (cases "x = j'") (auto simp: t(3))
      qed
    qed
    then show ?thesis
      using i'(1) j'(1) False t(1) shuffled_trans [OF t(2)] by (subst partition_loop.simps) auto
  qed
qed

lemma split_interval_spec:
  assumes m: "in_memory n s" and r: "1 \<le> r" "r < su" "su \<le> n"
    and g: "\<forall>x. r \<le> x \<and> x \<le> su \<and> su < n \<longrightarrow> entry_longs s x \<le> entry_longs s (su + 1)"
  obtains t k where "split_interval (scb_longs s) r su s = Some (t, k)" "shuffled n r su s t" "r \<le> k" "k \<le> su"
    "\<forall>x. r \<le> x \<and> x \<le> k \<longrightarrow> entry_longs t x \<le> entry_longs t k"
    "\<forall>x. k < x \<and> x \<le> su \<longrightarrow> entry_longs t k \<le> entry_longs t x"
proof -
  let ?mid = "r + (su - r) div 2"
  have b: "r \<le> ?mid" "?mid \<le> su" "r \<le> su" "r \<le> n" using r by auto
  obtain s1 where s1: "swap_entries ?mid r s = Some s1" "shuffled n r su s s1"
    using swap_entries_shuffled [OF m r(1,3) b(1,2) order_refl b(3)] by metis
  note m1 = shuffled_memory [OF s1(2)]
  obtain key ks where key: "first_long s1 r = Some key" "entry_longs s1 r = key # ks"
    using first_long_entry [OF m1 r(1) b(4)] by metis
  have "\<exists>v. first_long s1 (su + 1) = Some v \<and> key \<le> v"
  proof (cases "su = n")
    case True
    then show ?thesis using first_long_guard [OF m1] by simp
  next
    case False
    then have "su + 1 \<le> n" using r by simp
    then obtain v vs where v: "first_long s1 (su + 1) = Some v" "entry_longs s1 (su + 1) = v # vs"
      using first_long_entry [OF m1, of "su + 1"] by auto
    obtain y where "r \<le> y" "y \<le> su" "entry_longs s1 r = entry_longs s y"
      using shuffled_longs(2) [OF s1(2), of r] b(3) by auto
    then have "entry_longs s1 r \<le> entry_longs s1 (su + 1)"
      using g shuffled_longs(1) [OF s1(2), of "su + 1"] False r(3) by auto
    then show ?thesis using key(2) v by auto
  qed
  then obtain v where v: "first_long s1 (su + 1) = Some v" "key \<le> v" by blast
  have l1: "scb_longs s = scb_longs s1" using s1(2) by (simp add: shuffled_def)
  have triv: "\<forall>x. r < x \<and> x < r + 1 \<longrightarrow> entry_longs s1 x \<le> entry_longs s1 r"
    "\<forall>x. su < x \<and> x \<le> su \<longrightarrow> entry_longs s1 r \<le> entry_longs s1 x" by auto
  obtain s2 k where s2: "partition_loop r su (scb_longs s) key s1 (r + 1) su = Some (s2, k)"
    "shuffled n (r + 1) su s1 s2" "r \<le> k" "k \<le> su"
    "\<forall>x. r < x \<and> x \<le> k \<longrightarrow> entry_longs s2 x \<le> entry_longs s2 r"
    "\<forall>x. k < x \<and> x \<le> su \<longrightarrow> entry_longs s2 r \<le> entry_longs s2 x"
    using partition_spec [OF m1 r(1,3) l1 key(1) v _ _ b(3) order_refl triv] r by auto
  have s2': "shuffled n r su s1 s2"
    using shuffled_widen [OF s2(2)] by simp
  obtain s3 where s3: "swap_entries r k s2 = Some s3" "shuffled n r su s2 s3"
    "entry_longs s3 = (entry_longs s2)(r := entry_longs s2 k, k := entry_longs s2 r)"
    using swap_entries_shuffled [OF shuffled_memory [OF s2(2)] r(1,3) order_refl b(3) s2(3,4)] by metis
  show ?thesis
  proof (rule that)
    show "split_interval (scb_longs s) r su s = Some (s3, k)"
      using s1(1) key(1) s2(1) s3(1) by (simp add: split_interval_def)
    show "shuffled n r su s s3" using shuffled_trans [OF s1(2) shuffled_trans [OF s2' s3(2)]] .
    show "\<forall>x. r \<le> x \<and> x \<le> k \<longrightarrow> entry_longs s3 x \<le> entry_longs s3 k" using s2(3,5) by (auto simp: s3(3))
    show "\<forall>x. k < x \<and> x \<le> su \<longrightarrow> entry_longs s3 k \<le> entry_longs s3 x" using s2(3,6) by (auto simp: s3(3))
  qed (use s2 in auto)
qed

subsection \<open>The loop over the intervals\<close>

text \<open>No record of the interval belongs before or behind it.\<close>

definition isolated :: "nat \<Rightarrow> sort_context \<Rightarrow> nat \<Rightarrow> nat \<Rightarrow> bool" where
  "isolated n s l u = (\<forall>a b. 1 \<le> a \<and> a < b \<and> b \<le> n \<and> (a < l \<and> l \<le> b \<and> b \<le> u \<or> l \<le> a \<and> a \<le> u \<and> u < b) \<longrightarrow>
     entry_longs s a \<le> entry_longs s b)"

lemma isolatedD:
  "isolated n s l u \<Longrightarrow> 1 \<le> a \<Longrightarrow> a < l \<Longrightarrow> l \<le> b \<Longrightarrow> b \<le> u \<Longrightarrow> u \<le> n \<Longrightarrow> entry_longs s a \<le> entry_longs s b"
  "isolated n s l u \<Longrightarrow> 1 \<le> l \<Longrightarrow> l \<le> a \<Longrightarrow> a \<le> u \<Longrightarrow> u < b \<Longrightarrow> b \<le> n \<Longrightarrow> entry_longs s a \<le> entry_longs s b"
  unfolding isolated_def by auto

lemma isolated_self:
  assumes sh: "shuffled n l u s t" and i: "isolated n s l u" and "1 \<le> l" "u \<le> n"
  shows "isolated n t l u"
  unfolding isolated_def
proof (intro allI impI)
  fix a b assume ab: "1 \<le> a \<and> a < b \<and> b \<le> n \<and> (a < l \<and> l \<le> b \<and> b \<le> u \<or> l \<le> a \<and> a \<le> u \<and> u < b)"
  show "entry_longs t a \<le> entry_longs t b"
  proof (cases "a < l")
    case True
    then obtain y where "l \<le> y" "y \<le> u" "entry_longs t b = entry_longs s y"
      using shuffled_longs(2) [OF sh, of b] ab by auto
    then show ?thesis using shuffled_longs(1) [OF sh, of a] isolatedD(1) [OF i] True ab assms(4) by auto
  next
    case False
    then obtain y where "l \<le> y" "y \<le> u" "entry_longs t a = entry_longs s y"
      using shuffled_longs(2) [OF sh, of a] ab by auto
    then show ?thesis using shuffled_longs(1) [OF sh, of b] isolatedD(2) [OF i assms(3)] False ab by auto
  qed
qed

lemma isolated_other:
  assumes sh: "shuffled n r su s t" and i: "isolated n s r su" "1 \<le> r" "su \<le> n"
    and o: "isolated n s l u" and d: "u < r \<or> su < l"
  shows "isolated n t l u"
  unfolding isolated_def
proof (intro allI impI)
  note i' = isolated_self [OF sh i]
  fix a b assume ab: "1 \<le> a \<and> a < b \<and> b \<le> n \<and> (a < l \<and> l \<le> b \<and> b \<le> u \<or> l \<le> a \<and> a \<le> u \<and> u < b)"
  show "entry_longs t a \<le> entry_longs t b"
  proof (cases "(r \<le> a \<and> a \<le> su) \<or> (r \<le> b \<and> b \<le> su)")
    case True
    then show ?thesis using i' ab d unfolding isolated_def by auto
  next
    case False
    then have "entry_longs t a = entry_longs s a" "entry_longs t b = entry_longs s b"
      using shuffled_longs(1) [OF sh] by (meson not_le)+
    then show ?thesis using o ab unfolding isolated_def by auto
  qed
qed

lemma isolated_parts:
  assumes i: "isolated n t r su" and "1 \<le> r" "su \<le> n" "r \<le> k" "k \<le> su"
    and low: "\<forall>x. r \<le> x \<and> x \<le> k \<longrightarrow> entry_longs t x \<le> entry_longs t k"
    and high: "\<forall>x. k < x \<and> x \<le> su \<longrightarrow> entry_longs t k \<le> entry_longs t x"
  shows "isolated n t r (k - 1)" and "isolated n t (k + 1) su"
proof -
  have mid: "entry_longs t a \<le> entry_longs t b" if "r \<le> a" "a \<le> k" "k \<le> b" "b \<le> n" for a b
  proof (cases "b \<le> su")
    case True
    then have "entry_longs t a \<le> entry_longs t k" "entry_longs t k \<le> entry_longs t b"
      using low high that by (cases "b = k"; auto)+
    then show ?thesis by (rule order_trans)
  next
    case False
    then show ?thesis using isolatedD(2) [OF i assms(2) that(1)] that assms(5) by auto
  qed
  show "isolated n t r (k - 1)"
    unfolding isolated_def
  proof (intro allI impI)
    fix a b assume ab: "1 \<le> a \<and> a < b \<and> b \<le> n \<and> (a < r \<and> r \<le> b \<and> b \<le> k - 1 \<or> r \<le> a \<and> a \<le> k - 1 \<and> k - 1 < b)"
    show "entry_longs t a \<le> entry_longs t b"
    proof (cases "a < r")
      case True
      then show ?thesis using isolatedD(1) [OF i, of a b] ab assms by auto
    next
      case False
      then show ?thesis using mid [of a b] ab by auto
    qed
  qed
  show "isolated n t (k + 1) su"
    unfolding isolated_def
  proof (intro allI impI)
    fix a b assume ab: "1 \<le> a \<and> a < b \<and> b \<le> n \<and> (a < k + 1 \<and> k + 1 \<le> b \<and> b \<le> su \<or> k + 1 \<le> a \<and> a \<le> su \<and> su < b)"
    show "entry_longs t a \<le> entry_longs t b"
    proof (cases "a < r")
      case True
      then show ?thesis using isolatedD(1) [OF i, of a b] ab assms by auto
    next
      case False
      then show ?thesis using mid [of a b] isolatedD(2) [OF i assms(2), of a b] ab assms(4) by (cases "a \<le> k") auto
    qed
  qed
qed

text \<open>An interval lies as deep in the stack as it has been halved; this bounds the stack.\<close>

primrec halved :: "nat \<Rightarrow> (nat \<times> nat) list \<Rightarrow> bool" where
  "halved n [] = True"
| "halved n (e # st) = ((snd e + 1 - fst e) * 2 ^ length st \<le> n \<and> halved n st)"

definition apart :: "nat \<times> nat \<Rightarrow> nat \<times> nat \<Rightarrow> bool" where
  "apart e f = (snd e < fst f \<or> snd f < fst e)"

definition intervals_inv :: "nat \<Rightarrow> (nat \<times> nat) list \<Rightarrow> sort_context \<Rightarrow> bool" where
  "intervals_inv n stack s = (in_memory n s \<and>
     (\<forall>(l, u)\<in>set stack. 1 \<le> l \<and> l \<le> u + 1 \<and> u \<le> n \<and> isolated n s l u) \<and>
     sorted_wrt apart stack \<and> halved n stack \<and>
     (\<forall>a b. 1 \<le> a \<and> a < b \<and> b \<le> n \<longrightarrow>
        entry_longs s a \<le> entry_longs s b \<or> b = a + 1 \<or> (\<exists>(l, u)\<in>set stack. l \<le> a \<and> b \<le> u)))"

lemma intervals_inv_pop:
  assumes "intervals_inv n ((r, su) # st) s" and "int su - int r < 2"
  shows "intervals_inv n st s"
proof -
  have "entry_longs s a \<le> entry_longs s b \<or> b = a + 1 \<or> (\<exists>(l, u)\<in>set st. l \<le> a \<and> b \<le> u)"
    if ab: "1 \<le> a \<and> a < b \<and> b \<le> n" for a b
  proof -
    have "entry_longs s a \<le> entry_longs s b \<or> b = a + 1 \<or> (r \<le> a \<and> b \<le> su) \<or> (\<exists>(l, u)\<in>set st. l \<le> a \<and> b \<le> u)"
      using assms(1) ab unfolding intervals_inv_def by auto
    moreover have "b = a + 1" if "r \<le> a" "b \<le> su" using that ab assms(2) by linarith
    ultimately show ?thesis by blast
  qed
  then show ?thesis using assms(1) unfolding intervals_inv_def by simp
qed

lemma intervals_inv_split:
  assumes inv: "intervals_inv n ((r, su) # st) s" and sh: "shuffled n r su s t" and k: "r \<le> k" "k \<le> su"
    and low: "\<forall>x. r \<le> x \<and> x \<le> k \<longrightarrow> entry_longs t x \<le> entry_longs t k"
    and high: "\<forall>x. k < x \<and> x \<le> su \<longrightarrow> entry_longs t k \<le> entry_longs t x"
    and new: "set new = {(r, k - 1), (k + 1, su)}" "sorted_wrt apart new" "halved n (new @ st)"
  shows "intervals_inv n (new @ st) t"
proof -
  have i: "isolated n s r su" "1 \<le> r" "su \<le> n" using inv by (auto simp: intervals_inv_def)
  note it = isolated_self [OF sh i]
  have old: "1 \<le> l \<and> l \<le> u + 1 \<and> u \<le> n \<and> isolated n t l u \<and> apart (r, su) (l, u)" if "(l, u) \<in> set st" for l u
  proof -
    have "1 \<le> l" "l \<le> u + 1" "u \<le> n" "isolated n s l u" "apart (r, su) (l, u)"
      using inv that by (auto simp: intervals_inv_def)
    then show ?thesis using isolated_other [OF sh i, of l u] by (auto simp: apart_def)
  qed
  have parts: "isolated n t r (k - 1)" "isolated n t (k + 1) su"
    using isolated_parts [OF it i(2,3) k low high] by auto
  have pair: "entry_longs t a \<le> entry_longs t b \<or> b = a + 1 \<or> (\<exists>(l, u)\<in>set (new @ st). l \<le> a \<and> b \<le> u)"
    if ab: "1 \<le> a" "a < b" "b \<le> n" for a b
  proof (cases "(r \<le> a \<and> a \<le> su) \<or> (r \<le> b \<and> b \<le> su)")
    case True
    consider "r \<le> a \<and> b \<le> su" | "r \<le> a \<and> a \<le> su \<and> su < b" | "a < r \<and> r \<le> b \<and> b \<le> su" using True ab by linarith
    then show ?thesis
    proof cases
      case 1
      have "(r \<le> a \<and> b \<le> k - 1) \<or> (k + 1 \<le> a \<and> b \<le> su) \<or> (a \<le> k \<and> k \<le> b)" using ab 1 by linarith
      moreover have "entry_longs t a \<le> entry_longs t b" if "a \<le> k" "k \<le> b"
      proof (rule order_trans)
        show "entry_longs t a \<le> entry_longs t k" using low 1 that by auto
        show "entry_longs t k \<le> entry_longs t b" using high 1 that by (cases "b = k") auto
      qed
      ultimately show ?thesis using new(1) by auto
    next
      case 2 then show ?thesis using it ab unfolding isolated_def by blast
    next
      case 3 then show ?thesis using it ab unfolding isolated_def by blast
    qed
  next
    case False
    then have "entry_longs t a = entry_longs s a" "entry_longs t b = entry_longs s b"
      using shuffled_longs(1) [OF sh] by (meson not_le)+
    moreover have "entry_longs s a \<le> entry_longs s b \<or> b = a + 1 \<or> (r \<le> a \<and> b \<le> su) \<or> (\<exists>(l, u)\<in>set st. l \<le> a \<and> b \<le> u)"
      using inv ab unfolding intervals_inv_def by auto
    moreover have "\<not> (r \<le> a \<and> b \<le> su)" using False ab by auto
    ultimately show ?thesis by auto
  qed
  have ap: "\<forall>x\<in>set new. \<forall>y\<in>set st. apart x y"
  proof (intro ballI)
    fix x y assume "x \<in> set new" "y \<in> set st"
    then show "apart x y" using old [of "fst y" "snd y"] k new(1) by (auto simp: apart_def)
  qed
  have "sorted_wrt apart (new @ st)"
    using inv new(2) ap by (simp add: sorted_wrt_append intervals_inv_def)
  moreover have "\<forall>(l, u)\<in>set (new @ st). 1 \<le> l \<and> l \<le> u + 1 \<and> u \<le> n \<and> isolated n t l u"
    using old parts new(1) i k by auto
  ultimately show ?thesis
    unfolding intervals_inv_def using shuffled_memory [OF sh] new(3) pair by auto
qed

lemma halved_double:
  assumes "x * 2 \<le> (m :: nat)" and "m * 2 ^ d \<le> n"
  shows "x * 2 ^ Suc d \<le> n"
proof -
  have "x * 2 ^ Suc d = x * 2 * 2 ^ d" by simp
  also have "\<dots> \<le> m * 2 ^ d" using assms(1) by (rule mult_le_mono1)
  also have "\<dots> \<le> n" by (rule assms(2))
  finally show ?thesis .
qed

lemma halved_depth:
  assumes "3 \<le> (m :: nat)" and "m * 2 ^ d \<le> n" and "n < 2 ^ 31"
  shows "d < 30"
proof (rule ccontr)
  assume "\<not> d < 30"
  then have "(2 :: nat) ^ 30 \<le> 2 ^ d" by (intro power_increasing) auto
  then have "3 * 2 ^ 30 \<le> m * 2 ^ d" using assms(1) by (intro mult_le_mono)
  then show False using assms(2,3) by simp
qed

lemma push_parts_spec:
  assumes h: "halved n ((r, su) # st)" and n: "n < 2 ^ 31" and k: "1 \<le> r" "r \<le> k" "k \<le> su" "r + 2 \<le> su"
  obtains new where "push_parts r k su st = Some (new @ st)" "set new = {(r, k - 1), (k + 1, su)}"
    "sorted_wrt apart new" "halved n (new @ st)" "new = [(k + 1, su), (r, k - 1)] \<or> new = [(r, k - 1), (k + 1, su)]"
proof -
  have hs: "(su + 1 - r) * 2 ^ length st \<le> n" "halved n st" using h by auto
  have d: "length st < 30" by (rule halved_depth [OF _ hs(1) n]) (use k in simp)
  have k1: "k - 1 + 1 = k" using k by simp
  have any: "x * 2 ^ length st \<le> n" if "x \<le> su + 1 - r" for x
    by (rule le_trans [OF mult_le_mono1 [OF that] hs(1)])
  show ?thesis
  proof (cases "int k - int r > int su - int k + 1")
    case True
    have "(su - k) * 2 \<le> su + 1 - r" using True k by linarith
    then have "(su - k) * 2 ^ Suc (length st) \<le> n" by (rule halved_double [OF _ hs(1)])
    then have "halved n ([(k + 1, su), (r, k - 1)] @ st)" using any [of "k - r"] hs(2) k k1 by simp
    then show ?thesis
      using that [of "[(k + 1, su), (r, k - 1)]"] True d k
      by (auto simp: push_parts_def push_interval_def apart_def insert_commute)
  next
    case False
    have "(k - r) * 2 \<le> su + 1 - r" using False k by linarith
    then have "(k - r) * 2 ^ Suc (length st) \<le> n" by (rule halved_double [OF _ hs(1)])
    then have "halved n ([(r, k - 1), (k + 1, su)] @ st)" using any [of "su - k"] hs(2) k k1 by simp
    then show ?thesis
      using that [of "[(r, k - 1), (k + 1, su)]"] False d k by (auto simp: push_parts_def push_interval_def apart_def)
  qed
qed

definition weight :: "(nat \<times> nat) list \<Rightarrow> nat" where
  "weight st = sum_list (map (\<lambda>(l, u). 2 * (u + 1 - l) + 1) st)"

lemma quick_loop_spec:
  assumes "intervals_inv n stack s" and "n < 2 ^ 31"
  shows "\<exists>t. quick_loop (scb_longs s) stack s = Some t \<and> shuffled n 1 n s t \<and> intervals_inv n [] t"
  using assms(1)
proof (induction "weight stack" arbitrary: stack s rule: less_induct)
  case less
  have m: "in_memory n s" using less.prems by (simp add: intervals_inv_def)
  show ?case
  proof (cases stack)
    case Nil
    then show ?thesis using less.prems shuffled_refl [OF m] by (subst quick_loop.simps) simp
  next
    case (Cons e st)
    obtain r su where e: "stack = (r, su) # st" using Cons by (cases e) simp
    have i: "1 \<le> r" "su \<le> n" "isolated n s r su" "halved n ((r, su) # st)" using less.prems e by (auto simp: intervals_inv_def)
    show ?thesis
    proof (cases "int su - int r < 2")
      case True
      have "weight st < weight stack" by (simp add: e weight_def)
      from less.hyps [OF this intervals_inv_pop [OF _ True]] less.prems e show ?thesis
        using True by (subst quick_loop.simps) simp
    next
      case False
      then have b: "r + 2 \<le> su" "r < su" by linarith+
      have g: "\<forall>x. r \<le> x \<and> x \<le> su \<and> su < n \<longrightarrow> entry_longs s x \<le> entry_longs s (su + 1)"
        using isolatedD(2) [OF i(3,1)] by auto
      obtain t k where t: "split_interval (scb_longs s) r su s = Some (t, k)" "shuffled n r su s t" "r \<le> k" "k \<le> su"
        "\<forall>x. r \<le> x \<and> x \<le> k \<longrightarrow> entry_longs t x \<le> entry_longs t k"
        "\<forall>x. k < x \<and> x \<le> su \<longrightarrow> entry_longs t k \<le> entry_longs t x"
        using split_interval_spec [OF m i(1) b(2) i(2) g] by metis
      obtain new where new: "push_parts r k su st = Some (new @ st)" "set new = {(r, k - 1), (k + 1, su)}"
        "sorted_wrt apart new" "halved n (new @ st)" "new = [(k + 1, su), (r, k - 1)] \<or> new = [(r, k - 1), (k + 1, su)]"
        by (rule push_parts_spec [OF i(4) assms(2) i(1) t(3,4) b(1)])
      have w: "weight (new @ st) < weight stack"
        using new(5) t(3,4) i(1) by (auto simp: weight_def e)
      have l: "scb_longs t = scb_longs s" using t(2) by (simp add: shuffled_def)
      have "intervals_inv n (new @ st) t"
        by (rule intervals_inv_split [OF _ t(2-6) new(2-4)]) (use less.prems e in simp)
      from less.hyps [OF w this] l
      obtain v where v: "quick_loop (scb_longs s) (new @ st) t = Some v" "shuffled n 1 n t v" "intervals_inv n [] v" by auto
      have "shuffled n 1 n s v"
        using shuffled_trans [OF shuffled_widen [OF t(2) i(1,2)] v(2)] .
      moreover have "quick_loop (scb_longs s) stack s = Some v"
        using False t(1) new(1) v(1) e by (subst quick_loop.simps) simp
      ultimately show ?thesis using v(3) by blast
    qed
  qed
qed

subsection \<open>The pass over the pairs\<close>

text \<open>After \<^verbatim>\<open>quick\<close>, only neighbours may be out of order.\<close>

definition nearly_sorted :: "nat \<Rightarrow> (nat \<Rightarrow> ulong list) \<Rightarrow> bool" where
  "nearly_sorted n f = (\<forall>a b. 1 \<le> a \<and> a + 2 \<le> b \<and> b \<le> n \<longrightarrow> f a \<le> f b)"

definition sorted_to :: "nat \<Rightarrow> (nat \<Rightarrow> ulong list) \<Rightarrow> bool" where
  "sorted_to n f = (\<forall>a b. 1 \<le> a \<and> a \<le> b \<and> b \<le> n \<longrightarrow> f a \<le> f b)"

lemma sorted_to_step:
  assumes "nearly_sorted n f" "sorted_to j f" "j < n" "f j \<le> f (j + 1)"
  shows "sorted_to (j + 1) f"
  unfolding sorted_to_def
proof (intro allI impI)
  fix a b assume ab: "1 \<le> a \<and> a \<le> b \<and> b \<le> j + 1"
  then consider "b \<le> j" | "b = j + 1" "a = j + 1" | "b = j + 1" "a = j" | "b = j + 1" "a + 2 \<le> b" by linarith
  then show "f a \<le> f b" using assms ab by cases (auto simp: nearly_sorted_def sorted_to_def)
qed

lemma sorted_to_swap:
  assumes near: "nearly_sorted n f" and pre: "sorted_to j f" and j: "1 \<le> j" "j < n" "f (j + 1) \<le> f j"
    and g: "g = f(j := f (j + 1), j + 1 := f j)"
  shows "nearly_sorted n g" and "sorted_to (j + 1) g"
proof -
  show "nearly_sorted n g"
    unfolding nearly_sorted_def
  proof (intro allI impI)
    fix a b assume ab: "1 \<le> a \<and> a + 2 \<le> b \<and> b \<le> n"
    then consider "a = j" | "a = j + 1" | "b = j" | "b = j + 1" | "a \<noteq> j" "a \<noteq> j + 1" "b \<noteq> j" "b \<noteq> j + 1" by blast
    then show "g a \<le> g b"
    proof cases
      case 1
      then have "f j \<le> f b" using near ab by (auto simp: nearly_sorted_def)
      then show ?thesis using 1 ab j(3) by (auto simp: g)
    next
      case 2
      then show ?thesis using near ab j(1) by (auto simp: g nearly_sorted_def)
    next
      case 3
      then show ?thesis using near ab j(2) by (auto simp: g nearly_sorted_def)
    next
      case 4
      then show ?thesis using pre ab by (auto simp: g sorted_to_def)
    next
      case 5
      then show ?thesis using near ab by (auto simp: g nearly_sorted_def)
    qed
  qed
  show "sorted_to (j + 1) g"
    unfolding sorted_to_def
  proof (intro allI impI)
    fix a b assume ab: "1 \<le> a \<and> a \<le> b \<and> b \<le> j + 1"
    then consider "a = b" | "b = j + 1" "a = j" | "b = j + 1" "a < j" | "b = j" "a < j" | "b < j" by linarith
    then show "g a \<le> g b"
    proof cases
      case 2
      then show ?thesis using j(3) by (simp add: g)
    next
      case 3
      then show ?thesis using pre ab by (auto simp: g sorted_to_def)
    next
      case 4
      then show ?thesis using near ab j(2) by (auto simp: g nearly_sorted_def)
    next
      case 5
      then show ?thesis using pre ab by (auto simp: g sorted_to_def)
    qed simp
  qed
qed

lemma pair_pass_spec:
  assumes "in_memory n s" "nearly_sorted n (entry_longs s)" "sorted_to j (entry_longs s)" "1 \<le> j" "j \<le> n \<or> n = 0"
  shows "\<exists>t. pair_pass j s = Some t \<and> shuffled n 1 n s t \<and> sorted_to n (entry_longs t)"
  using assms
proof (induction j s rule: pair_pass.induct)
  case (1 j s)
  note m = "1.prems"(1) and near = "1.prems"(2) and pre = "1.prems"(3) and j1 = "1.prems"(4)
  have next_ptr: "scb_next_pointer s = n + 1" using m by (simp add: in_memory_def)
  show ?case
  proof (cases "j < n")
    case False
    then have "sorted_to n (entry_longs s)" using pre "1.prems"(5) by (auto simp: sorted_to_def)
    then show ?thesis using False next_ptr shuffled_refl [OF m] by (subst pair_pass.simps) auto
  next
    case True
    then have c: "j + 1 < scb_next_pointer s" and r: "j \<le> n" "1 \<le> j + 1" "j + 1 \<le> n" using next_ptr by auto
    obtain x xs where x: "first_long s j = Some x" "entry_longs s j = x # xs" using first_long_entry [OF m j1 r(1)] by metis
    obtain y ys where y: "first_long s (j + 1) = Some y" "entry_longs s (j + 1) = y # ys" using first_long_entry [OF m r(2,3)] by metis
    obtain d where d: "compare_records s j (j + 1) (scb_longs s - 1) = Some d"
      "found_greater d \<Longrightarrow> entry_longs s (j + 1) \<le> entry_longs s j"
      "\<not> found_greater d \<Longrightarrow> entry_longs s j \<le> entry_longs s (j + 1)"
      using compare_records_order [OF m j1 r] by metis
    note IH = "1.IH" [OF c x(1) y(1)]
    show ?thesis
    proof (cases "x \<ge> y \<and> found_greater d")
      case True
      obtain t where t: "swap_entries j (j + 1) s = Some t" "shuffled n 1 n s t"
        "entry_longs t = (entry_longs s)(j := entry_longs s (j + 1), j + 1 := entry_longs s j)"
        by (rule swap_entries_shuffled [OF m order_refl order_refl j1 r])
      note st = sorted_to_swap [OF near pre j1 \<open>j < n\<close> d(2) t(3)]
      obtain v where v: "pair_pass (j + 1) t = Some v" "shuffled n 1 n t v" "sorted_to n (entry_longs v)"
        using IH(1) [OF _ d(1) _ t(1) shuffled_memory [OF t(2)] st] True r by auto
      have "pair_pass j s = Some v" using c x(1) y(1) d(1) True t(1) v(1) by (subst pair_pass.simps) simp
      then show ?thesis using shuffled_trans [OF t(2) v(2)] v(3) by blast
    next
      case False
      have "entry_longs s j \<le> entry_longs s (j + 1)" using False d(3) x(2) y(2) by (cases "x \<ge> y") auto
      note st = sorted_to_step [OF near pre \<open>j < n\<close> this]
      obtain v where v: "pair_pass (j + 1) s = Some v" "shuffled n 1 n s v" "sorted_to n (entry_longs v)"
        using IH(2) [OF _ d(1) _ m near st] IH(3) [OF _ m near st] False r by auto
      have "pair_pass j s = Some v" using c x(1) y(1) d(1) False v(1) by (subst pair_pass.simps) auto
      then show ?thesis using v by blast
    qed
  qed
qed

subsection \<open>The sort\<close>

text \<open>The records \<^term>\<open>ps\<close> have been put, every one with its back pointer.\<close>

definition ready :: "nat list \<Rightarrow> sort_context \<Rightarrow> bool" where
  "ready ps s = (scb_pointers s = low_key # map Rec ps \<and> scb_next_pointer s = length ps + 1 \<and>
     (\<forall>i<length ps. sr_bckptr s (ps ! i) = Some (i + 1) \<and>
        length (sort_record_key s (ps ! i)) = 4 * (scb_longs s - SIZEOF_SR_BCKPTR_IN_LONGS s)) \<and>
     SIZEOF_SR_BCKPTR_IN_LONGS s \<in> {1, 2} \<and> SIZEOF_SR_BCKPTR_IN_LONGS s < scb_longs s \<and>
     (SIZEOF_SR_BCKPTR_IN_LONGS s = 2 \<longrightarrow> past_end_memory s \<noteq> None))"

lemma ready_in_memory:
  assumes "ready ps s"
  shows "in_memory (length ps) (s\<lparr>scb_pointers := take (scb_next_pointer s) (scb_pointers s) @ [high_key]\<rparr>)"
proof -
  have "\<exists>p. (low_key # map Rec ps @ [high_key]) ! i = Rec p \<and> sr_bckptr s p = Some i \<and>
      length (sort_record_key s p) = 4 * (scb_longs s - SIZEOF_SR_BCKPTR_IN_LONGS s)"
    if "1 \<le> i" "i \<le> length ps" for i
    using assms that by (cases i) (auto simp: ready_def nth_append)
  then show ?thesis using assms by (auto simp: ready_def in_memory_def nth_append)
qed

lemma in_memory_records:
  assumes m: "in_memory n t" and sorted: "sorted_to n (entry_longs t)"
    and ms: "mset (scb_pointers t) = mset (low_key # map Rec ps @ [high_key])"
  shows "\<exists>qs. scb_pointers t = low_key # map Rec qs @ [high_key] \<and> mset qs = mset ps \<and>
    sorted (map (\<lambda>p. longs_of (sort_record_key t p)) qs) \<and> (\<forall>i<length qs. sr_bckptr t (qs ! i) = Some (i + 1))"
proof -
  define num where "num = (\<lambda>x. case x of Rec p \<Rightarrow> p | _ \<Rightarrow> 0)"
  define qs where "qs = map (\<lambda>i. num (scb_pointers t ! (i + 1))) [0..<n]"
  have lq: "length qs = n" by (simp add: qs_def)
  have at: "scb_pointers t ! (i + 1) = Rec (qs ! i)" "sr_bckptr t (qs ! i) = Some (i + 1)"
    "entry_longs t (i + 1) = longs_of (sort_record_key t (qs ! i))" if "i < n" for i
  proof -
    have r: "1 \<le> i + 1" "i + 1 \<le> n" using that by auto
    obtain p where "scb_pointers t ! (i + 1) = Rec p" "sr_bckptr t p = Some (i + 1)"
      "entry_longs t (i + 1) = longs_of (sort_record_key t p)"
      using in_memory_entry [OF m r] by metis
    then show "scb_pointers t ! (i + 1) = Rec (qs ! i)" "sr_bckptr t (qs ! i) = Some (i + 1)"
      "entry_longs t (i + 1) = longs_of (sort_record_key t (qs ! i))" using that by (auto simp: qs_def num_def)
  qed
  have p: "scb_pointers t = low_key # map Rec qs @ [high_key]"
  proof (rule nth_equalityI)
    show "length (scb_pointers t) = length (low_key # map Rec qs @ [high_key])" using m lq by (simp add: in_memory_def)
    fix i assume i: "i < length (scb_pointers t)"
    have g: "scb_pointers t ! 0 = low_key" "scb_pointers t ! (n + 1) = high_key" "length (scb_pointers t) = n + 2"
      using m by (auto simp: in_memory_def)
    show "scb_pointers t ! i = (low_key # map Rec qs @ [high_key]) ! i"
    proof (cases i)
      case (Suc k)
      then show ?thesis using g i at(1) [of k] lq by (cases "k < n") (auto simp: nth_append less_Suc_eq)
    qed (use g in simp)
  qed
  have "image_mset Rec (mset qs) = image_mset Rec (mset ps)" using ms unfolding p by simp
  moreover have "mset xs = image_mset num (image_mset Rec (mset xs))" for xs
    by (simp add: num_def multiset.map_comp comp_def)
  ultimately have "mset qs = mset ps" by metis
  moreover have "sorted (map (\<lambda>p. longs_of (sort_record_key t p)) qs)"
    unfolding sorted_iff_nth_mono
  proof (intro allI impI)
    fix i j assume ij: "i \<le> j" "j < length (map (\<lambda>p. longs_of (sort_record_key t p)) qs)"
    then have "entry_longs t (i + 1) \<le> entry_longs t (j + 1)" using sorted lq by (auto simp: sorted_to_def)
    then show "map (\<lambda>p. longs_of (sort_record_key t p)) qs ! i \<le> map (\<lambda>p. longs_of (sort_record_key t p)) qs ! j"
      using at(3) [of i] at(3) [of j] ij lq by simp
  qed
  ultimately show ?thesis using p at(2) lq by auto
qed

lemma sort_memory_spec:
  assumes r: "ready ps s" and n: "length ps < 2 ^ 31" and cb: "scb_dup_callback s = None"
  shows "\<exists>t qs. sort_memory s = Some t \<and> scb_pointers t = low_key # map Rec qs @ [high_key] \<and> mset qs = mset ps \<and>
    sorted (map (\<lambda>p. longs_of (sort_record_key s p)) qs) \<and> sort_record_key t = sort_record_key s \<and>
    (\<forall>i<length qs. sr_bckptr t (qs ! i) = Some (i + 1)) \<and>
    scb_description t = scb_description s \<and> scb_records t = scb_records s"
proof -
  let ?n = "length ps"
  define s1 where "s1 = s\<lparr>scb_pointers := take (scb_next_pointer s) (scb_pointers s) @ [high_key]\<rparr>"
  have m: "in_memory ?n s1" unfolding s1_def by (rule ready_in_memory [OF r])
  have k: "scb_next_pointer s = ?n + 1" "scb_pointers s1 = low_key # map Rec ps @ [high_key]" "scb_longs s1 = scb_longs s"
    using r by (auto simp: ready_def s1_def)
  have "intervals_inv ?n [(1, ?n)] s1" using m by (auto simp: intervals_inv_def isolated_def)
  from quick_loop_spec [OF this n] obtain s2 where s2: "quick_loop (scb_longs s) [(1, ?n)] s1 = Some s2"
    "shuffled ?n 1 ?n s1 s2" "intervals_inv ?n [] s2" unfolding k(3) by blast
  have near: "nearly_sorted ?n (entry_longs s2)"
    unfolding nearly_sorted_def
  proof (intro allI impI)
    fix a b assume ab: "1 \<le> a \<and> a + 2 \<le> b \<and> b \<le> ?n"
    have all: "\<forall>a b. 1 \<le> a \<and> a < b \<and> b \<le> ?n \<longrightarrow> entry_longs s2 a \<le> entry_longs s2 b \<or> b = a + 1"
      using s2(3) by (simp add: intervals_inv_def)
    have "1 \<le> a \<and> a < b \<and> b \<le> ?n" using ab by auto
    then have "entry_longs s2 a \<le> entry_longs s2 b \<or> b = a + 1" using all by blast
    then show "entry_longs s2 a \<le> entry_longs s2 b" using ab by auto
  qed
  have pre: "sorted_to 1 (entry_longs s2)"
    unfolding sorted_to_def
  proof (intro allI impI)
    fix a b :: nat assume "1 \<le> a \<and> a \<le> b \<and> b \<le> 1"
    then have "a = b" by simp
    then show "entry_longs s2 a \<le> entry_longs s2 b" by simp
  qed
  have one: "1 \<le> ?n \<or> ?n = 0" by linarith
  obtain t where t: "pair_pass 1 s2 = Some t" "shuffled ?n 1 ?n s2 t" "sorted_to ?n (entry_longs t)"
    using pair_pass_spec [OF shuffled_memory [OF s2(2)] near pre order_refl one] by auto
  note sh = shuffled_trans [OF s2(2) t(2)]
  have e: "sort_memory s = Some t"
    using s2(1) t(1) cb k(1) unfolding sort_memory_def quick_def s1_def [symmetric] by simp
  have key: "sort_record_key t = sort_record_key s" "scb_description t = scb_description s" "scb_records t = scb_records s"
    using sh by (auto simp: shuffled_def s1_def)
  have "mset (scb_pointers t) = mset (low_key # map Rec ps @ [high_key])"
    using sh k(2) by (simp add: shuffled_def)
  from in_memory_records [OF shuffled_memory [OF t(2)] t(3) this] e key show ?thesis by auto
qed

end
