(* ===== verification/FB_SortOrder.thy ===== *)
theory FB_SortOrder
  imports FB_SortKey
begin

section \<open>Converted keys compare like the values\<close>

text \<open>
  What \<^verbatim>\<open>diddle_key\<close> makes of fields of fixed format, that turning back undoes it, and that the order of
  the longwords is the order of the values.
\<close>

subsection \<open>Bytes and little endian numbers\<close>

lemma unat_byte_less: "unat (b :: byte) < 256"
proof -
  have "unat b < 2 ^ LENGTH(8)" by (rule unsigned_less)
  then show ?thesis by simp
qed

lemma byte_cases:
  assumes "\<forall>n\<in>set [0..<256]. P (word_of_nat n :: byte)"
  shows "P b"
proof -
  have "unat b \<in> set [0..<256]" using unat_byte_less [of b] by simp
  then have "P (word_of_nat (unat b))" using assms by blast
  then show ?thesis by simp
qed

lemma flip_bit_flip [simp]: "(b XOR 128) XOR 128 = (b :: byte)"
  by (simp add: xor.assoc)

lemma unat_flip: "unat (b XOR 128 :: byte) = (if drop_bit 7 b = 1 then unat b - 128 else unat b + 128)"
proof (rule byte_cases [of "\<lambda>b. unat (b XOR 128 :: byte) = (if drop_bit 7 b = 1 then unat b - 128 else unat b + 128)"])
  show "\<forall>n\<in>set [0..<256]. unat ((word_of_nat n :: byte) XOR 128) =
    (if drop_bit 7 (word_of_nat n :: byte) = 1 then unat (word_of_nat n :: byte) - 128 else unat (word_of_nat n :: byte) + 128)"
    by code_simp
qed

lemma sign_ge: "drop_bit 7 b = 1 \<longleftrightarrow> 128 \<le> unat (b :: byte)"
proof (rule byte_cases [of "\<lambda>b. drop_bit 7 b = 1 \<longleftrightarrow> 128 \<le> unat (b :: byte)"])
  show "\<forall>n\<in>set [0..<256]. (drop_bit 7 (word_of_nat n :: byte) = 1) = (128 \<le> unat (word_of_nat n :: byte))"
    by code_simp
qed

lemma unat_not: "unat (NOT b :: byte) = 255 - unat b"
proof (rule byte_cases [of "\<lambda>b. unat (NOT b :: byte) = 255 - unat b"])
  show "\<forall>n\<in>set [0..<256]. unat (NOT (word_of_nat n :: byte)) = 255 - unat (word_of_nat n :: byte)"
    by code_simp
qed

lemma le_val_snoc: "le_val (xs @ [b]) = le_val xs + 256 ^ length xs * unat b"
  by (induction xs) (auto simp: algebra_simps)

lemma le_val_less: "le_val xs < 256 ^ length xs"
proof (induction xs)
  case (Cons b xs)
  then show ?case using unat_byte_less [of b] by simp
qed simp

lemma le_val_not: "le_val (map (\<lambda>b. NOT b) xs) = 256 ^ length xs - 1 - le_val xs"
proof (induction xs)
  case (Cons b xs)
  then show ?case using unat_byte_less [of b] le_val_less [of xs] by (simp add: unat_not)
qed simp

lemma lex_snoc_arith:
  fixes x y X Y p :: nat
  assumes "x < p" "y < p"
  shows "x + p * X < y + p * Y \<longleftrightarrow> X < Y \<or> X = Y \<and> x < y"
proof -
  have "x + p * X < y + p * Y" if "X < Y"
  proof -
    have "x + p * X < p * Suc X" using assms(1) by simp
    also have "\<dots> \<le> p * Y" using that by (intro mult_le_mono2) simp
    finally show ?thesis by simp
  qed
  moreover have "y + p * Y < x + p * X" if "Y < X"
  proof -
    have "y + p * Y < p * Suc Y" using assms(2) by simp
    also have "\<dots> \<le> p * X" using that by (intro mult_le_mono2) simp
    finally show ?thesis by simp
  qed
  ultimately show ?thesis by (cases X Y rule: linorder_cases) auto
qed

text \<open>From the last byte on, bytes compare like the number they form.\<close>

lemma rev_less_iff:
  assumes "length f = length g"
  shows "rev f < rev g \<longleftrightarrow> le_val f < le_val g"
  using assms
proof (induction f arbitrary: g rule: rev_induct)
  case (snoc b xs)
  obtain ys c where g: "g = ys @ [c]" "length ys = length xs"
    using snoc.prems by (cases g rule: rev_cases) auto
  then show ?case
    using snoc.IH [of ys] lex_snoc_arith [of "le_val xs" "256 ^ length xs" "le_val ys" "unat b" "unat c"]
      le_val_less [of xs] le_val_less [of ys]
    by (auto simp: le_val_snoc word_less_nat_alt word_unat_eq_iff)
qed simp

lemma append_less_iff:
  "length xs = length xs' \<Longrightarrow> xs @ ys < xs' @ ys' \<longleftrightarrow> xs < xs' \<or> xs = xs' \<and> ys < (ys' :: 'a :: linorder list)"
  by (induction xs xs' rule: list_induct2) auto

lemma map_not_less:
  "length xs = length ys \<Longrightarrow> map (\<lambda>b. NOT b) xs < map (\<lambda>b. NOT b) ys \<longleftrightarrow> ys < (xs :: byte list)"
proof (induction xs ys rule: list_induct2)
  case (Cons x xs y ys)
  have "(NOT x < NOT y) = (y < x)" using unat_byte_less [of x] unat_byte_less [of y]
    by (auto simp: word_less_nat_alt unat_not)
  then show ?case using Cons by auto
qed simp

subsection \<open>Longwords\<close>

text \<open>The bytes of each longword from the highest down.\<close>

fun rev4 :: "byte list \<Rightarrow> byte list" where
  "rev4 (a # b # c # d # bs) = d # c # b # a # rev4 bs"
| "rev4 bs = bs"

lemma rev4_rev4 [simp]: "rev4 (rev4 bs) = bs"
  by (induction bs rule: rev4.induct) auto

lemma length_rev4 [simp]: "length (rev4 bs) = length bs"
  by (induction bs rule: rev4.induct) auto

lemma rev4_map [simp]: "rev4 (map h bs) = map h (rev4 bs)"
  by (induction bs rule: rev4.induct) auto

lemma rev4_append: "length xs = 4 * m \<Longrightarrow> rev4 (xs @ ys) = rev4 xs @ rev4 ys"
proof (induction m arbitrary: xs)
  case (Suc m)
  then obtain a b c d zs where "xs = a # b # c # d # zs" "length zs = 4 * m"
    by (auto simp: length_Suc_conv numeral_eq_Suc)
  then show ?case using Suc.IH by simp
qed simp

lemma rev4_long: "length f = 4 \<Longrightarrow> rev4 f = rev f"
  by (auto simp: length_Suc_conv numeral_eq_Suc)

lemma long_le_val: "unat (word_of_nat (le_val [a, b, c, d]) :: ulong) = le_val [a, b, c, d]"
  using le_val_less [of "[a, b, c, d]"] by (simp add: unat_of_nat del: le_val.simps)

lemma longs_less_iff:
  assumes "length f = 4 * m" and "length g = 4 * m"
  shows "longs_of f < longs_of g \<longleftrightarrow> rev4 f < rev4 g"
  using assms
proof (induction m arbitrary: f g)
  case (Suc m)
  obtain a b c d xs where f: "f = a # b # c # d # xs" "length xs = 4 * m"
    using Suc.prems(1) by (auto simp: length_Suc_conv numeral_eq_Suc)
  obtain a' b' c' d' ys where g: "g = a' # b' # c' # d' # ys" "length ys = 4 * m"
    using Suc.prems(2) by (auto simp: length_Suc_conv numeral_eq_Suc)
  have less: "(word_of_nat (le_val [a, b, c, d]) :: ulong) < word_of_nat (le_val [a', b', c', d']) \<longleftrightarrow>
      rev [a, b, c, d] < rev [a', b', c', d']"
    by (simp only: word_less_nat_alt long_le_val rev_less_iff [of "[a, b, c, d]" "[a', b', c', d']"] list.size)
  have greater: "(word_of_nat (le_val [a', b', c', d']) :: ulong) < word_of_nat (le_val [a, b, c, d]) \<longleftrightarrow>
      rev [a', b', c', d'] < rev [a, b, c, d]"
    by (simp only: word_less_nat_alt long_le_val rev_less_iff [of "[a', b', c', d']" "[a, b, c, d]"] list.size)
  have eq: "(word_of_nat (le_val [a, b, c, d]) :: ulong) = word_of_nat (le_val [a', b', c', d']) \<longleftrightarrow>
      rev [a, b, c, d] = rev [a', b', c', d']"
    using less greater by (metis less_irrefl linorder_less_linear)
  have "rev4 f = rev [a, b, c, d] @ rev4 xs" "rev4 g = rev [a', b', c', d'] @ rev4 ys"
    "longs_of f = word_of_nat (le_val [a, b, c, d]) # longs_of xs"
    "longs_of g = word_of_nat (le_val [a', b', c', d']) # longs_of ys" using f g by simp_all
  then show ?case
    using Suc.IH [OF f(2) g(2)] less eq append_less_iff [of "rev [a, b, c, d]" "rev [a', b', c', d']"]
    by (simp only: Cons_less_Cons list.size length_rev)
qed simp

subsection \<open>Fields of fixed format\<close>

text \<open>
  The types whose conversion depends on the bytes of the field alone, with the length they need: all but
  \<^verbatim>\<open>SKD_varying\<close> and \<^verbatim>\<open>SKD_cstring\<close>, which have a length of their own, and \<^verbatim>\<open>SKD_d_float\<close>, which this
  variant of the code does not handle.
\<close>

fun plain_length :: "skd_type \<Rightarrow> nat \<Rightarrow> bool" where
  "plain_length SKD_short l = (l = 2)"
| "plain_length SKD_ushort l = (l = 2)"
| "plain_length SKD_long l = (l = 4)"
| "plain_length SKD_ulong l = (l = 4)"
| "plain_length SKD_float l = (l = 4)"
| "plain_length SKD_sql_date l = (l = 4)"
| "plain_length SKD_sql_time l = (l = 4)"
| "plain_length SKD_int64 l = (l = 8)"
| "plain_length SKD_double l = (l = 8)"
| "plain_length SKD_quad l = (l = 8)"
| "plain_length SKD_timestamp1 l = (l = 8)"
| "plain_length SKD_timestamp2 l = (l = 8)"
| "plain_length SKD_text l = (l < 65532)"
| "plain_length SKD_bytes l = (l < 65532)"
| "plain_length _ l = False"

definition plain_key :: "sort_key_def \<Rightarrow> bool" where
  "plain_key key = plain_length (skd_dtype key) (skd_length key)"

text \<open>What becomes of the bytes of a field in ascending order; in descending order they are complemented.\<close>

definition plain_code :: "skd_type \<Rightarrow> byte list \<Rightarrow> byte list" where
  "plain_code ty f = (case ty of
     SKD_short \<Rightarrow> flip_sign 1 f
   | SKD_ushort \<Rightarrow> f
   | SKD_ulong \<Rightarrow> f
   | SKD_text \<Rightarrow> rev4 f
   | SKD_bytes \<Rightarrow> rev4 f
   | SKD_int64 \<Rightarrow> swap_longs 0 (flip_sign 7 f)
   | SKD_quad \<Rightarrow> flip_sign 7 f
   | SKD_double \<Rightarrow> swap_longs 0 (if sign_bit 7 f then map (\<lambda>b. NOT b) f else flip_sign 7 f)
   | SKD_float \<Rightarrow> (if sign_bit 3 f then map (\<lambda>b. NOT b) f else flip_sign 3 f)
   | _ \<Rightarrow> flip_sign 3 f)"

definition field_code :: "sort_key_def \<Rightarrow> byte list \<Rightarrow> byte list" where
  "field_code key f =
    (if is_descending key then map (\<lambda>b. NOT b) (plain_code (skd_dtype key) f) else plain_code (skd_dtype key) f)"

lemma ROUNDUP_4: "ROUNDUP n 4 = 4 * ((n + 3) div 4)"
  by (simp add: ROUNDUP_def)

lemma skd_rounded_plain:
  assumes "plain_key key"
  shows "skd_rounded key = 4 * ((skd_length key + 3) div 4)" and "skd_width (skd_dtype key) \<le> skd_rounded key"
    and "skd_length key \<le> skd_rounded key"
proof -
  have l: "skd_length key < 65532" using assms unfolding plain_key_def by (cases "skd_dtype key") auto
  have "4 * ((skd_length key + 3) div 4) < 65536" using l by linarith
  then show r: "skd_rounded key = 4 * ((skd_length key + 3) div 4)" by (simp add: skd_rounded_def ROUNDUP_4)
  show "skd_width (skd_dtype key) \<le> skd_rounded key"
    unfolding r using assms unfolding plain_key_def by (cases "skd_dtype key") auto
  show "skd_length key \<le> skd_rounded key" unfolding r by linarith
qed

lemma length_flip_sign [simp]: "length (flip_sign i f) = length f"
  by (simp add: flip_sign_def)

lemma flip_sign_flip [simp]: "flip_sign i (flip_sign i f) = f"
  by (cases "i < length f") (simp_all add: flip_sign_def list_update_beyond)

lemma flip_sign_not: "i < length f \<Longrightarrow> flip_sign i (map (\<lambda>b. NOT b) f) = map (\<lambda>b. NOT b) (flip_sign i f)"
  by (simp add: flip_sign_def map_update)

lemma sign_flip: "drop_bit 7 (b XOR 128 :: byte) = 1 \<longleftrightarrow> drop_bit 7 b \<noteq> 1"
  using unat_byte_less [of b] by (simp only: sign_ge unat_flip split: if_split) arith

lemma sign_bit_flip [simp]: "i < length f \<Longrightarrow> sign_bit i (flip_sign i f) = (\<not> sign_bit i f)"
  by (simp only: sign_bit_def flip_sign_def nth_list_update_eq sign_flip)

lemma sign_bit_not [simp]: "i < length f \<Longrightarrow> sign_bit i (map (\<lambda>b. NOT b) f) = (\<not> sign_bit i f)"
  using unat_byte_less [of "f ! i"] by (auto simp: sign_bit_def sign_ge unat_not)

lemma swap_longs_8: "length f = 8 \<Longrightarrow> swap_longs 0 f = drop 4 f @ take 4 f"
  by (simp add: swap_longs_def)

lemma swap_longs_swap [simp]: "length f = 8 \<Longrightarrow> swap_longs 0 (swap_longs 0 f) = f"
  by (simp add: swap_longs_8)

lemma length_swap_longs [simp]: "length f = 8 \<Longrightarrow> length (swap_longs 0 f) = 8"
  by (simp add: swap_longs_8)

lemma swap_longs_not: "swap_longs 0 (map h f) = map h (swap_longs 0 f)"
  by (simp add: swap_longs_def take_map drop_map)

lemma length_plain_code: "(ty = SKD_int64 \<or> ty = SKD_double \<longrightarrow> length f = 8) \<Longrightarrow> length (plain_code ty f) = length f"
  by (cases ty) (auto simp: plain_code_def)

subsection \<open>The loops on a field within a record\<close>

lemma flip_sign_within: "i < length f \<Longrightarrow> flip_sign (length a + i) (a @ f @ z) = a @ flip_sign i f @ z"
  by (simp add: flip_sign_def nth_append list_update_append)

lemma sign_bit_within: "i < length f \<Longrightarrow> sign_bit (length a + i) (a @ f @ z) = sign_bit i f"
  by (simp add: sign_bit_def nth_append)

lemma swap_longs_within: "length f = 8 \<Longrightarrow> swap_longs (length a) (a @ f @ z) = a @ swap_longs 0 f @ z"
  by (simp add: swap_longs_def)

lemma complement_within: "complement_bytes (length a) (length f) (a @ f @ z) = a @ map (\<lambda>b. NOT b) f @ z"
proof (induction f arbitrary: a)
  case (Cons b f)
  have "complement_bytes (length a) (length (b # f)) (a @ (b # f) @ z) =
      complement_bytes (length (a @ [NOT b])) (length f) ((a @ [NOT b]) @ f @ z)"
    by (simp add: nth_append)
  also have "\<dots> = (a @ [NOT b]) @ map (\<lambda>b. NOT b) f @ z" by (rule Cons.IH)
  finally show ?case by simp
qed simp

lemma reverse_within: "length f = 4 * m \<Longrightarrow> reverse_longs (length a) m (a @ f @ z) = a @ rev4 f @ z"
proof (induction m arbitrary: a f)
  case (Suc m)
  obtain p q r s xs where f: "f = p # q # r # s # xs" "length xs = 4 * m"
    using Suc.prems by (auto simp: length_Suc_conv numeral_eq_Suc)
  have "reverse_longs (length a) (Suc m) (a @ f @ z) = reverse_longs (length (a @ [s, r, q, p])) m ((a @ [s, r, q, p]) @ xs @ z)"
    by (simp add: f nth_append list_update_append eval_nat_numeral)
  also have "\<dots> = (a @ [s, r, q, p]) @ rev4 xs @ z" by (rule Suc.IH [OF f(2)])
  finally show ?case by (simp add: f)
qed simp

lemmas within = flip_sign_within sign_bit_within swap_longs_within reverse_within

lemma length_field_code:
  assumes "plain_key key" and "length f = skd_rounded key"
  shows "length (field_code key f) = length f"
proof -
  have "length f = 4 * ((skd_length key + 3) div 4)" using assms skd_rounded_plain(1) by simp
  then have "skd_dtype key = SKD_int64 \<or> skd_dtype key = SKD_double \<longrightarrow> length f = 8"
    using assms(1) by (auto simp: plain_key_def)
  from length_plain_code [OF this] show ?thesis by (simp add: field_code_def)
qed

lemma diddle_plain:
  assumes k: "plain_key key" and a: "length a = skd_offset key" and f: "length f = skd_rounded key"
  shows "diddle_field sf True key (a @ f @ z) = Some (a @ field_code key f @ z)"
    and "diddle_field sf False key (a @ field_code key f @ z) = Some (a @ f @ z)"
proof -
  note r = skd_rounded_plain [OF k]
  have lf: "length f = 4 * ((skd_length key + 3) div 4)" using f r(1) by simp
  have c: "complement_bytes (skd_offset key) (skd_rounded key) (a @ g @ z) = a @ map (\<lambda>b. NOT b) g @ z"
    if "length g = length f" for g
    using complement_within [of a g z] that a f by simp
  have rv: "reverse_longs (skd_offset key) (skd_rounded key div 4) (a @ g @ z) = a @ rev4 g @ z" if "length g = length f" for g
    using reverse_within [of g "skd_rounded key div 4" a z] that a lf r(1) f by simp
  have w: "flip_sign (skd_offset key + i) (a @ g @ z) = a @ flip_sign i g @ z"
    "sign_bit (skd_offset key + i) (a @ g @ z) = sign_bit i g" if "i < length g" for i g
    using that a within(1,2) [of i g a z] by simp_all
  have s: "swap_longs (skd_offset key) (a @ g @ z) = a @ swap_longs 0 g @ z" if "length g = 8" for g
    using that a within(3) [of g a z] by simp
  have fits: "key_fits key (a @ g @ z)" if "length g = length f" for g
    using that r(2) a f k by (auto simp: key_fits_def plain_key_def)
  have w1: "flip_sign (Suc (skd_offset key)) (a @ g @ z) = a @ flip_sign (Suc 0) g @ z" if "1 < length g" for g
    using w(1) [of 1 g] that by simp
  have l: "plain_length (skd_dtype key) (skd_length key)" using k by (simp add: plain_key_def)
  have lc: "length (field_code key f) = length f" by (rule length_field_code [OF k f])
  note defs = diddle_field_def convert_field_def convert_sign_def stash_length_def restore_length_def
    field_code_def plain_code_def
  show "diddle_field sf True key (a @ f @ z) = Some (a @ field_code key f @ z)"
    using l lf fits [of f]
    by (cases "skd_dtype key") (auto simp: defs c rv w w1 s swap_longs_not o_def)
  show "diddle_field sf False key (a @ field_code key f @ z) = Some (a @ f @ z)"
    using l lf fits [OF lc] unfolding field_code_def
    by (cases "skd_dtype key"; cases "is_descending key")
       (auto simp: defs c rv w w1 s swap_longs_not flip_sign_not o_def)
qed

subsection \<open>The order of the values\<close>

text \<open>
  Two's complement numbers, and floating point numbers by their bit pattern: negative numbers descend
  with the magnitude, and the negative zero comes right before zero. An \<^verbatim>\<open>SKD_quad\<close> is ranked as the code
  compares it, by its first longword without sign and then by its second longword with sign; this is not
  the order of the 64 bit number, whose high longword comes first and carries the sign.
\<close>

definition signed_val :: "byte list \<Rightarrow> int" where
  "signed_val f = (if 256 ^ length f \<le> 2 * le_val f then int (le_val f) - 256 ^ length f else int (le_val f))"

definition float_val :: "byte list \<Rightarrow> int" where
  "float_val f = (if 256 ^ length f \<le> 2 * le_val f then 256 ^ length f div 2 - 1 - int (le_val f) else int (le_val f))"

definition field_rank :: "sort_key_def \<Rightarrow> byte list \<Rightarrow> int list" where
  "field_rank key f = (let l = skd_length key in case skd_dtype key of
     SKD_short \<Rightarrow> [signed_val (take l f)]
   | SKD_long \<Rightarrow> [signed_val (take l f)]
   | SKD_int64 \<Rightarrow> [signed_val (take l f)]
   | SKD_sql_date \<Rightarrow> [signed_val (take l f)]
   | SKD_sql_time \<Rightarrow> [signed_val (take l f)]
   | SKD_ushort \<Rightarrow> [int (le_val (take l f))]
   | SKD_ulong \<Rightarrow> [int (le_val (take l f))]
   | SKD_float \<Rightarrow> [float_val (take l f)]
   | SKD_double \<Rightarrow> [float_val (take l f)]
   | SKD_timestamp1 \<Rightarrow> [signed_val (take 4 f), int (le_val (drop 4 f))]
   | SKD_timestamp2 \<Rightarrow> [signed_val (take 4 f), int (le_val (drop 4 f))]
   | SKD_quad \<Rightarrow> [int (le_val (take 4 f)), signed_val (drop 4 f)]
   | _ \<Rightarrow> map uint (take l f))"

lemma sign_bit_last:
  assumes "length f = Suc k"
  shows "sign_bit k f \<longleftrightarrow> 256 ^ length f \<le> 2 * le_val f"
proof -
  obtain xs b where f: "f = xs @ [b]" "length xs = k" using assms by (cases f rule: rev_cases) auto
  have "256 ^ Suc k \<le> 2 * (le_val xs + 256 ^ k * unat b) \<longleftrightarrow> 128 \<le> unat b"
  proof
    assume "256 ^ Suc k \<le> 2 * (le_val xs + 256 ^ k * unat b)"
    then have "256 ^ k * 128 \<le> le_val xs + 256 ^ k * unat b" by simp
    also have "\<dots> < 256 ^ k * (unat b + 1)" using le_val_less [of xs] f(2) by simp
    finally show "128 \<le> unat b" by simp
  next
    assume b: "128 \<le> unat b"
    have "256 ^ Suc k = 2 * (256 ^ k * (128 :: nat))" by simp
    also have "\<dots> \<le> 2 * (256 ^ k * unat b)" by (intro mult_le_mono2 b)
    also have "\<dots> \<le> 2 * (le_val xs + 256 ^ k * unat b)" by simp
    finally show "256 ^ Suc k \<le> 2 * (le_val xs + 256 ^ k * unat b)" .
  qed
  moreover have "f ! k = b" using f by (auto simp: nth_append)
  ultimately show ?thesis using f by (simp add: sign_bit_def sign_ge le_val_snoc)
qed

lemma flip_last:
  assumes "length f = Suc k"
  shows "int (le_val (flip_sign k f)) =
    (if sign_bit k f then int (le_val f) - 128 * 256 ^ k else int (le_val f) + 128 * 256 ^ k)"
proof -
  obtain xs b where f: "f = xs @ [b]" "length xs = k" using assms by (cases f rule: rev_cases) auto
  have fl: "flip_sign k f = xs @ [b XOR 128]" using f by (auto simp: flip_sign_def nth_append list_update_append)
  have s: "sign_bit k f \<longleftrightarrow> 128 \<le> unat b" using f by (auto simp: sign_bit_def sign_ge nth_append)
  have u: "int (unat (b XOR 128)) = (if 128 \<le> unat b then int (unat b) - 128 else int (unat b) + 128)"
    by (simp only: unat_flip sign_ge) (simp add: of_nat_diff)
  have "int (le_val (flip_sign k f)) = int (le_val xs) + 256 ^ k * int (unat (b XOR 128))"
    unfolding fl le_val_snoc f(2) by (simp only: of_nat_add of_nat_mult of_nat_power of_nat_numeral)
  moreover have "int (le_val f) = int (le_val xs) + 256 ^ k * int (unat b)"
    unfolding f(1) le_val_snoc f(2) by (simp only: of_nat_add of_nat_mult of_nat_power of_nat_numeral)
  ultimately show ?thesis unfolding u s by (simp add: algebra_simps)
qed

lemma signed_flip: "length f = Suc k \<Longrightarrow> int (le_val (flip_sign k f)) = signed_val f + 128 * 256 ^ k"
  by (simp add: flip_last sign_bit_last signed_val_def)

lemma float_flip:
  assumes "length f = Suc k"
  shows "int (le_val (if sign_bit k f then map (\<lambda>b. NOT b) f else flip_sign k f)) = float_val f + 128 * 256 ^ k"
proof -
  have "int (le_val (map (\<lambda>b. NOT b) f)) = 256 ^ Suc k - 1 - int (le_val f)"
    using le_val_less [of f] assms by (simp add: le_val_not of_nat_diff Suc_le_eq)
  then show ?thesis
    using assms by (simp add: flip_last sign_bit_last float_val_def)
qed

lemma rev4_8:
  assumes "length x = 8"
  shows "rev4 (swap_longs 0 x) = rev x"
proof -
  have "rev4 (swap_longs 0 x) = rev (drop 4 x) @ rev (take 4 x)"
    using assms by (simp add: swap_longs_8 rev4_append [of _ 1] rev4_long)
  then show ?thesis by (simp flip: rev_append)
qed

lemma rank_shift: "int x = a + c \<Longrightarrow> int y = b + c \<Longrightarrow> x < y \<longleftrightarrow> a < b"
  by linarith

definition float_bytes :: "nat \<Rightarrow> byte list \<Rightarrow> byte list" where
  "float_bytes k f = (if sign_bit k f then map (\<lambda>b. NOT b) f else flip_sign k f)"

lemma length_float_bytes [simp]: "length (float_bytes k f) = length f"
  by (simp add: float_bytes_def)

lemma flip_less:
  assumes "length f = Suc k" "length g = Suc k"
  shows "le_val (flip_sign k f) < le_val (flip_sign k g) \<longleftrightarrow> signed_val f < signed_val g"
    and "le_val (float_bytes k f) < le_val (float_bytes k g) \<longleftrightarrow> float_val f < float_val g"
  using rank_shift [OF signed_flip [OF assms(1)] signed_flip [OF assms(2)]]
    rank_shift [OF float_flip [OF assms(1)] float_flip [OF assms(2)]] by (simp_all only: float_bytes_def)

lemma map_uint_less: "map uint xs < map uint ys \<longleftrightarrow> xs < (ys :: byte list)"
proof (induction xs arbitrary: ys)
  case Nil
  then show ?case by (cases ys) auto
next
  case (Cons x xs)
  have "(uint x < uint y) = (x < y)" for y by (simp only: word_less_def)
  then show ?case using Cons by (cases ys) (simp_all add: word_uint_eq_iff)
qed

lemma rev4_less_4: "length f = 4 \<Longrightarrow> length g = 4 \<Longrightarrow> rev4 f < rev4 g \<longleftrightarrow> le_val f < le_val g"
  by (simp add: rev4_long rev_less_iff)

lemma rev4_less_8:
  "length f = 8 \<Longrightarrow> length g = 8 \<Longrightarrow> rev4 (swap_longs 0 f) < rev4 (swap_longs 0 g) \<longleftrightarrow> le_val f < le_val g"
  by (simp add: rev4_8 rev_less_iff)

text \<open>Two bytes followed by padding.\<close>

lemma rev4_less_2:
  assumes "length x = 2" "length y = 2" "length p = 2"
  shows "rev4 (x @ p) < rev4 (y @ p) \<longleftrightarrow> le_val x < le_val y"
proof -
  have "rev4 (z @ p) = rev p @ rev z" if "length z = 2" for z
    using that assms(3) rev4_long [of "z @ p"] by simp
  then show ?thesis using assms rev_less_iff [of x y] append_less_iff [of "rev p" "rev p" "rev x" "rev y"] by simp
qed

lemma flip_sign_take: "i < n \<Longrightarrow> n \<le> length f \<Longrightarrow> flip_sign i f = flip_sign i (take n f) @ drop n f"
  using flip_sign_within [of i "take n f" "[]" "drop n f"] by simp

lemma stamp_order:
  assumes "length f = 8" "length g = 8"
  shows "rev4 (flip_sign 3 f) < rev4 (flip_sign 3 g) \<longleftrightarrow>
    [signed_val (take 4 f), int (le_val (drop 4 f))] < [signed_val (take 4 g), int (le_val (drop 4 g))]"
proof -
  have e: "rev4 (flip_sign 3 h) = rev (flip_sign 3 (take 4 h)) @ rev (drop 4 h)" if "length h = 8" for h
    using that flip_sign_take [of 3 4 h] by (simp add: rev4_append [of _ 1] rev4_long)
  have lt: "rev (flip_sign 3 (take 4 h)) < rev (flip_sign 3 (take 4 h')) \<longleftrightarrow> signed_val (take 4 h) < signed_val (take 4 h')"
    if "length h = 8" "length h' = 8" for h h'
    using that flip_less(1) [of "take 4 h" 3 "take 4 h'"] by (simp add: rev_less_iff)
  have eq: "rev (flip_sign 3 (take 4 f)) = rev (flip_sign 3 (take 4 g)) \<longleftrightarrow> signed_val (take 4 f) = signed_val (take 4 g)"
    using lt [OF assms] lt [OF assms(2,1)] by (metis less_irrefl linorder_less_linear)
  have d: "rev (drop 4 f) < rev (drop 4 g) \<longleftrightarrow> le_val (drop 4 f) < le_val (drop 4 g)"
    using assms by (simp add: rev_less_iff)
  show ?thesis
    unfolding e [OF assms(1)] e [OF assms(2)]
    using append_less_iff [of "rev (flip_sign 3 (take 4 f))" "rev (flip_sign 3 (take 4 g))"] assms lt [OF assms] eq d
    by simp
qed

lemma quad_order:
  assumes "length f = 8" "length g = 8"
  shows "rev4 (flip_sign 7 f) < rev4 (flip_sign 7 g) \<longleftrightarrow>
    [int (le_val (take 4 f)), signed_val (drop 4 f)] < [int (le_val (take 4 g)), signed_val (drop 4 g)]"
proof -
  have e: "rev4 (flip_sign 7 h) = rev (take 4 h) @ rev (flip_sign 3 (drop 4 h))" if "length h = 8" for h
  proof -
    have "flip_sign 7 h = take 4 h @ flip_sign 3 (drop 4 h)"
      using that flip_sign_within [of 3 "drop 4 h" "take 4 h" "[]"] by simp
    then show ?thesis using that by (simp add: rev4_append [of _ 1] rev4_long)
  qed
  have lt: "rev (take 4 h) < rev (take 4 h') \<longleftrightarrow> le_val (take 4 h) < le_val (take 4 h')"
    if "length h = 8" "length h' = 8" for h h'
    using that by (simp add: rev_less_iff)
  have eq: "rev (take 4 f) = rev (take 4 g) \<longleftrightarrow> le_val (take 4 f) = le_val (take 4 g)"
    using lt [OF assms] lt [OF assms(2,1)] by (metis less_irrefl linorder_less_linear)
  have d: "rev (flip_sign 3 (drop 4 f)) < rev (flip_sign 3 (drop 4 g)) \<longleftrightarrow> signed_val (drop 4 f) < signed_val (drop 4 g)"
    using assms flip_less(1) [of "drop 4 f" 3 "drop 4 g"] by (simp add: rev_less_iff)
  show ?thesis
    unfolding e [OF assms(1)] e [OF assms(2)]
    using append_less_iff [of "rev (take 4 f)" "rev (take 4 g)"] assms lt [OF assms] eq d by simp
qed

lemma signed_order_4:
  "length f = 4 \<Longrightarrow> length g = 4 \<Longrightarrow> rev4 (flip_sign 3 f) < rev4 (flip_sign 3 g) \<longleftrightarrow> [signed_val f] < [signed_val g]"
  using flip_less(1) [of f 3 g] by (simp add: rev4_less_4)

lemma signed_order_8:
  "length f = 8 \<Longrightarrow> length g = 8 \<Longrightarrow>
    rev4 (swap_longs 0 (flip_sign 7 f)) < rev4 (swap_longs 0 (flip_sign 7 g)) \<longleftrightarrow> [signed_val f] < [signed_val g]"
  using flip_less(1) [of f 7 g] by (simp add: rev4_less_8)

lemma float_order_4:
  "length f = 4 \<Longrightarrow> length g = 4 \<Longrightarrow> rev4 (float_bytes 3 f) < rev4 (float_bytes 3 g) \<longleftrightarrow> [float_val f] < [float_val g]"
  using flip_less(2) [of f 3 g] by (simp add: rev4_less_4)

lemma float_order_8:
  "length f = 8 \<Longrightarrow> length g = 8 \<Longrightarrow>
    rev4 (swap_longs 0 (float_bytes 7 f)) < rev4 (swap_longs 0 (float_bytes 7 g)) \<longleftrightarrow> [float_val f] < [float_val g]"
  using flip_less(2) [of f 7 g] by (simp add: rev4_less_8)

lemma short_order:
  assumes "length f = 4" "length g = 4" "drop 2 f = drop 2 g"
  shows "rev4 f < rev4 g \<longleftrightarrow> [int (le_val (take 2 f))] < [int (le_val (take 2 g))]"
    and "rev4 (flip_sign 1 f) < rev4 (flip_sign 1 g) \<longleftrightarrow> [signed_val (take 2 f)] < [signed_val (take 2 g)]"
proof -
  show "rev4 f < rev4 g \<longleftrightarrow> [int (le_val (take 2 f))] < [int (le_val (take 2 g))]"
    using rev4_less_2 [of "take 2 f" "take 2 g" "drop 2 f"] assms by simp (metis append_take_drop_id)
  show "rev4 (flip_sign 1 f) < rev4 (flip_sign 1 g) \<longleftrightarrow> [signed_val (take 2 f)] < [signed_val (take 2 g)]"
    using rev4_less_2 [of "flip_sign 1 (take 2 f)" "flip_sign 1 (take 2 g)" "drop 2 f"] assms
      flip_sign_take [of 1 2 f] flip_sign_take [of 1 2 g] flip_less(1) [of "take 2 f" 1 "take 2 g"]
    by simp
qed

lemma text_order:
  fixes f g :: "byte list"
  assumes "length f = length g" "drop l f = drop l g"
  shows "f < g \<longleftrightarrow> map uint (take l f) < map uint (take l g)"
proof -
  have "f < g \<longleftrightarrow> take l f @ drop l f < take l g @ drop l g" by (simp only: append_take_drop_id)
  also have "\<dots> \<longleftrightarrow> take l f < take l g"
    using append_less_iff [of "take l f" "take l g" "drop l f" "drop l g"] assms by simp
  finally show ?thesis by (simp only: map_uint_less)
qed

lemma plain_order:
  assumes k: "plain_key key" and f: "length f = skd_rounded key" and g: "length g = skd_rounded key"
    and d: "drop (skd_length key) f = drop (skd_length key) g"
  shows "rev4 (plain_code (skd_dtype key) f) < rev4 (plain_code (skd_dtype key) g) \<longleftrightarrow> field_rank key f < field_rank key g"
proof -
  have l: "plain_length (skd_dtype key) (skd_length key)" using k by (simp add: plain_key_def)
  have lf: "length f = 4 * ((skd_length key + 3) div 4)" "length g = 4 * ((skd_length key + 3) div 4)"
    using f g skd_rounded_plain(1) [OF k] by simp_all
  show ?thesis
  proof (cases "skd_dtype key = SKD_ulong")
    case True
    then show ?thesis using l lf by (simp add: plain_code_def field_rank_def rev4_less_4)
  next
    case False
    then show ?thesis
      using l lf d
      by (cases "skd_dtype key")
         (simp_all add: plain_code_def field_rank_def short_order [simplified] signed_order_4 signed_order_8 stamp_order quad_order
            float_order_4 [unfolded float_bytes_def] float_order_8 [unfolded float_bytes_def] text_order)
  qed
qed

lemma field_order:
  assumes k: "plain_key key" and f: "length f = skd_rounded key" and g: "length g = skd_rounded key"
    and d: "drop (skd_length key) f = drop (skd_length key) g"
  shows "rev4 (field_code key f) < rev4 (field_code key g) \<longleftrightarrow>
    (if is_descending key then field_rank key g < field_rank key f else field_rank key f < field_rank key g)"
    and "rev4 (field_code key f) = rev4 (field_code key g) \<longleftrightarrow> field_rank key f = field_rank key g"
proof -
  have ord: "rev4 (field_code key x) < rev4 (field_code key y) \<longleftrightarrow>
      (if is_descending key then field_rank key y < field_rank key x else field_rank key x < field_rank key y)"
    if "length x = skd_rounded key" "length y = skd_rounded key" "drop (skd_length key) x = drop (skd_length key) y" for x y
  proof -
    have "length (plain_code (skd_dtype key) z) = length z" if "length z = skd_rounded key" for z
      using length_field_code [OF k that] by (simp add: field_code_def split: if_splits)
    then show ?thesis
      using plain_order [OF k that] plain_order [OF k that(2,1) that(3) [symmetric]] that
        map_not_less [of "rev4 (plain_code (skd_dtype key) x)" "rev4 (plain_code (skd_dtype key) y)"]
      by (simp add: field_code_def)
  qed
  show "rev4 (field_code key f) < rev4 (field_code key g) \<longleftrightarrow>
    (if is_descending key then field_rank key g < field_rank key f else field_rank key f < field_rank key g)"
    by (rule ord [OF f g d])
  show "rev4 (field_code key f) = rev4 (field_code key g) \<longleftrightarrow> field_rank key f = field_rank key g"
    using ord [OF f g d] ord [OF g f d [symmetric]] by (metis less_irrefl linorder_less_linear)
qed

subsection \<open>Descriptions of several keys\<close>

text \<open>
  Keys follow each other from an offset on, each one rounded to longwords, as the optimizer lays them out;
  the padding of a field is zero.
\<close>

primrec laid_out :: "nat \<Rightarrow> sort_key_def list \<Rightarrow> bool" where
  "laid_out i [] = True"
| "laid_out i (key # keys) = (plain_key key \<and> skd_offset key = i \<and> laid_out (i + skd_rounded key) keys)"

definition keys_length :: "sort_key_def list \<Rightarrow> nat" where
  "keys_length keys = sum_list (map skd_rounded keys)"

definition field_of :: "sort_key_def \<Rightarrow> byte list \<Rightarrow> byte list" where
  "field_of key bs = take (skd_rounded key) (drop (skd_offset key) bs)"

definition padded :: "sort_key_def list \<Rightarrow> byte list \<Rightarrow> bool" where
  "padded keys bs = list_all (\<lambda>key. list_all (\<lambda>b. b = 0) (drop (skd_length key) (field_of key bs))) keys"

text \<open>The order that the description asks for.\<close>

primrec key_less :: "sort_key_def list \<Rightarrow> byte list \<Rightarrow> byte list \<Rightarrow> bool" where
  "key_less [] x y = False"
| "key_less (key # keys) x y =
    (let a = field_rank key (field_of key x); b = field_rank key (field_of key y) in
     if a = b then key_less keys x y
     else if is_descending key then b < a else a < b)"

primrec record_code :: "sort_key_def list \<Rightarrow> byte list \<Rightarrow> byte list" where
  "record_code [] bs = bs"
| "record_code (key # keys) bs = field_code key (take (skd_rounded key) bs) @ record_code keys (drop (skd_rounded key) bs)"

lemma record_code_diddle:
  assumes "laid_out i keys" and "length a = i" and "keys_length keys \<le> length r"
  shows "diddle_key sf True keys (a @ r) = Some (a @ record_code keys r) \<and>
    diddle_key sf' False keys (a @ record_code keys r) = Some (a @ r) \<and> length (record_code keys r) = length r"
  using assms
proof (induction keys arbitrary: i a r)
  case (Cons key keys)
  let ?f = "take (skd_rounded key) r" and ?r = "drop (skd_rounded key) r"
  have k: "plain_key key" "length a = skd_offset key" "length ?f = skd_rounded key"
    using Cons.prems by (auto simp: keys_length_def)
  have d: "diddle_field sf True key (a @ ?f @ ?r) = Some (a @ field_code key ?f @ ?r)"
    "diddle_field sf' False key (a @ field_code key ?f @ z) = Some (a @ ?f @ z)" for z
    by (rule diddle_plain(1) [OF k], rule diddle_plain(2) [OF k])
  have lc: "length (field_code key ?f) = length ?f" by (rule length_field_code [OF k(1,3)])
  have IH: "diddle_key sf True keys (b @ ?r) = Some (b @ record_code keys ?r) \<and>
      diddle_key sf' False keys (b @ record_code keys ?r) = Some (b @ ?r) \<and> length (record_code keys ?r) = length ?r"
    if "length b = i + skd_rounded key" for b
    using Cons.IH [of "i + skd_rounded key" b ?r] Cons.prems that by (auto simp: keys_length_def)
  have IHs: "diddle_key sf True keys (a @ field_code key ?f @ ?r) = Some (a @ field_code key ?f @ record_code keys ?r)"
    "diddle_key sf' False keys (a @ ?f @ record_code keys ?r) = Some (a @ ?f @ ?r)"
    using IH [of "a @ field_code key ?f"] IH [of "a @ ?f"] lc k Cons.prems(2) by auto
  show ?case using d IHs IH [of "a @ ?f"] lc k Cons.prems(2) by simp
qed simp

lemma record_code_less:
  assumes "laid_out i keys" and "length a = i" "length b = i" and "keys_length keys \<le> length r" "length s = length r"
    and "padded keys (a @ r)" "padded keys (b @ s)"
  shows "take (keys_length keys) (rev4 (record_code keys r)) < take (keys_length keys) (rev4 (record_code keys s)) \<longleftrightarrow>
    key_less keys (a @ r) (b @ s)"
  using assms
proof (induction keys arbitrary: i a b r s)
  case (Cons key keys)
  let ?n = "skd_rounded key"
  let ?f = "take ?n r" and ?r = "drop ?n r" and ?g = "take ?n s" and ?s = "drop ?n s"
  have k: "plain_key key" "length a = skd_offset key" "length ?f = ?n" "length ?g = ?n" "skd_offset key = i"
    using Cons.prems by (auto simp: keys_length_def)
  have fo: "field_of key (a @ r) = ?f" "field_of key (b @ s) = ?g" using k Cons.prems(3) by (auto simp: field_of_def)
  have zero: "drop (skd_length key) x = replicate (?n - skd_length key) 0"
    if "list_all (\<lambda>b. b = 0) (drop (skd_length key) x)" "length x = ?n" for x :: "byte list"
    using that by (auto simp: list_all_iff intro!: replicate_eqI)
  have pads: "drop (skd_length key) ?f = drop (skd_length key) ?g"
    using Cons.prems(6,7) zero [OF _ k(3)] zero [OF _ k(4)] by (simp add: padded_def fo)
  have IH: "take (keys_length keys) (rev4 (record_code keys ?r)) < take (keys_length keys) (rev4 (record_code keys ?s)) \<longleftrightarrow>
      key_less keys (a @ r) (b @ s)"
    using Cons.IH [of "i + ?n" "a @ ?f" "b @ ?g" ?r ?s] Cons.prems k by (auto simp: keys_length_def padded_def)
  have l4: "length x = 4 * ((skd_length key + 3) div 4)" if "length x = ?n" for x :: "byte list"
    using that skd_rounded_plain(1) [OF k(1)] by simp
  have c: "take (keys_length (key # keys)) (rev4 (field_code key x @ z)) = rev4 (field_code key x) @ take (keys_length keys) (rev4 z)"
    if "length x = ?n" for x z
    using rev4_append [OF l4, of "field_code key x" z] length_field_code [OF k(1) that] that by (simp add: keys_length_def)
  have "take (keys_length (key # keys)) (rev4 (record_code (key # keys) r)) < take (keys_length (key # keys)) (rev4 (record_code (key # keys) s)) \<longleftrightarrow>
      rev4 (field_code key ?f) < rev4 (field_code key ?g) \<or>
      rev4 (field_code key ?f) = rev4 (field_code key ?g) \<and> key_less keys (a @ r) (b @ s)"
    using append_less_iff [of "rev4 (field_code key ?f)" "rev4 (field_code key ?g)"] IH c [OF k(3)] c [OF k(4)]
      length_field_code [OF k(1,3)] length_field_code [OF k(1,4)] k(3,4) by simp
  then show ?case using field_order [OF k(1,3,4) pads] by (auto simp: fo Let_def)
qed (simp add: keys_length_def)

lemma diddle_code:
  assumes "laid_out 0 keys" and "keys_length keys \<le> length bs"
  shows "diddle_key sf True keys bs = Some (record_code keys bs)"
    and "diddle_key sf False keys (record_code keys bs) = Some bs"
    and "length (record_code keys bs) = length bs"
  using record_code_diddle [OF assms(1), of "[]" bs] assms(2) by auto

lemma take_less: "length a = length b \<Longrightarrow> take k a < take k b \<Longrightarrow> a < (b :: 'a :: linorder list)"
  using append_less_iff [of "take k a" "take k b" "drop k a" "drop k b"] by simp

lemma take_longs: "4 * k \<le> length x \<Longrightarrow> longs_of (take (4 * k) x) = take k (longs_of x)"
proof (induction k arbitrary: x)
  case (Suc k)
  then have "length (take 4 x) = 4" by simp
  then obtain a b c d where "take 4 x = [a, b, c, d]" by (auto simp: length_Suc_conv numeral_eq_Suc simp del: length_take)
  then have x: "x = a # b # c # d # drop 4 x" by (metis append_Cons append_Nil append_take_drop_id)
  have "4 * Suc k = Suc (Suc (Suc (Suc (4 * k))))" by simp
  then have "take (4 * Suc k) x = a # b # c # d # take (4 * k) (drop 4 x)" using x by (metis take_Suc_Cons)
  moreover have "longs_of x = word_of_nat (le_val [a, b, c, d]) # longs_of (drop 4 x)" using x by (metis longs_of.simps(1))
  ultimately show ?case using Suc.IH [of "drop 4 x"] Suc.prems by simp
qed simp

lemma take_rev4: "4 * k \<le> length x \<Longrightarrow> rev4 (take (4 * k) x) = take (4 * k) (rev4 x)"
  using rev4_append [of "take (4 * k) x" k "drop (4 * k) x"] by simp

lemma keys_length_longs: "laid_out i keys \<Longrightarrow> 4 dvd keys_length keys"
proof (induction keys arbitrary: i)
  case (Cons key keys)
  have "4 dvd skd_rounded key" using Cons.prems skd_rounded_plain(1) by simp
  moreover have "4 dvd keys_length keys" using Cons by auto
  ultimately show ?case by (simp add: keys_length_def)
qed (simp add: keys_length_def)

text \<open>
  What a sort needs of a coding of its records: records that belong one before the other have codes
  in this order. Then records sorted by their codes are in order.
\<close>

locale coded_order =
  fixes ok :: "'r \<Rightarrow> bool" and enc :: "'r \<Rightarrow> 'k :: linorder" and before :: "'r \<Rightarrow> 'r \<Rightarrow> bool"
  assumes before_enc: "ok x \<Longrightarrow> ok y \<Longrightarrow> before x y \<Longrightarrow> enc x < enc y"
begin

lemma sorted_records:
  assumes "\<forall>x\<in>set xs. ok x" and "sorted (map enc xs)"
  shows "sorted_wrt (\<lambda>x y. \<not> before y x) xs"
proof (rule sorted_wrt_mono_rel)
  show "sorted_wrt (\<lambda>x y. enc x \<le> enc y) xs" using assms(2) by (simp add: sorted_map)
  fix x y assume "x \<in> set xs" "y \<in> set xs" "enc x \<le> enc y"
  then show "\<not> before y x" using before_enc [of y x] assms(1) by fastforce
qed

end

definition coded_record :: "sort_key_def list \<Rightarrow> nat \<Rightarrow> byte list \<Rightarrow> bool" where
  "coded_record keys m bs = (laid_out 0 keys \<and> length bs = 4 * m \<and> keys_length keys \<le> length bs \<and> padded keys bs)"

lemma key_less_longs:
  assumes "coded_record keys m x" and "coded_record keys m y" and less: "key_less keys x y"
  shows "longs_of (record_code keys x) < longs_of (record_code keys y)"
proof -
  have l: "laid_out 0 keys" "length x = 4 * m" "length y = 4 * m" "keys_length keys \<le> length x" "keys_length keys \<le> length y"
    "padded keys x" "padded keys y" using assms(1,2) unfolding coded_record_def by auto
  have t: "take (keys_length keys) (rev4 (record_code keys x)) < take (keys_length keys) (rev4 (record_code keys y))"
    using record_code_less [OF l(1), of "[]" "[]" x y] l less by simp
  have len: "length (record_code keys x) = 4 * m" "length (record_code keys y) = 4 * m"
    using diddle_code(3) [OF l(1,4)] diddle_code(3) [OF l(1,5)] l(2,3) by simp_all
  have "rev4 (record_code keys x) < rev4 (record_code keys y)" by (rule take_less [OF _ t]) (simp add: len)
  then show ?thesis using longs_less_iff [OF len] by simp
qed

interpretation coded: coded_order "coded_record keys m" "\<lambda>bs. longs_of (record_code keys bs)" "key_less keys" for keys m
  by unfold_locales (rule key_less_longs)

end
