(* ===== verification/FB_SortProps.thy ===== *)
theory FB_SortProps
  imports FB_SortMem FB_SortOrder
begin

section \<open>Records come back in the order of their keys\<close>

text \<open>
  The composition of \<^verbatim>\<open>SORT_put\<close>, \<^verbatim>\<open>SORT_sort\<close> and \<^verbatim>\<open>SORT_get\<close> for a sort that fits into memory.
\<close>

subsection \<open>Putting records\<close>

text \<open>The context is the initial one, but for the records \<^term>\<open>xs\<close>, which have the contents \<^term>\<open>cs\<close> by now.\<close>

definition holds :: "sort_context \<Rightarrow> byte list list \<Rightarrow> sort_context \<Rightarrow> bool" where
  "holds s0 cs s = (
     scb_pointers s = low_key # map Rec [0..<length cs] \<and> scb_next_pointer s = length cs + 1 \<and>
     scb_last_record s = length cs \<and> scb_records s = length cs \<and>
     (\<forall>p<length cs. sr_bckptr s p = Some (p + 1) \<and> sort_record_key s p = cs ! p) \<and>
     scb_longs s = scb_longs s0 \<and> scb_description s = scb_description s0 \<and> scb_sorted s = scb_sorted s0 \<and>
     scb_dup_callback s = scb_dup_callback s0 \<and> scb_size_memory s = scb_size_memory s0 \<and>
     SIZEOF_SR_BCKPTR_IN_LONGS s = SIZEOF_SR_BCKPTR_IN_LONGS s0 \<and> pointer_longs s = pointer_longs s0 \<and>
     past_end_memory s = past_end_memory s0)"

definition recordful :: "sort_context \<Rightarrow> byte list \<Rightarrow> bool" where
  "recordful s bs = (length bs = 4 * (scb_longs s - SIZEOF_SR_BCKPTR_IN_LONGS s) \<and>
     keys_length (scb_description s) \<le> length bs \<and> padded (scb_description s) bs)"

lemma recordfulD:
  "recordful s bs \<Longrightarrow> length bs = 4 * (scb_longs s - SIZEOF_SR_BCKPTR_IN_LONGS s)"
  "recordful s bs \<Longrightarrow> keys_length (scb_description s) \<le> length bs"
  "recordful s bs \<Longrightarrow> padded (scb_description s) bs"
  unfolding recordful_def by blast+

lemma diddle_last_holds:
  assumes h: "holds s0 (cs @ [bs]) s" and l: "laid_out 0 (scb_description s0)" "keys_length (scb_description s0) \<le> length bs"
  shows "\<exists>t. diddle_last s = Some t \<and> holds s0 (cs @ [record_code (scb_description s0) bs]) t"
proof -
  have "sort_record_key s (length cs) = bs" "scb_last_record s = length cs + 1" "scb_description s = scb_description s0"
    using h by (auto simp: holds_def nth_append)
  then have "diddle_last s = Some (s\<lparr>sort_record_key := (sort_record_key s)(length cs := record_code (scb_description s0) bs)\<rparr>)"
    using diddle_code(1) [OF l] by (simp add: diddle_last_def diddle_record_def)
  moreover have "holds s0 (cs @ [record_code (scb_description s0) bs])
      (s\<lparr>sort_record_key := (sort_record_key s)(length cs := record_code (scb_description s0) bs)\<rparr>)"
    using h by (auto simp: holds_def nth_append)
  ultimately show ?thesis by blast
qed

text \<open>All but the last record are converted.\<close>

definition holds_put :: "sort_context \<Rightarrow> byte list list \<Rightarrow> sort_context \<Rightarrow> bool" where
  "holds_put s0 xs s = (if xs = [] then holds s0 [] s
     else holds s0 (map (record_code (scb_description s0)) (butlast xs) @ [last xs]) s)"

lemma holds_put_diddled:
  assumes "holds_put s0 xs s" and "laid_out 0 (scb_description s0)" and "\<forall>bs\<in>set xs. recordful s0 bs"
  shows "\<exists>t. diddle_last s = Some t \<and> holds s0 (map (record_code (scb_description s0)) xs) t"
proof (cases xs rule: rev_cases)
  case Nil
  then show ?thesis using assms(1) by (auto simp: holds_put_def diddle_last_def holds_def)
next
  case (snoc ys y)
  then have "recordful s0 y" using assms(3) by simp
  then have l: "keys_length (scb_description s0) \<le> length y" by (simp add: recordful_def)
  have "holds s0 (map (record_code (scb_description s0)) ys @ [y]) s" using assms(1) snoc by (simp add: holds_put_def)
  from diddle_last_holds [OF this assms(2) l] snoc show ?thesis by simp
qed

lemma room_arith: "a + b + c < (m :: nat) \<Longrightarrow> \<not> (m - a < b \<or> m - a - b \<le> c)"
  by linarith

lemma put_record_holds:
  assumes h: "holds_put s0 xs s" and l: "laid_out 0 (scb_description s0)" and r: "\<forall>bs\<in>set xs. recordful s0 bs"
    and room: "(length xs + 1) * scb_longs s0 + (length xs + 2) * pointer_longs s0 < scb_size_memory s0"
  shows "\<exists>t. put_record bs s = Some t \<and> holds_put s0 (xs @ [bs]) t"
proof -
  obtain t where t: "diddle_last s = Some t" "holds s0 (map (record_code (scb_description s0)) xs) t"
    using holds_put_diddled [OF h l r] by blast
  have "has_room t"
  proof -
    have "scb_last_record t = length xs" "scb_longs t = scb_longs s0" "scb_size_memory t = scb_size_memory s0"
      "scb_next_pointer t = length xs + 1" "pointer_longs t = pointer_longs s0" using t(2) by (auto simp: holds_def)
    moreover have "length xs * scb_longs s0 + scb_longs s0 + (length xs + 2) * pointer_longs s0 < scb_size_memory s0"
      using room by (simp add: add_mult_distrib)
    ultimately show ?thesis unfolding has_room_def Let_def using room_arith by (simp only: add.assoc) simp
  qed
  then show ?thesis
    using t by (auto simp: put_record_def SORT_put_def holds_put_def holds_def Let_def nth_append less_Suc_eq)
qed

lemma put_records_holds:
  assumes "holds_put s0 xs s" and "laid_out 0 (scb_description s0)" and "\<forall>bs\<in>set (xs @ ys). recordful s0 bs"
    and "length (xs @ ys) * scb_longs s0 + (length (xs @ ys) + 1) * pointer_longs s0 < scb_size_memory s0"
  shows "\<exists>t. put_records ys s = Some t \<and> holds_put s0 (xs @ ys) t"
  using assms
proof (induction ys arbitrary: xs s)
  case (Cons y ys)
  have "(length xs + 1) * scb_longs s0 + (length xs + 2) * pointer_longs s0 < scb_size_memory s0"
  proof -
    have "(length xs + 1) * scb_longs s0 \<le> length (xs @ y # ys) * scb_longs s0"
      "(length xs + 2) * pointer_longs s0 \<le> (length (xs @ y # ys) + 1) * pointer_longs s0" by (intro mult_le_mono1; simp)+
    then show ?thesis using Cons.prems(4) by linarith
  qed
  then obtain t where "put_record y s = Some t" "holds_put s0 (xs @ [y]) t"
    using put_record_holds [OF Cons.prems(1,2)] Cons.prems(3) by auto
  then show ?case using Cons.IH [of "xs @ [y]" t] Cons.prems(2-4) by auto
qed simp

subsection \<open>Getting records\<close>

text \<open>The records \<^term>\<open>qs\<close> are given back in this order; \<^term>\<open>i\<close> of them have been.\<close>

definition giving :: "byte list list \<Rightarrow> nat list \<Rightarrow> nat \<Rightarrow> sort_context \<Rightarrow> bool" where
  "giving xs qs i s = (scb_pointers s = low_key # map Rec qs @ [high_key] \<and> scb_next_pointer s = i + 1 \<and>
     scb_records s = length qs - i \<and>
     (\<forall>j. i \<le> j \<and> j < length qs \<longrightarrow> sort_record_key s (qs ! j) = record_code (scb_description s) (xs ! (qs ! j))))"

lemma SORT_get_giving:
  assumes g: "giving xs qs i s" and i: "i < length qs" and d: "distinct qs" and l: "laid_out 0 (scb_description s)"
    and k: "keys_length (scb_description s) \<le> length (xs ! (qs ! i))"
  shows "\<exists>t. SORT_get s = Some (t, Some (xs ! (qs ! i))) \<and> giving xs qs (i + 1) t \<and> scb_description t = scb_description s"
proof -
  let ?p = "qs ! i"
  define u where "u = s\<lparr>scb_records := length qs - i - 1, scb_next_pointer := scb_next_pointer s + 1\<rparr>"
  define t where "t = u\<lparr>sort_record_key := (sort_record_key u)(?p := xs ! ?p)\<rparr>"
  have r: "scb_records s = Suc (length qs - i - 1)" using g i by (simp add: giving_def)
  have p: "pointer_at s (scb_next_pointer s) = Some (Rec ?p)" using g i by (simp add: giving_def pointer_at_def nth_append)
  have n: "next_record (scb_records s) s = Some (u, Some ?p)" unfolding r using p by (simp add: u_def)
  have "sort_record_key u ?p = record_code (scb_description u) (xs ! ?p)" using g i by (simp add: giving_def u_def)
  then have "diddle_record False ?p u = Some t"
    using diddle_code(2) [OF l k] by (simp add: diddle_record_def t_def u_def)
  then have "SORT_get s = Some (t, Some (xs ! ?p))" using n by (simp add: SORT_get_def t_def)
  moreover have "giving xs qs (i + 1) t"
    using g i d by (auto simp: giving_def t_def u_def nth_eq_iff_index_eq)
  ultimately show ?thesis by (auto simp: t_def u_def)
qed

lemma get_records_giving:
  assumes "giving xs qs i s" "i \<le> length qs" "distinct qs" "laid_out 0 (scb_description s)"
    "\<forall>p\<in>set qs. keys_length (scb_description s) \<le> length (xs ! p)"
  shows "get_records (length qs - i + 1) s = Some (map (\<lambda>p. xs ! p) (drop i qs))"
  using assms
proof (induction "length qs - i" arbitrary: i s)
  case 0
  then have "SORT_get s = Some (s, None)" by (simp add: SORT_get_def giving_def)
  then show ?case using 0 by simp
next
  case (Suc k)
  have i: "i < length qs" using Suc.hyps(2) by simp
  then have kl: "keys_length (scb_description s) \<le> length (xs ! (qs ! i))" using Suc.prems(5) by simp
  obtain t where t: "SORT_get s = Some (t, Some (xs ! (qs ! i)))" "giving xs qs (i + 1) t" "scb_description t = scb_description s"
    using SORT_get_giving [OF Suc.prems(1) i Suc.prems(3,4) kl] by blast
  have "get_records (length qs - (i + 1) + 1) t = Some (map (\<lambda>p. xs ! p) (drop (i + 1) qs))"
    using Suc.hyps(1) [of "i + 1" t] Suc.hyps(2) Suc.prems t(2,3) i by simp
  moreover have "length qs - i + 1 = Suc (length qs - (i + 1) + 1)" using i by simp
  ultimately show ?case using t(1) i by (simp add: Cons_nth_drop_Suc [symmetric])
qed

subsection \<open>The properties\<close>

lemma SORT_sort_holds:
  assumes h: "holds_put s0 xs s" and l: "laid_out 0 (scb_description s0)" and r: "\<forall>bs\<in>set xs. recordful s0 bs"
    and b: "SIZEOF_SR_BCKPTR_IN_LONGS s0 \<in> {1, 2}" "SIZEOF_SR_BCKPTR_IN_LONGS s0 < scb_longs s0"
      "SIZEOF_SR_BCKPTR_IN_LONGS s0 = 2 \<Longrightarrow> past_end_memory s0 \<noteq> None"
    and n: "length xs < 2 ^ 31" and cb: "scb_dup_callback s0 = None"
  shows "\<exists>t qs. SORT_sort s = Some t \<and> giving xs qs 0 t \<and> scb_description t = scb_description s0 \<and>
    mset qs = mset [0..<length xs] \<and> sorted (map (\<lambda>p. longs_of (record_code (scb_description s0) (xs ! p))) qs)"
proof -
  let ?c = "record_code (scb_description s0)"
  obtain s1 where s1: "diddle_last s = Some s1" "holds s0 (map ?c xs) s1" using holds_put_diddled [OF h l r] by blast
  have len: "length (?c bs) = 4 * (scb_longs s0 - SIZEOF_SR_BCKPTR_IN_LONGS s0)" if "bs \<in> set xs" for bs
  proof -
    have "recordful s0 bs" using r that by blast
    then show ?thesis using diddle_code(3) [OF l, of bs] by (simp add: recordful_def)
  qed
  have "ready [0..<length xs] s1"
    using s1(2) b len by (auto simp: ready_def holds_def)
  from sort_memory_spec [OF this] n cb s1(2)
  obtain t qs where t: "sort_memory s1 = Some t" "scb_pointers t = low_key # map Rec qs @ [high_key]"
    "mset qs = mset [0..<length xs]" "sorted (map (\<lambda>p. longs_of (sort_record_key s1 p)) qs)"
    "sort_record_key t = sort_record_key s1" "scb_description t = scb_description s1" "scb_records t = scb_records s1"
    by (auto simp: holds_def)
  have set: "set qs = {0..<length xs}" "length qs = length xs"
    using mset_eq_setD [OF t(3)] mset_eq_length [OF t(3)] by simp_all
  have key: "sort_record_key s1 p = ?c (xs ! p)" if "p \<in> set qs" for p using s1(2) that set(1) by (simp add: holds_def)
  let ?t = "t\<lparr>scb_next_pointer := 1, scb_sorted := True\<rparr>"
  have "map (\<lambda>p. longs_of (sort_record_key s1 p)) qs = map (\<lambda>p. longs_of (?c (xs ! p))) qs" using key by simp
  then have "sorted (map (\<lambda>p. longs_of (?c (xs ! p))) qs)" using t(4) by (simp only:)
  moreover have "giving xs qs 0 ?t" using t s1(2) key set(2) by (auto simp: giving_def holds_def)
  moreover have "SORT_sort s = Some ?t" using s1(1) t(1) by (simp add: SORT_sort_def)
  moreover have "scb_description ?t = scb_description s0" using t(6) s1(2) by (simp add: holds_def)
  ultimately show ?thesis using t(3) by blast
qed

text \<open>
  C14. A sort without duplicate handling that fits into memory, of fewer than \<^verbatim>\<open>2^31\<close>
  records: whatever records are put, \<^verbatim>\<open>SORT_sort\<close> ends without leaving its memory or its stacks, and
  \<^verbatim>\<open>SORT_get\<close> gives back exactly the records that were put, unchanged, in the order that the key
  descriptions ask for, and then reports the end. The keys have fixed formats (every type but
  \<^verbatim>\<open>SKD_varying\<close>, \<^verbatim>\<open>SKD_cstring\<close> and \<^verbatim>\<open>SKD_d_float\<close>); on platforms where a back
  pointer takes two longwords, the code reads one longword behind a record, and the longword behind the
  sort memory must be readable.
\<close>

theorem sort_in_memory:
  assumes "SORT_init alignment record_length unique_keys desc None size_memory b pl lng past = Some s0"
    and "laid_out 0 desc" and "b \<in> {1, 2}" and "b < scb_longs s0" and "b = 2 \<Longrightarrow> past \<noteq> None"
    and "\<forall>bs\<in>set bss. recordful s0 bs" and "length bss < 2 ^ 31"
    and "length bss * scb_longs s0 + (length bss + 1) * pl < size_memory"
  shows "\<exists>s t ys. put_records bss s0 = Some s \<and> SORT_sort s = Some t \<and>
    get_records (length bss + 1) t = Some ys \<and> mset ys = mset bss \<and>
    sorted_wrt (\<lambda>x y. \<not> key_less desc y x) ys"
proof -
  have i: "scb_description s0 = desc" "SIZEOF_SR_BCKPTR_IN_LONGS s0 = b" "pointer_longs s0 = pl"
    "scb_size_memory s0 = size_memory" "past_end_memory s0 = past" "scb_dup_callback s0 = None" "holds_put s0 [] s0"
    using assms(1) by (auto simp: SORT_init_def Let_def holds_put_def holds_def split: if_splits)
  obtain s where s: "put_records bss s0 = Some s" "holds_put s0 bss s"
    using put_records_holds [OF i(7), of bss] assms(2,6,8) i by auto
  obtain t qs where t: "SORT_sort s = Some t" "giving bss qs 0 t" "scb_description t = desc" "mset qs = mset [0..<length bss]"
    "sorted (map (\<lambda>p. longs_of (record_code desc (bss ! p))) qs)"
    using SORT_sort_holds [OF s(2)] assms(2-7) i by auto
  have q: "set qs = {0..<length bss}" "length qs = length bss" "distinct qs"
    using mset_eq_setD [OF t(4)] mset_eq_length [OF t(4)] t(4) by (simp, simp, metis distinct_upt mset_eq_imp_distinct_iff)
  have rec: "recordful s0 (bss ! p)" if "p \<in> set qs" for p using assms(6) that q(1) by simp
  have kl: "\<forall>p\<in>set qs. keys_length (scb_description t) \<le> length (bss ! p)"
    using recordfulD(2) [OF rec] t(3) i(1) by simp
  have "get_records (length qs - 0 + 1) t = Some (map (\<lambda>p. bss ! p) (drop 0 qs))"
    by (rule get_records_giving [OF t(2) _ q(3) _ kl]) (use assms(2) t(3) in simp_all)
  then have g: "get_records (length bss + 1) t = Some (map (\<lambda>p. bss ! p) qs)"
    by (simp only: q(2) drop_0 minus_nat.diff_0)
  have ms: "mset (map (\<lambda>p. bss ! p) qs) = mset bss"
  proof -
    have "mset (map (\<lambda>p. bss ! p) qs) = mset (map (\<lambda>p. bss ! p) [0..<length bss])" using t(4) by (simp only: mset_map)
    then show ?thesis by (simp only: map_nth)
  qed
  let ?m = "scb_longs s0 - SIZEOF_SR_BCKPTR_IN_LONGS s0"
  have ok: "\<forall>x\<in>set (map (\<lambda>p. bss ! p) qs). coded_record desc ?m x"
    using recordfulD [OF rec] i(1) assms(2) by (simp add: coded_record_def)
  have "sorted (map (\<lambda>bs. longs_of (record_code desc bs)) (map (\<lambda>p. bss ! p) qs))" using t(5) by (simp add: comp_def)
  then have "sorted_wrt (\<lambda>x y. \<not> key_less desc y x) (map (\<lambda>p. bss ! p) qs)" by (rule coded.sorted_records [OF ok])
  then show ?thesis using s(1) t(1) g ms by blast
qed

text \<open>A sort by a descending number and an ascending name of three characters.\<close>

definition sample_keys :: "sort_key_def list" where
  "sample_keys =
    [\<lparr>skd_dtype = SKD_long, skd_flags = 1, skd_length = 4, skd_offset = 0, skd_vary_offset = 0\<rparr>,
     \<lparr>skd_dtype = SKD_text, skd_flags = 0, skd_length = 3, skd_offset = 4, skd_vary_offset = 0\<rparr>]"

definition sample_records :: "byte list list" where
  "sample_records =
    [[5, 0, 0, 0, 97, 98, 99, 0, 1, 0, 0, 0], [255, 255, 255, 255, 98, 98, 99, 0, 2, 0, 0, 0],
     [5, 0, 0, 0, 97, 97, 99, 0, 3, 0, 0, 0], [9, 0, 0, 0, 120, 0, 0, 0, 4, 0, 0, 0]]"

definition sample_sort :: "sort_context option" where
  "sample_sort = SORT_init 4 12 2 sample_keys None 100 2 2 (\<lambda>i. case i of None \<Rightarrow> 0 | Some n \<Rightarrow> word_of_nat n) (Some 0)"

theorem sort_in_memory_witness:
  "\<exists>s t ys. put_records sample_records (the sample_sort) = Some s \<and> SORT_sort s = Some t \<and>
    get_records (length sample_records + 1) t = Some ys \<and> mset ys = mset sample_records \<and>
    sorted_wrt (\<lambda>x y. \<not> key_less sample_keys y x) ys"
proof -
  have "\<exists>s0. sample_sort = Some s0" unfolding sample_sort_def SORT_init_def sample_keys_def by simp
  then have init: "SORT_init 4 12 2 sample_keys None 100 2 2 (\<lambda>i. case i of None \<Rightarrow> 0 | Some n \<Rightarrow> word_of_nat n) (Some 0)
      = Some (the sample_sort)" unfolding sample_sort_def by auto
  have longs: "scb_longs (the sample_sort) = 5"
    unfolding sample_sort_def SORT_init_def sample_keys_def by (simp add: ROUNDUP_def)
  have s0: "scb_description (the sample_sort) = sample_keys" "SIZEOF_SR_BCKPTR_IN_LONGS (the sample_sort) = 2"
    unfolding sample_sort_def SORT_init_def sample_keys_def by simp_all
  show ?thesis
  proof (rule sort_in_memory [OF init])
    show "laid_out 0 sample_keys"
      by (simp add: sample_keys_def plain_key_def skd_rounded_def ROUNDUP_def)
    show "\<forall>bs\<in>set sample_records. recordful (the sample_sort) bs"
      unfolding recordful_def s0 longs
      by (simp add: sample_records_def sample_keys_def keys_length_def padded_def field_of_def skd_rounded_def ROUNDUP_def)
  qed (simp_all add: longs sample_records_def)
qed

text \<open>
  C16. For keys of the fixed formats (\<^verbatim>\<open>SKD_short\<close>, \<^verbatim>\<open>ushort\<close>, \<^verbatim>\<open>long\<close>, \<^verbatim>\<open>ulong\<close>, \<^verbatim>\<open>int64\<close>, \<^verbatim>\<open>quad\<close>,
  \<^verbatim>\<open>float\<close>, \<^verbatim>\<open>double\<close>, \<^verbatim>\<open>sql_date\<close>, \<^verbatim>\<open>sql_time\<close>, \<^verbatim>\<open>timestamp1\<close>, \<^verbatim>\<open>timestamp2\<close>, \<^verbatim>\<open>text\<close> and
  \<^verbatim>\<open>bytes\<close>; not \<^verbatim>\<open>varying\<close>, \<^verbatim>\<open>cstring\<close> and \<^verbatim>\<open>d_float\<close>) laid out one behind the other, with zero
  padding, \<^verbatim>\<open>diddle_key\<close> never leaves the record and turning back restores it, and comparing the longwords
  of the key area of two converted records as unsigned numbers decides the order that \<open>key_less\<close> gives
  them: integers by value, texts by their characters, timestamps by day and time, floating point numbers by
  sign and magnitude, a quad by its first longword unsigned and then its second longword signed, which is
  not the order of the 64 bit value; field by field, and in reverse for descending keys.
\<close>

theorem diddle_key_order:
  assumes "laid_out 0 desc" and "keys_length desc \<le> length x" and "length y = length x"
    and "padded desc x" and "padded desc y"
  shows "\<exists>x' y'. diddle_key False True desc x = Some x' \<and> diddle_key False True desc y = Some y' \<and>
    diddle_key True False desc x' = Some x \<and> diddle_key True False desc y' = Some y \<and>
    (take (keys_length desc div 4) (longs_of x') < take (keys_length desc div 4) (longs_of y') \<longleftrightarrow> key_less desc x y)"
proof -
  let ?c = "record_code desc"
  obtain k where k: "keys_length desc = 4 * k" using keys_length_longs [OF assms(1)] by (auto simp: dvd_def)
  have y: "keys_length desc \<le> length y" using assms(2,3) by simp
  note x = diddle_code [OF assms(1,2)] and y = diddle_code [OF assms(1) y]
  have l: "length (take (4 * k) (?c x)) = 4 * k" "length (take (4 * k) (?c y)) = 4 * k"
    using assms(2,3) k x(3) y(3) by simp_all
  have "take k (longs_of (?c x)) < take k (longs_of (?c y)) \<longleftrightarrow> take (4 * k) (rev4 (?c x)) < take (4 * k) (rev4 (?c y))"
    using longs_less_iff [OF l] assms(2,3) k x(3) y(3) by (simp add: take_longs take_rev4)
  also have "\<dots> \<longleftrightarrow> key_less desc x y"
    using record_code_less [OF assms(1), of "[]" "[]" x y] assms k by simp
  finally show ?thesis using x y k by simp
qed

theorem diddle_key_order_witness:
  "\<exists>x' y'. diddle_key False True sample_keys (sample_records ! 0) = Some x' \<and>
    diddle_key False True sample_keys (sample_records ! 2) = Some y' \<and>
    diddle_key True False sample_keys x' = Some (sample_records ! 0) \<and>
    diddle_key True False sample_keys y' = Some (sample_records ! 2) \<and>
    (take (keys_length sample_keys div 4) (longs_of x') < take (keys_length sample_keys div 4) (longs_of y') \<longleftrightarrow>
     key_less sample_keys (sample_records ! 0) (sample_records ! 2))"
  by (rule diddle_key_order)
     (simp_all add: sample_records_def sample_keys_def keys_length_def padded_def field_of_def skd_rounded_def
        ROUNDUP_def plain_key_def)

subsection \<open>Two observations\<close>

text \<open>
  \<^verbatim>\<open>quick\<close> and \<^verbatim>\<open>sort\<close> compare \<^verbatim>\<open>scb_longs - 1\<close> longwords. Where the back pointer takes two, this is one
  more than a record has: for equal records the comparison reads behind them, and for the first
  record behind the sort memory.
\<close>

lemma compare_equal_longs:
  assumes "longs_of (sort_record_key s p) = longs_of (sort_record_key s q)"
    and "k \<le> length (longs_of (sort_record_key s p))" and "long_at s (Rec p) (length (longs_of (sort_record_key s p))) = None"
  shows "compare_longs s (Rec p) (Rec q) k (length (longs_of (sort_record_key s p)) - k + 1) = None"
  using assms(2)
proof (induction "length (longs_of (sort_record_key s p)) - k" arbitrary: k)
  case 0
  then have "k = length (longs_of (sort_record_key s p))" by simp
  then show ?case using assms(3) by simp
next
  case (Suc d)
  let ?m = "length (longs_of (sort_record_key s p))"
  have k: "k < ?m" "?m - k + 1 = Suc (?m - Suc k + 1)" using Suc.hyps(2) by linarith+
  have d: "d = ?m - Suc k" "Suc k \<le> ?m" using Suc.hyps(2) by linarith+
  have "compare_longs s (Rec p) (Rec q) (Suc k) (?m - Suc k + 1) = None" by (rule Suc.hyps(1) [OF d])
  moreover have "long_at s (Rec p) k = Some (longs_of (sort_record_key s p) ! k)"
    "long_at s (Rec q) k = Some (longs_of (sort_record_key s p) ! k)"
    using k(1) assms(1) by (simp_all add: long_at_def)
  ultimately show ?case unfolding k(2) by simp
qed

theorem sort_reads_behind_record:
  assumes "SIZEOF_SR_BCKPTR_IN_LONGS s = 2" and "scb_longs s = length (longs_of (sort_record_key s 0)) + 2"
    and "sort_record_key s q = sort_record_key s 0" and "past_end_memory s = None"
  shows "compare_longs s (Rec 0) (Rec q) 0 (scb_longs s - 1) = None"
  using compare_equal_longs [of s 0 q 0] assms by (simp add: long_at_def)

text \<open>
  The description of \<^verbatim>\<open>SORT_init\<close> says that the second of two duplicates is eliminated when the caller agrees.
  It is the first.
\<close>

theorem duplicate_drops_first:
  assumes p: "pointer_at s i = Some (Rec x)" "pointer_at s (i + 1) = Some (Rec y)" "x \<noteq> y"
    and k: "sort_record_key s x = record_code (scb_description s) bx" "sort_record_key s y = record_code (scb_description s) b_y"
      "laid_out 0 (scb_description s)" "keys_length (scb_description s) \<le> length bx" "keys_length (scb_description s) \<le> length b_y"
    and e: "long_at s (Rec x) 0 = Some w" "long_at s (Rec y) 0 = Some w"
      "do_32_compare s (Rec x) (Rec y) (scb_unique_length s) = Some True"
    and c: "callback bx b_y"
  shows "\<exists>t. duplicate_step callback i s = Some t \<and> scb_pointers t = (scb_pointers s)[i := NULL] \<and>
    sort_record_key t y = sort_record_key s y \<and> sr_bckptr t x = None"
  using p e c diddle_code [OF k(3,4)] diddle_code [OF k(3,5)] k(1,2)
  by (simp add: duplicate_step_def offer_duplicate_def diddle_record_def)

end
