(* ===== verification/FB_Lock.thy ===== *)
theory FB_Lock
  imports FB_Prelude
begin

section \<open>The lock manager (\<^verbatim>\<open>src/src/lock/lock.cpp\<close>, \<^verbatim>\<open>lock.h\<close>)\<close>

text \<open>
  The lock table: locks with a queue of requests each, requests that belong to owners. Every
  operation runs while its owner has acquired the table, so that it is a function on the table; an
  operation that waits is split where it releases the table. Blocks are named by their offset in
  the shared memory, a queue is the list of the blocks linked in it, from head to tail. The build is
  the one of the super server on Unix: wakeups are events, all owners are in one process, the
  table does not grow. \<^verbatim>\<open>USHORT\<close> counters wrap around; statistics and history are
  kept as the code keeps them.
\<close>

subsection \<open>Levels\<close>

definition LCK_none :: nat where "LCK_none = 0"
definition LCK_null :: nat where "LCK_null = 1"
definition LCK_SR :: nat where "LCK_SR = 2"
definition LCK_PR :: nat where "LCK_PR = 3"
definition LCK_SW :: nat where "LCK_SW = 4"
definition LCK_PW :: nat where "LCK_PW = 5"
definition LCK_EX :: nat where "LCK_EX = 6"
definition LCK_max :: nat where "LCK_max = 7"
definition LCK_MAX_SERIES :: nat where "LCK_MAX_SERIES = 7"
definition HISTORY_BLOCKS :: nat where "HISTORY_BLOCKS = 256"

definition compatibility :: "nat list" where
  "compatibility =
    [1, 1, 1, 1, 1, 1, 1,
     1, 1, 1, 1, 1, 1, 1,
     1, 1, 1, 1, 1, 1, 0,
     1, 1, 1, 1, 0, 0, 0,
     1, 1, 1, 0, 1, 0, 0,
     1, 1, 1, 0, 0, 0, 0,
     1, 1, 0, 0, 0, 0, 0]"

definition COMPATIBLE :: "nat \<Rightarrow> nat \<Rightarrow> bool" where
  "COMPATIBLE st1 st2 \<longleftrightarrow> compatibility ! (st1 * LCK_max + st2) \<noteq> 0"

subsection \<open>The table\<close>

datatype lrq_flag = LRQ_blocking | LRQ_pending | LRQ_rejected | LRQ_deadlock | LRQ_scanned
  | LRQ_blocking_seen | LRQ_just_granted

datatype own_flag = OWN_scanned | OWN_signal | OWN_wakeup | OWN_timeout

text \<open>An absent routine is 0.\<close>

record lrq =
  lrq_in_use :: bool
  lrq_requested :: nat
  lrq_state :: nat
  lrq_flags :: "lrq_flag set"
  lrq_owner :: nat
  lrq_lock :: nat
  lrq_data :: int
  lrq_ast_routine :: nat
  lrq_ast_argument :: nat

record lbl =
  lbl_in_use :: bool
  lbl_state :: nat
  lbl_size :: nat
  lbl_requests :: "nat list"
  lbl_data :: int
  lbl_parent :: nat
  lbl_series :: nat
  lbl_pending_lrq_count :: nat
  lbl_counts :: "nat \<Rightarrow> nat"
  lbl_key :: "byte list"

record own =
  own_count :: int
  own_signaled :: bool
  own_requests :: "nat list"
  own_blocks :: "nat list"
  own_pending_request :: nat
  own_semaphore :: bool
  own_flags :: "own_flag set"
  own_owner_id :: nat
  own_owner_type :: nat

datatype his_operation = his_enq | his_deq | his_convert | his_post_ast | his_wait | his_deny | his_grant | his_scan | his_del_owner

datatype statistic = lhb_enqs | lhb_converts | lhb_downgrades | lhb_deqs | lhb_read_data | lhb_write_data
  | lhb_query_data | lhb_operations nat | lhb_waits | lhb_denies
  | lhb_timeouts | lhb_blocks | lhb_wakeups | lhb_scans | lhb_deadlocks

text \<open>
  The header with all blocks. The sizes of the blocks and the alignment depend on the
  platform; \<^verbatim>\<open>LOCK_ordering\<close> is a setting.
\<close>

record lhb =
  lhb_requests :: "nat \<Rightarrow> lrq"
  lhb_locks :: "nat \<Rightarrow> lbl"
  lhb_own :: "nat \<Rightarrow> own"
  lhb_owners :: "nat list"
  lhb_free_owners :: "nat list"
  lhb_free_locks :: "nat list"
  lhb_free_requests :: "nat list"
  lhb_hash :: "nat \<Rightarrow> nat list"
  lhb_hash_slots :: nat
  lhb_data :: "nat \<Rightarrow> nat list"
  lhb_used :: nat
  lhb_length :: nat
  lhb_history :: "(his_operation \<times> nat \<times> nat \<times> nat) list"
  shb_history :: "(his_operation \<times> nat \<times> nat \<times> nat) list"
  lhb_stats :: "statistic \<Rightarrow> nat"
  LOCK_ordering :: bool
  sizeof_lrq :: nat
  sizeof_lbl :: nat
  sizeof_own :: nat
  ALIGNMENT :: nat

definition set_request :: "nat \<Rightarrow> (lrq \<Rightarrow> lrq) \<Rightarrow> lhb \<Rightarrow> lhb" where
  "set_request r f t = t\<lparr>lhb_requests := (lhb_requests t)(r := f (lhb_requests t r))\<rparr>"

definition set_lock :: "nat \<Rightarrow> (lbl \<Rightarrow> lbl) \<Rightarrow> lhb \<Rightarrow> lhb" where
  "set_lock l f t = t\<lparr>lhb_locks := (lhb_locks t)(l := f (lhb_locks t l))\<rparr>"

definition set_owner :: "nat \<Rightarrow> (own \<Rightarrow> own) \<Rightarrow> lhb \<Rightarrow> lhb" where
  "set_owner w f t = t\<lparr>lhb_own := (lhb_own t)(w := f (lhb_own t w))\<rparr>"

definition set_flag :: "nat \<Rightarrow> lrq_flag \<Rightarrow> lhb \<Rightarrow> lhb" where
  "set_flag r f = set_request r (\<lambda>q. q\<lparr>lrq_flags := insert f (lrq_flags q)\<rparr>)"

definition clear_flags :: "nat \<Rightarrow> lrq_flag set \<Rightarrow> lhb \<Rightarrow> lhb" where
  "clear_flags r fs = set_request r (\<lambda>q. q\<lparr>lrq_flags := lrq_flags q - fs\<rparr>)"

definition bump :: "statistic \<Rightarrow> lhb \<Rightarrow> lhb" where
  "bump s t = t\<lparr>lhb_stats := (lhb_stats t)(s := (lhb_stats t s + 1) mod 2 ^ 64)\<rparr>"

definition bump_operations :: "nat \<Rightarrow> lhb \<Rightarrow> lhb" where
  "bump_operations series = bump (lhb_operations (if series < LCK_MAX_SERIES then series else 0))"

text \<open>The history is a ring of blocks: the oldest entry is overwritten.\<close>

definition post_history :: "his_operation \<Rightarrow> nat \<Rightarrow> nat \<Rightarrow> nat \<Rightarrow> lhb \<Rightarrow> lhb" where
  "post_history operation process lock request t =
     t\<lparr>lhb_history := take HISTORY_BLOCKS ((operation, process, lock, request) # lhb_history t)\<rparr>"

text \<open>The second ring, behind the secondary header.\<close>

definition post_secondary :: "his_operation \<Rightarrow> nat \<Rightarrow> nat \<Rightarrow> nat \<Rightarrow> lhb \<Rightarrow> lhb" where
  "post_secondary operation process lock request t =
     t\<lparr>shb_history := take HISTORY_BLOCKS ((operation, process, lock, request) # shb_history t)\<rparr>"

definition inc_count :: "nat \<Rightarrow> nat \<Rightarrow> lhb \<Rightarrow> lhb" where
  "inc_count l s = set_lock l (\<lambda>k. k\<lparr>lbl_counts := (lbl_counts k)(s := to_ushort (lbl_counts k s + 1))\<rparr>)"

definition dec_count :: "nat \<Rightarrow> nat \<Rightarrow> lhb \<Rightarrow> lhb" where
  "dec_count l s = set_lock l (\<lambda>k. k\<lparr>lbl_counts := (lbl_counts k)(s := to_ushort (lbl_counts k s + 65535))\<rparr>)"

definition inc_pending :: "nat \<Rightarrow> lhb \<Rightarrow> lhb" where
  "inc_pending l = set_lock l (\<lambda>k. k\<lparr>lbl_pending_lrq_count := to_ushort (lbl_pending_lrq_count k + 1)\<rparr>)"

definition dec_pending :: "nat \<Rightarrow> lhb \<Rightarrow> lhb" where
  "dec_pending l = set_lock l (\<lambda>k. k\<lparr>lbl_pending_lrq_count := to_ushort (lbl_pending_lrq_count k + 65535)\<rparr>)"

subsection \<open>Granting\<close>

definition lock_state :: "lbl \<Rightarrow> nat" where
  "lock_state lock =
     (if lbl_counts lock LCK_EX \<noteq> 0 then LCK_EX
      else if lbl_counts lock LCK_PW \<noteq> 0 then LCK_PW
      else if lbl_counts lock LCK_SW \<noteq> 0 then LCK_SW
      else if lbl_counts lock LCK_PR \<noteq> 0 then LCK_PR
      else if lbl_counts lock LCK_SR \<noteq> 0 then LCK_SR
      else if lbl_counts lock LCK_null \<noteq> 0 then LCK_null
      else LCK_none)"

text \<open>The data queue of a series is sorted by the data of the locks with the same parent.\<close>

fun data_insert :: "(nat \<Rightarrow> lbl) \<Rightarrow> nat \<Rightarrow> nat list \<Rightarrow> nat list" where
  "data_insert locks l [] = [l]"
| "data_insert locks l (l2 # ls) =
     (if lbl_parent (locks l2) \<noteq> lbl_parent (locks l) then l2 # data_insert locks l ls
      else if lbl_data (locks l) \<le> lbl_data (locks l2) then l # l2 # ls
      else l2 # data_insert locks l ls)"

definition insert_data_que :: "nat \<Rightarrow> lhb \<Rightarrow> lhb" where
  "insert_data_que l t =
     (let lock = lhb_locks t l; s = lbl_series lock in
      if s < LCK_MAX_SERIES \<and> lbl_parent lock \<noteq> 0 \<and> lbl_data lock \<noteq> 0
      then t\<lparr>lhb_data := (lhb_data t)(s := data_insert (lhb_locks t) l (lhb_data t s))\<rparr>
      else t)"

definition remove_data_que :: "nat \<Rightarrow> lhb \<Rightarrow> lhb" where
  "remove_data_que l t =
     (let s = lbl_series (lhb_locks t l) in t\<lparr>lhb_data := (lhb_data t)(s := remove1 l (lhb_data t s))\<rparr>)"

text \<open>\<^verbatim>\<open>own_semaphore\<close> tells that the owner is waiting; posting the event wakes it up.\<close>

definition post_wakeup :: "nat \<Rightarrow> lhb \<Rightarrow> lhb" where
  "post_wakeup w t =
     (if \<not> own_semaphore (lhb_own t w) then t
      else set_owner w (\<lambda>v. v\<lparr>own_flags := insert OWN_wakeup (own_flags v)\<rparr>) (bump lhb_wakeups t))"

definition grant_data :: "nat \<Rightarrow> nat \<Rightarrow> lhb \<Rightarrow> lhb" where
  "grant_data r l t =
     (let data = lrq_data (lhb_requests t r) in
      if data \<noteq> 0 then
        set_request r (\<lambda>q. q\<lparr>lrq_data := 0\<rparr>)
          (insert_data_que l (set_lock l (\<lambda>k. k\<lparr>lbl_data := data\<rparr>) (remove_data_que l t)))
      else t)"

definition grant_pending :: "nat \<Rightarrow> nat \<Rightarrow> lhb \<Rightarrow> lhb" where
  "grant_pending r l t =
     (if LRQ_pending \<in> lrq_flags (lhb_requests t r) then dec_pending l (clear_flags r {LRQ_pending} t) else t)"

definition grant :: "nat \<Rightarrow> nat \<Rightarrow> lhb \<Rightarrow> lhb" where
  "grant r l t =
     (let w = lrq_owner (lhb_requests t r);
          t = post_history his_grant w (lrq_lock (lhb_requests t r)) r t;
          t = inc_count l (lrq_requested (lhb_requests t r)) t;
          t = set_request r (\<lambda>q. q\<lparr>lrq_state := lrq_requested q\<rparr>) t;
          t = grant_data r l t;
          t = set_lock l (\<lambda>k. k\<lparr>lbl_state := lock_state k\<rparr>) t;
          t = grant_pending r l t
      in post_wakeup w t)"

fun pending_loop :: "nat \<Rightarrow> nat list \<Rightarrow> lhb \<Rightarrow> lhb" where
  "pending_loop l [] t = t"
| "pending_loop l (r # rs) t =
     (let request = lhb_requests t r in
      if LRQ_pending \<notin> lrq_flags request then pending_loop l rs t
      else if lrq_state request \<noteq> 0 then
        let t1 = dec_count l (lrq_state request) t;
            temp_state = lock_state (lhb_locks t1 l) in
        if COMPATIBLE (lrq_requested request) temp_state then pending_loop l rs (grant r l t1)
        else
          let t2 = post_wakeup (lrq_owner request) (inc_count l (lrq_state request) t1) in
          if LOCK_ordering t2 then t2 else pending_loop l rs t2
      else if COMPATIBLE (lrq_requested request) (lbl_state (lhb_locks t l)) then pending_loop l rs (grant r l t)
      else
        let t2 = post_wakeup (lrq_owner request) t in
        if LOCK_ordering t2 then t2 else pending_loop l rs t2)"

text \<open>The requests in front of the first waiting one may block it from now on.\<close>

fun mark_granted :: "nat list \<Rightarrow> lhb \<Rightarrow> lhb" where
  "mark_granted [] t = t"
| "mark_granted (r # rs) t =
     (let request = lhb_requests t r in
      if LRQ_pending \<in> lrq_flags request then t
      else if lrq_flags request \<inter> {LRQ_blocking_seen, LRQ_blocking} = {} \<and> lrq_ast_routine request \<noteq> 0
      then mark_granted rs (set_flag r LRQ_just_granted t)
      else mark_granted rs t)"

definition post_pending :: "nat \<Rightarrow> lhb \<Rightarrow> lhb" where
  "post_pending l t =
     (if lbl_pending_lrq_count (lhb_locks t l) = 0 then t
      else
        let t = pending_loop l (lbl_requests (lhb_locks t l)) t in
        if lbl_pending_lrq_count (lhb_locks t l) \<noteq> 0 then mark_granted (lbl_requests (lhb_locks t l)) t else t)"

subsection \<open>Releasing\<close>

definition remove_hash :: "nat \<Rightarrow> lhb \<Rightarrow> lhb" where
  "remove_hash l t = t\<lparr>lhb_hash := (\<lambda>s. remove1 l (lhb_hash t s))\<rparr>"

definition release_lock :: "nat \<Rightarrow> lhb \<Rightarrow> lhb" where
  "release_lock l t =
     (let t = remove_data_que l (remove_hash l t);
          t = set_lock l (\<lambda>k. k\<lparr>lbl_in_use := False\<rparr>) t
      in t\<lparr>lhb_free_locks := lhb_free_locks t @ [l]\<rparr>)"

definition unlink_request :: "nat \<Rightarrow> lhb \<Rightarrow> lhb" where
  "unlink_request r t =
     (let request = lhb_requests t r; l = lrq_lock request; w = lrq_owner request;
          t = set_lock l (\<lambda>k. k\<lparr>lbl_requests := remove1 r (lbl_requests k)\<rparr>) t;
          t = set_owner w (\<lambda>v. v\<lparr>own_requests := remove1 r (own_requests v)\<rparr>) t;
          t = set_request r (\<lambda>q. q\<lparr>lrq_in_use := False\<rparr>) t;
          t = t\<lparr>lhb_free_requests := lhb_free_requests t @ [r]\<rparr>;
          t = (if LRQ_blocking \<in> lrq_flags request
               then clear_flags r {LRQ_blocking} (set_owner w (\<lambda>v. v\<lparr>own_blocks := remove1 r (own_blocks v)\<rparr>) t)
               else t);
          t = clear_flags r {LRQ_blocking_seen, LRQ_just_granted} t
      in if LRQ_pending \<in> lrq_flags request then dec_pending l (clear_flags r {LRQ_pending} t) else t)"

definition release_request :: "nat \<Rightarrow> lhb \<Rightarrow> lhb" where
  "release_request r t =
     (let request = lhb_requests t r; l = lrq_lock request; s = lrq_state request;
          t = unlink_request r t in
      if lbl_requests (lhb_locks t l) = [] then release_lock l t
      else
        let t = (if s \<noteq> LCK_none then dec_count l s t else t) in
        if s \<noteq> LCK_none \<and> lbl_counts (lhb_locks t l) s = 0 then
          let t = set_lock l (\<lambda>k. k\<lparr>lbl_state := lock_state k\<rparr>) t in
          post_pending l t
        else post_pending l t)"

definition dequeue :: "nat \<Rightarrow> lhb \<Rightarrow> lhb" where
  "dequeue r t =
     (let request = lhb_requests t r;
          t = post_history his_deq (lrq_owner request) (lrq_lock request) r t;
          t = set_request r (\<lambda>q. q\<lparr>lrq_ast_routine := 0\<rparr>) t
      in release_request r t)"

text \<open>Invalid request numbers are a fatal error of the code (\<^verbatim>\<open>bug\<close>), here \<open>None\<close>.\<close>

definition get_request :: "nat \<Rightarrow> lhb \<Rightarrow> lrq option" where
  "get_request r t =
     (let request = lhb_requests t r in
      if \<not> lrq_in_use request \<or> \<not> lbl_in_use (lhb_locks t (lrq_lock request)) then None else Some request)"

definition LOCK_deq :: "nat \<Rightarrow> lhb \<Rightarrow> (bool \<times> lhb) option" where
  "LOCK_deq r t =
     (case get_request r t of
        None \<Rightarrow> None
      | Some request \<Rightarrow>
          if own_count (lhb_own t (lrq_owner request)) = 0 then Some (False, t)
          else Some (True, dequeue r (bump_operations (lbl_series (lhb_locks t (lrq_lock request))) (bump lhb_deqs t))))"

subsection \<open>Blocking notices\<close>

text \<open>
  The requests that block a waiting one are put on their owners' lists; the owners to be notified are
  collected. A signal makes the owner run its list, one block at a time; the blocking routine
  itself runs while the table is released and calls the lock manager like any other code.
  A signal is only recorded here, and the rounds of \<^verbatim>\<open>blocking_action2\<close> that it causes are steps of their own, which may
  come at any later time, as with a signal sent to another process. The super server, where all owners are in one process,
  calls \<^verbatim>\<open>blocking_action2\<close> from \<^verbatim>\<open>signal_owner\<close>, so that the rounds, and the blocking routines between them, run
  before \<^verbatim>\<open>post_blockage\<close> signals the next owner and returns. What follows about \<^verbatim>\<open>post_blockage\<close> is therefore about
  the notices it posts, not about the time at which they are handled or how long that takes.
\<close>

fun blockage_loop :: "nat \<Rightarrow> nat \<Rightarrow> bool \<Rightarrow> nat list \<Rightarrow> nat list \<Rightarrow> lhb \<Rightarrow> nat list \<times> lhb" where
  "blockage_loop r w force [] blocking_owners t = (blocking_owners, t)"
| "blockage_loop r w force (b # bs) blocking_owners t =
     (let request = lhb_requests t r; block = lhb_requests t b in
      if b = r \<or> COMPATIBLE (lrq_requested request) (lrq_state block) \<or> lrq_ast_routine block = 0
         \<or> (LRQ_blocking_seen \<in> lrq_flags block \<and> \<not> force)
      then blockage_loop r w force bs blocking_owners t
      else
        let bw = lrq_owner block;
            t = (if LRQ_blocking \<notin> lrq_flags block then
                   clear_flags b {LRQ_blocking_seen, LRQ_just_granted}
                     (set_flag b LRQ_blocking (set_owner bw (\<lambda>v. v\<lparr>own_blocks := own_blocks v @ [b]\<rparr>) t))
                 else t);
            t = (if force then set_owner bw (\<lambda>v. v\<lparr>own_signaled := False\<rparr>) t else t);
            blocking_owners = (if bw \<noteq> w then blocking_owners @ [bw] else blocking_owners) in
        if lrq_state block = LCK_EX then (blocking_owners, t)
        else blockage_loop r w force bs blocking_owners t)"

definition signal_owner :: "nat \<Rightarrow> lhb \<Rightarrow> lhb" where
  "signal_owner w t =
     (if own_signaled (lhb_own t w) then t
      else set_owner w (\<lambda>v. v\<lparr>own_signaled := True, own_flags := own_flags v - {OWN_signal}\<rparr>) t)"

definition post_blockage :: "nat \<Rightarrow> nat \<Rightarrow> bool \<Rightarrow> lhb \<Rightarrow> lhb" where
  "post_blockage r l force t =
     (let (blocking_owners, t) = blockage_loop r (lrq_owner (lhb_requests t r)) force (lbl_requests (lhb_locks t l)) [] t in
      fold (\<lambda>w t. if own_count (lhb_own t w) \<noteq> 0 then signal_owner w t else t) (rev blocking_owners) t)"

text \<open>
  One round of \<^verbatim>\<open>blocking_action2\<close>: the routine and argument to call, if any. The branch for a block made by
  \<^verbatim>\<open>LOCK_re_post\<close>, which returns it to the free requests, is left out together with that operation.
\<close>

definition blocking_step :: "nat \<Rightarrow> lhb \<Rightarrow> (nat \<times> nat) option \<times> lhb" where
  "blocking_step w t =
     (if own_count (lhb_own t w) = 0 then (None, t)
      else case own_blocks (lhb_own t w) of
        [] \<Rightarrow> (None, set_owner w (\<lambda>v. v\<lparr>own_signaled := False\<rparr>) t)
      | r # _ \<Rightarrow>
          let request = lhb_requests t r;
              t = set_owner w (\<lambda>v. v\<lparr>own_blocks := tl (own_blocks v)\<rparr>) t;
              t = (if LRQ_blocking \<in> lrq_flags request then
                     post_history his_post_ast w (lrq_lock request) r
                       (bump lhb_blocks (set_flag r LRQ_blocking_seen (clear_flags r {LRQ_blocking} t)))
                   else t)
          in (Some (lrq_ast_routine request, lrq_ast_argument request), t))"

subsection \<open>Deadlocks\<close>

definition deadlock_clear :: "lhb \<Rightarrow> lhb" where
  "deadlock_clear t =
     fold (\<lambda>w t. let p = own_pending_request (lhb_own t w) in
                 if p = 0 then t else clear_flags p {LRQ_deadlock, LRQ_scanned} t) (lhb_owners t) t"

text \<open>
  The walk through the requests that wait for each other. The first argument bounds the depth;
  the result is a request to reject, whether a deadlock is possible although none was found, and the
  table with its marks. \<^verbatim>\<open>OWN_wakeup\<close> is tested in a word in which it is never set, so that this
  test is omitted.
\<close>

definition blocks_request :: "nat \<Rightarrow> nat \<Rightarrow> lhb \<Rightarrow> bool" where
  "blocks_request r b t =
     (let request = lhb_requests t r; block = lhb_requests t b in
      if \<not> LOCK_ordering t \<or> LCK_null < lrq_state request
      then r \<noteq> b \<and> \<not> COMPATIBLE (lrq_requested request) (lrq_state block)
      else \<not> COMPATIBLE (lrq_requested request) (max (lrq_state block) (lrq_requested block)))"

definition ast_unfinished :: "nat \<Rightarrow> lhb \<Rightarrow> bool" where
  "ast_unfinished b t =
     (let owner = lhb_own t (lrq_owner (lhb_requests t b)) in
      own_signaled owner \<or> own_blocks owner \<noteq> [] \<or> LRQ_just_granted \<in> lrq_flags (lhb_requests t b))"

fun deadlock_walk :: "nat \<Rightarrow> nat \<Rightarrow> bool \<Rightarrow> lhb \<Rightarrow> (nat option \<times> bool \<times> lhb) option"
  and walk_blocks :: "nat \<Rightarrow> nat \<Rightarrow> nat list \<Rightarrow> bool \<Rightarrow> lhb \<Rightarrow> (nat option \<times> bool \<times> lhb) option" where
  "deadlock_walk 0 r maybe t = None"
| "deadlock_walk (Suc n) r maybe t =
     (if LRQ_scanned \<in> lrq_flags (lhb_requests t r) then Some (None, maybe, t)
      else if LRQ_deadlock \<in> lrq_flags (lhb_requests t r) then Some (Some r, maybe, t)
      else
        let t = set_flag r LRQ_deadlock t in
        case walk_blocks n r (lbl_requests (lhb_locks t (lrq_lock (lhb_requests t r)))) maybe t of
          None \<Rightarrow> None
        | Some (Some v, maybe, t) \<Rightarrow> Some (Some v, maybe, t)
        | Some (None, maybe, t) \<Rightarrow> Some (None, maybe, set_flag r LRQ_scanned (clear_flags r {LRQ_deadlock} t)))"
| "walk_blocks n r [] maybe t = Some (None, maybe, t)"
| "walk_blocks n r (b # bs) maybe t =
     (if LOCK_ordering t \<and> \<not> LCK_null < lrq_state (lhb_requests t r) \<and> r = b then Some (None, maybe, t)
      else if \<not> blocks_request r b t then walk_blocks n r bs maybe t
      else if OWN_timeout \<in> own_flags (lhb_own t (lrq_owner (lhb_requests t b))) then walk_blocks n r bs maybe t
      else if ast_unfinished b t then walk_blocks n r bs True t
      else
        let target = own_pending_request (lhb_own t (lrq_owner (lhb_requests t b))) in
        if target = 0 \<or> LRQ_pending \<notin> lrq_flags (lhb_requests t target) then walk_blocks n r bs maybe t
        else case deadlock_walk n target maybe t of
          None \<Rightarrow> None
        | Some (Some v, maybe, t) \<Rightarrow> Some (Some v, maybe, t)
        | Some (None, maybe, t) \<Rightarrow> walk_blocks n r bs maybe t)"

text \<open>Every request on the walk is the one some owner waits for, so that the owners bound its depth.\<close>

definition deadlock_scan :: "nat \<Rightarrow> nat \<Rightarrow> lhb \<Rightarrow> (nat option \<times> lhb) option" where
  "deadlock_scan w r t =
     (let request = lhb_requests t r;
          t = post_history his_scan (lrq_owner request) (lrq_lock request) r (bump lhb_scans t);
          t = deadlock_clear t in
      case deadlock_walk (length (lhb_owners t) + 2) r False t of
        None \<Rightarrow> None
      | Some (victim, maybe, t) \<Rightarrow>
          Some (victim, if victim = None \<and> \<not> maybe
                        then set_owner w (\<lambda>v. v\<lparr>own_flags := insert OWN_scanned (own_flags v)\<rparr>) t else t))"

subsection \<open>Waiting\<close>

text \<open>\<^verbatim>\<open>wait_for_request\<close> until it first releases the table.\<close>

definition wait_begin :: "nat \<Rightarrow> int \<Rightarrow> lhb \<Rightarrow> lhb" where
  "wait_begin r lck_wait t =
     (let w = lrq_owner (lhb_requests t r); l = lrq_lock (lhb_requests t r);
          t = bump lhb_waits t;
          t = set_flag r LRQ_pending (clear_flags r {LRQ_rejected} t);
          t = inc_pending l t;
          t = (if LOCK_ordering t \<and> lrq_state (lhb_requests t r) = 0
               then set_lock l (\<lambda>k. k\<lparr>lbl_requests := remove1 r (lbl_requests k) @ [r]\<rparr>) t else t);
          t = set_owner w (\<lambda>v. v\<lparr>own_pending_request := r,
                own_flags := own_flags v - {OWN_scanned, OWN_wakeup, OWN_timeout}, own_semaphore := True\<rparr>) t;
          t = (if lck_wait < 0 then set_owner w (\<lambda>v. v\<lparr>own_flags := insert OWN_timeout (own_flags v)\<rparr>) t else t);
          t = post_blockage r l False t
      in post_history his_wait w l r t)"

definition reject :: "nat \<Rightarrow> lhb \<Rightarrow> lhb" where
  "reject r t = dec_pending (lrq_lock (lhb_requests t r)) (clear_flags r {LRQ_pending} (set_flag r LRQ_rejected t))"

text \<open>
  What the waiting owner does after it has slept and has acquired the table again: \<open>woken\<close> tells that it
  was woken up on purpose, \<open>timed_out\<close> that its own time is over.
\<close>

definition wait_round :: "nat \<Rightarrow> int \<Rightarrow> bool \<Rightarrow> bool \<Rightarrow> lhb \<Rightarrow> lhb option" where
  "wait_round r lck_wait woken timed_out t =
     (let w = lrq_owner (lhb_requests t r); l = lrq_lock (lhb_requests t r);
          t = set_owner w (\<lambda>v. v\<lparr>own_flags := own_flags v - {OWN_wakeup}\<rparr>) t in
      if LRQ_pending \<notin> lrq_flags (lhb_requests t r) then Some t
      else if lck_wait < 0 \<and> timed_out then Some (reject r t)
      else if woken then Some (post_blockage r l False t)
      else if own_flags (lhb_own t w) \<inter> {OWN_scanned, OWN_timeout} = {} then
        case deadlock_scan w r t of
          None \<Rightarrow> None
        | Some (None, t) \<Rightarrow> Some (post_blockage r l False t)
        | Some (Some v, t) \<Rightarrow>
            let bw = lrq_owner (lhb_requests t v);
                t = reject v (bump lhb_deadlocks t);
                t = set_owner bw (\<lambda>x. x\<lparr>own_pending_request := 0, own_flags := own_flags x - {OWN_scanned}\<rparr>) t
            in Some (if v \<noteq> r then post_wakeup bw t else t)
      else Some (post_blockage r l False t))"

definition wait_end :: "nat \<Rightarrow> lhb \<Rightarrow> lhb" where
  "wait_end w = set_owner w (\<lambda>v. v\<lparr>own_pending_request := 0, own_semaphore := False, own_flags := own_flags v - {OWN_timeout}\<rparr>)"

subsection \<open>Requests and conversions\<close>

datatype lock_error = isc_deadlock | isc_lock_timeout | isc_lock_conflict | lock_out_of_room | lock_no_owner

datatype lock_result = Granted nat | Waiting nat | Denied lock_error

definition denial :: "int \<Rightarrow> lock_error" where
  "denial lck_wait = (if 0 < lck_wait then isc_deadlock else if lck_wait < 0 then isc_lock_timeout else isc_lock_conflict)"

definition deny :: "nat \<Rightarrow> int \<Rightarrow> lhb \<Rightarrow> lock_result \<times> lhb" where
  "deny r lck_wait t =
     (let request = lhb_requests t r;
          t = post_history his_deny (lrq_owner request) (lrq_lock request) r t;
          t = bump lhb_denies t;
          t = (if lck_wait < 0 then bump lhb_timeouts t else t)
      in (Denied (denial lck_wait), release_request r t))"

definition grant_or_que :: "nat \<Rightarrow> nat \<Rightarrow> int \<Rightarrow> lhb \<Rightarrow> lock_result \<times> lhb" where
  "grant_or_que r l lck_wait t =
     (let t = set_request r (\<lambda>q. q\<lparr>lrq_lock := l\<rparr>) t;
          requested = lrq_requested (lhb_requests t r) in
      if COMPATIBLE requested (lbl_state (lhb_locks t l))
         \<and> (\<not> LOCK_ordering t \<or> requested = LCK_null \<or> lbl_pending_lrq_count (lhb_locks t l) = 0)
      then (Granted r, post_pending l (grant r l t))
      else if lck_wait \<noteq> 0 then (Waiting r, wait_begin r lck_wait t)
      else deny r lck_wait t)"

text \<open>After the wait.\<close>

definition grant_or_que_end :: "nat \<Rightarrow> int \<Rightarrow> lhb \<Rightarrow> lock_result \<times> lhb" where
  "grant_or_que_end r lck_wait t =
     (let t = wait_end (lrq_owner (lhb_requests t r)) t in
      if LRQ_rejected \<notin> lrq_flags (lhb_requests t r) then (Granted r, t) else deny r lck_wait t)"

definition convert_denied :: "nat \<Rightarrow> int \<Rightarrow> lhb \<Rightarrow> lock_result \<times> lhb" where
  "convert_denied r lck_wait t =
     (let t = set_request r (\<lambda>q. q\<lparr>lrq_requested := lrq_state q\<rparr>) t;
          t = bump lhb_denies t;
          t = (if lck_wait < 0 then bump lhb_timeouts t else t)
      in (Denied (denial lck_wait), t))"

definition convert :: "nat \<Rightarrow> nat \<Rightarrow> int \<Rightarrow> nat \<Rightarrow> nat \<Rightarrow> lhb \<Rightarrow> lock_result \<times> lhb" where
  "convert r type lck_wait ast_routine ast_argument t =
     (let l = lrq_lock (lhb_requests t r); w = lrq_owner (lhb_requests t r);
          t = post_history his_convert w l r t;
          t = clear_flags r {LRQ_blocking_seen} (set_request r (\<lambda>q. q\<lparr>lrq_requested := type\<rparr>) t);
          s = lrq_state (lhb_requests t r);
          t = dec_count l s t;
          temp = lock_state (lhb_locks t l) in
      if COMPATIBLE type temp then
        (Granted r, post_pending l (grant r l
           (set_request r (\<lambda>q. q\<lparr>lrq_ast_routine := ast_routine, lrq_ast_argument := ast_argument\<rparr>) t)))
      else
        let t = inc_count l s t in
        if lck_wait \<noteq> 0 then (Waiting r, wait_begin r lck_wait t) else convert_denied r lck_wait t)"

definition convert_end :: "nat \<Rightarrow> int \<Rightarrow> nat \<Rightarrow> nat \<Rightarrow> lhb \<Rightarrow> lock_result \<times> lhb" where
  "convert_end r lck_wait ast_routine ast_argument t =
     (let t = wait_end (lrq_owner (lhb_requests t r)) t in
      if LRQ_rejected \<notin> lrq_flags (lhb_requests t r)
      then (Granted r, set_request r (\<lambda>q. q\<lparr>lrq_ast_routine := ast_routine, lrq_ast_argument := ast_argument\<rparr>) t)
      else convert_denied r lck_wait (post_pending (lrq_lock (lhb_requests t r)) t))"

definition LOCK_convert :: "nat \<Rightarrow> nat \<Rightarrow> int \<Rightarrow> nat \<Rightarrow> nat \<Rightarrow> lhb \<Rightarrow> (lock_result \<times> lhb) option" where
  "LOCK_convert r type lck_wait ast_routine ast_argument t =
     (case get_request r t of
        None \<Rightarrow> None
      | Some request \<Rightarrow>
          if own_count (lhb_own t (lrq_owner request)) = 0 then Some (Denied lock_no_owner, t)
          else Some (convert r type lck_wait ast_routine ast_argument
                 (bump_operations (lbl_series (lhb_locks t (lrq_lock request))) (bump lhb_converts t))))"

text \<open>The highest level somebody waits for; the search ends at an exclusive one.\<close>

fun pending_level :: "lhb \<Rightarrow> nat \<Rightarrow> nat list \<Rightarrow> nat \<Rightarrow> nat" where
  "pending_level t r [] pending_state = pending_state"
| "pending_level t r (p # ps) pending_state =
     (if LRQ_pending \<in> lrq_flags (lhb_requests t p) \<and> p \<noteq> r then
        let pending_state = max (lrq_requested (lhb_requests t p)) pending_state in
        if pending_state = LCK_EX then pending_state else pending_level t r ps pending_state
      else pending_level t r ps pending_state)"

fun lower_state :: "nat \<Rightarrow> nat \<Rightarrow> nat" where
  "lower_state pending_state 0 = 0"
| "lower_state pending_state (Suc state) =
     (if COMPATIBLE pending_state (Suc state) then Suc state else lower_state pending_state state)"

definition LOCK_downgrade :: "nat \<Rightarrow> lhb \<Rightarrow> (nat \<times> lhb) option" where
  "LOCK_downgrade r t =
     (case get_request r t of
        None \<Rightarrow> None
      | Some request \<Rightarrow>
          if own_count (lhb_own t (lrq_owner request)) = 0 then Some (0, t)
          else
            let t = bump lhb_downgrades t;
                pending_state = pending_level t r (lbl_requests (lhb_locks t (lrq_lock request))) LCK_none;
                state = lower_state pending_state (lrq_state request) in
            if state = LCK_none \<or> state = LCK_null then Some (LCK_none, dequeue r t)
            else Some (state, snd (convert r state 0 (lrq_ast_routine request) (lrq_ast_argument request) t)))"

subsection \<open>Enqueueing\<close>

text \<open>The bytes of the key are added up in the four bytes of the hash value in turn.\<close>

fun key_hash :: "nat \<Rightarrow> byte list \<Rightarrow> byte list \<Rightarrow> byte list" where
  "key_hash l h [] = h"
| "key_hash l h (q # qs) = key_hash (l + 1) (h[l mod 4 := h ! (l mod 4) + q]) qs"

definition hash_slot :: "byte list \<Rightarrow> lhb \<Rightarrow> nat" where
  "hash_slot value t = to_ushort (le_val (key_hash 0 [0, 0, 0, 0] value) mod lhb_hash_slots t)"

text \<open>The length of a key is kept in a byte.\<close>

definition find_lock :: "nat \<Rightarrow> nat \<Rightarrow> byte list \<Rightarrow> lhb \<Rightarrow> nat option" where
  "find_lock parent series value t =
     find (\<lambda>l. let lock = lhb_locks t l in
             lbl_series lock = series \<and> length (lbl_key lock) mod 256 = length value \<and> lbl_parent lock = parent
             \<and> lbl_key lock = value) (lhb_hash t (hash_slot value t))"

text \<open>Alignments are powers of two, for which the mask of the code is this rounding.\<close>

definition FB_ALIGN :: "nat \<Rightarrow> nat \<Rightarrow> nat" where
  "FB_ALIGN n b = (n + b - 1) div b * b"

definition alloc :: "nat \<Rightarrow> lhb \<Rightarrow> (nat \<times> lhb) option" where
  "alloc bytes t =
     (let n = FB_ALIGN bytes (ALIGNMENT t); block = lhb_used t in
      if lhb_length t < lhb_used t + n then None else Some (block, t\<lparr>lhb_used := lhb_used t + n\<rparr>))"

definition alloc_request :: "lhb \<Rightarrow> (nat \<times> lhb) option" where
  "alloc_request t =
     (case lhb_free_requests t of
        [] \<Rightarrow> alloc (sizeof_lrq t) t
      | r # rs \<Rightarrow> Some (r, t\<lparr>lhb_free_requests := rs\<rparr>))"

definition alloc_lock :: "nat \<Rightarrow> lhb \<Rightarrow> (nat \<times> lhb) option" where
  "alloc_lock len t =
     (let len = FB_ALIGN len 8 in
      case find (\<lambda>l. len \<le> lbl_size (lhb_locks t l)) (lhb_free_locks t) of
        Some l \<Rightarrow> Some (l, set_lock l (\<lambda>k. k\<lparr>lbl_in_use := True\<rparr>) (t\<lparr>lhb_free_locks := remove1 l (lhb_free_locks t)\<rparr>))
      | None \<Rightarrow>
          (case alloc (sizeof_lbl t + len) t of
             None \<Rightarrow> None
           | Some (l, t) \<Rightarrow> Some (l, set_lock l (\<lambda>k. k\<lparr>lbl_size := len mod 256, lbl_in_use := True\<rparr>) t)))"

text \<open>A request on a lock that does not exist yet.\<close>

definition new_lock :: "nat \<Rightarrow> nat \<Rightarrow> nat \<Rightarrow> byte list \<Rightarrow> nat \<Rightarrow> int \<Rightarrow> lhb \<Rightarrow> lock_result \<times> lhb" where
  "new_lock r parent series value type data t =
     (case alloc_lock (length value) t of
        None \<Rightarrow>
          let w = lrq_owner (lhb_requests t r);
              t = set_owner w (\<lambda>v. v\<lparr>own_requests := remove1 r (own_requests v)\<rparr>) t;
              t = set_request r (\<lambda>q. q\<lparr>lrq_in_use := False\<rparr>) t
          in (Denied lock_out_of_room, t\<lparr>lhb_free_requests := lhb_free_requests t @ [r]\<rparr>)
      | Some (l, t) \<Rightarrow>
          let t = set_lock l (\<lambda>k. k\<lparr>lbl_state := type, lbl_parent := parent, lbl_series := series mod 256, lbl_data := data\<rparr>) t;
              t = (if data \<noteq> 0 then insert_data_que l t else t);
              t = bump_operations series t;
              t = set_lock l (\<lambda>k. k\<lparr>lbl_pending_lrq_count := 0, lbl_counts := (\<lambda>_. 0), lbl_key := value, lbl_requests := []\<rparr>) t;
              s = hash_slot value t;
              t = t\<lparr>lhb_hash := (lhb_hash t)(s := lhb_hash t s @ [l])\<rparr>;
              t = set_lock l (\<lambda>k. k\<lparr>lbl_requests := lbl_requests k @ [r]\<rparr>) t;
              t = set_request r (\<lambda>q. q\<lparr>lrq_lock := l\<rparr>) t
          in (Granted r, grant r l t))"

definition LOCK_enq ::
  "nat \<Rightarrow> nat \<Rightarrow> nat \<Rightarrow> byte list \<Rightarrow> nat \<Rightarrow> nat \<Rightarrow> nat \<Rightarrow> int \<Rightarrow> int \<Rightarrow> nat \<Rightarrow> lhb \<Rightarrow> (lock_result \<times> lhb) option" where
  "LOCK_enq prior parent_request series value type ast_routine ast_argument data lck_wait w t =
     (if w = 0 \<or> own_count (lhb_own t w) = 0 then Some (Denied lock_no_owner, t)
      else
        let t = bump lhb_enqs t;
            t = (if prior \<noteq> 0 then dequeue prior t else t) in
        if parent_request \<noteq> 0 \<and> get_request parent_request t = None then None
        else
          let parent = (if parent_request \<noteq> 0 then lrq_lock (lhb_requests t parent_request) else 0) in
          case alloc_request t of
            None \<Rightarrow> Some (Denied lock_out_of_room, t)
          | Some (r, t) \<Rightarrow>
              let t = post_history his_enq w 0 r t;
                  t = set_request r (\<lambda>q. q\<lparr>lrq_in_use := True, lrq_flags := {}, lrq_requested := type, lrq_state := LCK_none,
                        lrq_data := 0, lrq_owner := w, lrq_ast_routine := ast_routine, lrq_ast_argument := ast_argument\<rparr>) t;
                  t = set_owner w (\<lambda>v. v\<lparr>own_requests := own_requests v @ [r]\<rparr>) t in
              (case find_lock parent series value t of
                 Some l \<Rightarrow>
                   let t = bump_operations series t;
                       t = set_lock l (\<lambda>k. k\<lparr>lbl_requests := lbl_requests k @ [r]\<rparr>) t;
                       t = set_request r (\<lambda>q. q\<lparr>lrq_data := data\<rparr>) t
                   in Some (grant_or_que r l lck_wait t)
               | None \<Rightarrow> Some (new_lock r parent series value type data t)))"

subsection \<open>Lock data\<close>

definition LOCK_read_data :: "nat \<Rightarrow> lhb \<Rightarrow> (int \<times> lhb) option" where
  "LOCK_read_data r t =
     (case get_request r t of
        None \<Rightarrow> None
      | Some request \<Rightarrow>
          let lock = lhb_locks t (lrq_lock request) in Some (lbl_data lock, bump_operations (lbl_series lock) (bump lhb_read_data t)))"

text \<open>The data of a lock that is named by its key.\<close>

definition LOCK_read_data2 :: "nat \<Rightarrow> nat \<Rightarrow> byte list \<Rightarrow> lhb \<Rightarrow> (int \<times> lhb) option" where
  "LOCK_read_data2 parent_request series value t =
     (let t = bump_operations series (bump lhb_read_data t) in
      if parent_request \<noteq> 0 \<and> get_request parent_request t = None then None
      else
        let parent = (if parent_request \<noteq> 0 then lrq_lock (lhb_requests t parent_request) else 0) in
        Some (case find_lock parent series value t of None \<Rightarrow> 0 | Some l \<Rightarrow> lbl_data (lhb_locks t l), t))"

definition LOCK_write_data :: "nat \<Rightarrow> int \<Rightarrow> lhb \<Rightarrow> (int \<times> lhb) option" where
  "LOCK_write_data r data t =
     (case get_request r t of
        None \<Rightarrow> None
      | Some request \<Rightarrow>
          let l = lrq_lock request;
              t = set_lock l (\<lambda>k. k\<lparr>lbl_data := data\<rparr>) (remove_data_que l (bump lhb_write_data t));
              t = (if data \<noteq> 0 then insert_data_que l t else t)
          in Some (data, bump_operations (lbl_series (lhb_locks t l)) t))"

datatype aggregate = LCK_MIN | LCK_MAX | LCK_CNT | LCK_SUM | LCK_AVG | LCK_ANY

text \<open>The first lock of the family in the queue, for the minimum, or from its end, for the maximum.\<close>

definition family :: "lhb \<Rightarrow> nat \<Rightarrow> nat \<Rightarrow> int list" where
  "family t parent series = map (\<lambda>l. lbl_data (lhb_locks t l)) (filter (\<lambda>l. lbl_parent (lhb_locks t l) = parent) (lhb_data t series))"

text \<open>Division of the code truncates towards zero; the sum and the count are kept in an \<^verbatim>\<open>SLONG\<close>, which wraps.\<close>

definition c_div :: "int \<Rightarrow> int \<Rightarrow> int" where
  "c_div a b = sgn a * sgn b * (\<bar>a\<bar> div \<bar>b\<bar>)"

definition slong_sum :: "int list \<Rightarrow> int" where
  "slong_sum ds = fold (\<lambda>d data. to_slong (data + d)) ds 0"

definition slong_count :: "int list \<Rightarrow> int" where
  "slong_count ds = fold (\<lambda>d count. to_slong (count + 1)) ds 0"

definition LOCK_query_data :: "nat \<Rightarrow> nat \<Rightarrow> aggregate \<Rightarrow> lhb \<Rightarrow> (int \<times> lhb) option" where
  "LOCK_query_data parent_request series aggregate t =
     (if parent_request = 0 \<or> \<not> series < LCK_MAX_SERIES then Some (0, t)
      else case get_request parent_request t of
        None \<Rightarrow> None
      | Some parent \<Rightarrow>
          let ds = family t (lrq_lock parent) series in
          Some (case aggregate of
              LCK_MIN \<Rightarrow> (case ds of [] \<Rightarrow> 0 | d # _ \<Rightarrow> d)
            | LCK_MAX \<Rightarrow> (case rev ds of [] \<Rightarrow> 0 | d # _ \<Rightarrow> d)
            | LCK_CNT \<Rightarrow> slong_count ds
            | LCK_ANY \<Rightarrow> (if ds = [] then 0 else 1)
            | LCK_SUM \<Rightarrow> slong_sum ds
            | LCK_AVG \<Rightarrow> (if slong_count ds \<noteq> 0 then c_div (slong_sum ds) (slong_count ds) else 0), bump lhb_query_data t))"

end
