(* ===== verification/FB_LockInv.thy ===== *)
theory FB_LockInv
  imports FB_Lock
begin

section \<open>Invariants of the lock table\<close>

text \<open>
  What holds of the lock table whenever it is released: the counters of every lock agree with its
  requests, its state is the highest level granted, and the levels granted on it are compatible with
  each other.
\<close>

subsection \<open>Levels\<close>

lemmas levels = LCK_none_def LCK_null_def LCK_SR_def LCK_PR_def LCK_SW_def LCK_PW_def LCK_EX_def LCK_max_def

lemma less_7: "n < (7::nat) \<Longrightarrow> n = 0 \<or> n = 1 \<or> n = 2 \<or> n = 3 \<or> n = 4 \<or> n = 5 \<or> n = 6"
  by linarith

lemma compatible_0 [simp]: "m < 7 \<Longrightarrow> COMPATIBLE 0 m" "m < 7 \<Longrightarrow> COMPATIBLE m 0"
  by (auto dest!: less_7 simp: COMPATIBLE_def compatibility_def LCK_max_def)

lemma compatible_sym: "x < 7 \<Longrightarrow> y < 7 \<Longrightarrow> COMPATIBLE x y = COMPATIBLE y x"
  by (auto dest!: less_7 simp: COMPATIBLE_def compatibility_def LCK_max_def)

text \<open>A level that is compatible with the highest granted one is compatible with all.\<close>

lemma compatible_below:
  "x < 7 \<Longrightarrow> m < 7 \<Longrightarrow> s \<le> m \<Longrightarrow> COMPATIBLE x m \<Longrightarrow> COMPATIBLE s m \<Longrightarrow> COMPATIBLE x s"
  by (drule less_7, drule less_7, elim disjE) (auto simp: COMPATIBLE_def compatibility_def LCK_max_def le_Suc_eq numeral_eq_Suc)

subsection \<open>Requests as the invariant sees them\<close>

definition pending :: "lhb \<Rightarrow> nat \<Rightarrow> bool" where
  "pending t r \<longleftrightarrow> LRQ_pending \<in> lrq_flags (lhb_requests t r)"

abbreviation level :: "lhb \<Rightarrow> nat \<Rightarrow> nat" where
  "level t r \<equiv> lrq_state (lhb_requests t r)"

abbreviation queue :: "lhb \<Rightarrow> nat \<Rightarrow> nat list" where
  "queue t l \<equiv> lbl_requests (lhb_locks t l)"

text \<open>\<open>counted t l rs\<close>: the counters of the lock count the requests in \<open>rs\<close>.\<close>

definition counted :: "lhb \<Rightarrow> nat \<Rightarrow> nat list \<Rightarrow> bool" where
  "counted t l rs \<longleftrightarrow> (\<forall>s. 0 < s \<and> s < 7 \<longrightarrow> lbl_counts (lhb_locks t l) s = count_list (map (level t) rs) s)
     \<and> (\<forall>s. lbl_counts (lhb_locks t l) s < 65536)"

definition agree :: "lhb \<Rightarrow> nat list \<Rightarrow> bool" where
  "agree t rs \<longleftrightarrow> (\<forall>r \<in> set rs. \<forall>q \<in> set rs. r \<noteq> q \<longrightarrow> COMPATIBLE (level t r) (level t q))"

text \<open>A lock whose counters leave out the request \<open>r\<close>, whose turn it is.\<close>

definition lock_open :: "lhb \<Rightarrow> nat \<Rightarrow> nat \<Rightarrow> bool" where
  "lock_open t l r \<longleftrightarrow> distinct (queue t l) \<and> length (queue t l) < 65536 \<and> r \<in> set (queue t l)
     \<and> (\<forall>q \<in> set (queue t l). lrq_lock (lhb_requests t q) = l \<and> level t q < 7 \<and> lrq_requested (lhb_requests t q) < 7)
     \<and> counted t l (remove1 r (queue t l)) \<and> agree t (remove1 r (queue t l))
     \<and> lbl_pending_lrq_count (lhb_locks t l) = length (filter (pending t) (queue t l))"

definition lock_ok :: "lhb \<Rightarrow> nat \<Rightarrow> bool" where
  "lock_ok t l \<longleftrightarrow> distinct (queue t l) \<and> length (queue t l) < 65536
     \<and> (\<forall>q \<in> set (queue t l). lrq_lock (lhb_requests t q) = l \<and> level t q < 7 \<and> lrq_requested (lhb_requests t q) < 7)
     \<and> counted t l (queue t l) \<and> agree t (queue t l)
     \<and> lbl_pending_lrq_count (lhb_locks t l) = length (filter (pending t) (queue t l))
     \<and> lbl_state (lhb_locks t l) = lock_state (lhb_locks t l)"

lemma lock_state_less: "lock_state k < 7"
  by (simp add: lock_state_def levels)

lemma lock_state_cong: "lbl_counts k = lbl_counts k' \<Longrightarrow> lock_state k = lock_state k'"
  by (simp add: lock_state_def)

lemma lock_state_upd [simp]:
  "lock_state (k\<lparr>lbl_requests := qs\<rparr>) = lock_state k" "lock_state (k\<lparr>lbl_state := n\<rparr>) = lock_state k"
  "lock_state (k\<lparr>lbl_pending_lrq_count := n\<rparr>) = lock_state k" "lock_state (k\<lparr>lbl_in_use := b\<rparr>) = lock_state k"
  "lock_state (k\<lparr>lbl_data := d\<rparr>) = lock_state k"
  by (rule lock_state_cong, simp)+

lemma counted_zero:
  assumes "counted t l rs" and "0 < s" and "s < 7"
  shows "lbl_counts (lhb_locks t l) s = 0 \<longleftrightarrow> s \<notin> level t ` set rs"
  using assms by (simp add: counted_def count_list_0_iff)

lemma lock_state_ge:
  assumes "counted t l rs" and "r \<in> set rs" and "level t r < 7"
  shows "level t r \<le> lock_state (lhb_locks t l)"
proof (cases "level t r = 0")
  case False
  then have "lbl_counts (lhb_locks t l) (level t r) \<noteq> 0"
    using counted_zero [OF assms(1), of "level t r"] assms(2,3) by auto
  then show ?thesis using less_7 [OF assms(3)] False by (auto simp: lock_state_def levels)
qed simp

lemma lock_state_witness:
  assumes "counted t l rs" and "lock_state (lhb_locks t l) \<noteq> 0"
  obtains r where "r \<in> set rs" and "level t r = lock_state (lhb_locks t l)"
proof -
  have "lbl_counts (lhb_locks t l) (lock_state (lhb_locks t l)) \<noteq> 0"
    using assms(2) by (auto simp: lock_state_def levels split: if_splits)
  then show ?thesis
    using counted_zero [OF assms(1), of "lock_state (lhb_locks t l)"] lock_state_less assms(2) that by auto
qed

lemma compatible_all:
  assumes "counted t l rs" and "agree t rs" and "\<And>r. r \<in> set rs \<Longrightarrow> level t r < 7" and "x < 7"
    and "COMPATIBLE x (lock_state (lhb_locks t l))" and "q \<in> set rs"
  shows "COMPATIBLE x (level t q)"
proof (cases "lock_state (lhb_locks t l) = 0")
  case True
  then have "level t q = 0" using lock_state_ge [OF assms(1,6) assms(3) [OF assms(6)]] by simp
  then show ?thesis using assms(4) by simp
next
  case False
  then obtain r where r: "r \<in> set rs" "level t r = lock_state (lhb_locks t l)"
    by (rule lock_state_witness [OF assms(1)])
  show ?thesis
  proof (cases "q = r")
    case True
    then show ?thesis using assms(5) r by simp
  next
    case False
    then have "COMPATIBLE (level t q) (level t r)" using assms(2,6) r(1) by (simp add: agree_def)
    then show ?thesis
      using compatible_below [of x "level t r" "level t q"] assms(3-5) r lock_state_ge [OF assms(1,6) assms(3) [OF assms(6)]] lock_state_less [of "lhb_locks t l"] by simp
  qed
qed

subsection \<open>What the invariant does not see\<close>

text \<open>
  The core of a table: owners' own data, statistics, history, the data queues, routines and all marks of a request but
  \<^verbatim>\<open>LRQ_pending\<close> are left out.
\<close>

definition shape :: "lrq \<Rightarrow> lrq" where
  "shape q = q\<lparr>lrq_flags := lrq_flags q \<inter> {LRQ_pending}, lrq_data := 0, lrq_ast_routine := 0, lrq_ast_argument := 0\<rparr>"

definition lshape :: "lbl \<Rightarrow> lbl" where
  "lshape k = k\<lparr>lbl_data := 0\<rparr>"

definition no_own :: own where
  "no_own = \<lparr>own_count = 0, own_signaled = False, own_requests = [], own_blocks = [], own_pending_request = 0,
     own_semaphore = False, own_flags = {}, own_owner_id = 0, own_owner_type = 0\<rparr>"

definition core :: "lhb \<Rightarrow> lhb" where
  "core t = t\<lparr>lhb_requests := shape \<circ> lhb_requests t, lhb_locks := lshape \<circ> lhb_locks t, lhb_own := (\<lambda>_. no_own),
     lhb_data := (\<lambda>_. []), lhb_history := [], lhb_stats := (\<lambda>_. 0)\<rparr>"

lemma shape_sel [simp]:
  "lrq_in_use (shape q) = lrq_in_use q" "lrq_requested (shape q) = lrq_requested q" "lrq_state (shape q) = lrq_state q"
  "lrq_owner (shape q) = lrq_owner q" "lrq_lock (shape q) = lrq_lock q"
  "LRQ_pending \<in> lrq_flags (shape q) \<longleftrightarrow> LRQ_pending \<in> lrq_flags q"
  by (simp_all add: shape_def)

lemma lshape_sel [simp]:
  "lbl_in_use (lshape k) = lbl_in_use k" "lbl_state (lshape k) = lbl_state k" "lbl_requests (lshape k) = lbl_requests k"
  "lbl_pending_lrq_count (lshape k) = lbl_pending_lrq_count k" "lbl_counts (lshape k) = lbl_counts k"
  "lock_state (lshape k) = lock_state k"
  by (simp_all add: lshape_def lock_state_def)

lemma core_sel [simp]:
  "lhb_requests (core t) r = shape (lhb_requests t r)" "lhb_locks (core t) l = lshape (lhb_locks t l)"
  "lhb_owners (core t) = lhb_owners t" "lhb_free_locks (core t) = lhb_free_locks t"
  "lhb_free_requests (core t) = lhb_free_requests t" "lhb_hash (core t) = lhb_hash t"
  "lhb_used (core t) = lhb_used t" "LOCK_ordering (core t) = LOCK_ordering t"
  "sizeof_lrq (core t) = sizeof_lrq t" "sizeof_lbl (core t) = sizeof_lbl t" "ALIGNMENT (core t) = ALIGNMENT t"
  "pending (core t) = pending t"
  by (simp_all add: core_def pending_def fun_eq_iff)

lemma core_set_request: "shape (f (lhb_requests t r)) = shape (lhb_requests t r) \<Longrightarrow> core (set_request r f t) = core t"
  by (simp add: core_def set_request_def fun_eq_iff)

lemma core_set_lock: "lshape (f (lhb_locks t l)) = lshape (lhb_locks t l) \<Longrightarrow> core (set_lock l f t) = core t"
  by (simp add: core_def set_lock_def fun_eq_iff)

lemma core_set_flag [simp]: "f \<noteq> LRQ_pending \<Longrightarrow> core (set_flag r f t) = core t"
  by (simp add: set_flag_def core_set_request shape_def)

lemma core_clear_flags [simp]: "LRQ_pending \<notin> fs \<Longrightarrow> core (clear_flags r fs t) = core t"
  by (auto simp: clear_flags_def shape_def intro!: core_set_request lrq.equality)

lemma core_ops [simp]:
  "core (set_owner w g t) = core t" "core (bump s t) = core t" "core (bump_operations n t) = core t"
  "core (post_history h a b c t) = core t" "core (insert_data_que l t) = core t" "core (remove_data_que l t) = core t"
  "core (post_wakeup w t) = core t"
  by (simp_all add: core_def set_owner_def bump_def bump_operations_def post_history_def insert_data_que_def
      remove_data_que_def post_wakeup_def Let_def)

lemma core_grant_data [simp]: "core (grant_data r l t) = core t"
  by (simp add: grant_data_def Let_def core_set_request core_set_lock shape_def lshape_def)

lemma core_mark_granted [simp]: "core (mark_granted rs t) = core t"
  by (induction rs t rule: mark_granted.induct) (simp_all add: Let_def)

lemma core_blockage_loop: "blockage_loop r w force bs os t = (os', u) \<Longrightarrow> core u = core t"
  by (induction r w force bs os t rule: blockage_loop.induct) (auto simp: Let_def split: if_splits)

lemma core_signal_owner [simp]: "core (signal_owner w t) = core t"
  by (simp add: signal_owner_def)

lemma core_fold_signal: "core (fold (\<lambda>w t. if own_count (lhb_own t w) \<noteq> 0 then signal_owner w t else t) ws t) = core t"
  by (induction ws arbitrary: t) simp_all

lemma core_post_blockage [simp]: "core (post_blockage r l force t) = core t"
  by (auto simp: post_blockage_def core_fold_signal dest: core_blockage_loop split: prod.splits)

lemma lock_ok_core: "lock_ok (core t) l = lock_ok t l"
  by (simp add: lock_ok_def counted_def agree_def)

lemma lock_ok_cong: "core u = core t \<Longrightarrow> lock_ok u l = lock_ok t l"
  using lock_ok_core [of t] lock_ok_core [of u] by simp

subsection \<open>One lock\<close>

lemma sel_ops [simp]:
  "lhb_requests (set_lock l f t) = lhb_requests t" "lhb_locks (set_request r g t) = lhb_locks t"
  "lhb_requests (set_request r g t) q = (if q = r then g (lhb_requests t r) else lhb_requests t q)"
  "lhb_locks (set_lock l f t) k = (if k = l then f (lhb_locks t l) else lhb_locks t k)"
  "LOCK_ordering (set_lock l f t) = LOCK_ordering t" "LOCK_ordering (set_request r g t) = LOCK_ordering t"
  by (simp_all add: set_lock_def set_request_def)

lemma core_eqD:
  assumes "core u = core t"
  shows "shape (lhb_requests u r) = shape (lhb_requests t r)" "lshape (lhb_locks u l) = lshape (lhb_locks t l)"
    "LOCK_ordering u = LOCK_ordering t" "pending u = pending t"
  using arg_cong [OF assms, of "\<lambda>t. lhb_requests t r"] arg_cong [OF assms, of "\<lambda>t. lhb_locks t l"]
    arg_cong [OF assms, of LOCK_ordering] arg_cong [OF assms, of pending] by simp_all

lemma core_eq_fields:
  assumes "core u = core t"
  shows "level u r = level t r" "lrq_requested (lhb_requests u r) = lrq_requested (lhb_requests t r)"
    "lrq_lock (lhb_requests u r) = lrq_lock (lhb_requests t r)" "lrq_owner (lhb_requests u r) = lrq_owner (lhb_requests t r)"
    "lrq_in_use (lhb_requests u r) = lrq_in_use (lhb_requests t r)"
    "queue u l = queue t l" "lbl_state (lhb_locks u l) = lbl_state (lhb_locks t l)"
    "lbl_counts (lhb_locks u l) = lbl_counts (lhb_locks t l)"
    "lbl_in_use (lhb_locks u l) = lbl_in_use (lhb_locks t l)" "lock_state (lhb_locks u l) = lock_state (lhb_locks t l)"
    "lbl_pending_lrq_count (lhb_locks u l) = lbl_pending_lrq_count (lhb_locks t l)"
  using arg_cong [OF core_eqD(1) [OF assms, of r], of lrq_state] arg_cong [OF core_eqD(1) [OF assms, of r], of lrq_requested]
    arg_cong [OF core_eqD(1) [OF assms, of r], of lrq_lock] arg_cong [OF core_eqD(1) [OF assms, of r], of lrq_owner]
    arg_cong [OF core_eqD(1) [OF assms, of r], of lrq_in_use]
    arg_cong [OF core_eqD(2) [OF assms, of l], of lbl_requests] arg_cong [OF core_eqD(2) [OF assms, of l], of lbl_state]
    arg_cong [OF core_eqD(2) [OF assms, of l], of lbl_counts] arg_cong [OF core_eqD(2) [OF assms, of l], of lbl_in_use]
    arg_cong [OF core_eqD(2) [OF assms, of l], of lock_state]
    arg_cong [OF core_eqD(2) [OF assms, of l], of lbl_pending_lrq_count]
  by simp_all

lemma count_map_remove1:
  "r \<in> set xs \<Longrightarrow> count_list (map f xs) s = count_list (map f (remove1 r xs)) s + (if f r = s then 1 else 0)"
  by (induction xs) auto

lemma count_map_le: "count_list (map f xs) s \<le> length xs"
  by (induction xs) auto

lemma dec_wrap [simp]: "0 < n \<Longrightarrow> n < 65536 \<Longrightarrow> to_ushort (n + 65535) = n - 1"
  by (simp add: to_ushort_def mod_if)

lemma inc_dec_wrap [simp]: "n < 65536 \<Longrightarrow> to_ushort (Suc (to_ushort (n + 65535))) = n"
  by (cases "n = 0") (simp add: to_ushort_def, simp)

lemma wrap_65536 [simp]: "n < 65536 \<Longrightarrow> to_ushort (65536 + n) = n"
  by (simp add: to_ushort_def)

lemma dec_open:
  assumes ok: "lock_ok t l" and r: "r \<in> set (queue t l)"
  shows "lock_open (dec_count l (level t r) t) l r"
proof -
  let ?q = "queue t l" and ?k = "lbl_counts (lhb_locks t l)"
  have p: "pending (dec_count l (level t r) t) = pending t" by (simp add: fun_eq_iff pending_def dec_count_def)
  have c: "?k s = count_list (map (level t) (remove1 r ?q)) s + (if level t r = s then 1 else 0)" if "0 < s" "s < 7" for s
    using ok that count_map_remove1 [OF r, of "level t" s] by (simp add: lock_ok_def counted_def)
  have b: "?k s < 65536" for s using ok by (simp add: lock_ok_def counted_def)
  have "count_list (map (level t) (remove1 r ?q)) s \<le> length ?q" for s
    using count_map_le [of "level t" "remove1 r ?q" s] length_remove1 [of r ?q] by (simp split: if_splits)
  then have d: "count_list (map (level t) (remove1 r ?q)) s < 65536" for s
    using ok le_less_trans by (fastforce simp: lock_ok_def)
  have "counted (dec_count l (level t r) t) l (remove1 r ?q)"
    using c b d by (auto simp: counted_def dec_count_def)
  moreover have "agree (dec_count l (level t r) t) (remove1 r ?q)"
    using ok by (auto simp: lock_ok_def agree_def dec_count_def dest: notin_set_remove1)
  ultimately show ?thesis using ok r p by (simp add: lock_open_def lock_ok_def dec_count_def)
qed

lemma inc_dec_count: "lbl_counts (lhb_locks t l) s < 65536 \<Longrightarrow> inc_count l s (dec_count l s t) = t"
  by (simp add: inc_count_def dec_count_def set_lock_def)

text \<open>A request that holds nothing is counted nowhere.\<close>

lemma none_open:
  assumes ok: "lock_ok t l" and r: "r \<in> set (queue t l)" and z: "level t r = 0"
  shows "lock_open t l r"
proof -
  have "count_list (map (level t) (queue t l)) s = count_list (map (level t) (remove1 r (queue t l))) s" if "0 < s" for s
    using count_map_remove1 [OF r, of "level t" s] that z by simp
  then show ?thesis
    using ok r by (auto simp: lock_ok_def lock_open_def counted_def agree_def dest: notin_set_remove1)
qed

text \<open>What a grant does to the core.\<close>

definition grant_core :: "nat \<Rightarrow> nat \<Rightarrow> lhb \<Rightarrow> lhb" where
  "grant_core r l t = grant_pending r l (set_lock l (\<lambda>k. k\<lparr>lbl_state := lock_state k\<rparr>)
     (set_request r (\<lambda>q. q\<lparr>lrq_state := lrq_requested q\<rparr>) (inc_count l (lrq_requested (lhb_requests t r)) t)))"

lemma core_commute:
  "core (set_lock l (\<lambda>k. k\<lparr>lbl_state := lock_state k\<rparr>) t) = set_lock l (\<lambda>k. k\<lparr>lbl_state := lock_state k\<rparr>) (core t)"
  "core (set_request r (\<lambda>q. q\<lparr>lrq_state := lrq_requested q\<rparr>) t) = set_request r (\<lambda>q. q\<lparr>lrq_state := lrq_requested q\<rparr>) (core t)"
  "core (inc_count l s t) = inc_count l s (core t)" "core (dec_count l s t) = dec_count l s (core t)"
  "core (inc_pending l t) = inc_pending l (core t)" "core (dec_pending l t) = dec_pending l (core t)"
  "core (clear_flags r {LRQ_pending} t) = clear_flags r {LRQ_pending} (core t)"
  by (auto simp: core_def set_lock_def set_request_def inc_count_def dec_count_def inc_pending_def dec_pending_def
      clear_flags_def fun_eq_iff shape_def lshape_def lock_state_def)

lemma core_grant_pending: "core (grant_pending r l t) = grant_pending r l (core t)"
  by (simp add: grant_pending_def core_commute)

lemma core_grant: "core (grant r l t) = core (grant_core r l t)"
  by (simp add: grant_def grant_core_def Let_def core_grant_pending core_commute post_history_def)
    (simp add: core_def)

lemma grant_core_sel:
  "lhb_requests (grant_core r l t) q =
     (if q = r then (lhb_requests t r)\<lparr>lrq_state := lrq_requested (lhb_requests t r), lrq_flags := lrq_flags (lhb_requests t r) - {LRQ_pending}\<rparr>
      else lhb_requests t q)"
  "k \<noteq> l \<Longrightarrow> lhb_locks (grant_core r l t) k = lhb_locks t k"
  "queue (grant_core r l t) l = queue t l"
  "lbl_counts (lhb_locks (grant_core r l t) l) =
     (lbl_counts (lhb_locks t l))(lrq_requested (lhb_requests t r) := to_ushort (Suc (lbl_counts (lhb_locks t l) (lrq_requested (lhb_requests t r)))))"
  "lbl_state (lhb_locks (grant_core r l t) l) = lock_state (lhb_locks (grant_core r l t) l)"
  "lbl_in_use (lhb_locks (grant_core r l t) l) = lbl_in_use (lhb_locks t l)"
  "lbl_pending_lrq_count (lhb_locks (grant_core r l t) l) =
     (if pending t r then to_ushort (lbl_pending_lrq_count (lhb_locks t l) + 65535) else lbl_pending_lrq_count (lhb_locks t l))"
  by (auto simp: grant_core_def grant_pending_def inc_count_def dec_pending_def clear_flags_def pending_def lock_state_def)

lemma filter_remove_one:
  assumes "distinct xs" and "r \<in> set xs" and "P r"
  shows "length (filter (\<lambda>q. q \<noteq> r \<and> P q) xs) = length (filter P xs) - 1"
proof -
  have "filter (\<lambda>q. q \<noteq> r \<and> P q) xs = remove1 r (filter P xs)"
    using assms(1) by (simp add: distinct_remove1_removeAll removeAll_filter_not_eq conj_commute eq_commute)
  then show ?thesis using assms by (simp add: length_remove1)
qed

lemma grant_core_ok:
  assumes op: "lock_open t l r" and c: "COMPATIBLE (lrq_requested (lhb_requests t r)) (lock_state (lhb_locks t l))"
  shows "lock_ok (grant_core r l t) l"
proof -
  let ?u = "grant_core r l t" and ?q = "queue t l" and ?n = "lrq_requested (lhb_requests t r)"
  have r: "r \<in> set ?q" and d: "distinct ?q" and len: "length ?q < 65536" and n: "?n < 7"
    and lv: "\<And>q. q \<in> set ?q \<Longrightarrow> level t q < 7"
    and cnt: "counted t l (remove1 r ?q)" and ag: "agree t (remove1 r ?q)"
    using op by (simp_all add: lock_open_def)
  have lu: "level ?u q = (if q = r then ?n else level t q)" for q by (simp add: grant_core_sel)
  have m: "map (level ?u) (remove1 r ?q) = map (level t) (remove1 r ?q)"
    using d by (auto simp: lu)
  have le: "count_list (map (level t) (remove1 r ?q)) s < 65535" for s
    using count_map_le [of "level t" "remove1 r ?q" s] r len length_pos_if_in_set [OF r] by (simp add: length_remove1)
  have cs: "count_list (map (level ?u) ?q) s = count_list (map (level t) (remove1 r ?q)) s + (if ?n = s then 1 else 0)" for s
    using count_map_remove1 [OF r, of "level ?u" s] unfolding m by (simp add: lu)
  have cnt': "counted ?u l ?q"
    using cnt le unfolding counted_def cs by (auto simp: grant_core_sel(4) less_Suc_eq)
  have cmp: "COMPATIBLE ?n (level t q)" if "q \<in> set ?q" "q \<noteq> r" for q
    by (rule compatible_all [OF cnt ag _ n c]) (use that lv d in \<open>auto dest: notin_set_remove1\<close>)
  then have "COMPATIBLE (level t q) ?n" if "q \<in> set ?q" "q \<noteq> r" for q
    using that compatible_sym [OF n lv [OF that(1)]] by simp
  then have ag': "agree ?u ?q"
    using ag cmp by (auto simp: agree_def lu)
  have p: "pending ?u = (\<lambda>q. q \<noteq> r \<and> pending t q)"
    by (auto simp: pending_def grant_core_sel fun_eq_iff)
  have pc: "lbl_pending_lrq_count (lhb_locks t l) = length (filter (pending t) ?q)"
    using op by (simp add: lock_open_def)
  have "lbl_pending_lrq_count (lhb_locks ?u l) = length (filter (pending ?u) ?q)"
  proof (cases "pending t r")
    case True
    then have "0 < length (filter (pending t) ?q)" using r by (auto simp: filter_empty_conv)
    then show ?thesis
      using True pc p filter_remove_one [OF d r, of "pending t"] le_less_trans [OF length_filter_le len, of "pending t"]
      by (simp add: grant_core_sel)
  next
    case False
    then show ?thesis using pc p by (auto simp: grant_core_sel intro!: arg_cong [where f = length] filter_cong)
  qed
  then show ?thesis
    using op cnt' ag' n by (simp add: lock_ok_def lock_open_def grant_core_sel(3,5)) (simp add: grant_core_sel)
qed

lemma grant_ok:
  "lock_open t l r \<Longrightarrow> COMPATIBLE (lrq_requested (lhb_requests t r)) (lock_state (lhb_locks t l)) \<Longrightarrow> lock_ok (grant r l t) l"
  using grant_core_ok lock_ok_cong [OF core_grant] by blast

subsection \<open>Operations that move one lock\<close>

text \<open>
  \<open>moves l t u\<close>: from \<open>t\<close> to \<open>u\<close>, nothing but the lock \<open>l\<close> and the requests in its queue has changed, and no
  request has come or gone.
\<close>

definition rest :: "lhb \<Rightarrow> nat list \<times> nat list \<times> nat list \<times> (nat \<Rightarrow> nat list) \<times> nat \<times> bool \<times> nat \<times> nat \<times> nat" where
  "rest t = (lhb_owners t, lhb_free_locks t, lhb_free_requests t, lhb_hash t, lhb_used t, LOCK_ordering t,
     sizeof_lrq t, sizeof_lbl t, ALIGNMENT t)"

definition moves :: "nat \<Rightarrow> lhb \<Rightarrow> lhb \<Rightarrow> bool" where
  "moves l t u \<longleftrightarrow> rest u = rest t \<and> (\<forall>k. k \<noteq> l \<longrightarrow> lshape (lhb_locks u k) = lshape (lhb_locks t k))
     \<and> lbl_in_use (lhb_locks u l) = lbl_in_use (lhb_locks t l) \<and> set (queue u l) = set (queue t l)
     \<and> (\<forall>q. lrq_in_use (lhb_requests u q) = lrq_in_use (lhb_requests t q) \<and> lrq_lock (lhb_requests u q) = lrq_lock (lhb_requests t q)
          \<and> lrq_owner (lhb_requests u q) = lrq_owner (lhb_requests t q))
     \<and> (\<forall>q. q \<notin> set (queue t l) \<longrightarrow> shape (lhb_requests u q) = shape (lhb_requests t q))"

lemma rest_core [simp]: "rest (core t) = rest t"
  by (simp add: rest_def)

lemma moves_core:
  assumes c: "core u = core t"
  shows "moves l t u"
proof -
  have "rest u = rest t" using arg_cong [OF c, of rest] by simp
  then show ?thesis by (simp add: moves_def core_eqD(1,2) [OF c] core_eq_fields [OF c])
qed

lemma moves_refl [simp]: "moves l t t"
  by (simp add: moves_core)

lemma moves_trans: "moves l t u \<Longrightarrow> moves l u v \<Longrightarrow> moves l t v"
  by (simp add: moves_def)

lemma rest_ops [simp]:
  "rest (set_lock l f t) = rest t" "rest (set_request r g t) = rest t"
  by (simp_all add: rest_def set_lock_def set_request_def)

lemma rest_grant_core [simp]: "rest (grant_core r l t) = rest t"
  by (simp add: grant_core_def grant_pending_def dec_pending_def clear_flags_def inc_count_def)

lemma moves_count: "moves l t (dec_count l s t)" "moves l t (inc_count l s t)"
  by (simp_all add: moves_def dec_count_def inc_count_def)

lemma moves_grant: "r \<in> set (queue t l) \<Longrightarrow> moves l t (grant r l t)"
proof -
  assume "r \<in> set (queue t l)"
  then have "moves l t (grant_core r l t)"
    by (auto simp: moves_def grant_core_sel(1-3,6))
  then show ?thesis using moves_core [OF core_grant] moves_trans by blast
qed

lemma queue_grant [simp]: "queue (grant r l t) l = queue t l"
  using core_eq_fields(6) [OF core_grant, of r l t l] by (simp add: grant_core_sel)

lemma core_inc_dec:
  "lock_ok t l \<Longrightarrow> core (post_wakeup w (inc_count l s (dec_count l s t))) = core t"
  by (simp add: inc_dec_count lock_ok_def counted_def)

text \<open>One turn of the loop of \<^verbatim>\<open>post_pending\<close> for a waiting request: it is granted or stays as it is.\<close>

definition may_grant :: "lhb \<Rightarrow> nat \<Rightarrow> nat \<Rightarrow> bool" where
  "may_grant t l r \<longleftrightarrow> COMPATIBLE (lrq_requested (lhb_requests t r)) (lock_state (lhb_locks (dec_count l (level t r) t) l))"

lemma lock_state_dec_0 [simp]: "lock_state (lhb_locks (dec_count l 0 t) l) = lock_state (lhb_locks t l)"
  by (simp add: lock_state_def dec_count_def levels)

lemma pending_grant: "pending (grant r l t) q \<longleftrightarrow> pending t q \<and> q \<noteq> r"
  unfolding core_eqD(4) [OF core_grant] by (simp add: pending_def grant_core_sel)

lemma ordering_moves: "moves l t u \<Longrightarrow> LOCK_ordering u = LOCK_ordering t"
  by (simp add: moves_def rest_def)

lemma pending_turn_grant:
  assumes ok: "lock_ok t l" and r: "r \<in> set (queue t l)" and p: "pending t r" and g: "may_grant t l r"
  obtains u where "lock_ok u l" and "moves l t u" and "queue u l = queue t l"
    and "\<And>q. pending u q \<longleftrightarrow> pending t q \<and> q \<noteq> r" and "\<And>rs. pending_loop l (r # rs) t = pending_loop l rs u"
proof (cases "level t r = 0")
  case False
  let ?t = "dec_count l (level t r) t"
  have f: "lhb_requests ?t = lhb_requests t" "queue ?t l = queue t l" "pending ?t = pending t"
    by (simp_all add: dec_count_def pending_def fun_eq_iff)
  show ?thesis
  proof (rule that [of "grant r l ?t"])
    show "lock_ok (grant r l ?t) l" using grant_ok [OF dec_open [OF ok r]] g by (simp add: may_grant_def f)
    show "moves l t (grant r l ?t)" using moves_trans [OF moves_count(1) moves_grant] r f by simp
    show "pending_loop l (r # rs) t = pending_loop l rs (grant r l ?t)" for rs
      using False p g by (simp add: Let_def may_grant_def pending_def)
  qed (simp_all add: f pending_grant)
next
  case True
  have st: "COMPATIBLE (lrq_requested (lhb_requests t r)) (lock_state (lhb_locks t l))" "lbl_state (lhb_locks t l) = lock_state (lhb_locks t l)"
    using g ok True by (simp_all add: may_grant_def lock_ok_def)
  show ?thesis
  proof (rule that [of "grant r l t"])
    show "lock_ok (grant r l t) l" using grant_ok [OF none_open [OF ok r True]] st by simp
    show "pending_loop l (r # rs) t = pending_loop l rs (grant r l t)" for rs
      using True p st by (simp add: Let_def pending_def)
  qed (simp_all add: pending_grant moves_grant r)
qed

lemma pending_turn_wait:
  assumes ok: "lock_ok t l" and p: "pending t r" and g: "\<not> may_grant t l r"
  obtains u where "core u = core t" and "\<And>rs. pending_loop l (r # rs) t = (if LOCK_ordering t then u else pending_loop l rs u)"
proof (cases "level t r = 0")
  case False
  let ?u = "post_wakeup (lrq_owner (lhb_requests t r)) (inc_count l (level t r) (dec_count l (level t r) t))"
  have c: "core ?u = core t" by (rule core_inc_dec [OF ok])
  show ?thesis
    by (rule that [of ?u, OF c]) (use False p g core_eqD(3) [OF c] in \<open>simp add: Let_def may_grant_def pending_def\<close>)
next
  case True
  let ?u = "post_wakeup (lrq_owner (lhb_requests t r)) t"
  have c: "core ?u = core t" by simp
  show ?thesis
    by (rule that [of ?u, OF c])
      (use True p g ok core_eqD(3) [OF c] in \<open>simp add: Let_def may_grant_def pending_def lock_ok_def\<close>)
qed

lemma pending_loop_skip: "\<not> pending t r \<Longrightarrow> pending_loop l (r # rs) t = pending_loop l rs t"
  by (simp add: pending_def Let_def)

declare pending_loop.simps(2) [simp del]

lemma pending_loop_ok:
  "lock_ok t l \<Longrightarrow> set rs \<subseteq> set (queue t l)
    \<Longrightarrow> lock_ok (pending_loop l rs t) l \<and> moves l t (pending_loop l rs t) \<and> queue (pending_loop l rs t) l = queue t l"
proof (induction rs arbitrary: t)
  case (Cons r rs)
  consider "\<not> pending t r" | "pending t r" "may_grant t l r" | "pending t r" "\<not> may_grant t l r" by blast
  then show ?case
  proof cases
    case 1
    then have "pending_loop l (r # rs) t = pending_loop l rs t" by (rule pending_loop_skip)
    then show ?thesis using Cons by simp
  next
    case 2
    obtain u where u: "lock_ok u l" "moves l t u" "queue u l = queue t l" "\<And>rs. pending_loop l (r # rs) t = pending_loop l rs u"
      by (rule pending_turn_grant [OF Cons.prems(1) _ 2]) (use Cons.prems(2) in simp, rule that)
    then show ?thesis using Cons.IH [of u] Cons.prems(2) moves_trans [of l t u] by simp
  next
    case 3
    obtain u where u: "core u = core t" "\<And>rs. pending_loop l (r # rs) t = (if LOCK_ordering t then u else pending_loop l rs u)"
      by (rule pending_turn_wait [OF Cons.prems(1) 3]) (rule that)
    have "lock_ok u l" "moves l t u" "queue u l = queue t l"
      using lock_ok_cong [OF u(1)] Cons.prems(1) moves_core [OF u(1)] core_eq_fields(6) [OF u(1)] by simp_all
    then show ?thesis unfolding u(2) using Cons.IH [of u] Cons.prems(2) moves_trans [of l t u] by simp
  qed
qed simp

lemma may_grant_cong:
  assumes c: "core u = core t"
  shows "may_grant u l r = may_grant t l r"
proof -
  have "lock_state (lhb_locks (dec_count l n u) l) = lock_state (lhb_locks (dec_count l n t) l)" for n
    by (rule lock_state_cong) (simp add: dec_count_def core_eq_fields(8) [OF c])
  then show ?thesis by (simp add: may_grant_def core_eq_fields(1,2) [OF c])
qed

lemma find_skip: "\<forall>q \<in> set ps. \<not> P q \<Longrightarrow> P r \<Longrightarrow> find P (ps @ r # rs) = Some r"
  by (induction ps) auto

text \<open>When requests are granted in order, the first request that still waits cannot be granted.\<close>

lemma pending_loop_first:
  "lock_ok t l \<Longrightarrow> LOCK_ordering t \<Longrightarrow> queue t l = ps @ rs \<Longrightarrow> \<forall>q \<in> set ps. \<not> pending t q
    \<Longrightarrow> find (pending (pending_loop l rs t)) (queue t l) = Some p \<Longrightarrow> \<not> may_grant (pending_loop l rs t) l p"
proof (induction rs arbitrary: t ps)
  case Nil
  then show ?case by (auto simp: find_Some_iff)
next
  case (Cons r rs)
  consider "\<not> pending t r" | "pending t r" "may_grant t l r" | "pending t r" "\<not> may_grant t l r" by blast
  then show ?case
  proof cases
    case 1
    then have "pending_loop l (r # rs) t = pending_loop l rs t" by (rule pending_loop_skip)
    then show ?thesis using Cons.IH [of t "ps @ [r]"] Cons.prems 1 by simp
  next
    case 2
    obtain u where u: "lock_ok u l" "moves l t u" "queue u l = queue t l" "\<And>q. pending u q \<longleftrightarrow> pending t q \<and> q \<noteq> r"
      "\<And>rs. pending_loop l (r # rs) t = pending_loop l rs u"
      by (rule pending_turn_grant [OF Cons.prems(1) _ 2]) (use Cons.prems(3) in simp, rule that)
    then show ?thesis using Cons.IH [of u "ps @ [r]"] Cons.prems ordering_moves [OF u(2)] by simp
  next
    case 3
    obtain u where u: "core u = core t" "\<And>rs. pending_loop l (r # rs) t = (if LOCK_ordering t then u else pending_loop l rs u)"
      by (rule pending_turn_wait [OF Cons.prems(1) 3]) (rule that)
    have "find (pending t) (queue t l) = Some r"
      using Cons.prems(3,4) 3(1) by (simp add: find_skip)
    moreover have "pending_loop l (r # rs) t = u" using u(2) Cons.prems(2) by simp
    ultimately show ?thesis using Cons.prems(5) 3(2) may_grant_cong [OF u(1)] core_eqD(4) [OF u(1)] by simp
  qed
qed

lemma blocked_by:
  assumes ok: "lock_ok t l" and p: "p \<in> set (queue t l)" and g: "\<not> may_grant t l p"
  shows "\<exists>q \<in> set (queue t l). q \<noteq> p \<and> \<not> COMPATIBLE (lrq_requested (lhb_requests t p)) (level t q)"
proof -
  let ?t = "dec_count l (level t p) t"
  have op: "counted ?t l (remove1 p (queue t l))" and n: "lrq_requested (lhb_requests t p) < 7" and d: "distinct (queue t l)"
    using dec_open [OF ok p] ok p by (simp_all add: lock_open_def lock_ok_def dec_count_def)
  have "lock_state (lhb_locks ?t l) \<noteq> 0"
  proof
    assume "lock_state (lhb_locks ?t l) = 0"
    then show False using g n by (simp add: may_grant_def)
  qed
  then obtain q where "q \<in> set (remove1 p (queue t l))" "level ?t q = lock_state (lhb_locks ?t l)"
    by (rule lock_state_witness [OF op])
  then show ?thesis using g d by (auto simp: may_grant_def dec_count_def intro!: bexI [of _ q])
qed

lemma post_pending_ok:
  assumes ok: "lock_ok t l"
  shows "lock_ok (post_pending l t) l \<and> moves l t (post_pending l t) \<and> queue (post_pending l t) l = queue t l"
proof -
  let ?u = "pending_loop l (queue t l) t"
  have u: "lock_ok ?u l" "moves l t ?u" "queue ?u l = queue t l" using pending_loop_ok [OF ok, of "queue t l"] by simp_all
  have m: "lock_ok (mark_granted rs ?u) l" "moves l t (mark_granted rs ?u)" "queue (mark_granted rs ?u) l = queue t l" for rs
    using lock_ok_cong [OF core_mark_granted] moves_trans [OF u(2) moves_core] core_eq_fields(6) [OF core_mark_granted] u
    by simp_all
  show ?thesis using ok u m by (simp add: post_pending_def Let_def)
qed

lemma post_pending_first:
  assumes ok: "lock_ok t l" and ord: "LOCK_ordering t" and p: "find (pending (post_pending l t)) (queue t l) = Some p"
  shows "\<not> may_grant (post_pending l t) l p"
proof (cases "lbl_pending_lrq_count (lhb_locks t l) = 0")
  case True
  then show ?thesis using p ok by (auto simp: post_pending_def lock_ok_def find_Some_iff filter_empty_conv)
next
  case False
  let ?u = "pending_loop l (queue t l) t"
  have c: "core (post_pending l t) = core ?u" using False by (simp add: post_pending_def Let_def)
  then show ?thesis
    using pending_loop_first [OF ok ord, of "[]"] p unfolding may_grant_cong [OF c] core_eqD(4) [OF c] by simp
qed

end
