(* ===== verification/FB_LockSteps.thy ===== *)
theory FB_LockSteps
  imports FB_LockInv "HOL-Library.Multiset"
begin

section \<open>The lock table between operations\<close>

text \<open>
  The invariant of the whole table, the operations of the lock manager as steps from one table to the next, and what
  holds of every table that can be reached from the one \<^verbatim>\<open>lock_initialize\<close> sets up.
\<close>

subsection \<open>The invariant of the table\<close>

definition table_ok :: "lhb \<Rightarrow> bool" where
  "table_ok t \<longleftrightarrow>
     (\<forall>l. lbl_in_use (lhb_locks t l) \<longrightarrow> lock_ok t l \<and> l < lhb_used t \<and> (\<forall>q \<in> set (queue t l). lrq_in_use (lhb_requests t q)))
     \<and> (\<forall>r. lrq_in_use (lhb_requests t r) \<longrightarrow> lbl_in_use (lhb_locks t (lrq_lock (lhb_requests t r)))
          \<and> r \<in> set (queue t (lrq_lock (lhb_requests t r))) \<and> r < lhb_used t \<and> lrq_owner (lhb_requests t r) \<in> set (lhb_owners t))
     \<and> (\<forall>r. pending t r \<longrightarrow> lrq_in_use (lhb_requests t r))
     \<and> distinct (lhb_free_requests t) \<and> (\<forall>r \<in> set (lhb_free_requests t). \<not> lrq_in_use (lhb_requests t r) \<and> r < lhb_used t)
     \<and> distinct (lhb_free_locks t) \<and> (\<forall>l \<in> set (lhb_free_locks t). \<not> lbl_in_use (lhb_locks t l) \<and> l < lhb_used t)
     \<and> (\<forall>s. distinct (lhb_hash t s) \<and> (\<forall>l \<in> set (lhb_hash t s). lbl_in_use (lhb_locks t l)))
     \<and> 0 < sizeof_lrq t \<and> 0 < sizeof_lbl t \<and> 0 < ALIGNMENT t"

lemma invI:
  assumes "\<And>l. lbl_in_use (lhb_locks t l) \<Longrightarrow>
      lock_ok t l \<and> l < lhb_used t \<and> (\<forall>q \<in> set (queue t l). lrq_in_use (lhb_requests t q))"
    and "\<And>r. lrq_in_use (lhb_requests t r) \<Longrightarrow> lbl_in_use (lhb_locks t (lrq_lock (lhb_requests t r)))
      \<and> r \<in> set (queue t (lrq_lock (lhb_requests t r))) \<and> r < lhb_used t \<and> lrq_owner (lhb_requests t r) \<in> set (lhb_owners t)"
    and "\<And>r. r \<in> set (lhb_free_requests t) \<Longrightarrow> \<not> lrq_in_use (lhb_requests t r) \<and> r < lhb_used t"
    and "\<And>r. pending t r \<Longrightarrow> lrq_in_use (lhb_requests t r)"
    and "distinct (lhb_free_requests t)" and "distinct (lhb_free_locks t)"
    and "\<And>l. l \<in> set (lhb_free_locks t) \<Longrightarrow> \<not> lbl_in_use (lhb_locks t l) \<and> l < lhb_used t"
    and "\<And>s. distinct (lhb_hash t s) \<and> (\<forall>l \<in> set (lhb_hash t s). lbl_in_use (lhb_locks t l))"
    and "0 < sizeof_lrq t \<and> 0 < sizeof_lbl t \<and> 0 < ALIGNMENT t"
  shows "table_ok t"
  unfolding table_ok_def using assms by blast

lemma inv_sizes: "table_ok t \<Longrightarrow> 0 < sizeof_lrq t \<and> 0 < sizeof_lbl t \<and> 0 < ALIGNMENT t"
  by (simp add: table_ok_def)

lemma inv_freeD: "table_ok t \<Longrightarrow> k \<in> set (lhb_free_locks t) \<Longrightarrow> \<not> lbl_in_use (lhb_locks t k) \<and> k < lhb_used t"
  by (simp add: table_ok_def)

lemma inv_core: "table_ok (core t) = table_ok t"
  by (simp add: table_ok_def lock_ok_core)

lemma inv_cong: "core u = core t \<Longrightarrow> table_ok u = table_ok t"
  using inv_core [of t] inv_core [of u] by simp

lemma lock_ok_local:
  assumes k: "lshape (lhb_locks u l) = lshape (lhb_locks t l)"
    and q: "\<And>q. q \<in> set (queue t l) \<Longrightarrow> shape (lhb_requests u q) = shape (lhb_requests t q)"
  shows "lock_ok u l = lock_ok t l"
proof -
  have K: "queue u l = queue t l" "lbl_counts (lhb_locks u l) = lbl_counts (lhb_locks t l)"
    "lbl_state (lhb_locks u l) = lbl_state (lhb_locks t l)" "lock_state (lhb_locks u l) = lock_state (lhb_locks t l)"
    "lbl_pending_lrq_count (lhb_locks u l) = lbl_pending_lrq_count (lhb_locks t l)"
    using arg_cong [OF k, of lbl_requests] arg_cong [OF k, of lbl_counts] arg_cong [OF k, of lbl_state]
      arg_cong [OF k, of lock_state] arg_cong [OF k, of lbl_pending_lrq_count] by simp_all
  have Q: "level u x = level t x" "lrq_lock (lhb_requests u x) = lrq_lock (lhb_requests t x)"
    "lrq_requested (lhb_requests u x) = lrq_requested (lhb_requests t x)" "pending u x = pending t x" if "x \<in> set (queue t l)" for x
    using arg_cong [OF q [OF that], of lrq_state] arg_cong [OF q [OF that], of lrq_lock]
      arg_cong [OF q [OF that], of lrq_requested] arg_cong [OF q [OF that], of "\<lambda>x. LRQ_pending \<in> lrq_flags x"]
    by (simp_all add: pending_def)
  have M: "map (level u) (queue t l) = map (level t) (queue t l)" using Q(1) by simp
  have "counted u l (queue t l) = counted t l (queue t l)" unfolding counted_def K M ..
  moreover have "agree u (queue t l) = agree t (queue t l)" using Q(1) by (simp add: agree_def)
  moreover have "filter (pending u) (queue t l) = filter (pending t) (queue t l)" using Q(4) by (rule filter_cong [OF refl])
  ultimately show ?thesis using Q by (simp add: lock_ok_def K)
qed

lemma inv_moves:
  assumes i: "table_ok t" and l: "lbl_in_use (lhb_locks t l)" and m: "moves l t u" and ok: "lock_ok u l"
  shows "table_ok u"
proof -
  have R: "rest u = rest t" and L: "\<And>k. k \<noteq> l \<Longrightarrow> lshape (lhb_locks u k) = lshape (lhb_locks t k)"
    and U: "lbl_in_use (lhb_locks u l) = lbl_in_use (lhb_locks t l)" and Q: "set (queue u l) = set (queue t l)"
    and F: "\<And>q. lrq_in_use (lhb_requests u q) = lrq_in_use (lhb_requests t q) \<and> lrq_lock (lhb_requests u q) = lrq_lock (lhb_requests t q)
          \<and> lrq_owner (lhb_requests u q) = lrq_owner (lhb_requests t q)"
    and S: "\<And>q. q \<notin> set (queue t l) \<Longrightarrow> shape (lhb_requests u q) = shape (lhb_requests t q)"
    using m by (simp_all add: moves_def)
  have own: "lrq_lock (lhb_requests t q) = k" if "lbl_in_use (lhb_locks t k)" "q \<in> set (queue t k)" for k q
    using i that by (auto simp: table_ok_def lock_ok_def)
  have U': "lbl_in_use (lhb_locks u k) = lbl_in_use (lhb_locks t k)" for k
    using U arg_cong [OF L [of k], of lbl_in_use] by (cases "k = l") simp_all
  have Q': "set (queue u k) = set (queue t k)" for k
    using Q arg_cong [OF L [of k], of lbl_requests] by (cases "k = l") simp_all
  have ok': "lock_ok u k" if "lbl_in_use (lhb_locks t k)" for k
  proof (cases "k = l")
    case False
    then have "shape (lhb_requests u q) = shape (lhb_requests t q)" if "q \<in> set (queue t k)" for q
      using own [OF l] own [OF \<open>lbl_in_use (lhb_locks t k)\<close> that] S by blast
    then show ?thesis using lock_ok_local [OF L [OF False]] i that by (simp add: table_ok_def)
  qed (simp add: ok)
  have P: "lrq_in_use (lhb_requests u q)" if "pending u q" for q
  proof (cases "q \<in> set (queue t l)")
    case True
    then show ?thesis using i l F by (simp add: table_ok_def)
  next
    case False
    have "pending t q" using that arg_cong [OF S [OF False], of "\<lambda>x. LRQ_pending \<in> lrq_flags x"] by (simp add: pending_def)
    then show ?thesis using i F by (simp add: table_ok_def)
  qed
  show ?thesis using i R ok' P unfolding table_ok_def rest_def by (simp add: U' Q' F)
qed

subsection \<open>Single changes\<close>

lemma moves_lock_ok:
  assumes "table_ok t" and "lrq_in_use (lhb_requests t r)"
  shows "lock_ok t (lrq_lock (lhb_requests t r))" "r \<in> set (queue t (lrq_lock (lhb_requests t r)))"
    "lbl_in_use (lhb_locks t (lrq_lock (lhb_requests t r)))"
  using assms by (simp_all add: table_ok_def)

text \<open>Changing the level asked for.\<close>

lemma request_level_ok:
  assumes ok: "lock_ok t l" and n: "n < 7"
  shows "lock_ok (set_request r (\<lambda>q. q\<lparr>lrq_requested := n\<rparr>) t) l"
proof -
  let ?u = "set_request r (\<lambda>q. q\<lparr>lrq_requested := n\<rparr>) t"
  have "level ?u = level t" "pending ?u = pending t" by (simp_all add: fun_eq_iff pending_def)
  then show ?thesis using ok n by (simp add: lock_ok_def counted_def agree_def)
qed

lemma request_level_moves:
  "r \<in> set (queue t l) \<Longrightarrow> moves l t (set_request r (\<lambda>q. q\<lparr>lrq_requested := f q\<rparr>) t)"
  by (auto simp: moves_def)

lemma count_perm: "mset xs = mset ys \<Longrightarrow> count_list (map f xs) s = count_list (map f ys) s"
  by (metis count_mset mset_map)

lemma mset_move: "r \<in> set xs \<Longrightarrow> mset (remove1 r xs @ [r]) = mset xs"
  by (simp add: insert_DiffM)

lemma filter_add_one:
  assumes "distinct xs" and "r \<in> set xs" and "\<not> P r"
  shows "length (filter (\<lambda>q. q = r \<or> P q) xs) = Suc (length (filter P xs))"
proof -
  have "filter (\<lambda>q. q \<noteq> r \<and> (q = r \<or> P q)) xs = filter P xs" using assms(3) by (auto intro: filter_cong)
  moreover have "filter (\<lambda>q. q = r \<or> P q) xs \<noteq> []" using assms(2) by (auto simp: filter_empty_conv)
  ultimately show ?thesis using filter_remove_one [OF assms(1,2), of "\<lambda>q. q = r \<or> P q"] by simp
qed

lemma length_filter_mset: "mset xs = mset ys \<Longrightarrow> length (filter P xs) = length (filter P ys)"
  by (metis mset_filter size_mset)

text \<open>A request starts to wait, perhaps at the end of the queue.\<close>

lemma begin_pending_ok:
  assumes ok: "lock_ok t l" and r: "r \<in> set (queue t l)" and p: "\<not> pending t r"
    and qu: "mset qs = mset (queue t l)"
  shows "lock_ok (set_lock l (\<lambda>k. k\<lparr>lbl_requests := qs\<rparr>) (inc_pending l (set_flag r LRQ_pending t))) l"
    and "moves l t (set_lock l (\<lambda>k. k\<lparr>lbl_requests := qs\<rparr>) (inc_pending l (set_flag r LRQ_pending t)))"
proof -
  let ?u = "set_lock l (\<lambda>k. k\<lparr>lbl_requests := qs\<rparr>) (inc_pending l (set_flag r LRQ_pending t))"
  have L: "level ?u = level t" "lrq_lock (lhb_requests ?u q) = lrq_lock (lhb_requests t q)"
    "lrq_requested (lhb_requests ?u q) = lrq_requested (lhb_requests t q)" "pending ?u = (\<lambda>q. q = r \<or> pending t q)" for q
    by (auto simp: fun_eq_iff inc_pending_def set_flag_def pending_def)
  have K: "lbl_counts (lhb_locks ?u l) = lbl_counts (lhb_locks t l)" "lbl_state (lhb_locks ?u l) = lbl_state (lhb_locks t l)"
    "lock_state (lhb_locks ?u l) = lock_state (lhb_locks t l)" "queue ?u l = qs"
    by (simp_all add: inc_pending_def set_flag_def)
  have Q: "set qs = set (queue t l)" "distinct qs = distinct (queue t l)" "length qs = length (queue t l)"
    using mset_eq_setD [OF qu] mset_eq_imp_distinct_iff [OF qu] mset_eq_length [OF qu] by simp_all
  have c: "counted ?u l qs"
    using ok count_perm [OF qu, of "level t"] unfolding counted_def L(1) K by (simp add: lock_ok_def counted_def)
  have "length (filter (pending t) (queue t l)) < length (queue t l)"
    using r p by (auto intro: length_filter_less)
  then have "lbl_pending_lrq_count (lhb_locks ?u l) = length (filter (pending ?u) qs)"
    using ok r p filter_add_one [of "queue t l" r "pending t"] length_filter_mset [OF qu]
    unfolding L(4) by (simp add: inc_pending_def set_flag_def lock_ok_def)
  then show "lock_ok ?u l"
    using ok c unfolding lock_ok_def K Q L(2,3) agree_def fun_cong [OF L(1)] by simp
  show "moves l t ?u"
    using r by (auto simp: moves_def Q(1) inc_pending_def set_flag_def)
qed

lemma end_pending_ok:
  assumes ok: "lock_ok t l" and r: "r \<in> set (queue t l)" and p: "pending t r"
  shows "lock_ok (dec_pending l (clear_flags r {LRQ_pending} t)) l" "moves l t (dec_pending l (clear_flags r {LRQ_pending} t))"
proof -
  let ?u = "dec_pending l (clear_flags r {LRQ_pending} t)"
  have L: "level ?u = level t" "lrq_lock (lhb_requests ?u q) = lrq_lock (lhb_requests t q)"
    "lrq_requested (lhb_requests ?u q) = lrq_requested (lhb_requests t q)" "pending ?u = (\<lambda>q. q \<noteq> r \<and> pending t q)" for q
    by (auto simp: fun_eq_iff dec_pending_def clear_flags_def pending_def)
  have K: "lbl_counts (lhb_locks ?u l) = lbl_counts (lhb_locks t l)" "lbl_state (lhb_locks ?u l) = lbl_state (lhb_locks t l)"
    "lock_state (lhb_locks ?u l) = lock_state (lhb_locks t l)" "queue ?u l = queue t l"
    by (simp_all add: dec_pending_def clear_flags_def)
  have c: "counted ?u l (queue t l)"
    using ok unfolding counted_def L(1) K by (simp add: lock_ok_def counted_def)
  have "0 < length (filter (pending t) (queue t l))" using r p by (auto simp: filter_empty_conv)
  then have "lbl_pending_lrq_count (lhb_locks ?u l) = length (filter (pending ?u) (queue t l))"
    using ok r p filter_remove_one [of "queue t l" r "pending t"] le_less_trans [OF length_filter_le, of "queue t l" 65536 "pending t"]
    unfolding L(4) by (simp add: dec_pending_def clear_flags_def lock_ok_def)
  then show "lock_ok ?u l"
    using ok c unfolding lock_ok_def K L(2,3) agree_def fun_cong [OF L(1)] by simp
  show "moves l t ?u"
    using r by (auto simp: moves_def dec_pending_def clear_flags_def)
qed

subsection \<open>Waiting and converting\<close>

lemma moves_set_owner [simp]: "moves l t (set_owner w f t)"
  by (rule moves_core) simp

lemma wait_begin_core:
  assumes "l = lrq_lock (lhb_requests t r)"
  shows "core (wait_begin r lck_wait t) =
     core (set_lock l (\<lambda>k. k\<lparr>lbl_requests := (if LOCK_ordering t \<and> level t r = 0 then remove1 r (queue t l) @ [r] else queue t l)\<rparr>)
       (inc_pending l (set_flag r LRQ_pending (clear_flags r {LRQ_rejected} (bump lhb_waits t)))))"
  using assms
  by (simp add: wait_begin_def Let_def clear_flags_def set_flag_def inc_pending_def bump_def)
    (simp add: core_def set_lock_def set_request_def fun_eq_iff)

lemma wait_begin_ok:
  assumes ok: "lock_ok t l" and r: "r \<in> set (queue t l)" and p: "\<not> pending t r"
  shows "lock_ok (wait_begin r lck_wait t) l" "moves l t (wait_begin r lck_wait t)"
proof -
  have l: "l = lrq_lock (lhb_requests t r)" using ok r by (simp add: lock_ok_def)
  let ?t = "clear_flags r {LRQ_rejected} (bump lhb_waits t)"
    and ?q = "if LOCK_ordering t \<and> level t r = 0 then remove1 r (queue t l) @ [r] else queue t l"
  have c: "core ?t = core t" by simp
  have a: "lock_ok ?t l" "r \<in> set (queue ?t l)" "\<not> pending ?t r" "mset ?q = mset (queue ?t l)" "moves l t ?t"
    using assms lock_ok_cong [OF c] core_eq_fields(6) [OF c] core_eqD(4) [OF c] mset_move [OF r] moves_core [OF c] by simp_all
  show "lock_ok (wait_begin r lck_wait t) l"
    using begin_pending_ok(1) [OF a(1-4)] lock_ok_cong [OF wait_begin_core [OF l]] by simp
  show "moves l t (wait_begin r lck_wait t)"
    using moves_trans [OF a(5) moves_trans [OF begin_pending_ok(2) [OF a(1-4)] moves_core [OF wait_begin_core [OF l]]]] .
qed

lemma reject_ok:
  assumes ok: "lock_ok t l" and r: "r \<in> set (queue t l)" and p: "pending t r"
  shows "lock_ok (reject r t) l" "moves l t (reject r t)"
proof -
  have c: "core (set_flag r LRQ_rejected t) = core t" by simp
  have l: "lrq_lock (lhb_requests t r) = l" using ok r by (simp add: lock_ok_def)
  have a: "lock_ok (set_flag r LRQ_rejected t) l" "r \<in> set (queue (set_flag r LRQ_rejected t) l)" "pending (set_flag r LRQ_rejected t) r"
    using assms lock_ok_cong [OF c] core_eq_fields(6) [OF c] core_eqD(4) [OF c] by simp_all
  show "lock_ok (reject r t) l" using end_pending_ok(1) [OF a] by (simp add: reject_def l)
  show "moves l t (reject r t)" using moves_trans [OF moves_core [OF c] end_pending_ok(2) [OF a]] by (simp add: reject_def l)
qed

lemma grant_post_ok:
  assumes op: "lock_open t l r" and c: "COMPATIBLE (lrq_requested (lhb_requests t r)) (lock_state (lhb_locks t l))"
  shows "lock_ok (post_pending l (grant r l t)) l" "moves l t (post_pending l (grant r l t))"
    "queue (post_pending l (grant r l t)) l = queue t l"
  using post_pending_ok [OF grant_ok [OF op c]] moves_trans [OF moves_grant, of r t l] op
  by (simp_all add: lock_open_def)

lemma lock_open_cong:
  assumes c: "core u = core t"
  shows "lock_open u l r = lock_open t l r"
proof -
  have "lock_open (core t) l r = lock_open t l r" for t by (simp add: lock_open_def counted_def agree_def)
  then show ?thesis using c by metis
qed

lemma convert_denied_ok:
  assumes ok: "lock_ok t l" and r: "r \<in> set (queue t l)"
  shows "lock_ok (snd (convert_denied r lck_wait t)) l" "moves l t (snd (convert_denied r lck_wait t))"
proof -
  let ?u = "set_request r (\<lambda>q. q\<lparr>lrq_requested := lrq_state q\<rparr>) t"
  have e: "?u = set_request r (\<lambda>q. q\<lparr>lrq_requested := level t r\<rparr>) t" by (simp add: set_request_def)
  have c: "core (snd (convert_denied r lck_wait t)) = core ?u" by (simp add: convert_denied_def Let_def)
  show "lock_ok (snd (convert_denied r lck_wait t)) l"
    unfolding lock_ok_cong [OF c] e using request_level_ok [OF ok] ok r by (simp add: lock_ok_def)
  show "moves l t (snd (convert_denied r lck_wait t))"
    using moves_trans [OF request_level_moves [OF r] moves_core [OF c]] .
qed

lemma convert_ok:
  assumes ok: "lock_ok t l" and r: "r \<in> set (queue t l)" and n: "type < 7" and w: "lck_wait = 0 \<or> \<not> pending t r"
  shows "lock_ok (snd (convert r type lck_wait ar aa t)) l" "moves l t (snd (convert r type lck_wait ar aa t))"
proof -
  have l: "lrq_lock (lhb_requests t r) = l" using ok r by (simp add: lock_ok_def)
  define t0 where "t0 = post_history his_convert (lrq_owner (lhb_requests t r)) l r t"
  define t1 where "t1 = clear_flags r {LRQ_blocking_seen} (set_request r (\<lambda>q. q\<lparr>lrq_requested := type\<rparr>) t0)"
  define t2 where "t2 = set_request r (\<lambda>q. q\<lparr>lrq_ast_routine := ar, lrq_ast_argument := aa\<rparr>) (dec_count l (level t1 r) t1)"
  have c0: "core t0 = core t" by (simp add: t0_def)
  have ok0: "lock_ok t0 l" "r \<in> set (queue t0 l)" "pending t0 = pending t"
    using ok r lock_ok_cong [OF c0] core_eq_fields(6) [OF c0] core_eqD(4) [OF c0] by simp_all
  have ok1: "lock_ok t1 l"
    using request_level_ok [OF ok0(1) n, of r] by (simp add: t1_def lock_ok_cong [OF core_clear_flags])
  have m1: "moves l t t1"
    using moves_trans [OF moves_core [OF c0] moves_trans [OF request_level_moves [OF ok0(2)] moves_core]]
    by (simp add: t1_def)
  have q1: "r \<in> set (queue t1 l)" "lrq_requested (lhb_requests t1 r) = type" "pending t1 = pending t"
    using ok0 by (simp_all add: t1_def clear_flags_def pending_def fun_eq_iff)
  have inc: "inc_count l (level t1 r) (dec_count l (level t1 r) t1) = t1"
    by (rule inc_dec_count) (use ok1 in \<open>simp add: lock_ok_def counted_def\<close>)
  have c2: "core t2 = core (dec_count l (level t1 r) t1)" by (simp add: t2_def core_set_request shape_def)
  have op: "lock_open t2 l r" unfolding lock_open_cong [OF c2] by (rule dec_open [OF ok1 q1(1)])
  have e: "snd (convert r type lck_wait ar aa t) =
     (if COMPATIBLE type (lock_state (lhb_locks t2 l)) then post_pending l (grant r l t2)
      else if lck_wait \<noteq> 0 then wait_begin r lck_wait t1 else snd (convert_denied r lck_wait t1))"
    unfolding core_eq_fields(10) [OF c2]
    by (simp add: convert_def l Let_def flip: t0_def) (simp add: inc flip: t1_def t2_def)
  have req2: "lrq_requested (lhb_requests t2 r) = type" using q1(2) by (simp add: t2_def dec_count_def)
  have m2: "moves l t t2" using moves_trans [OF m1 moves_trans [OF moves_count(1) moves_core [OF c2]]] .
  show "lock_ok (snd (convert r type lck_wait ar aa t)) l"
    unfolding e using grant_post_ok(1) [OF op] wait_begin_ok(1) [OF ok1 q1(1)] convert_denied_ok(1) [OF ok1 q1(1)] req2 q1(3) w
    by auto
  show "moves l t (snd (convert r type lck_wait ar aa t))"
    unfolding e using moves_trans [OF m2 grant_post_ok(2) [OF op]] moves_trans [OF m1 wait_begin_ok(2) [OF ok1 q1(1)]]
      moves_trans [OF m1 convert_denied_ok(2) [OF ok1 q1(1)]] req2 q1(3) w by auto
qed

subsection \<open>Releasing\<close>

lemma unlink_requests:
  "shape (lhb_requests (unlink_request r t) q) =
     (if q = r then (shape (lhb_requests t r))\<lparr>lrq_in_use := False, lrq_flags := {}\<rparr> else shape (lhb_requests t q))"
  by (auto simp: unlink_request_def Let_def clear_flags_def dec_pending_def set_owner_def shape_def)

lemma unlink_locks:
  assumes "l = lrq_lock (lhb_requests t r)"
  shows "lhb_locks (unlink_request r t) k = (if k = l then (lhb_locks t l)\<lparr>lbl_requests := remove1 r (queue t l),
      lbl_pending_lrq_count := (if pending t r then to_ushort (lbl_pending_lrq_count (lhb_locks t l) + 65535)
                                else lbl_pending_lrq_count (lhb_locks t l))\<rparr> else lhb_locks t k)"
  using assms by (auto simp: unlink_request_def Let_def clear_flags_def dec_pending_def set_owner_def pending_def)

lemma unlink_rest:
  "rest (unlink_request r t) = (lhb_owners t, lhb_free_locks t, lhb_free_requests t @ [r], lhb_hash t, lhb_used t, LOCK_ordering t,
     sizeof_lrq t, sizeof_lbl t, ALIGNMENT t)"
  by (auto simp: unlink_request_def Let_def rest_def clear_flags_def dec_pending_def set_owner_def set_lock_def set_request_def)

lemma shape_pending: "shape (lhb_requests u q) = shape (lhb_requests t q) \<Longrightarrow> pending u q = pending t q"
  unfolding pending_def using shape_sel(6) by metis

lemma shape_fields:
  assumes "shape x = shape y"
  shows "lrq_in_use x = lrq_in_use y" "lrq_lock x = lrq_lock y" "lrq_owner x = lrq_owner y" "lrq_state x = lrq_state y"
    "lrq_requested x = lrq_requested y"
  using arg_cong [OF assms, of lrq_in_use] arg_cong [OF assms, of lrq_lock] arg_cong [OF assms, of lrq_owner]
    arg_cong [OF assms, of lrq_state] arg_cong [OF assms, of lrq_requested] by simp_all

lemma lshape_fields:
  assumes "lshape x = lshape y"
  shows "lbl_in_use x = lbl_in_use y" "lbl_requests x = lbl_requests y"
  using arg_cong [OF assms, of lbl_in_use] arg_cong [OF assms, of lbl_requests] by simp_all

text \<open>What the other locks and requests keep when the request \<open>r\<close> joins or leaves the lock \<open>l\<close>.\<close>

definition others :: "nat \<Rightarrow> nat \<Rightarrow> lhb \<Rightarrow> lhb \<Rightarrow> bool" where
  "others l r t u \<longleftrightarrow> (\<forall>k. k \<noteq> l \<longrightarrow> lshape (lhb_locks u k) = lshape (lhb_locks t k))
     \<and> (\<forall>q. q \<noteq> r \<longrightarrow> shape (lhb_requests u q) = shape (lhb_requests t q))"

lemma others_in_use:
  assumes o: "others l r t u"
  shows "k \<noteq> l \<Longrightarrow> lbl_in_use (lhb_locks u k) = lbl_in_use (lhb_locks t k)"
    and "q \<noteq> r \<Longrightarrow> lrq_in_use (lhb_requests u q) = lrq_in_use (lhb_requests t q)"
  using o lshape_fields(1) [of "lhb_locks u k" "lhb_locks t k"] shape_fields(1) [of "lhb_requests u q" "lhb_requests t q"]
  by (simp_all add: others_def)

lemma others_ok:
  assumes i: "table_ok t" and o: "others l r t u" and k: "k \<noteq> l" "lbl_in_use (lhb_locks u k)" and r: "r \<notin> set (queue t k)"
  shows "lock_ok u k" "k < lhb_used t" "q \<in> set (queue u k) \<Longrightarrow> lrq_in_use (lhb_requests u q)"
proof -
  have L: "lshape (lhb_locks u k) = lshape (lhb_locks t k)" and S: "\<And>q. q \<in> set (queue t k) \<Longrightarrow> shape (lhb_requests u q) = shape (lhb_requests t q)"
    using o k(1) r by (auto simp: others_def)
  have I: "lbl_in_use (lhb_locks t k)" using k(2) by (simp add: lshape_fields [OF L])
  show "lock_ok u k" using lock_ok_local [OF L S] i I by (simp add: table_ok_def)
  show "k < lhb_used t" using i I by (simp add: table_ok_def)
  show "lrq_in_use (lhb_requests u q)" if "q \<in> set (queue u k)"
    using that i I S [of q] by (simp add: table_ok_def lshape_fields [OF L] shape_fields [OF S])
qed

lemma others_request:
  assumes i: "table_ok t" and o: "others l r t u" and q: "q \<noteq> r" "lrq_in_use (lhb_requests u q)"
  shows "lrq_in_use (lhb_requests t q)" "lrq_lock (lhb_requests u q) = lrq_lock (lhb_requests t q)" "q < lhb_used t"
    "lrq_owner (lhb_requests u q) \<in> set (lhb_owners t)"
    "lrq_lock (lhb_requests t q) \<noteq> l \<Longrightarrow> lbl_in_use (lhb_locks u (lrq_lock (lhb_requests t q))) \<and> q \<in> set (queue u (lrq_lock (lhb_requests t q)))"
proof -
  have S: "shape (lhb_requests u q) = shape (lhb_requests t q)" using o q(1) by (simp add: others_def)
  show I: "lrq_in_use (lhb_requests t q)" using q(2) by (simp add: shape_fields [OF S])
  show "lrq_lock (lhb_requests u q) = lrq_lock (lhb_requests t q)" by (rule shape_fields [OF S])
  show "q < lhb_used t" "lrq_owner (lhb_requests u q) \<in> set (lhb_owners t)" using i I by (simp_all add: table_ok_def shape_fields [OF S])
  show "lbl_in_use (lhb_locks u (lrq_lock (lhb_requests t q))) \<and> q \<in> set (queue u (lrq_lock (lhb_requests t q)))"
    if "lrq_lock (lhb_requests t q) \<noteq> l"
  proof -
    have "lshape (lhb_locks u (lrq_lock (lhb_requests t q))) = lshape (lhb_locks t (lrq_lock (lhb_requests t q)))"
      using o that by (simp add: others_def)
    from lshape_fields [OF this] show ?thesis using i I by (simp add: table_ok_def)
  qed
qed

lemma others_free:
  assumes i: "table_ok t" and o: "others l r t u" and q: "q \<noteq> r" "q \<in> set (lhb_free_requests t)"
  shows "\<not> lrq_in_use (lhb_requests u q)" "q < lhb_used t"
proof -
  have "shape (lhb_requests u q) = shape (lhb_requests t q)" using o q(1) by (simp add: others_def)
  from shape_fields [OF this] show "\<not> lrq_in_use (lhb_requests u q)" "q < lhb_used t" using i q by (simp_all add: table_ok_def)
qed

lemma others_pending:
  assumes i: "table_ok t" and o: "others l r t u" and q: "q \<noteq> r" "pending u q"
  shows "lrq_in_use (lhb_requests u q)"
proof -
  have S: "shape (lhb_requests u q) = shape (lhb_requests t q)" using o q(1) by (simp add: others_def)
  show ?thesis using i q(2) by (simp add: table_ok_def shape_fields [OF S] shape_pending [OF S])
qed

lemma in_queue_lock: "table_ok t \<Longrightarrow> lbl_in_use (lhb_locks t k) \<Longrightarrow> q \<in> set (queue t k) \<Longrightarrow> lrq_lock (lhb_requests t q) = k"
  by (auto simp: table_ok_def lock_ok_def)

lemma inv_remove:
  assumes i: "table_ok t" and use: "lrq_in_use (lhb_requests t r)" and l: "l = lrq_lock (lhb_requests t r)"
    and o: "others l r t u" and U: "lbl_in_use (lhb_locks u l)" and Q: "queue u l = remove1 r (queue t l)"
    and N: "\<not> lrq_in_use (lhb_requests u r)" "\<not> pending u r" and ok: "lock_ok u l"
    and R: "rest u = (lhb_owners t, lhb_free_locks t, lhb_free_requests t @ [r], lhb_hash t, lhb_used t, LOCK_ordering t,
     sizeof_lrq t, sizeof_lbl t, ALIGNMENT t)"
  shows "table_ok u"
proof -
  have F: "lhb_owners u = lhb_owners t" "lhb_free_locks u = lhb_free_locks t" "lhb_free_requests u = lhb_free_requests t @ [r]"
    "lhb_hash u = lhb_hash t" "lhb_used u = lhb_used t" "sizeof_lrq u = sizeof_lrq t" "sizeof_lbl u = sizeof_lbl t"
    "ALIGNMENT u = ALIGNMENT t"
    using R by (simp_all add: rest_def)
  have I: "lbl_in_use (lhb_locks t l)" "r \<in> set (queue t l)" "r < lhb_used t" "l < lhb_used t" "distinct (queue t l)"
    using i use l by (auto simp: table_ok_def lock_ok_def)
  have U': "lbl_in_use (lhb_locks u k) = lbl_in_use (lhb_locks t k)" for k
    using I(1) U others_in_use(1) [OF o] by (cases "k = l") simp_all
  have nq: "r \<notin> set (queue t k)" if "k \<noteq> l" "lbl_in_use (lhb_locks t k)" for k
    using in_queue_lock [OF i that(2)] that(1) l by blast
  have 1: "lock_ok u k \<and> k < lhb_used u \<and> (\<forall>q \<in> set (queue u k). lrq_in_use (lhb_requests u q))" if "lbl_in_use (lhb_locks u k)" for k
  proof (cases "k = l")
    case False
    then show ?thesis using others_ok [OF i o False that nq [OF False]] that by (simp add: F U')
  next
    case True
    have "lrq_in_use (lhb_requests u q)" if "q \<in> set (queue u l)" for q
      using that i I others_in_use(2) [OF o, of q] by (auto simp: table_ok_def Q dest: notin_set_remove1)
    then show ?thesis using True ok I(4) by (simp add: F)
  qed
  have 2: "lbl_in_use (lhb_locks u (lrq_lock (lhb_requests u q))) \<and> q \<in> set (queue u (lrq_lock (lhb_requests u q)))
     \<and> q < lhb_used u \<and> lrq_owner (lhb_requests u q) \<in> set (lhb_owners u)" if "lrq_in_use (lhb_requests u q)" for q
  proof -
    have "q \<noteq> r" using that N by blast
    note O = others_request [OF i o this that]
    have "q \<in> set (queue t (lrq_lock (lhb_requests t q)))" using i O(1) by (simp add: table_ok_def)
    then show ?thesis using O U Q \<open>q \<noteq> r\<close> by (cases "lrq_lock (lhb_requests t q) = l") (simp_all add: F)
  qed
  have 3: "\<not> lrq_in_use (lhb_requests u q) \<and> q < lhb_used u" if "q \<in> set (lhb_free_requests u)" for q
    using that N(1) I(3) others_free [OF i o] by (cases "q = r") (auto simp: F)
  have 4: "lrq_in_use (lhb_requests u q)" if "pending u q" for q
    using others_pending [OF i o _ that] that N(2) by blast
  have "r \<notin> set (lhb_free_requests t)" using i use by (auto simp: table_ok_def)
  then show ?thesis
    using i unfolding table_ok_def using 1 2 3 4 by (simp add: F U')
qed

lemma inv_remove_lock:
  assumes i: "table_ok t" and use: "lrq_in_use (lhb_requests t r)" and l: "l = lrq_lock (lhb_requests t r)"
    and o: "others l r t u" and U: "\<not> lbl_in_use (lhb_locks u l)" and Q: "remove1 r (queue t l) = []"
    and N: "\<not> lrq_in_use (lhb_requests u r)" "\<not> pending u r"
    and R: "rest u = (lhb_owners t, lhb_free_locks t @ [l], lhb_free_requests t @ [r], \<lambda>s. remove1 l (lhb_hash t s), lhb_used t,
     LOCK_ordering t, sizeof_lrq t, sizeof_lbl t, ALIGNMENT t)"
  shows "table_ok u"
proof -
  have F: "lhb_owners u = lhb_owners t" "lhb_free_locks u = lhb_free_locks t @ [l]" "lhb_free_requests u = lhb_free_requests t @ [r]"
    "lhb_hash u s = remove1 l (lhb_hash t s)" "lhb_used u = lhb_used t" "sizeof_lrq u = sizeof_lrq t" "sizeof_lbl u = sizeof_lbl t"
    "ALIGNMENT u = ALIGNMENT t" for s
    using R by (simp_all add: rest_def)
  have I: "lbl_in_use (lhb_locks t l)" "r \<in> set (queue t l)" "r < lhb_used t" "l < lhb_used t"
    using i use l by (auto simp: table_ok_def lock_ok_def)
  have only: "q = r" if "q \<in> set (queue t l)" for q
    using that Q by (metis in_set_remove1 empty_iff empty_set)
  have U': "lbl_in_use (lhb_locks u k) = (k \<noteq> l \<and> lbl_in_use (lhb_locks t k))" for k
    using U others_in_use(1) [OF o] by (cases "k = l") simp_all
  have 1: "lock_ok u k \<and> k < lhb_used u \<and> (\<forall>q \<in> set (queue u k). lrq_in_use (lhb_requests u q))" if "lbl_in_use (lhb_locks u k)" for k
  proof -
    have k: "k \<noteq> l" "lbl_in_use (lhb_locks t k)" using that by (simp_all add: U')
    have "r \<notin> set (queue t k)" using in_queue_lock [OF i k(2)] k(1) l by blast
    then show ?thesis using others_ok [OF i o k(1) that] by (simp add: F)
  qed
  have 2: "lbl_in_use (lhb_locks u (lrq_lock (lhb_requests u q))) \<and> q \<in> set (queue u (lrq_lock (lhb_requests u q)))
     \<and> q < lhb_used u \<and> lrq_owner (lhb_requests u q) \<in> set (lhb_owners u)" if "lrq_in_use (lhb_requests u q)" for q
  proof -
    have "q \<noteq> r" using that N by blast
    note O = others_request [OF i o this that]
    have "lrq_lock (lhb_requests t q) \<noteq> l" using i O(1) only [of q] \<open>q \<noteq> r\<close> by (auto simp: table_ok_def)
    then show ?thesis using O by (simp add: F)
  qed
  have 3: "\<not> lrq_in_use (lhb_requests u q) \<and> q < lhb_used u" if "q \<in> set (lhb_free_requests u)" for q
    using that N(1) I(3) others_free [OF i o] by (cases "q = r") (auto simp: F)
  have 4: "lrq_in_use (lhb_requests u q)" if "pending u q" for q
    using others_pending [OF i o _ that] that N(2) by blast
  have 5: "distinct (lhb_free_requests u)" "distinct (lhb_free_locks u)"
    using i use I(1) by (auto simp: table_ok_def F)
  have 6: "\<not> lbl_in_use (lhb_locks u k) \<and> k < lhb_used u" if "k \<in> set (lhb_free_locks u)" for k
    using i that I(4) by (auto simp: table_ok_def F U')
  have 7: "distinct (lhb_hash u s) \<and> (\<forall>k \<in> set (lhb_hash u s). lbl_in_use (lhb_locks u k))" for s
    using i by (auto simp: table_ok_def F U')
  have 8: "0 < sizeof_lrq u \<and> 0 < sizeof_lbl u \<and> 0 < ALIGNMENT u" using inv_sizes [OF i] by (simp add: F)
  show ?thesis by (rule invI [OF 1 2 3 4 5 6 7 8])
qed

lemma lock_state_nonzero:
  assumes "\<And>n. 0 < n \<Longrightarrow> n < 7 \<Longrightarrow> lbl_counts k n = 0 \<longleftrightarrow> lbl_counts k' n = 0"
  shows "lock_state k = lock_state k'"
  using assms [of 1] assms [of 2] assms [of 3] assms [of 4] assms [of 5] assms [of 6] by (simp add: lock_state_def levels)

lemma release_lock_ok:
  assumes ok: "lock_ok t l" and r: "r \<in> set (queue t l)" and s: "s = level t r"
    and q: "queue u l = remove1 r (queue t l)" and lv: "\<And>q. level u q = level t q"
    and rq: "\<And>q. lrq_requested (lhb_requests u q) = lrq_requested (lhb_requests t q) \<and> lrq_lock (lhb_requests u q) = lrq_lock (lhb_requests t q)"
    and p: "\<And>q. pending u q \<longleftrightarrow> q \<noteq> r \<and> pending t q"
    and pc: "lbl_pending_lrq_count (lhb_locks u l) = (if pending t r then to_ushort (lbl_pending_lrq_count (lhb_locks t l) + 65535)
               else lbl_pending_lrq_count (lhb_locks t l))"
    and c: "lbl_counts (lhb_locks u l) = (if s = 0 then lbl_counts (lhb_locks t l)
              else (lbl_counts (lhb_locks t l))(s := to_ushort (lbl_counts (lhb_locks t l) s + 65535)))"
    and st: "lbl_state (lhb_locks u l) = (if s \<noteq> 0 \<and> lbl_counts (lhb_locks u l) s = 0 then lock_state (lhb_locks u l) else lbl_state (lhb_locks t l))"
  shows "lock_ok u l"
proof -
  let ?q = "queue t l"
  have d: "distinct ?q" and len: "length ?q < 65536" and ls: "lbl_state (lhb_locks t l) = lock_state (lhb_locks t l)"
    and b: "\<And>n. lbl_counts (lhb_locks t l) n < 65536"
    and P: "lbl_pending_lrq_count (lhb_locks t l) = length (filter (pending t) ?q)"
    using ok by (simp_all add: lock_ok_def counted_def)
  have M: "map (level u) (remove1 r ?q) = map (level t) (remove1 r ?q)" using lv by simp
  have op: "lock_open (dec_count l s t) l r" unfolding s by (rule dec_open [OF ok r])
  have cn: "lbl_counts (lhb_locks u l) n = count_list (map (level t) (remove1 r ?q)) n" if "0 < n" "n < 7" for n
    using op that by (auto simp: lock_open_def counted_def dec_count_def c split: if_splits)
  have cu: "counted u l (remove1 r ?q)"
    using b cn unfolding counted_def M by (simp add: c)
  have ag: "agree u (remove1 r ?q)" using op lv by (simp add: lock_open_def agree_def dec_count_def)
  have f: "filter (pending u) (remove1 r ?q) = filter (\<lambda>q. q \<noteq> r \<and> pending t q) ?q"
    using d p by (auto simp: distinct_remove1_removeAll removeAll_filter_not_eq intro: filter_cong)
  have pu: "lbl_pending_lrq_count (lhb_locks u l) = length (filter (pending u) (remove1 r ?q))"
  proof (cases "pending t r")
    case True
    then have "0 < length (filter (pending t) ?q)" using r by (auto simp: filter_empty_conv)
    then show ?thesis
      using True P pc filter_remove_one [OF d r, of "pending t"] le_less_trans [OF length_filter_le len, of "pending t"]
      unfolding f by simp
  next
    case False
    then have "filter (\<lambda>q. q \<noteq> r \<and> pending t q) ?q = filter (pending t) ?q" by (auto intro: filter_cong)
    then show ?thesis using False P pc unfolding f by simp
  qed
  have "lbl_state (lhb_locks u l) = lock_state (lhb_locks u l)"
  proof (cases "s \<noteq> 0 \<and> lbl_counts (lhb_locks u l) s = 0")
    case False
    have "lbl_counts (lhb_locks t l) s \<noteq> 0" if "s \<noteq> 0"
      using that ok r s counted_zero [of t l ?q s] by (auto simp: lock_ok_def)
    then have "lock_state (lhb_locks u l) = lock_state (lhb_locks t l)"
      using False by (intro lock_state_nonzero) (auto simp: c split: if_splits)
    then show ?thesis using False st ls by simp
  qed (simp add: st)
  moreover have "level t x < 7 \<and> lrq_requested (lhb_requests t x) < 7 \<and> lrq_lock (lhb_requests t x) = l" if "x \<in> set (remove1 r ?q)" for x
    using ok that by (auto simp: lock_ok_def dest: notin_set_remove1)
  ultimately show ?thesis
    using d len cu ag pu q lv rq length_remove1 [of r ?q] r by (simp add: lock_ok_def)
qed

lemma others_unlink: "l = lrq_lock (lhb_requests t r) \<Longrightarrow> others l r t (unlink_request r t)"
  by (simp add: others_def unlink_requests unlink_locks)

lemma unlink_gone: "\<not> lrq_in_use (lhb_requests (unlink_request r t) r)" "\<not> pending (unlink_request r t) r"
  using arg_cong [OF unlink_requests [of r t r], of lrq_in_use]
    arg_cong [OF unlink_requests [of r t r], of "\<lambda>x. LRQ_pending \<in> lrq_flags x"]
  by (simp_all add: pending_def)

lemma unlink_keeps:
  "level (unlink_request r t) q = level t q"
  "lrq_requested (lhb_requests (unlink_request r t) q) = lrq_requested (lhb_requests t q)"
  "lrq_lock (lhb_requests (unlink_request r t) q) = lrq_lock (lhb_requests t q)"
  "pending (unlink_request r t) q \<longleftrightarrow> q \<noteq> r \<and> pending t q"
  using arg_cong [OF unlink_requests [of r t q], of lrq_state] arg_cong [OF unlink_requests [of r t q], of lrq_requested]
    arg_cong [OF unlink_requests [of r t q], of lrq_lock]
    arg_cong [OF unlink_requests [of r t q], of "\<lambda>x. LRQ_pending \<in> lrq_flags x"]
  by (auto simp: pending_def split: if_splits)

text \<open>A lock whose request \<open>r\<close> has just left, before the waiting requests are looked at.\<close>

definition settle :: "nat \<Rightarrow> lhb \<Rightarrow> lhb" where
  "settle r t =
     (let l = lrq_lock (lhb_requests t r); s = level t r; u = unlink_request r t;
          u = (if s \<noteq> LCK_none then dec_count l s u else u) in
      if s \<noteq> LCK_none \<and> lbl_counts (lhb_locks u l) s = 0 then set_lock l (\<lambda>k. k\<lparr>lbl_state := lock_state k\<rparr>) u else u)"

lemma settle_requests: "lhb_requests (settle r t) = lhb_requests (unlink_request r t)"
  by (simp add: settle_def Let_def dec_count_def)

lemma pending_settle: "pending (settle r t) q \<longleftrightarrow> q \<noteq> r \<and> pending t q"
  using unlink_keeps(4) [of r t q] by (simp add: pending_def settle_requests)

lemma settle_locks:
  assumes "l = lrq_lock (lhb_requests t r)"
  shows "k \<noteq> l \<Longrightarrow> lhb_locks (settle r t) k = lhb_locks t k"
    and "queue (settle r t) l = remove1 r (queue t l)"
    and "lbl_in_use (lhb_locks (settle r t) l) = lbl_in_use (lhb_locks t l)"
    and "rest (settle r t) = rest (unlink_request r t)"
    and "lbl_counts (lhb_locks (settle r t) l) = (if level t r = 0 then lbl_counts (lhb_locks t l)
            else (lbl_counts (lhb_locks t l))(level t r := to_ushort (lbl_counts (lhb_locks t l) (level t r) + 65535)))"
    and "lbl_pending_lrq_count (lhb_locks (settle r t) l) = (if pending t r
            then to_ushort (lbl_pending_lrq_count (lhb_locks t l) + 65535) else lbl_pending_lrq_count (lhb_locks t l))"
    and "lbl_state (lhb_locks (settle r t) l) = (if level t r \<noteq> 0 \<and> lbl_counts (lhb_locks (settle r t) l) (level t r) = 0
            then lock_state (lhb_locks (settle r t) l) else lbl_state (lhb_locks t l))"
  unfolding settle_def using assms by (simp_all add: Let_def dec_count_def unlink_locks LCK_none_def)

lemma release_request_settle:
  "l = lrq_lock (lhb_requests t r) \<Longrightarrow> release_request r t =
     (if remove1 r (queue t l) = [] then release_lock l (unlink_request r t) else post_pending l (settle r t))"
  by (simp add: release_request_def settle_def Let_def unlink_locks)

lemma settle_ok:
  assumes ok: "lock_ok t l" and r: "r \<in> set (queue t l)"
  shows "lock_ok (settle r t) l"
proof -
  have l: "l = lrq_lock (lhb_requests t r)" using ok r by (simp add: lock_ok_def)
  show ?thesis
    by (rule release_lock_ok [OF ok r refl settle_locks(2) [OF l] _ _ _ settle_locks(6) [OF l] settle_locks(5) [OF l] settle_locks(7) [OF l]])
      (simp_all add: settle_requests unlink_keeps pending_settle)
qed

lemma settle_inv:
  assumes i: "table_ok t" and r: "lrq_in_use (lhb_requests t r)"
  shows "table_ok (settle r t)" "lbl_in_use (lhb_locks (settle r t) (lrq_lock (lhb_requests t r)))"
proof -
  let ?l = "lrq_lock (lhb_requests t r)"
  note l = refl [of ?l]
  note ok = moves_lock_ok [OF i r]
  have "others ?l r t (settle r t)"
    using others_unlink [OF l] by (simp add: others_def settle_requests settle_locks(1) [OF l])
  moreover have "\<not> pending (settle r t) r" "\<not> lrq_in_use (lhb_requests (settle r t) r)"
    using unlink_gone [of r t] by (simp_all add: pending_def settle_requests)
  ultimately show "table_ok (settle r t)"
    using inv_remove [OF i r l, of "settle r t"] settle_ok [OF ok(1,2)] ok(3) unlink_rest [of r t]
    by (simp add: settle_locks(2-4) [OF l])
  show "lbl_in_use (lhb_locks (settle r t) ?l)" using ok(3) by (simp add: settle_locks(3) [OF l])
qed

lemma release_request_inv:
  assumes i: "table_ok t" and r: "lrq_in_use (lhb_requests t r)"
  shows "table_ok (release_request r t)"
proof (cases "remove1 r (queue t (lrq_lock (lhb_requests t r))) = []")
  case True
  let ?l = "lrq_lock (lhb_requests t r)" and ?u = "unlink_request r t"
  have q: "lhb_requests (release_lock ?l ?u) = lhb_requests ?u"
    "k \<noteq> ?l \<Longrightarrow> lhb_locks (release_lock ?l ?u) k = lhb_locks ?u k" "\<not> lbl_in_use (lhb_locks (release_lock ?l ?u) ?l)" for k
    by (simp_all add: release_lock_def remove_data_que_def remove_hash_def set_lock_def Let_def)
  have "others ?l r t (release_lock ?l ?u)"
    using others_unlink [OF refl, of t r] by (simp add: others_def q)
  moreover have "rest (release_lock ?l ?u) = (lhb_owners t, lhb_free_locks t @ [?l], lhb_free_requests t @ [r],
      \<lambda>s. remove1 ?l (lhb_hash t s), lhb_used t, LOCK_ordering t, sizeof_lrq t, sizeof_lbl t, ALIGNMENT t)"
    using unlink_rest [of r t] by (simp add: rest_def release_lock_def remove_data_que_def remove_hash_def set_lock_def Let_def)
  moreover have "\<not> pending (release_lock ?l ?u) r" "\<not> lrq_in_use (lhb_requests (release_lock ?l ?u) r)"
    using unlink_gone [of r t] by (simp_all add: pending_def q)
  ultimately show ?thesis
    using inv_remove_lock [OF i r refl] True q(3) by (simp add: release_request_settle [OF refl])
next
  case False
  let ?l = "lrq_lock (lhb_requests t r)"
  have ok: "lock_ok (settle r t) ?l" using settle_ok moves_lock_ok [OF i r] by blast
  show ?thesis
    unfolding release_request_settle [OF refl]
    using inv_moves [OF settle_inv [OF i r]] post_pending_ok [OF ok] False by simp
qed

lemma requests_post_history [simp]: "lhb_requests (post_history h a b c t) = lhb_requests t"
  by (simp add: post_history_def)

lemma dequeue_core: "core (set_request r (\<lambda>q. q\<lparr>lrq_ast_routine := 0\<rparr>) (post_history h a b c t)) = core t"
  by (simp add: core_set_request shape_def)

lemma dequeue_inv:
  assumes i: "table_ok t" and r: "lrq_in_use (lhb_requests t r)"
  shows "table_ok (dequeue r t)"
  unfolding dequeue_def Let_def
  by (rule release_request_inv) (use i r inv_cong [OF dequeue_core] in simp_all)

lemma deny_inv:
  assumes i: "table_ok t" and r: "lrq_in_use (lhb_requests t r)"
  shows "table_ok (snd (deny r lck_wait t))"
proof -
  define u where "u = (let request = lhb_requests t r; t = bump lhb_denies (post_history his_deny (lrq_owner request) (lrq_lock request) r t) in
     if lck_wait < 0 then bump lhb_timeouts t else t)"
  have c: "core u = core t" by (simp add: u_def Let_def)
  have "snd (deny r lck_wait t) = release_request r u" by (simp add: deny_def u_def Let_def)
  then show ?thesis using release_request_inv [of u r] i r inv_cong [OF c] core_eq_fields(5) [OF c] by simp
qed

subsection \<open>Joining\<close>

lemma inv_add:
  assumes i: "table_ok t" and o: "others l r t u" and n: "\<not> lrq_in_use (lhb_requests t r)"
    and L: "lbl_in_use (lhb_locks u l)" "lock_ok u l" "l < lhb_used u"
    and Q: "queue u l = (if lbl_in_use (lhb_locks t l) then queue t l else []) @ [r]"
    and r: "lrq_in_use (lhb_requests u r)" "lrq_lock (lhb_requests u r) = l" "lrq_owner (lhb_requests u r) \<in> set (lhb_owners u)" "r < lhb_used u"
    and used: "lhb_used t \<le> lhb_used u" and own: "lhb_owners u = lhb_owners t"
    and fr: "distinct (lhb_free_requests u)" "set (lhb_free_requests u) \<subseteq> set (lhb_free_requests t) - {r}"
    and fl: "distinct (lhb_free_locks u)" "set (lhb_free_locks u) \<subseteq> set (lhb_free_locks t) - {l}"
    and h: "\<And>s. distinct (lhb_hash u s) \<and> set (lhb_hash u s) \<subseteq> insert l (set (lhb_hash t s))"
    and sz: "sizeof_lrq u = sizeof_lrq t" "sizeof_lbl u = sizeof_lbl t" "ALIGNMENT u = ALIGNMENT t"
  shows "table_ok u"
proof -
  have nq: "r \<notin> set (queue t k)" if "lbl_in_use (lhb_locks t k)" for k using i n that by (auto simp: table_ok_def)
  have U: "lbl_in_use (lhb_locks u k) = lbl_in_use (lhb_locks t k)" if "k \<noteq> l" for k using others_in_use(1) [OF o that] .
  have ru: "lrq_in_use (lhb_requests u q)" if "lrq_in_use (lhb_requests t q)" for q
    using that n others_in_use(2) [OF o, of q] by (cases "q = r") simp_all
  have 1: "lock_ok u k \<and> k < lhb_used u \<and> (\<forall>q \<in> set (queue u k). lrq_in_use (lhb_requests u q))" if "lbl_in_use (lhb_locks u k)" for k
  proof (cases "k = l")
    case False
    then show ?thesis using others_ok [OF i o False that] nq [of k] U [OF False] that used by auto
  next
    case True
    have "lrq_in_use (lhb_requests u q)" if "q \<in> set (queue u l)" for q
      using that i r(1) ru by (auto simp: table_ok_def Q split: if_splits)
    then show ?thesis using True L by simp
  qed
  have 2: "lbl_in_use (lhb_locks u (lrq_lock (lhb_requests u q))) \<and> q \<in> set (queue u (lrq_lock (lhb_requests u q)))
     \<and> q < lhb_used u \<and> lrq_owner (lhb_requests u q) \<in> set (lhb_owners u)" if "lrq_in_use (lhb_requests u q)" for q
  proof (cases "q = r")
    case True
    then show ?thesis using r L Q by simp
  next
    case False
    note O = others_request [OF i o False that]
    have "lbl_in_use (lhb_locks t (lrq_lock (lhb_requests t q)))" "q \<in> set (queue t (lrq_lock (lhb_requests t q)))"
      using i O(1) by (simp_all add: table_ok_def)
    then show ?thesis using O L Q used own by (cases "lrq_lock (lhb_requests t q) = l") auto
  qed
  have 3: "\<not> lrq_in_use (lhb_requests u q) \<and> q < lhb_used u" if "q \<in> set (lhb_free_requests u)" for q
    using that fr(2) others_free [OF i o, of q] used less_le_trans by blast
  have 4: "lrq_in_use (lhb_requests u q)" if "pending u q" for q
    using others_pending [OF i o _ that] r(1) by blast
  have 5: "\<not> lbl_in_use (lhb_locks u k) \<and> k < lhb_used u" if "k \<in> set (lhb_free_locks u)" for k
  proof -
    have "k \<noteq> l" "k \<in> set (lhb_free_locks t)" using that fl(2) by auto
    then show ?thesis using inv_freeD [OF i, of k] U [of k] used by simp
  qed
  have 6: "distinct (lhb_hash u s) \<and> (\<forall>k \<in> set (lhb_hash u s). lbl_in_use (lhb_locks u k))" for s
  proof -
    have "lbl_in_use (lhb_locks u k)" if "k \<in> set (lhb_hash u s)" for k
      using that h [of s] i L(1) U [of k] by (cases "k = l") (auto simp: table_ok_def)
    then show ?thesis using h [of s] by blast
  qed
  have 7: "0 < sizeof_lrq u \<and> 0 < sizeof_lbl u \<and> 0 < ALIGNMENT u" using inv_sizes [OF i] by (simp add: sz)
  show ?thesis by (rule invI [OF 1 2 3 4 fr(1) fl(1) 5 6 7])
qed

text \<open>A free request that stays free.\<close>

lemma inv_spare:
  assumes i: "table_ok t" and n: "\<not> lrq_in_use (lhb_requests t r)" "\<not> lrq_in_use (lhb_requests u r)" "\<not> pending u r"
    and S: "\<And>q. q \<noteq> r \<Longrightarrow> shape (lhb_requests u q) = shape (lhb_requests t q)"
    and L: "\<And>k. lshape (lhb_locks u k) = lshape (lhb_locks t k)"
    and used: "lhb_used t \<le> lhb_used u" "r < lhb_used u" and own: "lhb_owners u = lhb_owners t"
    and fr: "distinct (lhb_free_requests u)" "set (lhb_free_requests u) \<subseteq> insert r (set (lhb_free_requests t))"
    and fl: "lhb_free_locks u = lhb_free_locks t" and h: "lhb_hash u = lhb_hash t"
    and sz: "sizeof_lrq u = sizeof_lrq t" "sizeof_lbl u = sizeof_lbl t" "ALIGNMENT u = ALIGNMENT t"
  shows "table_ok u"
proof -
  have o: "others l r t u" for l using S L by (simp add: others_def)
  have nq: "r \<notin> set (queue t k)" if "lbl_in_use (lhb_locks t k)" for k using i n that by (auto simp: table_ok_def)
  note lf = lshape_fields [OF L]
  have 1: "lock_ok u k \<and> k < lhb_used u \<and> (\<forall>q \<in> set (queue u k). lrq_in_use (lhb_requests u q))" if "lbl_in_use (lhb_locks u k)" for k
    using others_ok [OF i o [of "Suc k"], of k] nq [of k] that used by (auto simp: lf)
  have 2: "lbl_in_use (lhb_locks u (lrq_lock (lhb_requests u q))) \<and> q \<in> set (queue u (lrq_lock (lhb_requests u q)))
     \<and> q < lhb_used u \<and> lrq_owner (lhb_requests u q) \<in> set (lhb_owners u)" if "lrq_in_use (lhb_requests u q)" for q
  proof -
    have "q \<noteq> r" using that n by blast
    note O = others_request [OF i o [of "Suc (lrq_lock (lhb_requests t q))"] this that]
    show ?thesis using O used own by simp
  qed
  have 3: "\<not> lrq_in_use (lhb_requests u q) \<and> q < lhb_used u" if "q \<in> set (lhb_free_requests u)" for q
    using that fr(2) others_free [OF i o, of q] used n by (cases "q = r") auto
  have 4: "lrq_in_use (lhb_requests u q)" if "pending u q" for q
    using others_pending [OF i o _ that] n(3) that by blast
  have 5: "\<not> lbl_in_use (lhb_locks u k) \<and> k < lhb_used u" if "k \<in> set (lhb_free_locks u)" for k
    using that i used by (auto simp: table_ok_def lf fl)
  have 6: "distinct (lhb_hash u s) \<and> (\<forall>k \<in> set (lhb_hash u s). lbl_in_use (lhb_locks u k))" for s
    using i by (simp add: table_ok_def lf h)
  have 7: "0 < sizeof_lrq u \<and> 0 < sizeof_lbl u \<and> 0 < ALIGNMENT u" using inv_sizes [OF i] by (simp add: sz)
  have 8: "distinct (lhb_free_locks u)" using i by (simp add: table_ok_def fl)
  show ?thesis by (rule invI [OF 1 2 3 4 fr(1) 8 5 6 7])
qed

end
