(* ===== verification/FB_LockDeadlock.thy ===== *)
theory FB_LockDeadlock
  imports FB_LockInv
begin

section \<open>The search for deadlocks\<close>

text \<open>
  \<^verbatim>\<open>deadlock_walk\<close> follows the requests that wait for each other and marks those it has seen. Here: the
  graph it walks through, that the search ends, and that it finds a victim exactly if there is a circle.
\<close>

subsection \<open>The graph\<close>

text \<open>The marks of the walk, history and statistics are left out.\<close>

definition plain :: "lrq \<Rightarrow> lrq" where
  "plain q = q\<lparr>lrq_flags := lrq_flags q - {LRQ_deadlock, LRQ_scanned}\<rparr>"

definition skel :: "lhb \<Rightarrow> lhb" where
  "skel t = t\<lparr>lhb_requests := plain \<circ> lhb_requests t, lhb_history := [], lhb_stats := (\<lambda>_. 0)\<rparr>"

definition on_path :: "lhb \<Rightarrow> nat set" where
  "on_path t = {r. LRQ_deadlock \<in> lrq_flags (lhb_requests t r)}"

definition scanned :: "lhb \<Rightarrow> nat set" where
  "scanned t = {r. LRQ_scanned \<in> lrq_flags (lhb_requests t r)}"

text \<open>
  A request is blocked by the granted requests whose level is incompatible with what it asks for. If requests
  are served in order, one that holds nothing yet is blocked by those in front of it, with the higher of what they hold and
  what they ask for.
\<close>

definition blocker :: "lhb \<Rightarrow> nat \<Rightarrow> nat \<Rightarrow> bool" where
  "blocker t p b \<longleftrightarrow>
     (if LOCK_ordering t \<and> level t p \<le> LCK_null
      then b \<in> set (takeWhile (\<lambda>b. b \<noteq> p) (queue t (lrq_lock (lhb_requests t p))))
        \<and> \<not> COMPATIBLE (lrq_requested (lhb_requests t p)) (max (level t b) (lrq_requested (lhb_requests t b)))
      else b \<in> set (queue t (lrq_lock (lhb_requests t p))) \<and> b \<noteq> p \<and> \<not> COMPATIBLE (lrq_requested (lhb_requests t p)) (level t b))"

text \<open>The owner of \<open>b\<close> waits without a time limit for its request \<open>q\<close>.\<close>

definition stuck :: "lhb \<Rightarrow> nat \<Rightarrow> nat \<Rightarrow> bool" where
  "stuck t b q \<longleftrightarrow> OWN_timeout \<notin> own_flags (lhb_own t (lrq_owner (lhb_requests t b)))
     \<and> q = own_pending_request (lhb_own t (lrq_owner (lhb_requests t b))) \<and> q \<noteq> 0 \<and> pending t q"

definition waits_for :: "lhb \<Rightarrow> nat \<Rightarrow> nat \<Rightarrow> bool" where
  "waits_for t p q \<longleftrightarrow> (\<exists>b. blocker t p b \<and> stuck t b q)"

text \<open>The part of it that the walk follows: owners that still have notices to handle may yet let go.\<close>

definition busy :: "lhb \<Rightarrow> nat \<Rightarrow> bool" where
  "busy t b \<longleftrightarrow> LRQ_just_granted \<in> lrq_flags (lhb_requests t b) \<or> own_signaled (lhb_own t (lrq_owner (lhb_requests t b)))
     \<or> own_blocks (lhb_own t (lrq_owner (lhb_requests t b))) \<noteq> []"

definition pursued :: "lhb \<Rightarrow> nat \<Rightarrow> nat \<Rightarrow> bool" where
  "pursued t p q \<longleftrightarrow> (\<exists>b. blocker t p b \<and> stuck t b q \<and> \<not> busy t b)"

text \<open>The same in the terms of the code.\<close>

definition visible :: "lhb \<Rightarrow> nat \<Rightarrow> nat list \<Rightarrow> nat list" where
  "visible t p bs = (if LOCK_ordering t \<and> \<not> LCK_null < level t p then takeWhile (\<lambda>b. b \<noteq> p) bs else bs)"

lemma blocker_iff: "blocker t p b \<longleftrightarrow> b \<in> set (visible t p (queue t (lrq_lock (lhb_requests t p)))) \<and> blocks_request p b t"
  by (auto simp: blocker_def visible_def blocks_request_def Let_def not_less)

lemma pursued_iff: "pursued t p q \<longleftrightarrow> (\<exists>b. blocker t p b \<and> stuck t b q \<and> \<not> ast_unfinished b t)"
  unfolding pursued_def busy_def ast_unfinished_def Let_def by blast

lemma pursued_waits: "pursued t p q \<Longrightarrow> waits_for t p q"
  by (auto simp: pursued_iff waits_for_def)

lemma pursued_reach_star: "(pursued t)\<^sup>*\<^sup>* x y \<Longrightarrow> (waits_for t)\<^sup>*\<^sup>* x y"
  by (induction rule: rtranclp_induct) (simp, metis rtranclp.rtrancl_into_rtrancl pursued_waits)

lemma pursued_reach_plus: "(pursued t)\<^sup>+\<^sup>+ x y \<Longrightarrow> (waits_for t)\<^sup>+\<^sup>+ x y"
  by (induction rule: tranclp_induct) (metis tranclp.r_into_trancl pursued_waits, metis tranclp.trancl_into_trancl pursued_waits)

lemmas pursued_reach = pursued_reach_star pursued_reach_plus

lemma skel_fields:
  assumes "skel u = skel t"
  shows "lhb_own u = lhb_own t" "lhb_owners u = lhb_owners t" "LOCK_ordering u = LOCK_ordering t" "lhb_locks u = lhb_locks t"
    "level u r = level t r" "lrq_requested (lhb_requests u r) = lrq_requested (lhb_requests t r)"
    "lrq_lock (lhb_requests u r) = lrq_lock (lhb_requests t r)" "lrq_owner (lhb_requests u r) = lrq_owner (lhb_requests t r)"
    "pending u r = pending t r" "LRQ_just_granted \<in> lrq_flags (lhb_requests u r) \<longleftrightarrow> LRQ_just_granted \<in> lrq_flags (lhb_requests t r)"
  using arg_cong [OF assms, of lhb_own] arg_cong [OF assms, of lhb_owners] arg_cong [OF assms, of LOCK_ordering] arg_cong [OF assms, of lhb_locks]
    arg_cong [OF assms, of "\<lambda>t. level t r"] arg_cong [OF assms, of "\<lambda>t. lrq_requested (lhb_requests t r)"]
    arg_cong [OF assms, of "\<lambda>t. lrq_lock (lhb_requests t r)"] arg_cong [OF assms, of "\<lambda>t. lrq_owner (lhb_requests t r)"]
    arg_cong [OF assms, of "\<lambda>t. pending t r"] arg_cong [OF assms, of "\<lambda>t. LRQ_just_granted \<in> lrq_flags (lhb_requests t r)"]
  by (simp_all add: skel_def plain_def pending_def)

lemma skel_walk:
  assumes s: "skel u = skel t"
  shows "visible u p bs = visible t p bs" "blocks_request p b u = blocks_request p b t" "ast_unfinished b u = ast_unfinished b t"
    "stuck u b q = stuck t b q"
  by (simp_all add: visible_def blocks_request_def ast_unfinished_def stuck_def Let_def skel_fields [OF s])

lemma core_skel: "core (skel t) = core t"
proof -
  have "(lrq_flags q - {LRQ_deadlock, LRQ_scanned}) \<inter> {LRQ_pending} = lrq_flags q \<inter> {LRQ_pending}" for q :: lrq by auto
  then have "shape (plain q) = shape q" for q by (simp add: shape_def plain_def)
  then have "shape \<circ> (plain \<circ> lhb_requests t) = shape \<circ> lhb_requests t" by (simp add: fun_eq_iff)
  then show ?thesis by (simp add: core_def skel_def)
qed

lemma core_if_skel: "skel u = skel t \<Longrightarrow> core u = core t"
  using core_skel by metis

lemma skel_set_request: "plain (f (lhb_requests t r)) = plain (lhb_requests t r) \<Longrightarrow> skel (set_request r f t) = skel t"
  by (simp add: skel_def set_request_def fun_eq_iff)

lemma plain_fs: "fs \<subseteq> {LRQ_deadlock, LRQ_scanned} \<Longrightarrow> plain (q\<lparr>lrq_flags := lrq_flags q - fs\<rparr>) = plain q"
  by (auto simp: plain_def intro!: lrq.equality)

lemma mark_skel [simp]:
  "skel (set_flag r LRQ_deadlock t) = skel t" "skel (set_flag r LRQ_scanned t) = skel t"
  "fs \<subseteq> {LRQ_deadlock, LRQ_scanned} \<Longrightarrow> skel (clear_flags r fs t) = skel t"
  unfolding set_flag_def clear_flags_def
  by (rule skel_set_request, simp add: plain_def, rule skel_set_request, simp add: plain_def, rule skel_set_request, rule plain_fs)

lemma skel_ops [simp]: "skel (bump s t) = skel t" "skel (post_history h a b c t) = skel t"
  by (simp_all add: skel_def bump_def post_history_def)

lemma skel_graph:
  assumes s: "skel u = skel t"
  shows "pursued u = pursued t" "waits_for u = waits_for t"
  by (simp_all add: fun_eq_iff pursued_iff waits_for_def blocker_iff skel_walk [OF s] skel_fields [OF s])

lemma mark_sets [simp]:
  "on_path (set_flag r LRQ_deadlock t) = insert r (on_path t)" "scanned (set_flag r LRQ_deadlock t) = scanned t"
  "on_path (set_flag r LRQ_scanned t) = on_path t" "scanned (set_flag r LRQ_scanned t) = insert r (scanned t)"
  "on_path (clear_flags r {LRQ_deadlock} t) = on_path t - {r}" "scanned (clear_flags r {LRQ_deadlock} t) = scanned t"
  by (auto simp: on_path_def scanned_def set_flag_def clear_flags_def)

subsection \<open>The walk\<close>

text \<open>\<open>g\<close> is the table the walk began with, \<open>P\<close> the requests it can come to.\<close>

definition walk_ok :: "nat set \<Rightarrow> lhb \<Rightarrow> lhb \<Rightarrow> bool" where
  "walk_ok P g t \<longleftrightarrow> skel t = skel g \<and> (\<forall>s \<in> scanned t \<inter> P. \<forall>q. pursued g s q \<longrightarrow> q \<in> scanned t)
     \<and> (\<forall>s \<in> scanned t \<inter> P. \<not> (pursued g)\<^sup>+\<^sup>+ s s) \<and> on_path t \<inter> scanned t \<inter> P = {}"

text \<open>\<open>sure\<close>: unless it may be that a deadlock was missed, nothing that waits was left out.\<close>

definition sure :: "nat set \<Rightarrow> lhb \<Rightarrow> bool \<Rightarrow> lhb \<Rightarrow> bool" where
  "sure P g m t \<longleftrightarrow> m \<or> (\<forall>s \<in> scanned t \<inter> P. \<forall>q. waits_for g s q \<longrightarrow> pursued g s q)"

definition unseen :: "nat set \<Rightarrow> lhb \<Rightarrow> nat" where
  "unseen P t = card (P - on_path t - scanned t)"

definition walk_result :: "nat set \<Rightarrow> lhb \<Rightarrow> nat \<Rightarrow> bool \<Rightarrow> lhb \<Rightarrow> nat option \<Rightarrow> bool \<Rightarrow> lhb \<Rightarrow> bool" where
  "walk_result P g r m t victim m' u \<longleftrightarrow> skel u = skel g \<and> (m \<longrightarrow> m') \<and>
     (case victim of
        Some x \<Rightarrow> x \<in> P \<and> (pursued g)\<^sup>+\<^sup>+ x x \<and> (pursued g)\<^sup>*\<^sup>* r x
      | None \<Rightarrow> walk_ok P g u \<and> sure P g m' u \<and> on_path u \<inter> P = on_path t \<inter> P \<and> scanned t \<inter> P \<subseteq> scanned u)"

text \<open>What is known of the blocks that a request has been compared with.\<close>

definition settled :: "lhb \<Rightarrow> nat \<Rightarrow> nat list \<Rightarrow> bool \<Rightarrow> lhb \<Rightarrow> bool" where
  "settled g r bs m u \<longleftrightarrow> (\<forall>b \<in> set (visible g r bs). \<forall>q. blocks_request r b g \<and> stuck g b q \<longrightarrow>
     (ast_unfinished b g \<longrightarrow> m) \<and> (\<not> ast_unfinished b g \<longrightarrow> q \<in> scanned u))"

lemma unseen_mono:
  "finite P \<Longrightarrow> on_path u \<inter> P = on_path t \<inter> P \<Longrightarrow> scanned t \<inter> P \<subseteq> scanned u \<Longrightarrow> unseen P u \<le> unseen P t"
  unfolding unseen_def by (rule card_mono) auto

lemma unseen_mark:
  assumes "finite P" and "r \<in> P" and "r \<notin> on_path t" and "r \<notin> scanned t"
  shows "unseen P (set_flag r LRQ_deadlock t) < unseen P t"
  unfolding unseen_def by (rule psubset_card_mono) (use assms in auto)

lemma closed_reach:
  assumes "R\<^sup>*\<^sup>* x y" and "x \<in> S \<inter> P" and "\<And>p q. p \<in> S \<inter> P \<Longrightarrow> R p q \<Longrightarrow> q \<in> S" and "\<And>p q. p \<in> P \<Longrightarrow> R p q \<Longrightarrow> q \<in> P"
  shows "y \<in> S \<inter> P"
  using assms(1,2) by (induction rule: rtranclp_induct) (use assms(3,4) in blast)+

lemma walk_ok_mark:
  "walk_ok P g t \<Longrightarrow> r \<notin> scanned t \<Longrightarrow> walk_ok P g (set_flag r LRQ_deadlock t)"
  by (auto simp: walk_ok_def)

lemma walk_ok_finish:
  assumes ok: "walk_ok P g u" and r: "r \<in> P" "r \<in> on_path u" and s: "\<And>q. pursued g r q \<Longrightarrow> q \<in> scanned u"
    and cl: "\<forall>p \<in> P. \<forall>q. pursued g p q \<longrightarrow> q \<in> P"
  shows "walk_ok P g (set_flag r LRQ_scanned (clear_flags r {LRQ_deadlock} u))"
proof -
  have n: "r \<notin> scanned u" and c: "\<And>p q. p \<in> scanned u \<inter> P \<Longrightarrow> pursued g p q \<Longrightarrow> q \<in> scanned u"
    using ok r by (auto simp: walk_ok_def)
  have "\<not> (pursued g)\<^sup>+\<^sup>+ r r"
  proof
    assume "(pursued g)\<^sup>+\<^sup>+ r r"
    then obtain x where x: "pursued g r x" "(pursued g)\<^sup>*\<^sup>* x r" by (auto dest: tranclpD)
    have "r \<in> scanned u \<inter> P" by (rule closed_reach [OF x(2) _ c]) (use x(1) s cl r(1) in blast)+
    then show False using n by blast
  qed
  then show ?thesis using ok s by (auto simp: walk_ok_def)
qed

lemma sure_finish:
  assumes "sure P g m u" and "m \<or> (\<forall>q. waits_for g r q \<longrightarrow> pursued g r q)"
  shows "sure P g m (set_flag r LRQ_scanned (clear_flags r {LRQ_deadlock} u))"
  using assms by (auto simp: sure_def)

lemma settled_all:
  assumes "settled g r (queue g (lrq_lock (lhb_requests g r))) m u"
  shows "pursued g r q \<Longrightarrow> q \<in> scanned u" and "\<not> m \<Longrightarrow> waits_for g r q \<Longrightarrow> pursued g r q"
  using assms by (auto simp: settled_def pursued_iff waits_for_def blocker_iff)

lemma visible_Cons:
  "visible g r (b # bs) = (if LOCK_ordering g \<and> \<not> LCK_null < level g r \<and> r = b then [] else b # visible g r bs)"
  by (auto simp: visible_def)

lemma walk_step_done:
  "walk_ok P g t \<Longrightarrow> sure P g m t \<Longrightarrow> walk_result P g r m t None m t"
  by (simp add: walk_result_def walk_ok_def)

lemma walk_finish:
  assumes fin: "finite P" and cl: "\<forall>p \<in> P. \<forall>q. pursued g p q \<longrightarrow> q \<in> P"
    and r: "r \<in> P" "r \<notin> on_path t"
    and res: "walk_result P g r m (set_flag r LRQ_deadlock t) None m' u"
    and st: "settled g r (queue g (lrq_lock (lhb_requests g r))) m' u"
  shows "walk_result P g r m t None m' (set_flag r LRQ_scanned (clear_flags r {LRQ_deadlock} u))"
proof -
  have ok: "walk_ok P g u" and sr: "sure P g m' u" and op: "on_path u \<inter> P = insert r (on_path t) \<inter> P"
    and sc: "scanned t \<inter> P \<subseteq> scanned u" and sk: "skel u = skel g" and mm: "m \<longrightarrow> m'"
    using res by (simp_all add: walk_result_def)
  have ru: "r \<in> on_path u" using op r(1) by auto
  have "walk_ok P g (set_flag r LRQ_scanned (clear_flags r {LRQ_deadlock} u))"
    by (rule walk_ok_finish [OF ok r(1) ru settled_all(1) [OF st] cl])
  moreover have "sure P g m' (set_flag r LRQ_scanned (clear_flags r {LRQ_deadlock} u))"
    by (rule sure_finish [OF sr]) (use settled_all(2) [OF st] in blast)
  moreover have "(on_path u - {r}) \<inter> P = on_path t \<inter> P" using op r(2) by auto
  ultimately show ?thesis using sk mm sc by (auto simp: walk_result_def)
qed

lemma walk_pass:
  assumes "walk_result P g q m t (Some x) m' u" and "pursued g r q"
  shows "walk_result P g r m t (Some x) m' u"
  using assms by (auto simp: walk_result_def intro: converse_rtranclp_into_rtranclp)

lemma walk_compose:
  assumes "walk_result P g q m t None m1 t1" and "walk_result P g r m1 t1 v m' u"
  shows "walk_result P g r m t v m' u"
  using assms by (auto simp: walk_result_def split: option.splits)

lemma walk_weaken: "walk_result P g r True t v m' u \<Longrightarrow> walk_result P g r m t v m' u"
  by (auto simp: walk_result_def split: option.splits)

lemma settled_Cons:
  assumes "settled g r bs m u"
    and "\<And>q. blocks_request r b g \<Longrightarrow> stuck g b q \<Longrightarrow> (ast_unfinished b g \<longrightarrow> m) \<and> (\<not> ast_unfinished b g \<longrightarrow> q \<in> scanned u)"
  shows "settled g r (b # bs) m u"
  using assms by (auto simp: settled_def visible_Cons)

text \<open>One turn of the loop of \<^verbatim>\<open>deadlock_walk\<close> for a request \<open>b\<close> that is looked at.\<close>

lemma walk_blocks_turn:
  assumes sk: "skel t = skel g" and n: "\<not> (LOCK_ordering g \<and> \<not> LCK_null < level g r \<and> r = b)"
  obtains (free) "\<And>q. \<not> (blocks_request r b g \<and> stuck g b q)" "walk_blocks n r (b # bs) m t = walk_blocks n r bs m t"
    | (notice) "ast_unfinished b g" "walk_blocks n r (b # bs) m t = walk_blocks n r bs True t"
    | (go) q where "blocks_request r b g" "stuck g b q" "\<not> ast_unfinished b g"
        "walk_blocks n r (b # bs) m t = (case deadlock_walk n q m t of None \<Rightarrow> None | Some (Some v, m, t) \<Rightarrow> Some (Some v, m, t)
           | Some (None, m, t) \<Rightarrow> walk_blocks n r bs m t)"
proof -
  let ?w = "lhb_own g (lrq_owner (lhb_requests g b))"
  let ?q = "own_pending_request ?w"
  note S = skel_walk [OF sk] skel_fields [OF sk]
  have p: "LRQ_pending \<in> lrq_flags (lhb_requests t x) \<longleftrightarrow> pending g x" for x using S(13) [of x] by (simp add: pending_def)
  consider "\<not> blocks_request r b g \<or> OWN_timeout \<in> own_flags ?w \<or> (\<not> ast_unfinished b g \<and> \<not> stuck g b ?q)"
    | "blocks_request r b g" "OWN_timeout \<notin> own_flags ?w" "ast_unfinished b g"
    | "blocks_request r b g" "stuck g b ?q" "\<not> ast_unfinished b g" by blast
  then show ?thesis
  proof cases
    case 1
    then have "\<not> (blocks_request r b g \<and> stuck g b q)" if "\<not> ast_unfinished b g \<or> \<not> blocks_request r b g \<or> OWN_timeout \<in> own_flags ?w" for q
      using that by (auto simp: stuck_def)
    then show ?thesis using 1 n free by (auto simp: S p stuck_def Let_def)
  next
    case 2
    then show ?thesis using n notice by (auto simp: S)
  next
    case 3
    then show ?thesis using n go [of ?q] by (auto simp: S p stuck_def Let_def)
  qed
qed

text \<open>What the search with depth \<open>n\<close> achieves.\<close>

definition walks :: "nat set \<Rightarrow> lhb \<Rightarrow> nat \<Rightarrow> bool" where
  "walks P g n \<longleftrightarrow> (\<forall>r m t. walk_ok P g t \<longrightarrow> sure P g m t \<longrightarrow> r \<in> P \<longrightarrow> (\<forall>d \<in> on_path t \<inter> P. (pursued g)\<^sup>+\<^sup>+ d r) \<longrightarrow> unseen P t < n
     \<longrightarrow> (\<exists>v m' u. deadlock_walk n r m t = Some (v, m', u) \<and> walk_result P g r m t v m' u \<and> (v = None \<longrightarrow> r \<in> scanned u)))"

lemma walk_blocks_ok:
  assumes fin: "finite P" and cl: "\<forall>p \<in> P. \<forall>q. pursued g p q \<longrightarrow> q \<in> P" and W: "walks P g n" and r: "r \<in> P"
  shows "walk_ok P g t \<Longrightarrow> sure P g m t \<Longrightarrow> r \<in> on_path t \<Longrightarrow> \<forall>d \<in> on_path t \<inter> P. (pursued g)\<^sup>*\<^sup>* d r \<Longrightarrow> unseen P t < n
      \<Longrightarrow> set (visible g r bs) \<subseteq> set (visible g r (queue g (lrq_lock (lhb_requests g r))))
      \<Longrightarrow> \<exists>v m' u. walk_blocks n r bs m t = Some (v, m', u) \<and> walk_result P g r m t v m' u \<and> (v = None \<longrightarrow> settled g r bs m' u)"
proof (induction bs arbitrary: m t)
  case Nil
  then show ?case using walk_step_done [of P g t m r] by (auto simp: settled_def visible_def)
next
  case (Cons b bs)
  have sk: "skel t = skel g" using Cons.prems(1) by (simp add: walk_ok_def)
  show ?case
  proof (cases "LOCK_ordering g \<and> \<not> LCK_null < level g r \<and> r = b")
    case True
    then have "LOCK_ordering t \<and> \<not> LCK_null < level t r \<and> r = b" unfolding skel_fields(3,5) [OF sk] .
    then have "walk_blocks n r (b # bs) m t = Some (None, m, t)" by (subst walk_blocks.simps(2)) (rule if_P)
    then show ?thesis using True walk_step_done [OF Cons.prems(1,2), of r] by (auto simp: settled_def visible_Cons)
  next
    case False
    have sub: "set (visible g r bs) \<subseteq> set (visible g r (queue g (lrq_lock (lhb_requests g r))))"
      and b: "b \<in> set (visible g r (queue g (lrq_lock (lhb_requests g r))))"
      using Cons.prems(6) False by (simp_all add: visible_Cons)
    from sk False show ?thesis
    proof (cases rule: walk_blocks_turn [of t g r b n bs m])
      case free
      obtain v m' u where u: "walk_blocks n r bs m t = Some (v, m', u)" "walk_result P g r m t v m' u" "v = None \<longrightarrow> settled g r bs m' u"
        using Cons.IH [OF Cons.prems(1-5) sub] by blast
      then show ?thesis using free settled_Cons [of g r bs m' u b] by auto
    next
      case notice
      have "sure P g True t" by (simp add: sure_def)
      then obtain v m' u where u: "walk_blocks n r bs True t = Some (v, m', u)" "walk_result P g r True t v m' u"
          "v = None \<longrightarrow> settled g r bs m' u"
        using Cons.IH [OF Cons.prems(1) _ Cons.prems(3-5) sub] by blast
      then have m': m' by (simp add: walk_result_def)
      show ?thesis using notice u m' walk_weaken [OF u(2)] settled_Cons [of g r bs m' u b] by auto
    next
      case (go q)
      have e: "pursued g r q" using go b by (auto simp: pursued_iff blocker_iff)
      then have qP: "q \<in> P" using cl r by blast
      have "\<forall>d \<in> on_path t \<inter> P. (pursued g)\<^sup>+\<^sup>+ d q" using Cons.prems(4) e by (auto intro: rtranclp_into_tranclp1)
      then obtain v m1 t1 where w: "deadlock_walk n q m t = Some (v, m1, t1)" "walk_result P g q m t v m1 t1" "v = None \<longrightarrow> q \<in> scanned t1"
        using W Cons.prems(1,2,5) qP unfolding walks_def by blast
      show ?thesis
      proof (cases v)
        case (Some x)
        then show ?thesis using go(4) w walk_pass [OF _ e] by auto
      next
        case None
        have o: "on_path t1 \<inter> P = on_path t \<inter> P" "scanned t \<inter> P \<subseteq> scanned t1" "walk_ok P g t1" "sure P g m1 t1"
          using w(2) None by (simp_all add: walk_result_def)
        have "unseen P t1 < n" using unseen_mono [OF fin o(1,2)] Cons.prems(5) by simp
        then obtain v' m' u where u: "walk_blocks n r bs m1 t1 = Some (v', m', u)" "walk_result P g r m1 t1 v' m' u"
          "v' = None \<longrightarrow> settled g r bs m' u"
          using Cons.IH [OF o(3,4) _ _ _ sub] Cons.prems(3,4) o(1) r by blast
        have "q \<in> scanned u" if "v' = None"
          using that u(2) w(3) None qP by (auto simp: walk_result_def)
        moreover have "q' = q" if "stuck g b q'" for q' using that go(2) by (simp add: stuck_def)
        ultimately have "v' = None \<longrightarrow> settled g r (b # bs) m' u" using u(3) settled_Cons [of g r bs m' u b] go(3) by blast
        then show ?thesis using go(4) w(1) None u(1) walk_compose [OF _ u(2), of q m t] w(2) by simp
      qed
    qed
  qed
qed

lemma walks_all:
  assumes fin: "finite P" and cl: "\<forall>p \<in> P. \<forall>q. pursued g p q \<longrightarrow> q \<in> P"
  shows "walks P g n"
proof (induction n)
  case 0
  then show ?case by (simp add: walks_def)
next
  case (Suc n)
  have "\<exists>v m' u. deadlock_walk (Suc n) r m t = Some (v, m', u) \<and> walk_result P g r m t v m' u \<and> (v = None \<longrightarrow> r \<in> scanned u)"
    if ok: "walk_ok P g t" and s: "sure P g m t" and r: "r \<in> P" and d: "\<forall>d \<in> on_path t \<inter> P. (pursued g)\<^sup>+\<^sup>+ d r"
      and n: "unseen P t < Suc n" for r m t
  proof -
    consider "r \<in> scanned t" | "r \<notin> scanned t" "r \<in> on_path t" | "r \<notin> scanned t" "r \<notin> on_path t" by blast
    then show ?thesis
    proof cases
      case 1
      then show ?thesis using walk_step_done [OF ok s] by (simp add: scanned_def)
    next
      case 2
      then have "deadlock_walk (Suc n) r m t = Some (Some r, m, t)" by (simp add: scanned_def on_path_def)
      then show ?thesis using 2 d r ok by (auto simp: walk_result_def walk_ok_def)
    next
      case 3
      let ?t = "set_flag r LRQ_deadlock t" and ?q = "queue g (lrq_lock (lhb_requests g r))"
      have sk: "skel ?t = skel g" using ok by (simp add: walk_ok_def)
      have q: "queue ?t (lrq_lock (lhb_requests ?t r)) = ?q" by (simp add: skel_fields [OF sk])
      have n': "unseen P ?t < n" using unseen_mark [OF fin r 3(2,1)] n by simp
      have sd: "sure P g m ?t" "r \<in> on_path ?t" "\<forall>d \<in> on_path ?t \<inter> P. (pursued g)\<^sup>*\<^sup>* d r"
        using s d by (auto simp: sure_def dest: tranclp_into_rtranclp)
      obtain v m' u where w: "walk_blocks n r ?q m ?t = Some (v, m', u)" "walk_result P g r m ?t v m' u"
        "v = None \<longrightarrow> settled g r ?q m' u"
        using walk_blocks_ok [OF fin cl Suc r walk_ok_mark [OF ok 3(1)] sd n' subset_refl] by blast
      have e: "deadlock_walk (Suc n) r m t = (case v of Some x \<Rightarrow> Some (Some x, m', u)
          | None \<Rightarrow> Some (None, m', set_flag r LRQ_scanned (clear_flags r {LRQ_deadlock} u)))"
        using 3 w(1) q by (simp add: scanned_def on_path_def Let_def split: option.splits)
      show ?thesis
      proof (cases v)
        case None
        then show ?thesis using e walk_finish [OF fin cl r 3(2)] w by simp
      next
        case (Some x)
        then show ?thesis using e w(2) by (auto simp: walk_result_def)
      qed
    qed
  qed
  then show ?case unfolding walks_def by blast
qed

subsection \<open>The scan\<close>

lemma clear_marks:
  "on_path (clear_flags r {LRQ_deadlock, LRQ_scanned} t) = on_path t - {r}"
  "scanned (clear_flags r {LRQ_deadlock, LRQ_scanned} t) = scanned t - {r}"
  by (auto simp: on_path_def scanned_def clear_flags_def)

definition clear_owner :: "nat \<Rightarrow> lhb \<Rightarrow> lhb" where
  "clear_owner w t = (let p = own_pending_request (lhb_own t w) in if p = 0 then t else clear_flags p {LRQ_deadlock, LRQ_scanned} t)"

lemma deadlock_clear_fold: "deadlock_clear t = fold clear_owner (lhb_owners t) t"
  unfolding deadlock_clear_def clear_owner_def ..

lemma clear_owner_ok:
  "skel (clear_owner w t) = skel t" "on_path (clear_owner w t) \<union> scanned (clear_owner w t) \<subseteq> on_path t \<union> scanned t"
  "own_pending_request (lhb_own t w) \<noteq> 0 \<Longrightarrow>
     own_pending_request (lhb_own t w) \<notin> on_path (clear_owner w t) \<union> scanned (clear_owner w t)"
  by (auto simp: clear_owner_def Let_def clear_marks)

lemma clear_fold_ok:
  "skel (fold clear_owner ws t) = skel t \<and> on_path (fold clear_owner ws t) \<union> scanned (fold clear_owner ws t) \<subseteq> on_path t \<union> scanned t
   \<and> (\<forall>w \<in> set ws. own_pending_request (lhb_own t w) \<noteq> 0 \<longrightarrow>
        own_pending_request (lhb_own t w) \<notin> on_path (fold clear_owner ws t) \<union> scanned (fold clear_owner ws t))"
proof (induction ws arbitrary: t)
  case (Cons v ws)
  let ?t = "clear_owner v t"
  have o: "lhb_own ?t = lhb_own t" by (rule skel_fields(1) [OF clear_owner_ok(1)])
  have "own_pending_request (lhb_own t w) \<notin> on_path (fold clear_owner ws ?t) \<union> scanned (fold clear_owner ws ?t)"
    if "w \<in> set (v # ws)" "own_pending_request (lhb_own t w) \<noteq> 0" for w
    using that Cons.IH [of ?t] clear_owner_ok(3) [of t v] o by (cases "w = v") auto
  then show ?case using Cons.IH [of ?t] clear_owner_ok(1,2) [of v t] by auto
qed simp

text \<open>The requests somebody waits for.\<close>

definition awaited :: "lhb \<Rightarrow> nat set" where
  "awaited t = {p. p \<noteq> 0 \<and> pending t p \<and> (\<exists>w \<in> set (lhb_owners t). own_pending_request (lhb_own t w) = p)}"

definition owners_known :: "lhb \<Rightarrow> bool" where
  "owners_known t \<longleftrightarrow> (\<forall>p b. pending t p \<and> b \<in> set (queue t (lrq_lock (lhb_requests t p))) \<longrightarrow> lrq_owner (lhb_requests t b) \<in> set (lhb_owners t))"

lemma awaited_image: "awaited t \<subseteq> (\<lambda>w. own_pending_request (lhb_own t w)) ` set (lhb_owners t)"
  by (auto simp: awaited_def)

lemma finite_awaited: "finite (awaited t)"
  using awaited_image finite_subset by blast

lemma card_awaited: "card (awaited t) \<le> length (lhb_owners t)"
  by (meson List.finite_set awaited_image card_image_le card_length card_mono finite_imageI order_trans)

lemma awaited_closed:
  assumes k: "owners_known t" and p: "pending t p" and e: "pursued t p q"
  shows "q \<in> awaited t"
proof -
  obtain b where b: "blocker t p b" "stuck t b q" using e by (auto simp: pursued_iff)
  have "b \<in> set (queue t (lrq_lock (lhb_requests t p)))"
    using b(1) by (auto simp: blocker_iff visible_def dest: set_takeWhileD split: if_splits)
  then show ?thesis using k p b(2) by (auto simp: owners_known_def awaited_def stuck_def)
qed

lemma skel_awaited:
  assumes s: "skel u = skel t"
  shows "awaited u = awaited t" "owners_known u = owners_known t"
  by (simp_all add: awaited_def owners_known_def skel_fields [OF s])

definition cleared :: "nat \<Rightarrow> lhb \<Rightarrow> lhb" where
  "cleared r t = deadlock_clear (post_history his_scan (lrq_owner (lhb_requests t r)) (lrq_lock (lhb_requests t r)) r (bump lhb_scans t))"

lemma cleared_ok:
  fixes t :: lhb and r :: nat
  shows "skel (cleared r t) = skel t" and "awaited t \<inter> (on_path (cleared r t) \<union> scanned (cleared r t)) = {}"
proof -
  let ?t = "post_history his_scan (lrq_owner (lhb_requests t r)) (lrq_lock (lhb_requests t r)) r (bump lhb_scans t)"
  have s: "skel ?t = skel t" by simp
  show "skel (cleared r t) = skel t"
    using clear_fold_ok [of "lhb_owners ?t" ?t] s by (simp add: cleared_def deadlock_clear_fold)
  show "awaited t \<inter> (on_path (cleared r t) \<union> scanned (cleared r t)) = {}"
    using clear_fold_ok [of "lhb_owners ?t" ?t] skel_fields(1,2) [OF s]
    unfolding cleared_def deadlock_clear_fold awaited_def by auto
qed

text \<open>Whatever the marks are, the walk ends; its victim waits.\<close>

lemma scan_walk:
  assumes k: "owners_known t" and r: "pending t r"
  obtains v m u where "deadlock_walk (length (lhb_owners t) + 2) r False (cleared r t) = Some (v, m, u)" "skel u = skel t"
    "\<And>x. v = Some x \<Longrightarrow> pending t x"
    "r \<in> awaited t \<Longrightarrow> walk_result (insert r (awaited t)) t r False (cleared r t) v m u \<and> (v = None \<longrightarrow> r \<in> scanned u)"
proof -
  let ?P = "insert r (awaited t)" and ?c = "cleared r t" and ?n = "length (lhb_owners t) + 2"
  note c = cleared_ok [where r = r and t = t]
  have cl: "\<forall>p \<in> ?P. \<forall>q. pursued t p q \<longrightarrow> q \<in> ?P" using awaited_closed [OF k] r by (auto simp: awaited_def)
  have fin: "finite ?P" by (simp add: finite_awaited)
  have "unseen ?P ?c \<le> card ?P" unfolding unseen_def by (rule card_mono [OF fin]) auto
  also have "\<dots> < ?n" using card_awaited [of t] by (simp add: card_insert_if finite_awaited)
  finally have n: "unseen ?P ?c < ?n" .
  show ?thesis
  proof (cases "r \<in> on_path ?c \<union> scanned ?c")
    case True
    then have "deadlock_walk ?n r False ?c = Some (if r \<in> scanned ?c then None else Some r, False, ?c)"
      by (auto simp: on_path_def scanned_def)
    moreover have "r \<notin> awaited t" using True c(2) by blast
    ultimately show ?thesis using that [of _ False ?c] c(1) r by (auto split: if_splits)
  next
    case False
    then have e: "?P \<inter> on_path ?c = {}" "?P \<inter> scanned ?c = {}" using c(2) by auto
    have "walk_ok ?P t ?c" "sure ?P t False ?c" using e c(1) by (auto simp: walk_ok_def sure_def)
    then obtain v m u where w: "deadlock_walk ?n r False ?c = Some (v, m, u)" "walk_result ?P t r False ?c v m u" "v = None \<longrightarrow> r \<in> scanned u"
      using walks_all [OF fin cl, of ?n] n e unfolding walks_def by (metis Int_commute empty_iff insertI1)
    moreover have "pending t x" if "v = Some x" for x using w(2) that r by (auto simp: walk_result_def awaited_def)
    moreover have "skel u = skel t" using w(2) by (simp add: walk_result_def)
    ultimately show ?thesis using that by blast
  qed
qed

declare deadlock_walk.simps [simp del]

lemma deadlock_scan_walk:
  "deadlock_walk (length (lhb_owners t) + 2) r False (cleared r t) = Some (v, m, u) \<Longrightarrow> deadlock_scan w r t =
     Some (v, if v = None \<and> \<not> m then set_owner w (\<lambda>v. v\<lparr>own_flags := insert OWN_scanned (own_flags v)\<rparr>) u else u)"
  using skel_fields(2) [OF cleared_ok(1), of r t] by (simp add: deadlock_scan_def Let_def flip: cleared_def)

lemma scanned_acyclic:
  assumes ok: "walk_ok P g u" and r: "r \<in> scanned u \<inter> P" and cl: "\<forall>p \<in> P. \<forall>q. pursued g p q \<longrightarrow> q \<in> P"
  shows "(pursued g)\<^sup>*\<^sup>* r x \<Longrightarrow> x \<in> scanned u \<inter> P \<and> \<not> (pursued g)\<^sup>+\<^sup>+ x x"
proof -
  assume "(pursued g)\<^sup>*\<^sup>* r x"
  then have "x \<in> scanned u \<inter> P"
    by (rule closed_reach) (use ok r cl in \<open>auto simp: walk_ok_def\<close>)
  then show ?thesis using ok by (auto simp: walk_ok_def)
qed

lemma sure_waits:
  assumes ok: "walk_ok P g u" and s: "sure P g False u" and r: "r \<in> scanned u \<inter> P" and cl: "\<forall>p \<in> P. \<forall>q. pursued g p q \<longrightarrow> q \<in> P"
    and w: "(waits_for g)\<^sup>*\<^sup>* r x"
  shows "(pursued g)\<^sup>*\<^sup>* r x"
  using w
proof (induction rule: rtranclp_induct)
  case (step y z)
  have "y \<in> scanned u \<inter> P" using scanned_acyclic [OF ok r cl step.IH] by simp
  then have "pursued g y z" using s step.hyps(2) by (simp add: sure_def)
  then show ?case using step.IH by simp
qed simp

lemma no_circle:
  assumes ok: "walk_ok P g u" and s: "sure P g False u" and r: "r \<in> scanned u \<inter> P" and cl: "\<forall>p \<in> P. \<forall>q. pursued g p q \<longrightarrow> q \<in> P"
    and w: "(waits_for g)\<^sup>*\<^sup>* r x"
  shows "\<not> (waits_for g)\<^sup>+\<^sup>+ x x"
proof
  assume "(waits_for g)\<^sup>+\<^sup>+ x x"
  then obtain y where y: "waits_for g x y" "(waits_for g)\<^sup>*\<^sup>* y x" by (auto dest: tranclpD)
  have x: "x \<in> scanned u \<inter> P" using scanned_acyclic [OF ok r cl sure_waits [OF ok s r cl w]] by simp
  have p: "pursued g x y" using s x y(1) by (simp add: sure_def)
  then have "y \<in> scanned u \<inter> P" using ok x cl by (auto simp: walk_ok_def)
  then have "(pursued g)\<^sup>*\<^sup>* y x" using sure_waits [OF ok s _ cl y(2)] by blast
  with p have "(pursued g)\<^sup>+\<^sup>+ x x" by (rule rtranclp_into_tranclp2)
  then show False using ok x by (simp add: walk_ok_def)
qed

lemma scan_returns:
  assumes k: "owners_known t" and r: "pending t r"
  obtains v u where "deadlock_scan w r t = Some (v, u)" "core u = core t" "\<And>x. v = Some x \<Longrightarrow> pending t x"
proof -
  obtain v m u where w: "deadlock_walk (length (lhb_owners t) + 2) r False (cleared r t) = Some (v, m, u)" "skel u = skel t"
    "\<And>x. v = Some x \<Longrightarrow> pending t x" using scan_walk [OF k r] by metis
  have "core u = core t" by (rule core_if_skel [OF w(2)])
  then show ?thesis using w(3) that [OF deadlock_scan_walk [OF w(1)]] by simp
qed

lemma scan_exact:
  assumes k: "owners_known t" and r: "r \<in> awaited t"
  shows "\<exists>v u. deadlock_scan w r t = Some (v, u) \<and>
    (case v of
       Some x \<Rightarrow> pending t x \<and> (waits_for t)\<^sup>*\<^sup>* r x \<and> (waits_for t)\<^sup>+\<^sup>+ x x
     | None \<Rightarrow> (\<forall>x. (pursued t)\<^sup>*\<^sup>* r x \<longrightarrow> \<not> (pursued t)\<^sup>+\<^sup>+ x x)
         \<and> (OWN_scanned \<in> own_flags (lhb_own u w) \<longrightarrow> OWN_scanned \<in> own_flags (lhb_own t w)
              \<or> (\<forall>x. (waits_for t)\<^sup>*\<^sup>* r x \<longrightarrow> \<not> (waits_for t)\<^sup>+\<^sup>+ x x)))"
proof -
  let ?P = "insert r (awaited t)"
  have p: "pending t r" using r by (simp add: awaited_def)
  have cl: "\<forall>p \<in> ?P. \<forall>q. pursued t p q \<longrightarrow> q \<in> ?P" using awaited_closed [OF k] p by (auto simp: awaited_def)
  obtain v m u where w: "deadlock_walk (length (lhb_owners t) + 2) r False (cleared r t) = Some (v, m, u)" "skel u = skel t"
    "\<And>x. v = Some x \<Longrightarrow> pending t x" "walk_result ?P t r False (cleared r t) v m u" "v = None \<longrightarrow> r \<in> scanned u"
    using scan_walk [OF k p] r by metis
  let ?u = "if v = None \<and> \<not> m then set_owner w (\<lambda>v. v\<lparr>own_flags := insert OWN_scanned (own_flags v)\<rparr>) u else u"
  have e: "deadlock_scan w r t = Some (v, ?u)" by (rule deadlock_scan_walk [OF w(1)])
  show ?thesis
  proof (cases v)
    case (Some x)
    then show ?thesis using e w(3,4) pursued_reach by (simp add: walk_result_def)
  next
    case None
    have ok: "walk_ok ?P t u" "sure ?P t m u" "r \<in> scanned u \<inter> ?P" using w(4,5) None by (simp_all add: walk_result_def)
    have 1: "\<forall>x. (pursued t)\<^sup>*\<^sup>* r x \<longrightarrow> \<not> (pursued t)\<^sup>+\<^sup>+ x x" using scanned_acyclic [OF ok(1,3) cl] by blast
    have 2: "\<forall>x. (waits_for t)\<^sup>*\<^sup>* r x \<longrightarrow> \<not> (waits_for t)\<^sup>+\<^sup>+ x x" if "\<not> m"
      using no_circle [OF ok(1) _ ok(3) cl] ok(2) that by simp
    have 3: "OWN_scanned \<in> own_flags (lhb_own ?u w) \<longrightarrow> OWN_scanned \<in> own_flags (lhb_own t w) \<or> \<not> m"
      using skel_fields(1) [OF w(2)] by auto
    then show ?thesis using e None 1 2 by auto
  qed
qed

end
