(* ===== verification/FB_LockReach.thy ===== *)
theory FB_LockReach
  imports FB_LockSteps FB_LockDeadlock
begin

section \<open>Operations of the lock manager as steps\<close>

text \<open>
  Enqueueing, waiting and the entry points: each keeps the invariant of the table. The step relation
  collects what the attached owners can do.
\<close>

subsection \<open>Enqueueing\<close>

lemma FB_ALIGN_pos: "0 < n \<Longrightarrow> 0 < b \<Longrightarrow> 0 < FB_ALIGN n b"
proof -
  assume "0 < n" and "0 < b"
  then have "b \<le> n + b - 1" by simp
  then have "0 < (n + b - 1) div b" using \<open>0 < b\<close> by (simp add: div_greater_zero_iff)
  then show ?thesis using \<open>0 < b\<close> by (simp add: FB_ALIGN_def)
qed

definition only_alloc :: "lhb \<Rightarrow> lhb \<Rightarrow> bool" where
  "only_alloc t u \<longleftrightarrow> lhb_requests u = lhb_requests t \<and> lhb_owners u = lhb_owners t
     \<and> lhb_hash u = lhb_hash t \<and> lhb_used t \<le> lhb_used u \<and> LOCK_ordering u = LOCK_ordering t
     \<and> sizeof_lrq u = sizeof_lrq t \<and> sizeof_lbl u = sizeof_lbl t \<and> ALIGNMENT u = ALIGNMENT t"

lemma alloc_request_ok:
  assumes i: "table_ok t" and a: "alloc_request t = Some (r, u)"
  shows "only_alloc t u" "lhb_locks u = lhb_locks t" "lhb_free_locks u = lhb_free_locks t"
    "\<not> lrq_in_use (lhb_requests t r)" "r < lhb_used u" "distinct (lhb_free_requests u)"
    "set (lhb_free_requests u) = set (lhb_free_requests t) - {r}"
proof -
  have "only_alloc t u \<and> lhb_locks u = lhb_locks t \<and> lhb_free_locks u = lhb_free_locks t \<and> \<not> lrq_in_use (lhb_requests t r) \<and> r < lhb_used u
     \<and> distinct (lhb_free_requests u) \<and> set (lhb_free_requests u) = set (lhb_free_requests t) - {r}"
  proof (cases "lhb_free_requests t")
    case Nil
    have "0 < FB_ALIGN (sizeof_lrq t) (ALIGNMENT t)" using i by (simp add: table_ok_def FB_ALIGN_pos)
    then show ?thesis using Nil a i by (auto simp: alloc_request_def alloc_def only_alloc_def Let_def table_ok_def split: if_splits)
  next
    case (Cons q qs)
    then show ?thesis using a i by (auto simp: alloc_request_def only_alloc_def table_ok_def)
  qed
  then show "only_alloc t u" "lhb_locks u = lhb_locks t" "lhb_free_locks u = lhb_free_locks t" "\<not> lrq_in_use (lhb_requests t r)"
    "r < lhb_used u" "distinct (lhb_free_requests u)" "set (lhb_free_requests u) = set (lhb_free_requests t) - {r}" by blast+
qed

lemma alloc_lock_ok:
  assumes free: "distinct (lhb_free_locks t)" "\<And>k. k \<in> set (lhb_free_locks t) \<Longrightarrow> \<not> lbl_in_use (lhb_locks t k) \<and> k < lhb_used t"
    and below: "\<And>k. lbl_in_use (lhb_locks t k) \<Longrightarrow> k < lhb_used t" and sz: "0 < sizeof_lbl t" "0 < ALIGNMENT t"
    and a: "alloc_lock len t = Some (l, u)"
  shows "only_alloc t u" "lhb_free_requests u = lhb_free_requests t" "\<And>k. k \<noteq> l \<Longrightarrow> lhb_locks u k = lhb_locks t k"
    "\<not> lbl_in_use (lhb_locks t l)" "lbl_in_use (lhb_locks u l)" "l < lhb_used u" "distinct (lhb_free_locks u)"
    "set (lhb_free_locks u) \<subseteq> set (lhb_free_locks t) - {l}"
proof -
  have "only_alloc t u \<and> lhb_free_requests u = lhb_free_requests t \<and> (\<forall>k. k \<noteq> l \<longrightarrow> lhb_locks u k = lhb_locks t k)
    \<and> \<not> lbl_in_use (lhb_locks t l) \<and> lbl_in_use (lhb_locks u l) \<and> l < lhb_used u \<and> distinct (lhb_free_locks u)
    \<and> set (lhb_free_locks u) \<subseteq> set (lhb_free_locks t) - {l}"
  proof (cases "find (\<lambda>k. FB_ALIGN len 8 \<le> lbl_size (lhb_locks t k)) (lhb_free_locks t)")
    case None
    have "0 < FB_ALIGN (sizeof_lbl t + FB_ALIGN len 8) (ALIGNMENT t)" using sz by (simp add: FB_ALIGN_pos)
    then show ?thesis
      using None a free(1) free(2) [of l] below [of l]
      by (auto simp: alloc_lock_def alloc_def only_alloc_def Let_def set_lock_def split: if_splits)
  next
    case (Some k)
    then have "k \<in> set (lhb_free_locks t)" by (auto simp: find_Some_iff)
    then show ?thesis using Some a free(1) free(2) [of l] by (auto simp: alloc_lock_def only_alloc_def Let_def set_lock_def)
  qed
  then show "only_alloc t u" "lhb_free_requests u = lhb_free_requests t" "\<And>k. k \<noteq> l \<Longrightarrow> lhb_locks u k = lhb_locks t k"
    "\<not> lbl_in_use (lhb_locks t l)" "lbl_in_use (lhb_locks u l)" "l < lhb_used u" "distinct (lhb_free_locks u)"
    "set (lhb_free_locks u) \<subseteq> set (lhb_free_locks t) - {l}" by blast+
qed

text \<open>A new request at the end of a queue.\<close>

lemma append_ok:
  assumes ok: "lock_ok t l" and r: "r \<notin> set (queue t l)" and len: "length (queue t l) < 65535"
    and Q: "queue u l = queue t l @ [r]"
    and K: "lbl_counts (lhb_locks u l) = lbl_counts (lhb_locks t l)" "lbl_state (lhb_locks u l) = lbl_state (lhb_locks t l)"
      "lbl_pending_lrq_count (lhb_locks u l) = lbl_pending_lrq_count (lhb_locks t l)"
    and S: "\<And>q. q \<noteq> r \<Longrightarrow> shape (lhb_requests u q) = shape (lhb_requests t q)"
    and R: "level u r = 0" "lrq_requested (lhb_requests u r) < 7" "lrq_lock (lhb_requests u r) = l" "\<not> pending u r"
  shows "lock_ok u l"
proof -
  have same: "level u q = level t q" "lrq_lock (lhb_requests u q) = lrq_lock (lhb_requests t q)"
    "lrq_requested (lhb_requests u q) = lrq_requested (lhb_requests t q)" "pending u q = pending t q" if "q \<in> set (queue t l)" for q
    using that r shape_fields [OF S [of q]] shape_pending [OF S [of q]] by auto
  have M: "map (level u) (queue t l) = map (level t) (queue t l)" using same(1) by simp
  have "counted u l (queue u l)"
    using ok R(1) unfolding counted_def Q map_append M K by (simp add: lock_ok_def counted_def)
  moreover have "agree u (queue u l)"
    using ok R(1) same(1) by (auto simp: agree_def Q lock_ok_def)
  moreover have "filter (pending u) (queue u l) = filter (pending t) (queue t l)"
    using R(4) same(4) by (auto simp: Q intro: filter_cong)
  moreover have "lock_state (lhb_locks u l) = lock_state (lhb_locks t l)" by (rule lock_state_cong) (rule K)
  moreover have "distinct (queue u l) \<and> length (queue u l) < 65536" using ok r len by (simp add: Q lock_ok_def)
  moreover have "lrq_lock (lhb_requests u q) = l \<and> level u q < 7 \<and> lrq_requested (lhb_requests u q) < 7" if "q \<in> set (queue u l)" for q
    using that ok R same by (cases "q = r") (simp_all add: Q lock_ok_def)
  ultimately show ?thesis using ok by (simp add: lock_ok_def K)
qed

lemma sel_misc [simp]:
  "lhb_requests (set_owner w f t) = lhb_requests t" "lhb_locks (set_owner w f t) = lhb_locks t" "rest (set_owner w f t) = rest t"
  "lhb_requests (bump s t) = lhb_requests t" "lhb_locks (bump s t) = lhb_locks t" "rest (bump s t) = rest t"
  "lhb_requests (bump_operations n t) = lhb_requests t" "lhb_locks (bump_operations n t) = lhb_locks t" "rest (bump_operations n t) = rest t"
  "lhb_locks (post_history h a b c t) = lhb_locks t" "rest (post_history h a b c t) = rest t"
  "lhb_requests (insert_data_que l t) = lhb_requests t" "lhb_locks (insert_data_que l t) = lhb_locks t" "rest (insert_data_que l t) = rest t"
  by (simp_all add: set_owner_def bump_def bump_operations_def post_history_def insert_data_que_def rest_def Let_def)

lemma rest_eqD:
  assumes "rest u = rest t"
  shows "lhb_owners u = lhb_owners t" "lhb_free_locks u = lhb_free_locks t" "lhb_free_requests u = lhb_free_requests t"
    "lhb_hash u = lhb_hash t" "lhb_used u = lhb_used t" "LOCK_ordering u = LOCK_ordering t" "sizeof_lrq u = sizeof_lrq t"
    "sizeof_lbl u = sizeof_lbl t" "ALIGNMENT u = ALIGNMENT t"
  using assms by (simp_all add: rest_def)

lemma grant_or_que_inv:
  assumes u: "u = set_request r (\<lambda>q. q\<lparr>lrq_lock := l\<rparr>) t" and i: "table_ok u" and r: "lrq_in_use (lhb_requests u r)"
    and z: "level u r = 0" and p: "\<not> pending u r"
  shows "table_ok (snd (grant_or_que r l lck_wait t))"
proof -
  have l: "lrq_lock (lhb_requests u r) = l" by (simp add: u)
  note ok = moves_lock_ok [OF i r, unfolded l]
  have e: "snd (grant_or_que r l lck_wait t) =
     (if COMPATIBLE (lrq_requested (lhb_requests u r)) (lbl_state (lhb_locks u l))
         \<and> (\<not> LOCK_ordering u \<or> lrq_requested (lhb_requests u r) = LCK_null \<or> lbl_pending_lrq_count (lhb_locks u l) = 0)
      then post_pending l (grant r l u) else if lck_wait \<noteq> 0 then wait_begin r lck_wait u else snd (deny r lck_wait u))"
    by (auto simp: grant_or_que_def Let_def simp flip: u)
  have s: "lbl_state (lhb_locks u l) = lock_state (lhb_locks u l)" using ok(1) by (simp add: lock_ok_def)
  show ?thesis
    unfolding e s
    using grant_post_ok(1,2) [OF none_open [OF ok(1,2) z]] wait_begin_ok [OF ok(1,2) p] deny_inv [OF i r] inv_moves [OF i ok(3)]
    by simp
qed

text \<open>The table with a fresh request, not yet in a queue.\<close>

definition fresh :: "nat \<Rightarrow> nat \<Rightarrow> lhb \<Rightarrow> lhb \<Rightarrow> bool" where
  "fresh r w t u \<longleftrightarrow> \<not> lrq_in_use (lhb_requests t r) \<and> (\<forall>q. q \<noteq> r \<longrightarrow> lhb_requests u q = lhb_requests t q)
     \<and> lrq_in_use (lhb_requests u r) \<and> level u r = 0 \<and> lrq_requested (lhb_requests u r) < 7 \<and> \<not> pending u r
     \<and> lrq_owner (lhb_requests u r) = w \<and> lhb_locks u = lhb_locks t \<and> r < lhb_used u \<and> lhb_used t \<le> lhb_used u
     \<and> lhb_owners u = lhb_owners t \<and> distinct (lhb_free_requests u) \<and> set (lhb_free_requests u) = set (lhb_free_requests t) - {r}
     \<and> lhb_free_locks u = lhb_free_locks t \<and> lhb_hash u = lhb_hash t
     \<and> sizeof_lrq u = sizeof_lrq t \<and> sizeof_lbl u = sizeof_lbl t \<and> ALIGNMENT u = ALIGNMENT t"

lemma join_inv:
  assumes i: "table_ok t" and f: "fresh r w t u" and w: "w \<in> set (lhb_owners t)" and l: "lbl_in_use (lhb_locks t l)"
    and len: "length (queue t l) < 65535"
  shows "table_ok (snd (grant_or_que r l lck_wait (set_request r (\<lambda>q. q\<lparr>lrq_data := data\<rparr>)
           (set_lock l (\<lambda>k. k\<lparr>lbl_requests := lbl_requests k @ [r]\<rparr>) (bump_operations series u)))))"
    (is "table_ok (snd (grant_or_que r l lck_wait ?v))")
proof -
  define x where x: "x = set_request r (\<lambda>q. q\<lparr>lrq_lock := l\<rparr>) ?v"
  have R: "rest x = rest u" by (simp add: x)
  have rq: "lhb_requests x q = (if q = r then (lhb_requests u r)\<lparr>lrq_data := data, lrq_lock := l\<rparr> else lhb_requests t q)" for q
    using f by (simp add: x fresh_def)
  have lk: "lhb_locks x k = (if k = l then (lhb_locks t l)\<lparr>lbl_requests := queue t l @ [r]\<rparr> else lhb_locks t k)" for k
    using f by (simp add: x fresh_def)
  have F: "lrq_in_use (lhb_requests u r)" "level u r = 0" "lrq_requested (lhb_requests u r) < 7" "\<not> pending u r"
    "lrq_owner (lhb_requests u r) = w" "\<not> lrq_in_use (lhb_requests t r)" "r < lhb_used u" "lhb_used t \<le> lhb_used u"
    "lhb_owners u = lhb_owners t" "distinct (lhb_free_requests u)" "set (lhb_free_requests u) = set (lhb_free_requests t) - {r}"
    "lhb_free_locks u = lhb_free_locks t" "lhb_hash u = lhb_hash t" "sizeof_lrq u = sizeof_lrq t" "sizeof_lbl u = sizeof_lbl t"
    "ALIGNMENT u = ALIGNMENT t"
    using f by (simp_all add: fresh_def)
  have o: "others l r t x" unfolding others_def rq lk by simp
  have P: "\<not> pending x r" "level x r = 0" "lrq_in_use (lhb_requests x r)" using F by (simp_all add: pending_def rq)
  have nq: "r \<notin> set (queue t l)" using i l F(6) by (auto simp: table_ok_def)
  have ok: "lock_ok x l"
  proof (rule append_ok [of t l r])
    show "lock_ok t l" using i l by (simp add: table_ok_def)
  qed (use nq len P F in \<open>simp_all add: rq lk\<close>)
  have lu: "l < lhb_used t" "l \<notin> set (lhb_free_locks t)" using i l by (auto simp: table_ok_def)
  have "table_ok x"
    by (rule inv_add [OF i o F(6)])
      (use ok l lu w F i rest_eqD [OF R] in \<open>auto simp: rq lk table_ok_def\<close>)
  then show ?thesis by (rule grant_or_que_inv [OF x _ P(3,2,1)])
qed

lemma rest_grant [simp]: "rest (grant r l t) = rest t"
  using arg_cong [OF core_grant [of r l t], of rest] by simp

lemma others_grant: "others l r t x \<Longrightarrow> others l r t (grant r l x)"
  using core_eqD(1,2) [OF core_grant [of r l x]] by (simp add: others_def grant_core_sel(1,2))

lemma grant_new_inv:
  assumes i: "table_ok t" and o: "others l r t x" and n: "\<not> lrq_in_use (lhb_requests t r)" "\<not> lbl_in_use (lhb_locks t l)"
    and K: "lbl_in_use (lhb_locks x l)" "queue x l = [r]" "lbl_counts (lhb_locks x l) = (\<lambda>_. 0)" "lbl_pending_lrq_count (lhb_locks x l) = 0"
    and r: "lrq_in_use (lhb_requests x r)" "lrq_lock (lhb_requests x r) = l" "lrq_owner (lhb_requests x r) \<in> set (lhb_owners x)"
      "level x r = 0" "lrq_requested (lhb_requests x r) < 7" "\<not> pending x r"
    and used: "r < lhb_used x" "l < lhb_used x" "lhb_used t \<le> lhb_used x" and own: "lhb_owners x = lhb_owners t"
    and fr: "distinct (lhb_free_requests x)" "set (lhb_free_requests x) \<subseteq> set (lhb_free_requests t) - {r}"
    and fl: "distinct (lhb_free_locks x)" "set (lhb_free_locks x) \<subseteq> set (lhb_free_locks t) - {l}"
    and h: "\<And>s. distinct (lhb_hash x s) \<and> set (lhb_hash x s) \<subseteq> insert l (set (lhb_hash t s))"
    and sz: "sizeof_lrq x = sizeof_lrq t" "sizeof_lbl x = sizeof_lbl t" "ALIGNMENT x = ALIGNMENT t"
  shows "table_ok (grant r l x)"
proof -
  have op: "lock_open x l r" using K r by (simp add: lock_open_def counted_def agree_def)
  have "lock_state (lhb_locks x l) = 0" using K(3) by (simp add: lock_state_def levels)
  then have ok: "lock_ok (grant r l x) l" using grant_ok [OF op] r(5) by simp
  note c = core_eq_fields [OF core_grant [of r l x]] and R = rest_eqD [OF rest_grant [of r l x]]
  show ?thesis
    by (rule inv_add [OF i others_grant [OF o] n(1)])
      (use ok n K r used own fr fl h sz in \<open>simp_all add: R c(3-5,9) grant_core_sel\<close>)
qed

text \<open>The new lock with its first request, before it is granted.\<close>

definition install :: "nat \<Rightarrow> nat \<Rightarrow> nat \<Rightarrow> nat \<Rightarrow> byte list \<Rightarrow> nat \<Rightarrow> int \<Rightarrow> lhb \<Rightarrow> lhb" where
  "install r l parent series value type data v =
     (let t = set_lock l (\<lambda>k. k\<lparr>lbl_state := type, lbl_parent := parent, lbl_series := series mod 256, lbl_data := data\<rparr>) v;
          t = (if data \<noteq> 0 then insert_data_que l t else t);
          t = bump_operations series t;
          t = set_lock l (\<lambda>k. k\<lparr>lbl_pending_lrq_count := 0, lbl_counts := (\<lambda>_. 0), lbl_key := value, lbl_requests := []\<rparr>) t;
          s = hash_slot value t;
          t = t\<lparr>lhb_hash := (lhb_hash t)(s := lhb_hash t s @ [l])\<rparr>;
          t = set_lock l (\<lambda>k. k\<lparr>lbl_requests := lbl_requests k @ [r]\<rparr>) t
      in set_request r (\<lambda>q. q\<lparr>lrq_lock := l\<rparr>) t)"

lemma new_lock_room:
  "alloc_lock (length value) u = Some (l, v) \<Longrightarrow>
     snd (new_lock r parent series value type data u) = grant r l (install r l parent series value type data v)"
  by (simp add: new_lock_def install_def Let_def)

lemma install_sel:
  fixes v :: lhb and r l parent series type :: nat and val :: "byte list" and data :: int
  defines "x \<equiv> install r l parent series val type data v"
  shows "lhb_requests x q = (if q = r then (lhb_requests v r)\<lparr>lrq_lock := l\<rparr> else lhb_requests v q)"
    and "k \<noteq> l \<Longrightarrow> lhb_locks x k = lhb_locks v k"
    and "lbl_in_use (lhb_locks x l) = lbl_in_use (lhb_locks v l)" and "queue x l = [r]"
    and "lbl_counts (lhb_locks x l) = (\<lambda>_. 0)" and "lbl_pending_lrq_count (lhb_locks x l) = 0"
  by (simp_all add: x_def install_def Let_def)

lemma install_rest:
  fixes v :: lhb and r l parent series type :: nat and val :: "byte list" and data :: int
  defines "x \<equiv> install r l parent series val type data v"
  shows "lhb_owners x = lhb_owners v" "lhb_free_requests x = lhb_free_requests v" "lhb_free_locks x = lhb_free_locks v"
    "lhb_used x = lhb_used v" "sizeof_lrq x = sizeof_lrq v" "sizeof_lbl x = sizeof_lbl v" "ALIGNMENT x = ALIGNMENT v"
    "\<exists>s. lhb_hash x = (lhb_hash v)(s := lhb_hash v s @ [l])"
  by (simp_all add: x_def install_def Let_def set_lock_def set_request_def bump_operations_def bump_def insert_data_que_def)
    blast

lemma new_lock_no_room:
  assumes i: "table_ok t" and f: "fresh r w t u" and a: "alloc_lock (length value) u = None"
  shows "table_ok (snd (new_lock r parent series value type data u))"
proof -
  define y where "y = snd (new_lock r parent series value type data u)"
  have y: "lhb_requests y q = (if q = r then (lhb_requests u r)\<lparr>lrq_in_use := False\<rparr> else lhb_requests t q)"
    "lhb_locks y = lhb_locks t" "lhb_free_requests y = lhb_free_requests u @ [r]" "lhb_used y = lhb_used u"
    "lhb_owners y = lhb_owners t" "lhb_free_locks y = lhb_free_locks t" "lhb_hash y = lhb_hash t" "sizeof_lrq y = sizeof_lrq t"
    "sizeof_lbl y = sizeof_lbl t" "ALIGNMENT y = ALIGNMENT t" for q
    using a f by (simp_all add: y_def new_lock_def Let_def set_owner_def set_request_def fresh_def)
  have F: "\<not> lrq_in_use (lhb_requests t r)" "\<not> pending u r" "r < lhb_used u" "lhb_used t \<le> lhb_used u"
    "distinct (lhb_free_requests u)" "set (lhb_free_requests u) = set (lhb_free_requests t) - {r}"
    using f by (simp_all add: fresh_def)
  have "table_ok y" by (rule inv_spare [OF i F(1)]) (use F in \<open>auto simp: y pending_def\<close>)
  then show ?thesis by (simp add: y_def)
qed

lemma new_lock_inv:
  assumes i: "table_ok t" and f: "fresh r w t u" and w: "w \<in> set (lhb_owners t)"
  shows "table_ok (snd (new_lock r parent series value type data u))"
proof (cases "alloc_lock (length value) u")
  case None
  then show ?thesis by (rule new_lock_no_room [OF i f])
next
  case (Some p)
  then obtain l v where a: "alloc_lock (length value) u = Some (l, v)" by (cases p) simp
  have F: "lrq_in_use (lhb_requests u r)" "level u r = 0" "lrq_requested (lhb_requests u r) < 7" "\<not> pending u r"
    "lrq_owner (lhb_requests u r) = w" "\<not> lrq_in_use (lhb_requests t r)" "r < lhb_used u" "lhb_used t \<le> lhb_used u"
    "lhb_owners u = lhb_owners t" "distinct (lhb_free_requests u)" "set (lhb_free_requests u) = set (lhb_free_requests t) - {r}"
    "lhb_free_locks u = lhb_free_locks t" "lhb_hash u = lhb_hash t" "sizeof_lrq u = sizeof_lrq t" "sizeof_lbl u = sizeof_lbl t"
    "ALIGNMENT u = ALIGNMENT t" "lhb_locks u = lhb_locks t" "\<And>q. q \<noteq> r \<Longrightarrow> lhb_requests u q = lhb_requests t q"
    using f by (simp_all add: fresh_def)
  have free: "k < lhb_used u \<and> \<not> lbl_in_use (lhb_locks u k)" if "k \<in> set (lhb_free_locks u)" for k
    using inv_freeD [OF i, of k] that F by simp
  have below: "k < lhb_used u" if "lbl_in_use (lhb_locks u k)" for k
  proof -
    have "k < lhb_used t" using i that by (simp add: table_ok_def F)
    then show ?thesis using F(8) by (rule less_le_trans)
  qed
  have pre: "distinct (lhb_free_locks u)" "0 < sizeof_lbl u" "0 < ALIGNMENT u" using i by (simp_all add: table_ok_def F)
  note A = alloc_lock_ok [OF pre(1) _ below pre(2,3) a]
  have B: "lhb_requests v = lhb_requests u" "lhb_owners v = lhb_owners u" "lhb_hash v = lhb_hash u" "lhb_used u \<le> lhb_used v"
    "sizeof_lrq v = sizeof_lrq u" "sizeof_lbl v = sizeof_lbl u" "ALIGNMENT v = ALIGNMENT u"
    using A(1) free by (auto simp: only_alloc_def)
  let ?x = "install r l parent series value type data v"
  obtain s where h: "lhb_hash ?x = (lhb_hash v)(s := lhb_hash v s @ [l])" using install_rest(8) by blast
  have o: "others l r t ?x" using F A(3) free by (auto simp: others_def install_sel B)
  have nh: "l \<notin> set (lhb_hash t s)" for s using i A(4) free by (auto simp: table_ok_def F)
  have hh: "distinct (lhb_hash ?x n) \<and> set (lhb_hash ?x n) \<subseteq> insert l (set (lhb_hash t n))" for n
    using i nh by (auto simp: h B F table_ok_def)
  have "table_ok (grant r l ?x)"
    by (rule grant_new_inv [OF i o F(6)])
      (use A(2,4-8) free F B w hh less_le_trans in \<open>auto simp: install_sel install_rest pending_def\<close>)
  then show ?thesis by (simp add: new_lock_room [OF a])
qed

lemma release_frame:
  assumes i: "table_ok t" and r: "lrq_in_use (lhb_requests t r)"
  shows "length (queue (release_request r t) k) \<le> length (queue t k) \<and> lhb_owners (release_request r t) = lhb_owners t"
proof -
  let ?l = "lrq_lock (lhb_requests t r)"
  have ok: "lock_ok (settle r t) ?l" using settle_ok moves_lock_ok [OF i r] by blast
  have rm: "length (remove1 r (queue t ?l)) \<le> length (queue t ?l)" by (simp add: length_remove1)
  have ow: "lhb_owners (unlink_request r t) = lhb_owners t" using unlink_rest [of r t] by (simp add: rest_def)
  show ?thesis
  proof (cases "remove1 r (queue t ?l) = []")
    case True
    then have "queue (release_request r t) k = queue (unlink_request r t) k \<and> lhb_owners (release_request r t) = lhb_owners (unlink_request r t)"
      by (simp add: release_request_settle [OF refl] release_lock_def Let_def remove_data_que_def remove_hash_def set_lock_def)
    then show ?thesis using rm True ow by (simp add: unlink_locks [OF refl])
  next
    case False
    then have e: "release_request r t = post_pending ?l (settle r t)" by (simp add: release_request_settle [OF refl])
    note pp = post_pending_ok [OF ok]
    have "rest (post_pending ?l (settle r t)) = rest (unlink_request r t)"
      using pp settle_locks(4) [OF refl, of r t] by (simp add: moves_def)
    from rest_eqD(1) [OF this] have o: "lhb_owners (release_request r t) = lhb_owners t" using ow by (simp add: e)
    show ?thesis
    proof (cases "k = ?l")
      case True
      then show ?thesis using pp rm settle_locks(2) [OF refl, of r t] o by (simp add: e)
    next
      case False
      then have "lshape (lhb_locks (release_request r t) k) = lshape (lhb_locks (settle r t) k)" using pp by (simp add: e moves_def)
      from lshape_fields(2) [OF this] show ?thesis using False o by (simp add: settle_locks(1) [OF refl])
    qed
  qed
qed

lemma dequeue_frame:
  assumes i: "table_ok t" and r: "lrq_in_use (lhb_requests t r)"
  shows "length (queue (dequeue r t) k) \<le> length (queue t k) \<and> lhb_owners (dequeue r t) = lhb_owners t"
proof -
  define u where "u = set_request r (\<lambda>q. q\<lparr>lrq_ast_routine := 0\<rparr>)
      (post_history his_deq (lrq_owner (lhb_requests t r)) (lrq_lock (lhb_requests t r)) r t)"
  have c: "core u = core t" by (simp add: u_def dequeue_core)
  have "dequeue r t = release_request r u" by (simp add: dequeue_def u_def Let_def)
  then show ?thesis
    using release_frame [of u r k] i r inv_cong [OF c] core_eq_fields(5,6) [OF c] arg_cong [OF c, of lhb_owners] by simp
qed

lemma enq_fresh:
  assumes i: "table_ok t" and a: "alloc_request t = Some (r, u)" and n: "type < 7"
  shows "fresh r w t (set_owner w g (set_request r (\<lambda>q. q\<lparr>lrq_in_use := True, lrq_flags := {}, lrq_requested := type, lrq_state := LCK_none,
           lrq_data := 0, lrq_owner := w, lrq_ast_routine := ar, lrq_ast_argument := aa\<rparr>) (post_history his_enq w 0 r u)))"
    (is "fresh r w t ?v")
proof -
  have "rest ?v = rest u" by simp
  note R = rest_eqD [OF this]
  show ?thesis
    unfolding fresh_def R using alloc_request_ok [OF i a] n by (auto simp: only_alloc_def pending_def LCK_none_def)
qed

text \<open>The table when a request has been taken for \<^verbatim>\<open>LOCK_enq\<close>, and the ways in which it goes on.\<close>

definition enq_prior :: "nat \<Rightarrow> lhb \<Rightarrow> lhb" where
  "enq_prior prior t = (if prior \<noteq> 0 then dequeue prior (bump lhb_enqs t) else bump lhb_enqs t)"

definition enq_request :: "nat \<Rightarrow> nat \<Rightarrow> nat \<Rightarrow> nat \<Rightarrow> nat \<Rightarrow> lhb \<Rightarrow> lhb" where
  "enq_request r type ar aa w x = set_owner w (\<lambda>v. v\<lparr>own_requests := own_requests v @ [r]\<rparr>)
     (set_request r (\<lambda>q. q\<lparr>lrq_in_use := True, lrq_flags := {}, lrq_requested := type, lrq_state := LCK_none,
        lrq_data := 0, lrq_owner := w, lrq_ast_routine := ar, lrq_ast_argument := aa\<rparr>) (post_history his_enq w 0 r x))"

definition enq_join :: "nat \<Rightarrow> nat \<Rightarrow> int \<Rightarrow> nat \<Rightarrow> lhb \<Rightarrow> lhb" where
  "enq_join r l data series y = set_request r (\<lambda>q. q\<lparr>lrq_data := data\<rparr>)
     (set_lock l (\<lambda>k. k\<lparr>lbl_requests := lbl_requests k @ [r]\<rparr>) (bump_operations series y))"

lemma LOCK_enq_cases:
  assumes e: "LOCK_enq prior parent_request series val type ar aa data lck_wait w t = Some (res, u)"
  obtains (none) "u = t" | (full) "u = enq_prior prior t"
    | (join) r x l parent where "alloc_request (enq_prior prior t) = Some (r, x)"
        "find_lock parent series val (enq_request r type ar aa w x) = Some l"
        "grant_or_que r l lck_wait (enq_join r l data series (enq_request r type ar aa w x)) = (res, u)"
    | (create) r x parent where "alloc_request (enq_prior prior t) = Some (r, x)"
        "new_lock r parent series val type data (enq_request r type ar aa w x) = (res, u)"
proof (cases "own_count (lhb_own t w) = 0 \<or> w = 0 \<or> alloc_request (enq_prior prior t) = None")
  case True
  then show ?thesis using e [unfolded LOCK_enq_def Let_def, folded enq_prior_def] none full by (auto split: if_splits)
next
  case False
  then obtain r x where a: "alloc_request (enq_prior prior t) = Some (r, x)" by auto
  define parent where "parent = (if parent_request \<noteq> 0 then lrq_lock (lhb_requests (enq_prior prior t) parent_request) else 0)"
  have "(case find_lock parent series val (enq_request r type ar aa w x) of
      Some l \<Rightarrow> grant_or_que r l lck_wait (enq_join r l data series (enq_request r type ar aa w x))
    | None \<Rightarrow> new_lock r parent series val type data (enq_request r type ar aa w x)) = (res, u)"
    using e [unfolded LOCK_enq_def Let_def, folded enq_prior_def, folded parent_def] False a
    by (auto simp: enq_join_def simp flip: enq_request_def split: if_splits option.splits)
  then show ?thesis using join [OF a] create [OF a] by (cases "find_lock parent series val (enq_request r type ar aa w x)") auto
qed

lemma enq_prior_ok:
  assumes i: "table_ok t" and p: "prior = 0 \<or> lrq_in_use (lhb_requests t prior)"
  shows "table_ok (enq_prior prior t)" "length (queue (enq_prior prior t) l) \<le> length (queue t l)"
    "lhb_owners (enq_prior prior t) = lhb_owners t"
proof -
  have c: "core (bump lhb_enqs t) = core t" by simp
  have b: "table_ok (bump lhb_enqs t)" using i inv_cong [OF c] by simp
  show "table_ok (enq_prior prior t)" using dequeue_inv [OF b, of prior] b p by (auto simp: enq_prior_def)
  show "length (queue (enq_prior prior t) l) \<le> length (queue t l)" "lhb_owners (enq_prior prior t) = lhb_owners t"
    using dequeue_frame [OF b, of prior l] p rest_eqD(1) [OF sel_misc(6), of lhb_enqs t] by (auto simp: enq_prior_def)
qed

lemma found_in_use:
  assumes v: "table_ok v" and f: "fresh r w v y" and l: "find_lock parent series val y = Some l"
  shows "lbl_in_use (lhb_locks v l)"
proof -
  have "l \<in> set (lhb_hash v (hash_slot val y))" using f l by (auto simp: find_lock_def find_Some_iff Let_def fresh_def)
  then show ?thesis using v by (simp add: table_ok_def)
qed

lemma LOCK_enq_inv:
  assumes i: "table_ok t" and n: "type < 7" and p: "prior = 0 \<or> lrq_in_use (lhb_requests t prior)" and w: "w \<in> set (lhb_owners t)"
    and len: "\<And>l. length (queue t l) < 65535"
    and e: "LOCK_enq prior parent_request series val type ar aa data lck_wait w t = Some (res, u)"
  shows "table_ok u"
proof -
  note v = enq_prior_ok [OF i p]
  have ow: "w \<in> set (lhb_owners (enq_prior prior t))" using w v(3) by simp
  have q: "length (queue (enq_prior prior t) l) < 65535" for l by (rule le_less_trans [OF v(2) len])
  show ?thesis using e
  proof (cases rule: LOCK_enq_cases)
    case (join r x l parent)
    have f: "fresh r w (enq_prior prior t) (enq_request r type ar aa w x)"
      unfolding enq_request_def by (rule enq_fresh [OF v(1) join(1) n])
    show ?thesis
      using join_inv [OF v(1) f ow found_in_use [OF v(1) f join(2)] q, of lck_wait data series] join(3) by (simp add: enq_join_def)
  next
    case (create r x parent)
    have f: "fresh r w (enq_prior prior t) (enq_request r type ar aa w x)"
      unfolding enq_request_def by (rule enq_fresh [OF v(1) create(1) n])
    show ?thesis using new_lock_inv [OF v(1) f ow, of parent series val type data] create(2) by simp
  qed (use i v(1) in simp_all)
qed

subsection \<open>Waiting\<close>

lemma table_owners_known: "table_ok t \<Longrightarrow> owners_known t"
  unfolding owners_known_def by (auto simp: table_ok_def)

lemma table_reject:
  assumes i: "table_ok t" and p: "pending t r"
  shows "table_ok (reject r t)"
proof -
  have u: "lrq_in_use (lhb_requests t r)" using i p by (simp add: table_ok_def)
  note ok = moves_lock_ok [OF i u]
  show ?thesis using inv_moves [OF i ok(3)] reject_ok [OF ok(1,2) p] by blast
qed

lemma wait_round_inv:
  assumes i: "table_ok t"
  shows "\<exists>u. wait_round r lck_wait woken timed_out t = Some u \<and> table_ok u"
proof -
  let ?w = "lrq_owner (lhb_requests t r)" and ?l = "lrq_lock (lhb_requests t r)"
  define s where "s = set_owner ?w (\<lambda>v. v\<lparr>own_flags := own_flags v - {OWN_wakeup}\<rparr>) t"
  have c: "core s = core t" by (simp add: s_def)
  have s: "table_ok s" using i inv_cong [OF c] by simp
  have blk: "table_ok (post_blockage a b f x) = table_ok x" for a b f x by (rule inv_cong) simp
  note e = wait_round_def [of r lck_wait woken timed_out t, unfolded Let_def, folded s_def]
  show ?thesis
  proof (cases "pending s r \<and> \<not> (lck_wait < 0 \<and> timed_out) \<and> \<not> woken \<and> own_flags (lhb_own s ?w) \<inter> {OWN_scanned, OWN_timeout} = {}")
    case False
    have "table_ok (reject r s)" if "pending s r" by (rule table_reject [OF s that])
    moreover have "LRQ_pending \<in> lrq_flags (lhb_requests s r) \<longleftrightarrow> pending s r" by (simp add: pending_def)
    ultimately show ?thesis unfolding e using False s by (auto simp: blk)
  next
    case True
    obtain v u where u: "deadlock_scan ?w r s = Some (v, u)" "core u = core s" "\<And>x. v = Some x \<Longrightarrow> pending s x"
      by (rule scan_returns [OF table_owners_known [OF s], of r ?w]) (use True in auto)
    have ok: "table_ok u" using s inv_cong [OF u(2)] by simp
    show ?thesis
    proof (cases v)
      case None
      then show ?thesis unfolding e using True u(1) ok by (auto simp: pending_def blk)
    next
      case (Some x)
      define y where "y = set_owner (lrq_owner (lhb_requests u x)) (\<lambda>x. x\<lparr>own_pending_request := 0, own_flags := own_flags x - {OWN_scanned}\<rparr>)
          (reject x (bump lhb_deadlocks u))"
      have b: "core (bump lhb_deadlocks u) = core s" using u(2) by simp
      have "table_ok (reject x (bump lhb_deadlocks u))"
        by (rule table_reject) (use s inv_cong [OF b] core_eqD(4) [OF b] u(3) Some in simp_all)
      then have "table_ok y" using inv_cong [of y "reject x (bump lhb_deadlocks u)"] by (simp add: y_def)
      moreover have "table_ok (post_wakeup a y) = table_ok y" for a by (rule inv_cong) simp
      ultimately show ?thesis unfolding e using True u(1) Some by (auto simp: pending_def y_def)
    qed
  qed
qed

lemma wait_end_core [simp]: "core (wait_end w t) = core t"
  by (simp add: wait_end_def)

lemma grant_or_que_end_inv:
  assumes i: "table_ok t" and r: "lrq_in_use (lhb_requests t r)"
  shows "table_ok (snd (grant_or_que_end r lck_wait t))"
proof -
  let ?t = "wait_end (lrq_owner (lhb_requests t r)) t"
  have c: "core ?t = core t" by simp
  have "table_ok ?t" "lrq_in_use (lhb_requests ?t r)" using i r inv_cong [OF c] core_eq_fields(5) [OF c] by simp_all
  then show ?thesis using deny_inv [of ?t r lck_wait] by (simp add: grant_or_que_end_def Let_def)
qed

lemma convert_end_inv:
  assumes i: "table_ok t" and r: "lrq_in_use (lhb_requests t r)"
  shows "table_ok (snd (convert_end r lck_wait ar aa t))"
proof -
  let ?t = "wait_end (lrq_owner (lhb_requests t r)) t" and ?l = "lrq_lock (lhb_requests t r)"
  have c: "core ?t = core t" by simp
  have t: "table_ok ?t" "lrq_in_use (lhb_requests ?t r)" "lrq_lock (lhb_requests ?t r) = ?l"
    using i r inv_cong [OF c] core_eq_fields(3,5) [OF c] by simp_all
  note ok = moves_lock_ok [OF t(1,2), unfolded t(3)]
  note pp = post_pending_ok [OF ok(1)]
  have r': "r \<in> set (queue (post_pending ?l ?t) ?l)" using pp ok(2) by simp
  have "table_ok (snd (convert_denied r lck_wait (post_pending ?l ?t)))"
    using inv_moves [OF t(1) ok(3) moves_trans [OF _ convert_denied_ok(2) [OF _ r']]] convert_denied_ok(1) [OF _ r'] pp by blast
  moreover have "table_ok (set_request r (\<lambda>q. q\<lparr>lrq_ast_routine := ar, lrq_ast_argument := aa\<rparr>) ?t)"
    using t(1) inv_cong [OF core_set_request, of "\<lambda>q. q\<lparr>lrq_ast_routine := ar, lrq_ast_argument := aa\<rparr>" ?t r] by (simp add: shape_def)
  ultimately show ?thesis using t(3) by (simp add: convert_end_def Let_def)
qed

subsection \<open>The entry points\<close>

lemma get_request_Some: "get_request r t = Some q \<Longrightarrow> q = lhb_requests t r \<and> lrq_in_use (lhb_requests t r)"
  by (auto simp: get_request_def Let_def split: if_splits)

lemma convert_inv:
  assumes i: "table_ok t" and r: "lrq_in_use (lhb_requests t r)" and n: "type < 7" and w: "lck_wait = 0 \<or> \<not> pending t r"
  shows "table_ok (snd (convert r type lck_wait ar aa t))"
proof -
  note ok = moves_lock_ok [OF i r]
  show ?thesis using inv_moves [OF i ok(3)] convert_ok [OF ok(1,2) n w] by blast
qed

lemma LOCK_convert_inv:
  assumes i: "table_ok t" and n: "type < 7" and w: "lck_wait = 0 \<or> \<not> pending t r"
    and e: "LOCK_convert r type lck_wait ar aa t = Some (res, u)"
  shows "table_ok u"
proof -
  obtain q where g: "get_request r t = Some q" using e by (auto simp: LOCK_convert_def split: option.splits)
  let ?t = "bump_operations (lbl_series (lhb_locks t (lrq_lock q))) (bump lhb_converts t)"
  have c: "core ?t = core t" by simp
  have "table_ok (snd (convert r type lck_wait ar aa ?t))"
    using convert_inv [of ?t r type lck_wait ar aa] i w n get_request_Some [OF g] inv_cong [OF c] core_eqD(4) [OF c] by simp
  then show ?thesis using e g i by (auto simp: LOCK_convert_def split: if_splits)
qed

lemma LOCK_deq_inv:
  assumes i: "table_ok t" and e: "LOCK_deq r t = Some (res, u)"
  shows "table_ok u"
proof -
  obtain q where g: "get_request r t = Some q" using e by (auto simp: LOCK_deq_def split: option.splits)
  let ?t = "bump_operations (lbl_series (lhb_locks t (lrq_lock q))) (bump lhb_deqs t)"
  have c: "core ?t = core t" by simp
  have "table_ok (dequeue r ?t)" using dequeue_inv [of ?t r] i get_request_Some [OF g] inv_cong [OF c] by simp
  then show ?thesis using e g i by (auto simp: LOCK_deq_def split: if_splits)
qed

lemma lower_state_le: "lower_state p s \<le> s"
  by (induction p s rule: lower_state.induct) (auto intro: le_SucI)

lemma lock_ok_level: "lock_ok t l \<Longrightarrow> r \<in> set (queue t l) \<Longrightarrow> level t r < 7"
  by (simp add: lock_ok_def)

lemma LOCK_downgrade_inv:
  assumes i: "table_ok t" and e: "LOCK_downgrade r t = Some (res, u)"
  shows "table_ok u"
proof -
  obtain q where g: "get_request r t = Some q" using e by (auto simp: LOCK_downgrade_def split: option.splits)
  let ?t = "bump lhb_downgrades t"
  have c: "core ?t = core t" by simp
  have t: "table_ok ?t" "lrq_in_use (lhb_requests ?t r)" "q = lhb_requests t r" using i get_request_Some [OF g] inv_cong [OF c] by simp_all
  have "lrq_in_use (lhb_requests t r)" using get_request_Some [OF g] by simp
  then have "level t r < 7" using lock_ok_level moves_lock_ok(1,2) [OF i] by blast
  then have "lower_state p (level t r) < 7" for p by (rule le_less_trans [OF lower_state_le])
  then have "table_ok (snd (convert r (lower_state p (level t r)) 0 ar aa ?t))" for p ar aa
    using convert_inv [OF t(1,2)] by simp
  moreover have "table_ok (dequeue r ?t)" by (rule dequeue_inv [OF t(1,2)])
  ultimately show ?thesis using e g i t(3) by (auto simp: LOCK_downgrade_def Let_def split: if_splits)
qed

lemma blocking_step_core: "core (snd (blocking_step w t)) = core t"
  by (simp add: blocking_step_def Let_def split: list.splits)

lemma data_core:
  "LOCK_read_data r t = Some (d, u) \<Longrightarrow> core u = core t"
  "LOCK_write_data r data t = Some (d, u) \<Longrightarrow> core u = core t"
  "LOCK_query_data r series aggregate t = Some (d, u) \<Longrightarrow> core u = core t"
  by (auto simp: LOCK_read_data_def LOCK_write_data_def LOCK_query_data_def Let_def core_set_lock lshape_def split: option.splits if_splits)

subsection \<open>Steps\<close>

text \<open>
  The steps of the attached owners. The guards are what its callers promise: levels exist, an owner is known, a queue has
  room for one more request in its \<^verbatim>\<open>USHORT\<close> counters, and a request that waits is not converted again
  with waiting.
\<close>

inductive owner_step :: "lhb \<Rightarrow> lhb \<Rightarrow> bool" where
  enq: "type < LCK_max \<Longrightarrow> prior = 0 \<or> lrq_in_use (lhb_requests t prior) \<Longrightarrow> w \<in> set (lhb_owners t)
    \<Longrightarrow> (\<And>l. length (lbl_requests (lhb_locks t l)) < 65535)
    \<Longrightarrow> LOCK_enq prior parent_request series val type ar aa data lck_wait w t = Some (res, u) \<Longrightarrow> owner_step t u"
| convert: "type < LCK_max \<Longrightarrow> lck_wait = 0 \<or> LRQ_pending \<notin> lrq_flags (lhb_requests t r)
    \<Longrightarrow> LOCK_convert r type lck_wait ar aa t = Some (res, u) \<Longrightarrow> owner_step t u"
| deq: "LOCK_deq r t = Some (b, u) \<Longrightarrow> owner_step t u"
| downgrade: "LOCK_downgrade r t = Some (s, u) \<Longrightarrow> owner_step t u"
| round: "wait_round r lck_wait woken timed_out t = Some u \<Longrightarrow> owner_step t u"
| enq_end: "lrq_in_use (lhb_requests t r) \<Longrightarrow> grant_or_que_end r lck_wait t = (res, u) \<Longrightarrow> owner_step t u"
| convert_end: "lrq_in_use (lhb_requests t r) \<Longrightarrow> convert_end r lck_wait ar aa t = (res, u) \<Longrightarrow> owner_step t u"
| blocking: "w \<in> set (lhb_owners t) \<Longrightarrow> blocking_step w t = (call, u) \<Longrightarrow> owner_step t u"
| read_data: "LOCK_read_data r t = Some (d, u) \<Longrightarrow> owner_step t u"
| read_data2: "LOCK_read_data2 r series val t = Some (d, u) \<Longrightarrow> owner_step t u"
| write_data: "LOCK_write_data r data t = Some (d, u) \<Longrightarrow> owner_step t u"
| query_data: "LOCK_query_data r series aggregate t = Some (d, u) \<Longrightarrow> owner_step t u"

lemma owner_step_inv: "owner_step t u \<Longrightarrow> table_ok t \<Longrightarrow> table_ok u"
proof (induction rule: owner_step.induct)
  case (enq type prior t w parent_request series val ar aa data lck_wait res u)
  then show ?case using LOCK_enq_inv by (simp add: LCK_max_def)
next
  case (convert type lck_wait t r ar aa res u)
  then show ?case using LOCK_convert_inv by (simp add: LCK_max_def pending_def)
next
  case (deq r t b u)
  then show ?case by (simp add: LOCK_deq_inv)
next
  case (downgrade r t s u)
  then show ?case by (simp add: LOCK_downgrade_inv)
next
  case (round r lck_wait woken timed_out t u)
  then show ?case using wait_round_inv [of t r lck_wait woken timed_out] by simp
next
  case (enq_end t r lck_wait res u)
  then show ?case using grant_or_que_end_inv [of t r lck_wait] by simp
next
  case (convert_end t r lck_wait ar aa res u)
  then show ?case using convert_end_inv [of t r lck_wait ar aa] by simp
next
  case (blocking w t call u)
  then show ?case using inv_cong [OF blocking_step_core, of w t] by simp
next
  case (read_data r t d u)
  then show ?case using inv_cong [OF data_core(1)] by blast
next
  case (read_data2 r series val t d u)
  then have "core u = core t" by (auto simp: LOCK_read_data2_def Let_def split: if_splits)
  then show ?case using read_data2 inv_cong by blast
next
  case (write_data r data t d u)
  then show ?case using inv_cong [OF data_core(2)] by blast
next
  case (query_data r series aggregate t d u)
  then show ?case using inv_cong [OF data_core(3)] by blast
qed

subsection \<open>The first table\<close>

text \<open>
  What \<^verbatim>\<open>lock_initialize\<close> sets up in memory that is all zero: the header with empty queues, the secondary header and the
  history blocks behind it. \<open>None\<close>: the lock manager is out of room and the server ends.
\<close>

definition no_lrq :: lrq where
  "no_lrq = \<lparr>lrq_in_use = False, lrq_requested = 0, lrq_state = 0, lrq_flags = {}, lrq_owner = 0, lrq_lock = 0, lrq_data = 0,
     lrq_ast_routine = 0, lrq_ast_argument = 0\<rparr>"

definition no_lbl :: lbl where
  "no_lbl = \<lparr>lbl_in_use = False, lbl_state = 0, lbl_size = 0, lbl_requests = [], lbl_data = 0, lbl_parent = 0, lbl_series = 0,
     lbl_pending_lrq_count = 0, lbl_counts = (\<lambda>_. 0), lbl_key = []\<rparr>"

primrec alloc_blocks :: "nat \<Rightarrow> nat \<Rightarrow> lhb \<Rightarrow> lhb option" where
  "alloc_blocks 0 bytes t = Some t"
| "alloc_blocks (Suc n) bytes t = (case alloc bytes t of None \<Rightarrow> None | Some (_, t) \<Rightarrow> alloc_blocks n bytes t)"

definition lock_initialize ::
  "nat \<Rightarrow> nat \<Rightarrow> nat \<Rightarrow> nat \<Rightarrow> nat \<Rightarrow> nat \<Rightarrow> nat \<Rightarrow> nat \<Rightarrow> nat \<Rightarrow> nat \<Rightarrow> bool \<Rightarrow> lhb option" where
  "lock_initialize hash_slots mapped_length sz_lhb sz_srq sz_shb sz_his sz_lrq sz_lbl sz_own alignment lock_order =
     (let slots = to_ushort hash_slots;
          t = \<lparr>lhb_requests = (\<lambda>_. no_lrq), lhb_locks = (\<lambda>_. no_lbl), lhb_own = (\<lambda>_. no_own), lhb_owners = [], lhb_free_owners = [],
               lhb_free_locks = [], lhb_free_requests = [], lhb_hash = (\<lambda>_. []), lhb_hash_slots = slots,
               lhb_data = (\<lambda>_. []), lhb_used = FB_ALIGN (sz_lhb + slots * sz_srq) alignment, lhb_length = mapped_length,
               lhb_history = [], shb_history = [], lhb_stats = (\<lambda>_. 0), LOCK_ordering = lock_order,
               sizeof_lrq = sz_lrq, sizeof_lbl = sz_lbl, sizeof_own = sz_own, ALIGNMENT = alignment\<rparr> in
      case alloc sz_shb t of None \<Rightarrow> None | Some (_, t) \<Rightarrow> alloc_blocks (2 * HISTORY_BLOCKS) sz_his t)"

lemma alloc_frame: "alloc bytes t = Some (b, u) \<Longrightarrow> \<exists>n. u = t\<lparr>lhb_used := n\<rparr>"
  by (auto simp: alloc_def Let_def split: if_splits)

lemma alloc_blocks_frame: "alloc_blocks n bytes t = Some u \<Longrightarrow> \<exists>m. u = t\<lparr>lhb_used := m\<rparr>"
proof (induction n arbitrary: t)
  case 0
  then show ?case by (auto intro: exI [of _ "lhb_used u"])
next
  case (Suc n)
  then obtain b v where v: "alloc bytes t = Some (b, v)" "alloc_blocks n bytes v = Some u" by (auto split: option.splits)
  then show ?case using Suc.IH alloc_frame by fastforce
qed

lemma initial_ok:
  assumes "lock_initialize slots mapped a b c d sz_lrq sz_lbl sz_own alignment lock_order = Some t" "0 < sz_lrq" "0 < sz_lbl" "0 < alignment"
  shows "table_ok t"
proof -
  obtain m where "t = \<lparr>lhb_requests = (\<lambda>_. no_lrq), lhb_locks = (\<lambda>_. no_lbl), lhb_own = (\<lambda>_. no_own), lhb_owners = [], lhb_free_owners = [],
               lhb_free_locks = [], lhb_free_requests = [], lhb_hash = (\<lambda>_. []), lhb_hash_slots = to_ushort slots,
               lhb_data = (\<lambda>_. []), lhb_used = m, lhb_length = mapped,
               lhb_history = [], shb_history = [], lhb_stats = (\<lambda>_. 0), LOCK_ordering = lock_order,
               sizeof_lrq = sz_lrq, sizeof_lbl = sz_lbl, sizeof_own = sz_own, ALIGNMENT = alignment\<rparr>"
    using assms(1) alloc_frame alloc_blocks_frame by (fastforce simp: lock_initialize_def Let_def split: option.splits)
  then show ?thesis using assms(2-4) by (simp add: table_ok_def no_lrq_def no_lbl_def pending_def)
qed

end
