(* ===== verification/FB_LockOwner.thy ===== *)
theory FB_LockOwner
  imports FB_LockReach
begin

section \<open>Owners of locks\<close>

text \<open>
  Attaching to the lock manager and leaving it: \<^verbatim>\<open>LOCK_init\<close>, \<^verbatim>\<open>LOCK_fini\<close>, \<^verbatim>\<open>create_owner\<close> and \<^verbatim>\<open>purge_owner\<close>. The
  queues of requests that belong to an owner are kept right by every operation, so that purging an owner releases exactly its
  requests. With these operations the step relation has every operation of the
  table but \<^verbatim>\<open>LOCK_set_owner_handle\<close> and \<^verbatim>\<open>LOCK_re_post\<close>, which are not modelled.
\<close>

subsection \<open>Attaching and leaving\<close>

text \<open>The number -1 as an offset of 32 bits stands for an owner that does not exist yet.\<close>

definition DUMMY_OWNER_CREATE :: nat where "DUMMY_OWNER_CREATE = 4294967295"

definition to_sshort :: "int \<Rightarrow> int" where
  "to_sshort i = (i + 32768) mod 65536 - 32768"

definition init_owner_block :: "nat \<Rightarrow> nat \<Rightarrow> nat \<Rightarrow> lhb \<Rightarrow> lhb" where
  "init_owner_block w owner_type owner_id = set_owner w (\<lambda>v. v\<lparr>own_owner_type := owner_type, own_flags := {}, own_signaled := False,
     own_count := 1, own_owner_id := owner_id, own_requests := [], own_blocks := [], own_pending_request := 0, own_semaphore := False\<rparr>)"

text \<open>The loops of \<^verbatim>\<open>purge_owner\<close>: the first one ends when the owner has no request left.\<close>

partial_function (option) purge_requests :: "nat \<Rightarrow> lhb \<Rightarrow> lhb option" where
  "purge_requests w t = (case own_requests (lhb_own t w) of [] \<Rightarrow> Some t | r # rs \<Rightarrow> purge_requests w (release_request r t))"

fun purge_blocks :: "nat \<Rightarrow> nat list \<Rightarrow> lhb \<Rightarrow> lhb" where
  "purge_blocks w [] t = t"
| "purge_blocks w (r # rs) t =
     (let t = set_owner w (\<lambda>v. v\<lparr>own_blocks := rs\<rparr>) t;
          t = set_request r (\<lambda>q. q\<lparr>lrq_in_use := False\<rparr>) t
      in purge_blocks w rs (t\<lparr>lhb_free_requests := lhb_free_requests t @ [r]\<rparr>))"

definition purge_owner :: "nat \<Rightarrow> nat \<Rightarrow> lhb \<Rightarrow> lhb option" where
  "purge_owner purging_owner w t =
     (case purge_requests w (post_secondary his_del_owner purging_owner w 0 t) of
        None \<Rightarrow> None
      | Some t \<Rightarrow>
          let t = purge_blocks w (own_blocks (lhb_own t w)) t;
              t = t\<lparr>lhb_owners := remove1 w (lhb_owners t)\<rparr>;
              t = t\<lparr>lhb_free_owners := lhb_free_owners t @ [w]\<rparr>
          in Some (set_owner w (\<lambda>v. v\<lparr>own_owner_type := 0, own_owner_id := 0, own_flags := {}\<rparr>) t))"

definition alloc_owner :: "lhb \<Rightarrow> (nat \<times> lhb) option" where
  "alloc_owner t =
     (case lhb_free_owners t of
        [] \<Rightarrow> alloc (sizeof_own t) t
      | w # ws \<Rightarrow> Some (w, t\<lparr>lhb_free_owners := ws\<rparr>))"

text \<open>\<open>None\<close>: the call does not return; no handle: there is no room.\<close>

definition create_owner :: "nat \<Rightarrow> nat \<Rightarrow> lhb \<Rightarrow> (nat option \<times> lhb) option" where
  "create_owner owner_id owner_type t =
     (case (case find (\<lambda>w. own_owner_id (lhb_own t w) = owner_id \<and> own_owner_type (lhb_own t w) = owner_type) (lhb_owners t) of
              None \<Rightarrow> Some t
            | Some w \<Rightarrow> purge_owner DUMMY_OWNER_CREATE w t) of
        None \<Rightarrow> None
      | Some t \<Rightarrow>
          (case alloc_owner t of
             None \<Rightarrow> Some (None, t)
           | Some (w, t) \<Rightarrow>
               let t = init_owner_block w owner_type owner_id t
               in Some (Some w, t\<lparr>lhb_owners := lhb_owners t @ [w]\<rparr>)))"

text \<open>The handle of the caller is passed in and returned; the table has been mapped.\<close>

definition LOCK_init :: "bool \<Rightarrow> nat \<Rightarrow> nat \<Rightarrow> nat \<Rightarrow> lhb \<Rightarrow> (bool \<times> nat \<times> lhb) option" where
  "LOCK_init owner_flag owner_id owner_type owner_handle t =
     (if owner_handle \<noteq> 0 then
        Some (True, owner_handle, set_owner owner_handle (\<lambda>v. v\<lparr>own_count := to_sshort (own_count v + 1)\<rparr>) t)
      else if \<not> owner_flag then Some (True, owner_handle, t)
      else case create_owner owner_id owner_type t of
        None \<Rightarrow> None
      | Some (None, t) \<Rightarrow> Some (False, owner_handle, t)
      | Some (Some w, t) \<Rightarrow> Some (True, w, t))"

definition LOCK_fini :: "nat \<Rightarrow> lhb \<Rightarrow> (nat \<times> lhb) option" where
  "LOCK_fini owner_offset t =
     (if owner_offset = 0 \<or> own_count (lhb_own t owner_offset) = 0 then Some (owner_offset, t)
      else
        let t = set_owner owner_offset (\<lambda>v. v\<lparr>own_count := to_sshort (own_count v - 1)\<rparr>) t in
        if 0 < own_count (lhb_own t owner_offset) then Some (owner_offset, t)
        else case purge_owner owner_offset owner_offset t of
          None \<Rightarrow> None
        | Some t \<Rightarrow> Some (0, t))"

subsection \<open>The queues of an owner\<close>

definition own_ok :: "lhb \<Rightarrow> bool" where
  "own_ok t \<longleftrightarrow> distinct (lhb_owners t @ lhb_free_owners t) \<and> (\<forall>w \<in> set (lhb_owners t) \<union> set (lhb_free_owners t). w < lhb_used t)
     \<and> 0 < sizeof_own t
     \<and> (\<forall>w \<in> set (lhb_owners t). distinct (own_requests (lhb_own t w))
          \<and> set (own_requests (lhb_own t w)) = {r. lrq_in_use (lhb_requests t r) \<and> lrq_owner (lhb_requests t r) = w}
          \<and> distinct (own_blocks (lhb_own t w))
          \<and> set (own_blocks (lhb_own t w)) \<subseteq> {r. lrq_in_use (lhb_requests t r) \<and> lrq_owner (lhb_requests t r) = w
                 \<and> LRQ_blocking \<in> lrq_flags (lhb_requests t r)})"

text \<open>What this depends on.\<close>

definition oview :: "lhb \<Rightarrow> (nat \<Rightarrow> bool \<times> nat \<times> bool) \<times> (nat \<Rightarrow> nat list \<times> nat list) \<times> nat list \<times> nat list \<times> nat \<times> nat" where
  "oview t = (\<lambda>r. (lrq_in_use (lhb_requests t r), lrq_owner (lhb_requests t r), LRQ_blocking \<in> lrq_flags (lhb_requests t r)),
     \<lambda>w. (own_requests (lhb_own t w), own_blocks (lhb_own t w)), lhb_owners t, lhb_free_owners t, sizeof_own t, lhb_used t)"

lemma oview_eq:
  assumes "oview u = oview t"
  shows "lrq_in_use (lhb_requests u r) = lrq_in_use (lhb_requests t r)" "lrq_owner (lhb_requests u r) = lrq_owner (lhb_requests t r)"
    "LRQ_blocking \<in> lrq_flags (lhb_requests u r) \<longleftrightarrow> LRQ_blocking \<in> lrq_flags (lhb_requests t r)"
    "own_requests (lhb_own u w) = own_requests (lhb_own t w)" "own_blocks (lhb_own u w) = own_blocks (lhb_own t w)"
    "lhb_owners u = lhb_owners t" "lhb_free_owners u = lhb_free_owners t" "sizeof_own u = sizeof_own t" "lhb_used u = lhb_used t"
  using assms by (simp_all add: oview_def fun_eq_iff)

lemma own_ok_cong:
  assumes "oview u = oview t"
  shows "own_ok u = own_ok t"
  by (simp add: own_ok_def oview_eq [OF assms])

lemma oview_set_request:
  "lrq_in_use (g (lhb_requests t r)) = lrq_in_use (lhb_requests t r) \<Longrightarrow> lrq_owner (g (lhb_requests t r)) = lrq_owner (lhb_requests t r)
   \<Longrightarrow> LRQ_blocking \<in> lrq_flags (g (lhb_requests t r)) \<longleftrightarrow> LRQ_blocking \<in> lrq_flags (lhb_requests t r)
   \<Longrightarrow> oview (set_request r g t) = oview t"
  by (simp add: oview_def set_request_def fun_eq_iff)

lemma oview_set_owner:
  "own_requests (h (lhb_own t w)) = own_requests (lhb_own t w) \<Longrightarrow> own_blocks (h (lhb_own t w)) = own_blocks (lhb_own t w)
   \<Longrightarrow> oview (set_owner w h t) = oview t"
  by (simp add: oview_def set_owner_def fun_eq_iff)

lemma oview_ops [simp]:
  "oview (set_lock l f t) = oview t" "oview (bump s t) = oview t" "oview (bump_operations n t) = oview t"
  "oview (post_history a b c d t) = oview t" "oview (post_secondary a b c d t) = oview t" "oview (inc_count l n t) = oview t"
  "oview (dec_count l n t) = oview t" "oview (inc_pending l t) = oview t" "oview (dec_pending l t) = oview t"
  "oview (insert_data_que l t) = oview t" "oview (remove_data_que l t) = oview t" "oview (post_wakeup w t) = oview t"
  by (simp_all add: oview_def set_owner_def bump_def bump_operations_def post_history_def post_secondary_def inc_count_def dec_count_def
      inc_pending_def dec_pending_def insert_data_que_def remove_data_que_def post_wakeup_def set_lock_def Let_def fun_eq_iff)

lemma oview_flags [simp]:
  "f \<noteq> LRQ_blocking \<Longrightarrow> oview (set_flag r f t) = oview t" "LRQ_blocking \<notin> fs \<Longrightarrow> oview (clear_flags r fs t) = oview t"
  by (auto simp: set_flag_def clear_flags_def intro!: oview_set_request)

lemma oview_grant [simp]: "oview (grant r l t) = oview t"
  by (simp add: grant_def grant_data_def grant_pending_def Let_def oview_set_request)

lemma oview_mark [simp]: "oview (mark_granted rs t) = oview t"
  by (induction rs t rule: mark_granted.induct) (simp_all add: Let_def)

lemma oview_pending_loop [simp]: "oview (pending_loop l rs t) = oview t"
  by (induction rs arbitrary: t) (simp_all add: pending_loop.simps Let_def)

lemma oview_post_pending [simp]: "oview (post_pending l t) = oview t"
  by (simp add: post_pending_def Let_def)

lemma oview_release_lock [simp]: "oview (release_lock l t) = oview t"
  by (simp add: release_lock_def Let_def remove_hash_def remove_data_que_def set_lock_def oview_def)

lemma oview_skel: "skel u = skel t \<Longrightarrow> oview u = oview t"
proof -
  have "oview (skel x) = oview x" for x by (simp add: skel_def oview_def plain_def)
  then show "skel u = skel t \<Longrightarrow> oview u = oview t" by metis
qed

subsection \<open>Releasing and purging\<close>

lemma unlink_own:
  assumes o: "own_ok t" and r: "lrq_in_use (lhb_requests t r)"
  shows "own_ok (unlink_request r t)"
proof -
  let ?u = "unlink_request r t" and ?v = "lrq_owner (lhb_requests t r)"
  have R: "lrq_in_use (lhb_requests ?u q) = (q \<noteq> r \<and> lrq_in_use (lhb_requests t q))" "lrq_owner (lhb_requests ?u q) = lrq_owner (lhb_requests t q)"
    "q \<noteq> r \<Longrightarrow> LRQ_blocking \<in> lrq_flags (lhb_requests ?u q) \<longleftrightarrow> LRQ_blocking \<in> lrq_flags (lhb_requests t q)" for q
    by (auto simp: unlink_request_def Let_def clear_flags_def dec_pending_def set_owner_def set_lock_def set_request_def)
  have W: "own_requests (lhb_own ?u w) = (if w = ?v then remove1 r (own_requests (lhb_own t w)) else own_requests (lhb_own t w))"
    "own_blocks (lhb_own ?u w) = (if w = ?v \<and> LRQ_blocking \<in> lrq_flags (lhb_requests t r) then remove1 r (own_blocks (lhb_own t w))
       else own_blocks (lhb_own t w))" for w
    by (auto simp: unlink_request_def Let_def clear_flags_def dec_pending_def set_owner_def set_lock_def set_request_def)
  have F: "lhb_owners ?u = lhb_owners t" "lhb_free_owners ?u = lhb_free_owners t" "sizeof_own ?u = sizeof_own t" "lhb_used ?u = lhb_used t"
    by (simp_all add: unlink_request_def Let_def clear_flags_def dec_pending_def set_owner_def set_lock_def set_request_def)
  have "distinct (own_requests (lhb_own ?u w)) \<and> set (own_requests (lhb_own ?u w)) = {q. lrq_in_use (lhb_requests ?u q) \<and> lrq_owner (lhb_requests ?u q) = w}
      \<and> distinct (own_blocks (lhb_own ?u w)) \<and> set (own_blocks (lhb_own ?u w)) \<subseteq> {q. lrq_in_use (lhb_requests ?u q)
           \<and> lrq_owner (lhb_requests ?u q) = w \<and> LRQ_blocking \<in> lrq_flags (lhb_requests ?u q)}" if "w \<in> set (lhb_owners t)" for w
  proof -
    have D: "distinct (own_requests (lhb_own t w))" "set (own_requests (lhb_own t w)) = {q. lrq_in_use (lhb_requests t q) \<and> lrq_owner (lhb_requests t q) = w}"
      "distinct (own_blocks (lhb_own t w))" "set (own_blocks (lhb_own t w)) \<subseteq> {q. lrq_in_use (lhb_requests t q)
           \<and> lrq_owner (lhb_requests t q) = w \<and> LRQ_blocking \<in> lrq_flags (lhb_requests t q)}" using o that by (auto simp: own_ok_def)
    have "r \<notin> set (own_blocks (lhb_own ?u w))" using D(3,4) by (auto simp: W)
    moreover have "set (own_blocks (lhb_own ?u w)) \<subseteq> set (own_blocks (lhb_own t w))" by (simp add: W set_remove1_subset)
    ultimately have "set (own_blocks (lhb_own ?u w)) \<subseteq> {q. lrq_in_use (lhb_requests ?u q)
           \<and> lrq_owner (lhb_requests ?u q) = w \<and> LRQ_blocking \<in> lrq_flags (lhb_requests ?u q)}" using D(4) R by blast
    moreover have "set (own_requests (lhb_own ?u w)) = {q. lrq_in_use (lhb_requests ?u q) \<and> lrq_owner (lhb_requests ?u q) = w}"
    proof (cases "w = ?v")
      case True
      then have "set (own_requests (lhb_own ?u w)) = {q. lrq_in_use (lhb_requests t q) \<and> lrq_owner (lhb_requests t q) = w} - {r}"
        using set_remove1_eq [OF D(1), of r] D(2) by (simp add: W)
      then show ?thesis by (auto simp: R)
    next
      case False
      then have "set (own_requests (lhb_own ?u w)) = {q. lrq_in_use (lhb_requests t q) \<and> lrq_owner (lhb_requests t q) = w}"
        using D(2) by (simp add: W)
      then show ?thesis using False by (auto simp: R)
    qed
    moreover have "distinct (own_requests (lhb_own ?u w))" "distinct (own_blocks (lhb_own ?u w))" using D(1,3) by (auto simp: W)
    ultimately show ?thesis by blast
  qed
  then show ?thesis using o by (simp add: own_ok_def F)
qed

lemma oview_settle: "oview (settle r t) = oview (unlink_request r t)"
  by (simp add: settle_def Let_def)

lemma oview_release: "oview (release_request r t) = oview (unlink_request r t)"
  by (simp add: release_request_settle [OF refl] oview_settle)

lemma release_own: "own_ok t \<Longrightarrow> lrq_in_use (lhb_requests t r) \<Longrightarrow> own_ok (release_request r t)"
  using own_ok_cong [OF oview_release] unlink_own by blast

lemma release_users:
  "lrq_in_use (lhb_requests (release_request r t) q) \<longleftrightarrow> q \<noteq> r \<and> lrq_in_use (lhb_requests t q)"
  "lrq_owner (lhb_requests (release_request r t) q) = lrq_owner (lhb_requests t q)"
  unfolding oview_eq(1,2) [OF oview_release]
  by (auto simp: unlink_request_def Let_def clear_flags_def dec_pending_def set_owner_def set_lock_def set_request_def)

lemma release_owners: "lhb_owners (release_request r t) = lhb_owners t" "lhb_free_owners (release_request r t) = lhb_free_owners t"
  unfolding oview_eq(6,7) [OF oview_release]
  by (simp_all add: unlink_request_def Let_def clear_flags_def dec_pending_def set_owner_def set_lock_def set_request_def)

text \<open>One round of the first loop of \<^verbatim>\<open>purge_owner\<close>.\<close>

lemma release_step:
  assumes i: "table_ok t" and o: "own_ok t" and w: "w \<in> set (lhb_owners t)" and r: "own_requests (lhb_own t w) = r # rs"
  shows "lrq_in_use (lhb_requests t r) \<and> lrq_owner (lhb_requests t r) = w" "table_ok (release_request r t)" "own_ok (release_request r t)"
    "w \<in> set (lhb_owners (release_request r t))"
    "card {q. lrq_in_use (lhb_requests (release_request r t) q) \<and> lrq_owner (lhb_requests (release_request r t) q) = w}
       < card {q. lrq_in_use (lhb_requests t q) \<and> lrq_owner (lhb_requests t q) = w}"
proof -
  let ?R = "{q. lrq_in_use (lhb_requests t q) \<and> lrq_owner (lhb_requests t q) = w}" and ?t = "release_request r t"
  have s: "set (own_requests (lhb_own t w)) = ?R" using o w by (simp add: own_ok_def)
  then have m: "r \<in> ?R" using r by auto
  then show "lrq_in_use (lhb_requests t r) \<and> lrq_owner (lhb_requests t r) = w" by simp
  show "table_ok ?t" "own_ok ?t" "w \<in> set (lhb_owners ?t)"
    using release_request_inv [OF i] release_own [OF o] w m by (simp_all add: release_owners)
  have e: "{q. lrq_in_use (lhb_requests ?t q) \<and> lrq_owner (lhb_requests ?t q) = w} = ?R - {r}" by (auto simp: release_users)
  have "finite ?R" unfolding s [symmetric] by simp
  then show "card {q. lrq_in_use (lhb_requests ?t q) \<and> lrq_owner (lhb_requests ?t q) = w} < card ?R"
    unfolding e using m by (rule card_Diff1_less)
qed

text \<open>The loop ends, and the owner has no requests any more.\<close>

lemma purge_requests_ends:
  assumes "table_ok t" and "own_ok t" and "w \<in> set (lhb_owners t)"
  shows "\<exists>u. purge_requests w t = Some u \<and> table_ok u \<and> own_ok u \<and> lhb_owners u = lhb_owners t \<and> lhb_free_owners u = lhb_free_owners t
    \<and> (\<forall>r. lrq_in_use (lhb_requests u r) \<longleftrightarrow> lrq_in_use (lhb_requests t r) \<and> lrq_owner (lhb_requests t r) \<noteq> w)
    \<and> (\<forall>r. lrq_owner (lhb_requests u r) = lrq_owner (lhb_requests t r))"
  using assms
proof (induction "card {r. lrq_in_use (lhb_requests t r) \<and> lrq_owner (lhb_requests t r) = w}" arbitrary: t rule: less_induct)
  case less
  show ?case
  proof (cases "own_requests (lhb_own t w)")
    case Nil
    then have "purge_requests w t = Some t" by (simp add: purge_requests.simps)
    moreover have "{r. lrq_in_use (lhb_requests t r) \<and> lrq_owner (lhb_requests t r) = w} = set (own_requests (lhb_own t w))"
      using less.prems(2,3) by (simp add: own_ok_def)
    ultimately show ?thesis using less.prems unfolding Nil by auto
  next
    case (Cons r rs)
    let ?t = "release_request r t"
    note s = release_step [OF less.prems Cons]
    obtain u where u: "purge_requests w ?t = Some u" "table_ok u" "own_ok u" "lhb_owners u = lhb_owners ?t" "lhb_free_owners u = lhb_free_owners ?t"
      "\<forall>q. lrq_in_use (lhb_requests u q) \<longleftrightarrow> lrq_in_use (lhb_requests ?t q) \<and> lrq_owner (lhb_requests ?t q) \<noteq> w"
      "\<forall>q. lrq_owner (lhb_requests u q) = lrq_owner (lhb_requests ?t q)"
      using less.hyps [OF s(5,2,3,4)] by blast
    have "purge_requests w t = Some u" using u(1) Cons by (simp add: purge_requests.simps [of w t])
    moreover have "\<forall>q. lrq_in_use (lhb_requests u q) \<longleftrightarrow> lrq_in_use (lhb_requests t q) \<and> lrq_owner (lhb_requests t q) \<noteq> w"
      using u(6) s(1) by (auto simp: release_users)
    ultimately show ?thesis using u by (auto simp: release_owners release_users)
  qed
qed

definition same_table :: "lhb \<Rightarrow> lhb \<Rightarrow> bool" where
  "same_table u t \<longleftrightarrow> lhb_requests u = lhb_requests t \<and> lhb_locks u = lhb_locks t \<and> lhb_free_requests u = lhb_free_requests t
     \<and> lhb_free_locks u = lhb_free_locks t \<and> lhb_hash u = lhb_hash t \<and> sizeof_lrq u = sizeof_lrq t \<and> sizeof_lbl u = sizeof_lbl t
     \<and> ALIGNMENT u = ALIGNMENT t"

lemma same_table_ok:
  assumes i: "table_ok t" and s: "same_table u t" and u: "lhb_used t \<le> lhb_used u"
    and o: "\<And>r. lrq_in_use (lhb_requests t r) \<Longrightarrow> lrq_owner (lhb_requests t r) \<in> set (lhb_owners u)"
  shows "table_ok u"
proof -
  have "pending u = pending t" using s by (simp add: pending_def same_table_def fun_eq_iff)
  then have "lock_ok u l = lock_ok t l" for l
    using s by (simp add: lock_ok_def counted_def agree_def same_table_def)
  moreover have "a < lhb_used t \<Longrightarrow> a < lhb_used u" for a using u by simp
  ultimately show ?thesis using i s o unfolding table_ok_def pending_def same_table_def by simp
qed

lemma secondary_ok:
  assumes "table_ok t" and "own_ok t"
  shows "table_ok (post_secondary h a b c t)" "own_ok (post_secondary h a b c t)"
proof -
  show "table_ok (post_secondary h a b c t)"
    by (rule same_table_ok [OF assms(1)]) (use assms(1) in \<open>auto simp: same_table_def post_secondary_def table_ok_def\<close>)
  show "own_ok (post_secondary h a b c t)" using assms(2) own_ok_cong [OF oview_ops(5)] by blast
qed

text \<open>What purging does, if it is done for an attached owner.\<close>

definition purged :: "nat \<Rightarrow> lhb \<Rightarrow> lhb \<Rightarrow> bool" where
  "purged w t u \<longleftrightarrow> lhb_owners u = remove1 w (lhb_owners t) \<and> lhb_free_owners u = lhb_free_owners t @ [w]
     \<and> (\<forall>r. lrq_in_use (lhb_requests u r) \<longleftrightarrow> lrq_in_use (lhb_requests t r) \<and> lrq_owner (lhb_requests t r) \<noteq> w)
     \<and> (\<forall>r. lrq_owner (lhb_requests u r) = lrq_owner (lhb_requests t r))"

lemma purge_owner_ends:
  assumes i: "table_ok t" and o: "own_ok t" and w: "w \<in> set (lhb_owners t)"
  obtains u where "purge_owner p w t = Some u" "table_ok u" "own_ok u" "purged w t u"
proof -
  let ?t = "post_secondary his_del_owner p w 0 t"
  have "w \<in> set (lhb_owners ?t)" using w by (simp add: post_secondary_def)
  then obtain v where v: "purge_requests w ?t = Some v" "table_ok v" "own_ok v" "lhb_owners v = lhb_owners t"
      "lhb_free_owners v = lhb_free_owners t"
      "\<And>r. lrq_in_use (lhb_requests v r) \<longleftrightarrow> lrq_in_use (lhb_requests t r) \<and> lrq_owner (lhb_requests t r) \<noteq> w"
      "\<And>r. lrq_owner (lhb_requests v r) = lrq_owner (lhb_requests t r)"
    using purge_requests_ends [OF secondary_ok [OF i o]] by (fastforce simp: post_secondary_def)
  have "set (own_blocks (lhb_own v w)) \<subseteq> {r. lrq_in_use (lhb_requests v r) \<and> lrq_owner (lhb_requests v r) = w}"
    using v(3,4) w by (auto simp: own_ok_def)
  then have "own_blocks (lhb_own v w) = []" using v(6,7) by simp
  define u where "u = set_owner w (\<lambda>v. v\<lparr>own_owner_type := 0, own_owner_id := 0, own_flags := {}\<rparr>)
      (v\<lparr>lhb_owners := remove1 w (lhb_owners v), lhb_free_owners := lhb_free_owners v @ [w]\<rparr>)"
  have e: "purge_owner p w t = Some u" using v(1) \<open>own_blocks (lhb_own v w) = []\<close> by (simp add: purge_owner_def u_def)
  have F: "lhb_owners u = remove1 w (lhb_owners t)" "lhb_free_owners u = lhb_free_owners t @ [w]" "lhb_requests u = lhb_requests v"
    "lhb_used u = lhb_used v" "sizeof_own u = sizeof_own v" "same_table u v"
    "own_requests (lhb_own u x) = own_requests (lhb_own v x)" "own_blocks (lhb_own u x) = own_blocks (lhb_own v x)" for x
    using v(4,5) by (simp_all add: u_def set_owner_def same_table_def)
  have d: "distinct (lhb_owners t)" "w \<notin> set (lhb_free_owners t)" using o w by (auto simp: own_ok_def)
  have "table_ok u"
  proof (rule same_table_ok [OF v(2) F(6)])
    show "lrq_owner (lhb_requests v r) \<in> set (lhb_owners u)" if "lrq_in_use (lhb_requests v r)" for r
      using that v(6,7) i d(1) F(1) by (simp add: table_ok_def)
  qed (simp add: F)
  moreover have "own_ok u" using v(3,4,5) w d unfolding own_ok_def F by auto
  moreover have "purged w t u" using v(6,7) by (simp add: purged_def F)
  ultimately show ?thesis using that e by blast
qed

subsection \<open>Attaching\<close>

lemma alloc_owner_ok:
  assumes i: "table_ok t" and o: "own_ok t" and a: "alloc_owner t = Some (w, u)"
  shows "same_table u t" "lhb_used t \<le> lhb_used u" "lhb_owners u = lhb_owners t" "w \<notin> set (lhb_owners t) \<union> set (lhb_free_owners u)" "w < lhb_used u"
    "distinct (lhb_owners t @ lhb_free_owners u)" "set (lhb_free_owners u) \<subseteq> set (lhb_free_owners t)" "lhb_own u = lhb_own t" "sizeof_own u = sizeof_own t"
proof -
  have p: "0 < FB_ALIGN (sizeof_own t) (ALIGNMENT t)" using FB_ALIGN_pos o i by (simp add: own_ok_def table_ok_def)
  show "same_table u t" "lhb_used t \<le> lhb_used u" "lhb_owners u = lhb_owners t" "w \<notin> set (lhb_owners t) \<union> set (lhb_free_owners u)" "w < lhb_used u"
    "distinct (lhb_owners t @ lhb_free_owners u)" "set (lhb_free_owners u) \<subseteq> set (lhb_free_owners t)" "lhb_own u = lhb_own t" "sizeof_own u = sizeof_own t"
    using a p o by (auto simp: alloc_owner_def alloc_def own_ok_def same_table_def Let_def split: list.splits if_splits)
qed

lemma attach_ok:
  assumes i: "table_ok t" and o: "own_ok t" and a: "alloc_owner t = Some (w, x)"
    and u: "u = (init_owner_block w ty ow x)\<lparr>lhb_owners := lhb_owners x @ [w]\<rparr>"
  shows "table_ok u" "own_ok u"
proof -
  note A = alloc_owner_ok [OF i o a]
  have F: "lhb_owners u = lhb_owners t @ [w]" "lhb_free_owners u = lhb_free_owners x" "lhb_requests u = lhb_requests t"
    "lhb_used u = lhb_used x" "sizeof_own u = sizeof_own t" "same_table u t"
    "own_requests (lhb_own u v) = (if v = w then [] else own_requests (lhb_own t v))"
    "own_blocks (lhb_own u v) = (if v = w then [] else own_blocks (lhb_own t v))" for v
    using A by (simp_all add: u init_owner_block_def set_owner_def same_table_def)
  show "table_ok u" by (rule same_table_ok [OF i F(6)]) (use A(2) i in \<open>simp_all add: F table_ok_def\<close>)
  have n: "{r. lrq_in_use (lhb_requests t r) \<and> lrq_owner (lhb_requests t r) = w} = {}" using i A(4) by (auto simp: table_ok_def)
  have "v < lhb_used x" if "v \<in> set (lhb_owners t) \<union> set (lhb_free_owners t)" for v
    using o that A(2) by (auto simp: own_ok_def intro: less_le_trans)
  then have b: "\<forall>v \<in> set (lhb_owners u) \<union> set (lhb_free_owners u). v < lhb_used u" using A(5,7) unfolding F by auto
  have d: "distinct (lhb_owners u @ lhb_free_owners u)" using A(4,6) unfolding F by auto
  have s: "0 < sizeof_own u" using o by (simp add: own_ok_def F)
  have "v \<noteq> w" if "v \<in> set (lhb_owners t)" for v using that A(4) by blast
  then show "own_ok u"
    using b d s n o unfolding own_ok_def F by auto
qed

lemma create_owner_ok:
  assumes i: "table_ok t" and o: "own_ok t"
  obtains h u where "create_owner ow ty t = Some (h, u)" "table_ok u" "own_ok u" "\<And>w. h = Some w \<Longrightarrow> w \<in> set (lhb_owners u)"
proof -
  let ?f = "find (\<lambda>w. own_owner_id (lhb_own t w) = ow \<and> own_owner_type (lhb_own t w) = ty) (lhb_owners t)"
  obtain v where v: "(case ?f of None \<Rightarrow> Some t | Some w \<Rightarrow> purge_owner DUMMY_OWNER_CREATE w t) = Some v" "table_ok v" "own_ok v"
  proof (cases ?f)
    case (Some w)
    then have "w \<in> set (lhb_owners t)" by (auto simp: find_Some_iff)
    then show ?thesis using purge_owner_ends [OF i o, of w DUMMY_OWNER_CREATE] that Some by auto
  qed (use that i o in auto)
  show ?thesis
  proof (cases "alloc_owner v")
    case None
    then show ?thesis using that v by (simp add: create_owner_def)
  next
    case (Some p)
    then obtain w x where a: "alloc_owner v = Some (w, x)" by (cases p) simp
    let ?u = "(init_owner_block w ty ow x)\<lparr>lhb_owners := lhb_owners x @ [w]\<rparr>"
    have "create_owner ow ty t = Some (Some w, ?u)"
      using v(1) a by (simp add: create_owner_def init_owner_block_def set_owner_def)
    then show ?thesis using that attach_ok [OF v(2,3) a refl] by simp
  qed
qed

subsection \<open>The other operations\<close>

lemma blockage_loop_own:
  assumes "blockage_loop r w force bs os t = (os', u)" and "own_ok t" and "\<forall>b \<in> set bs. lrq_in_use (lhb_requests t b)"
  shows "own_ok u"
  using assms
proof (induction bs arbitrary: os t)
  case (Cons b bs)
  let ?bw = "lrq_owner (lhb_requests t b)"
  define v where "v = clear_flags b {LRQ_blocking_seen, LRQ_just_granted} (set_flag b LRQ_blocking (set_owner ?bw (\<lambda>v. v\<lparr>own_blocks := own_blocks v @ [b]\<rparr>) t))"
  have V: "lrq_in_use (lhb_requests v q) = lrq_in_use (lhb_requests t q)" "lrq_owner (lhb_requests v q) = lrq_owner (lhb_requests t q)"
    "LRQ_blocking \<in> lrq_flags (lhb_requests v q) \<longleftrightarrow> q = b \<or> LRQ_blocking \<in> lrq_flags (lhb_requests t q)"
    "own_requests (lhb_own v x) = own_requests (lhb_own t x)"
    "own_blocks (lhb_own v x) = (if x = ?bw then own_blocks (lhb_own t x) @ [b] else own_blocks (lhb_own t x))"
    "lhb_owners v = lhb_owners t" "lhb_free_owners v = lhb_free_owners t" "sizeof_own v = sizeof_own t" "lhb_used v = lhb_used t" for q x
    by (simp_all add: v_def clear_flags_def set_flag_def set_owner_def set_request_def)
  have b: "lrq_in_use (lhb_requests t b)" using Cons.prems(3) by simp
  have own: "own_ok v" if n: "LRQ_blocking \<notin> lrq_flags (lhb_requests t b)"
  proof -
    have "b \<notin> set (own_blocks (lhb_own t x))" if "x \<in> set (lhb_owners t)" for x using Cons.prems(2) n that by (auto simp: own_ok_def)
    then show ?thesis using Cons.prems(2) b unfolding own_ok_def V by auto
  qed
  define y where "y = (if LRQ_blocking \<notin> lrq_flags (lhb_requests t b) then v else t)"
  define z where "z = (if force then set_owner ?bw (\<lambda>v. v\<lparr>own_signaled := False\<rparr>) y else y)"
  have y: "own_ok y" "lrq_in_use (lhb_requests y q) = lrq_in_use (lhb_requests t q)" for q using own Cons.prems(2) by (simp_all add: y_def V)
  have "oview z = oview y" by (simp add: z_def oview_set_owner)
  then have z: "own_ok z" "lrq_in_use (lhb_requests z q) = lrq_in_use (lhb_requests t q)" for q
    using own_ok_cong [of z y] oview_eq(1) [of z y] y by simp_all
  show ?case
    using Cons.prems Cons.IH [of _ t] Cons.IH [of _ z] z
    unfolding blockage_loop.simps Let_def v_def [symmetric] y_def [symmetric] z_def [symmetric] by (auto split: if_splits prod.splits)
qed simp

lemma oview_signals: "oview (fold (\<lambda>w t. if own_count (lhb_own t w) \<noteq> 0 then signal_owner w t else t) ws t) = oview t"
  by (induction ws arbitrary: t) (simp_all add: signal_owner_def oview_set_owner)

lemma post_blockage_own:
  assumes "own_ok t" and "\<forall>b \<in> set (queue t l). lrq_in_use (lhb_requests t b)"
  shows "own_ok (post_blockage r l force t)"
proof -
  obtain os u where b: "blockage_loop r (lrq_owner (lhb_requests t r)) force (queue t l) [] t = (os, u)" by (cases "blockage_loop r (lrq_owner (lhb_requests t r)) force (queue t l) [] t")
  have "own_ok u" using blockage_loop_own [OF b] assms by simp
  then show ?thesis using own_ok_cong [OF oview_signals, of "rev os" u] b by (simp add: post_blockage_def)
qed

lemma dequeue_own: "own_ok t \<Longrightarrow> lrq_in_use (lhb_requests t r) \<Longrightarrow> own_ok (dequeue r t)"
proof -
  let ?u = "set_request r (\<lambda>q. q\<lparr>lrq_ast_routine := 0\<rparr>) (post_history his_deq (lrq_owner (lhb_requests t r)) (lrq_lock (lhb_requests t r)) r t)"
  assume a: "own_ok t" "lrq_in_use (lhb_requests t r)"
  have "oview ?u = oview t" by (simp add: oview_set_request)
  then show ?thesis using a release_own [of ?u r] own_ok_cong [of ?u t] oview_eq(1) [of ?u t] by (simp add: dequeue_def Let_def)
qed

lemma deny_own: "own_ok t \<Longrightarrow> lrq_in_use (lhb_requests t r) \<Longrightarrow> own_ok (snd (deny r lck_wait t))"
proof -
  define u where "u = (let request = lhb_requests t r; t = bump lhb_denies (post_history his_deny (lrq_owner request) (lrq_lock request) r t) in
     if lck_wait < 0 then bump lhb_timeouts t else t)"
  have v: "oview u = oview t" by (simp add: u_def Let_def)
  assume "own_ok t" "lrq_in_use (lhb_requests t r)"
  then have "own_ok (release_request r u)" using release_own [of u r] own_ok_cong [OF v] oview_eq(1) [OF v] by simp
  moreover have "snd (deny r lck_wait t) = release_request r u" by (simp add: deny_def u_def Let_def)
  ultimately show ?thesis by simp
qed

lemma wait_begin_own:
  assumes o: "own_ok t" and r: "lrq_in_use (lhb_requests t r)" and l: "lrq_lock (lhb_requests t r) = l"
    and q: "\<forall>b \<in> set (queue t l). lrq_in_use (lhb_requests t b)"
  shows "own_ok (wait_begin r lck_wait t)"
proof -
  define a where "a = inc_pending l (set_flag r LRQ_pending (clear_flags r {LRQ_rejected} (bump lhb_waits t)))"
  define b where "b = (if LOCK_ordering a \<and> lrq_state (lhb_requests a r) = 0
               then set_lock l (\<lambda>k. k\<lparr>lbl_requests := remove1 r (lbl_requests k) @ [r]\<rparr>) a else a)"
  define c where "c = set_owner (lrq_owner (lhb_requests t r)) (\<lambda>v. v\<lparr>own_pending_request := r,
                own_flags := own_flags v - {OWN_scanned, OWN_wakeup, OWN_timeout}, own_semaphore := True\<rparr>) b"
  define d where "d = (if lck_wait < 0 then set_owner (lrq_owner (lhb_requests t r)) (\<lambda>v. v\<lparr>own_flags := insert OWN_timeout (own_flags v)\<rparr>) c else c)"
  have v: "oview d = oview t" by (simp add: d_def c_def b_def a_def oview_set_owner)
  have "queue a l = queue t l" by (simp add: a_def inc_pending_def set_flag_def clear_flags_def)
  then have "set (queue b l) \<subseteq> insert r (set (queue t l))" using set_remove1_subset by (auto simp: b_def)
  moreover have "queue d l = queue b l" by (simp add: d_def c_def set_owner_def)
  ultimately have "\<forall>p \<in> set (queue d l). lrq_in_use (lhb_requests d p)" using q r oview_eq(1) [OF v] by auto
  then have "own_ok (post_blockage r l False d)" using post_blockage_own o own_ok_cong [OF v] by blast
  moreover have "wait_begin r lck_wait t = post_history his_wait (lrq_owner (lhb_requests t r)) l r (post_blockage r l False d)"
    unfolding wait_begin_def Let_def l a_def [symmetric] b_def [symmetric] c_def [symmetric] d_def [symmetric] ..
  ultimately show ?thesis using own_ok_cong [OF oview_ops(4)] by simp
qed

lemma queue_used: "table_ok t \<Longrightarrow> lrq_in_use (lhb_requests t r) \<Longrightarrow> \<forall>b \<in> set (queue t (lrq_lock (lhb_requests t r))). lrq_in_use (lhb_requests t b)"
  unfolding table_ok_def by blast

lemma convert_own:
  assumes o: "own_ok t" and r: "lrq_in_use (lhb_requests t r)" and q: "\<forall>b \<in> set (queue t (lrq_lock (lhb_requests t r))). lrq_in_use (lhb_requests t b)"
  shows "own_ok (snd (convert r type lck_wait ar aa t))"
proof -
  let ?l = "lrq_lock (lhb_requests t r)"
  define t1 where "t1 = clear_flags r {LRQ_blocking_seen} (set_request r (\<lambda>q. q\<lparr>lrq_requested := type\<rparr>)
      (post_history his_convert (lrq_owner (lhb_requests t r)) ?l r t))"
  define s where "s = lrq_state (lhb_requests t1 r)"
  define t2 where "t2 = inc_count ?l s (dec_count ?l s t1)"
  have v1: "oview t1 = oview t" by (simp add: t1_def oview_set_request)
  then have v2: "oview t2 = oview t" by (simp add: t2_def)
  have Q: "queue t2 ?l = queue t ?l" "lrq_lock (lhb_requests t2 r) = ?l"
    by (simp_all add: t2_def t1_def inc_count_def dec_count_def clear_flags_def)
  have "own_ok (wait_begin r lck_wait t2)"
    by (rule wait_begin_own [of _ _ ?l]) (use o r q Q own_ok_cong [OF v2] oview_eq(1) [OF v2] in simp_all)
  moreover have "oview (snd (convert_denied r n t2)) = oview t2" for n by (simp add: convert_denied_def Let_def oview_set_request)
  then have "own_ok (snd (convert_denied r n t2))" for n using own_ok_cong v2 o by metis
  moreover have "oview (post_pending ?l (grant r ?l (set_request r (\<lambda>q. q\<lparr>lrq_ast_routine := ar, lrq_ast_argument := aa\<rparr>) (dec_count ?l s t1)))) = oview t1"
    by (simp add: oview_set_request)
  then have "own_ok (post_pending ?l (grant r ?l (set_request r (\<lambda>q. q\<lparr>lrq_ast_routine := ar, lrq_ast_argument := aa\<rparr>) (dec_count ?l s t1))))"
    using own_ok_cong v1 o by metis
  ultimately show ?thesis unfolding convert_def Let_def t1_def [symmetric] s_def [symmetric] t2_def [symmetric] by simp
qed

lemma grant_or_que_own:
  assumes o: "own_ok t" and r: "lrq_in_use (lhb_requests t r)" and q: "\<forall>b \<in> set (queue t l). lrq_in_use (lhb_requests t b)"
  shows "own_ok (snd (grant_or_que r l lck_wait t))"
proof -
  define u where "u = set_request r (\<lambda>q. q\<lparr>lrq_lock := l\<rparr>) t"
  have v: "oview u = oview t" by (simp add: u_def oview_set_request)
  have u: "own_ok u" "lrq_in_use (lhb_requests u r)" "lrq_lock (lhb_requests u r) = l" "\<forall>b \<in> set (queue u l). lrq_in_use (lhb_requests u b)"
    using o r q own_ok_cong [OF v] oview_eq(1) [OF v] by (simp_all add: u_def)
  have "oview (post_pending l (grant r l u)) = oview u" by simp
  then have "own_ok (post_pending l (grant r l u))" using own_ok_cong u(1) by blast
  moreover have "own_ok (snd (deny r n u))" for n using deny_own [OF u(1,2)] by simp
  moreover have "own_ok (wait_begin r lck_wait u)" by (rule wait_begin_own [OF u])
  ultimately show ?thesis by (simp add: grant_or_que_def Let_def flip: u_def)
qed

text \<open>Enqueueing: the new request joins the queue of its owner.\<close>

lemma own_ok_mono:
  assumes "own_ok t" and "lhb_requests u = lhb_requests t" "lhb_own u = lhb_own t" "lhb_owners u = lhb_owners t"
    "lhb_free_owners u = lhb_free_owners t" "sizeof_own u = sizeof_own t" and le: "lhb_used t \<le> lhb_used u"
  shows "own_ok u"
proof -
  have "w < lhb_used t \<Longrightarrow> w < lhb_used u" for w using le by simp
  then show ?thesis using assms(1) unfolding own_ok_def assms(2-6) by blast
qed

lemma alloc_own: "alloc bytes t = Some (b, u) \<Longrightarrow> own_ok t \<Longrightarrow> own_ok u"
  by (rule own_ok_mono [of t]) (auto simp: alloc_def Let_def split: if_splits)

lemma alloc_request_own: "alloc_request t = Some (r, u) \<Longrightarrow> own_ok t \<Longrightarrow> own_ok u"
  using alloc_own own_ok_mono [of t u] by (auto simp: alloc_request_def split: list.splits)

lemma alloc_lock_own: "alloc_lock len t = Some (l, u) \<Longrightarrow> own_ok t \<Longrightarrow> own_ok u"
proof -
  assume a: "alloc_lock len t = Some (l, u)" and o: "own_ok t"
  show "own_ok u"
  proof (cases "find (\<lambda>k. FB_ALIGN len 8 \<le> lbl_size (lhb_locks t k)) (lhb_free_locks t)")
    case (Some k)
    then show ?thesis using a own_ok_mono [OF o, of u] by (auto simp: alloc_lock_def Let_def set_lock_def)
  next
    case None
    then obtain x where x: "alloc (sizeof_lbl t + FB_ALIGN len 8) t = Some (l, x)"
      "u = set_lock l (\<lambda>k. k\<lparr>lbl_size := FB_ALIGN len 8 mod 256, lbl_in_use := True\<rparr>) x"
      using a by (auto simp: alloc_lock_def Let_def split: option.splits)
    then show ?thesis using alloc_own [OF x(1) o] own_ok_cong [of u x] by simp
  qed
qed

lemma enq_request_own:
  assumes o: "own_ok x" and r: "\<not> lrq_in_use (lhb_requests x r)" and w: "w \<in> set (lhb_owners x)"
  shows "own_ok (enq_request r type ar aa w x)"
proof -
  let ?u = "enq_request r type ar aa w x"
  have F: "lrq_in_use (lhb_requests ?u q) = (q = r \<or> lrq_in_use (lhb_requests x q))"
    "q \<noteq> r \<Longrightarrow> lrq_owner (lhb_requests ?u q) = lrq_owner (lhb_requests x q)" "lrq_owner (lhb_requests ?u r) = w"
    "q \<noteq> r \<Longrightarrow> lrq_flags (lhb_requests ?u q) = lrq_flags (lhb_requests x q)"
    "own_requests (lhb_own ?u v) = (if v = w then own_requests (lhb_own x v) @ [r] else own_requests (lhb_own x v))"
    "own_blocks (lhb_own ?u v) = own_blocks (lhb_own x v)" for q v
    by (simp_all add: enq_request_def set_owner_def set_request_def post_history_def)
  have G: "lhb_owners ?u = lhb_owners x" "lhb_free_owners ?u = lhb_free_owners x" "sizeof_own ?u = sizeof_own x" "lhb_used ?u = lhb_used x"
    by (simp_all add: enq_request_def set_owner_def set_request_def post_history_def)
  have "distinct (own_requests (lhb_own ?u v)) \<and> set (own_requests (lhb_own ?u v)) = {q. lrq_in_use (lhb_requests ?u q) \<and> lrq_owner (lhb_requests ?u q) = v}
      \<and> distinct (own_blocks (lhb_own ?u v)) \<and> set (own_blocks (lhb_own ?u v)) \<subseteq> {q. lrq_in_use (lhb_requests ?u q)
           \<and> lrq_owner (lhb_requests ?u q) = v \<and> LRQ_blocking \<in> lrq_flags (lhb_requests ?u q)}" if "v \<in> set (lhb_owners x)" for v
  proof -
    have D: "distinct (own_requests (lhb_own x v))" "set (own_requests (lhb_own x v)) = {q. lrq_in_use (lhb_requests x q) \<and> lrq_owner (lhb_requests x q) = v}"
      "distinct (own_blocks (lhb_own x v))" "set (own_blocks (lhb_own x v)) \<subseteq> {q. lrq_in_use (lhb_requests x q)
           \<and> lrq_owner (lhb_requests x q) = v \<and> LRQ_blocking \<in> lrq_flags (lhb_requests x q)}" using o that by (auto simp: own_ok_def)
    have "q \<noteq> r" if "lrq_in_use (lhb_requests x q)" for q using that r by blast
    then have e: "{q. lrq_in_use (lhb_requests ?u q) \<and> lrq_owner (lhb_requests ?u q) = v} =
        {q. lrq_in_use (lhb_requests x q) \<and> lrq_owner (lhb_requests x q) = v} \<union> (if v = w then {r} else {})"
      using F(1,2,3) by auto
    have "r \<notin> set (own_requests (lhb_own x v))" using r D(2) by blast
    then have "distinct (own_requests (lhb_own ?u v))" "set (own_requests (lhb_own ?u v)) = {q. lrq_in_use (lhb_requests ?u q) \<and> lrq_owner (lhb_requests ?u q) = v}"
      unfolding e using D(1,2) by (auto simp: F(5))
    moreover have "set (own_blocks (lhb_own ?u v)) \<subseteq> {q. lrq_in_use (lhb_requests ?u q)
           \<and> lrq_owner (lhb_requests ?u q) = v \<and> LRQ_blocking \<in> lrq_flags (lhb_requests ?u q)}"
    proof
      fix q assume "q \<in> set (own_blocks (lhb_own ?u v))"
      then have q: "lrq_in_use (lhb_requests x q)" "lrq_owner (lhb_requests x q) = v" "LRQ_blocking \<in> lrq_flags (lhb_requests x q)"
        using D(4) by (auto simp: F(6))
      then show "q \<in> {q. lrq_in_use (lhb_requests ?u q) \<and> lrq_owner (lhb_requests ?u q) = v \<and> LRQ_blocking \<in> lrq_flags (lhb_requests ?u q)}"
        using r F(1,2,4) [of q] by auto
    qed
    ultimately show ?thesis using D(3) by (simp add: F(6))
  qed
  then show ?thesis using o unfolding own_ok_def G by blast
qed

lemma oview_install: "oview (install r l parent series val type data v) = oview v"
proof -
  have "oview (v\<lparr>lhb_hash := h\<rparr>) = oview v" for v h by (simp add: oview_def)
  then show ?thesis by (simp add: install_def Let_def oview_set_request)
qed

text \<open>If there is no room for a lock, the request is taken back.\<close>

lemma new_lock_own:
  assumes o: "own_ok u" and r: "lrq_in_use (lhb_requests u r)"  and b: "LRQ_blocking \<notin> lrq_flags (lhb_requests u r)"
  shows "own_ok (snd (new_lock r parent series val type data u))"
proof (cases "alloc_lock (length val) u")
  case None
  let ?x = "snd (new_lock r parent series val type data u)"
  have "oview ?x = oview (unlink_request r u)"
    using None b by (simp add: new_lock_def Let_def unlink_request_def oview_def set_owner_def set_request_def set_lock_def clear_flags_def
        dec_pending_def fun_eq_iff)
  then show ?thesis using own_ok_cong unlink_own [OF o r] by blast
next
  case (Some p)
  then obtain l x where a: "alloc_lock (length val) u = Some (l, x)" by (cases p) simp
  have v: "oview (grant r l (install r l parent series val type data x)) = oview x" by (simp add: oview_install)
  show ?thesis using own_ok_cong [OF v] alloc_lock_own [OF a o] by (simp add: new_lock_room [OF a])
qed

lemma LOCK_enq_own:
  assumes i: "table_ok t" and o: "own_ok t" and n: "type < 7" and p: "prior = 0 \<or> lrq_in_use (lhb_requests t prior)"
    and w: "w \<in> set (lhb_owners t)"
    and e: "LOCK_enq prior parent_request series val type ar aa data lck_wait w t = Some (res, u)"
  shows "own_ok u"
proof -
  let ?p = "enq_prior prior t"
  note P = enq_prior_ok(1,3) [OF i p]
  have b: "oview (bump lhb_enqs t) = oview t" by simp
  have op: "own_ok ?p" using p o own_ok_cong [OF b] dequeue_own [of "bump lhb_enqs t" prior] oview_eq(1) [OF b, of prior]
    by (auto simp: enq_prior_def)
  have req: "own_ok (enq_request r type ar aa w x)" "lrq_in_use (lhb_requests (enq_request r type ar aa w x) r)"
      "LRQ_blocking \<notin> lrq_flags (lhb_requests (enq_request r type ar aa w x) r)" if a: "alloc_request ?p = Some (r, x)" for r x
  proof -
    note A = alloc_request_ok [OF P(1) a]
    show "own_ok (enq_request r type ar aa w x)"
      by (rule enq_request_own [OF alloc_request_own [OF a op]]) (use A w P(2) in \<open>simp_all add: only_alloc_def\<close>)
    show "lrq_in_use (lhb_requests (enq_request r type ar aa w x) r)" "LRQ_blocking \<notin> lrq_flags (lhb_requests (enq_request r type ar aa w x) r)"
      by (simp_all add: enq_request_def)
  qed
  show ?thesis using e
  proof (cases rule: LOCK_enq_cases)
    case (join r x l parent)
    let ?y = "enq_request r type ar aa w x"
    let ?j = "enq_join r l data series ?y"
    have f: "fresh r w ?p ?y" unfolding enq_request_def by (rule enq_fresh [OF P(1) join(1) n])
    have l: "lbl_in_use (lhb_locks ?p l)" by (rule found_in_use [OF P(1) f join(2)])
    have v: "oview ?j = oview ?y" by (simp add: enq_join_def oview_set_request)
    have "queue ?j l = queue ?p l @ [r]" using f by (simp add: enq_join_def fresh_def)
    moreover have "lrq_in_use (lhb_requests ?y b)" if "b = r \<or> lrq_in_use (lhb_requests ?p b)" for b
      using f that unfolding fresh_def by metis
    moreover have "\<forall>b \<in> set (queue ?p l). lrq_in_use (lhb_requests ?p b)" using P(1) l unfolding table_ok_def by blast
    ultimately have q: "\<forall>b \<in> set (queue ?j l). lrq_in_use (lhb_requests ?j b)" using oview_eq(1) [OF v] by auto
    show ?thesis
      using grant_or_que_own [OF _ _ q, of r lck_wait] req [OF join(1)] own_ok_cong [OF v] oview_eq(1) [OF v] join(3) by simp
  next
    case (create r x parent)
    then show ?thesis using new_lock_own [OF req [OF create(1)], of parent series val type data] by simp
  qed (use o op in simp_all)
qed

lemma own_request:
  assumes i: "table_ok t" and o: "own_ok t" and g: "get_request r t = Some q" and v: "oview u = oview t" and k: "lhb_locks u = lhb_locks t"
    "lhb_requests u = lhb_requests t"
  shows "own_ok u" "lrq_in_use (lhb_requests u r)" "\<forall>b \<in> set (queue u (lrq_lock (lhb_requests u r))). lrq_in_use (lhb_requests u b)"
  using get_request_Some [OF g] queue_used [OF i, of r] o own_ok_cong [OF v] k by simp_all

lemma LOCK_convert_own:
  assumes "table_ok t" and "own_ok t" and e: "LOCK_convert r type lck_wait ar aa t = Some (res, u)"
  shows "own_ok u"
proof -
  obtain q where g: "get_request r t = Some q" using e by (auto simp: LOCK_convert_def split: option.splits)
  let ?t = "bump_operations (lbl_series (lhb_locks t (lrq_lock q))) (bump lhb_converts t)"
  have "own_ok (snd (convert r type lck_wait ar aa ?t))"
    by (rule convert_own) (rule own_request [OF assms(1,2) g]; simp)+
  then show ?thesis using e g assms(2) by (auto simp: LOCK_convert_def split: if_splits)
qed

lemma LOCK_deq_own:
  assumes "table_ok t" and "own_ok t" and e: "LOCK_deq r t = Some (res, u)"
  shows "own_ok u"
proof -
  obtain q where g: "get_request r t = Some q" using e by (auto simp: LOCK_deq_def split: option.splits)
  let ?t = "bump_operations (lbl_series (lhb_locks t (lrq_lock q))) (bump lhb_deqs t)"
  have "own_ok (dequeue r ?t)"
    by (rule dequeue_own) (rule own_request [OF assms(1,2) g]; simp)+
  then show ?thesis using e g assms(2) by (auto simp: LOCK_deq_def split: if_splits)
qed

lemma LOCK_downgrade_own:
  assumes "table_ok t" and "own_ok t" and e: "LOCK_downgrade r t = Some (res, u)"
  shows "own_ok u"
proof -
  obtain q where g: "get_request r t = Some q" using e by (auto simp: LOCK_downgrade_def split: option.splits)
  let ?t = "bump lhb_downgrades t"
  have "own_ok (dequeue r ?t)" by (rule dequeue_own) (rule own_request [OF assms(1,2) g]; simp)+
  moreover have "own_ok (snd (convert r s 0 ar aa ?t))" for s ar aa
    by (rule convert_own) (rule own_request [OF assms(1,2) g]; simp)+
  ultimately show ?thesis using e g assms(2) by (auto simp: LOCK_downgrade_def Let_def split: if_splits)
qed

lemma oview_reject [simp]: "oview (reject r t) = oview t"
  by (simp add: reject_def)

lemma wait_round_own:
  assumes i: "table_ok t" and o: "own_ok t" and e: "wait_round r lck_wait woken timed_out t = Some u"
  shows "own_ok u"
proof -
  let ?w = "lrq_owner (lhb_requests t r)" and ?l = "lrq_lock (lhb_requests t r)"
  define s where "s = set_owner ?w (\<lambda>v. v\<lparr>own_flags := own_flags v - {OWN_wakeup}\<rparr>) t"
  have c: "core s = core t" by (simp add: s_def)
  have v: "oview s = oview t" by (simp add: s_def oview_set_owner)
  have k: "table_ok s" "own_ok s" using i o inv_cong [OF c] own_ok_cong [OF v] by simp_all
  have q: "\<forall>b \<in> set (queue s ?l). lrq_in_use (lhb_requests s b)" if "pending s r"
    using k(1) that queue_used [OF k(1), of r] unfolding table_ok_def by (simp add: s_def set_owner_def)
  have post: "own_ok (post_blockage r ?l False y)" if p: "pending s r" and y: "skel y = skel s" for y
  proof -
    have "queue y ?l = queue s ?l" using core_eq_fields(6) [OF core_if_skel [OF y]] .
    then show ?thesis using post_blockage_own [of y ?l] q [OF p] k(2) own_ok_cong [OF oview_skel [OF y]] oview_eq(1) [OF oview_skel [OF y]] by simp
  qed
  have scan: "oview y = oview s \<and> own_ok (post_blockage r ?l False y)" if p: "pending s r" and d: "deadlock_scan ?w r s = Some (x, y)" for x y
  proof -
    obtain x' m z where z: "deadlock_walk (length (lhb_owners s) + 2) r False (cleared r s) = Some (x', m, z)" "skel z = skel s"
      using scan_walk [OF table_owners_known [OF k(1)] p] by metis
    define y' where "y' = set_owner ?w (\<lambda>v. v\<lparr>own_flags := insert OWN_scanned (own_flags v)\<rparr>) z"
    have y: "y = z \<or> y = y'" using d deadlock_scan_walk [OF z(1)] by (auto simp: y'_def split: if_splits)
    have w: "oview y' = oview z" by (simp add: y'_def oview_set_owner)
    have "queue y' ?l = queue s ?l" using core_eq_fields(6) [OF core_if_skel [OF z(2)]] by (simp add: y'_def set_owner_def)
    then have "own_ok (post_blockage r ?l False y')"
      using post_blockage_own [of y' ?l] q [OF p] k(2) own_ok_cong [OF w] oview_eq(1) [OF w] own_ok_cong [OF oview_skel [OF z(2)]]
        oview_eq(1) [OF oview_skel [OF z(2)]] by simp
    then show ?thesis using y post [OF p z(2)] w oview_skel [OF z(2)] by auto
  qed
  have own: "own_ok y" if "oview y = oview s" for y using that k(2) own_ok_cong by blast
  show ?thesis
  proof (cases "pending s r \<and> \<not> (lck_wait < 0 \<and> timed_out) \<and> \<not> woken \<and> own_flags (lhb_own s ?w) \<inter> {OWN_scanned, OWN_timeout} = {}")
    case False
    then show ?thesis
      using e own post [OF _ refl] unfolding wait_round_def Let_def s_def [symmetric] pending_def by (auto split: if_splits)
  next
    case True
    then obtain x y where d: "deadlock_scan ?w r s = Some (x, y)"
      using e unfolding wait_round_def Let_def s_def [symmetric] pending_def by (auto split: if_splits option.splits)
    note y = scan [OF _ d]
    show ?thesis
    proof (cases x)
      case None
      then show ?thesis using e True d y unfolding wait_round_def Let_def s_def [symmetric] pending_def by auto
    next
      case (Some b)
      then have "oview u = oview y"
        using e True d unfolding wait_round_def Let_def s_def [symmetric] pending_def by (auto simp: oview_set_owner)
      then show ?thesis using own y True by metis
    qed
  qed
qed

lemma wait_end_view [simp]: "oview (wait_end w t) = oview t"
  by (simp add: wait_end_def oview_set_owner)

lemma grant_or_que_end_own:
  assumes "own_ok t" and "lrq_in_use (lhb_requests t r)"
  shows "own_ok (snd (grant_or_que_end r lck_wait t))"
  using assms deny_own [of "wait_end (lrq_owner (lhb_requests t r)) t" r lck_wait] own_ok_cong [OF wait_end_view] oview_eq(1) [OF wait_end_view]
  by (simp add: grant_or_que_end_def Let_def)

lemma convert_end_own:
  assumes "own_ok t"
  shows "own_ok (snd (convert_end r lck_wait ar aa t))"
proof -
  have "oview (snd (convert_end r lck_wait ar aa t)) = oview t"
    by (simp add: convert_end_def convert_denied_def Let_def oview_set_request)
  then show ?thesis using assms own_ok_cong by blast
qed

lemma blocking_step_own:
  assumes o: "own_ok t" and w: "w \<in> set (lhb_owners t)" and e: "blocking_step w t = (call, u)"
  shows "own_ok u"
proof (cases "own_count (lhb_own t w) = 0 \<or> own_blocks (lhb_own t w) = []")
  case True
  then have "u = t \<or> u = set_owner w (\<lambda>v. v\<lparr>own_signaled := False\<rparr>) t" using e by (auto simp: blocking_step_def split: if_splits)
  then have "oview u = oview t" by (auto simp: oview_set_owner)
  then show ?thesis using o own_ok_cong by blast
next
  case False
  then obtain r rs where b: "own_blocks (lhb_own t w) = r # rs" by (cases "own_blocks (lhb_own t w)") auto
  have r: "lrq_in_use (lhb_requests t r)" "lrq_owner (lhb_requests t r) = w" "LRQ_blocking \<in> lrq_flags (lhb_requests t r)" "r \<notin> set rs"
    using o w b by (auto simp: own_ok_def)
  have u: "u = post_history his_post_ast w (lrq_lock (lhb_requests t r)) r (bump lhb_blocks (set_flag r LRQ_blocking_seen (clear_flags r {LRQ_blocking}
      (set_owner w (\<lambda>v. v\<lparr>own_blocks := tl (own_blocks v)\<rparr>) t))))"
    using e b r(3) False by (simp add: blocking_step_def Let_def)
  have F: "lrq_in_use (lhb_requests u q) = lrq_in_use (lhb_requests t q)" "lrq_owner (lhb_requests u q) = lrq_owner (lhb_requests t q)"
    "LRQ_blocking \<in> lrq_flags (lhb_requests u q) \<longleftrightarrow> q \<noteq> r \<and> LRQ_blocking \<in> lrq_flags (lhb_requests t q)"
    "own_requests (lhb_own u v) = own_requests (lhb_own t v)" "own_blocks (lhb_own u v) = (if v = w then rs else own_blocks (lhb_own t v))"
    "lhb_owners u = lhb_owners t" "lhb_free_owners u = lhb_free_owners t" "sizeof_own u = sizeof_own t" "lhb_used u = lhb_used t" for q v
    using b by (auto simp: u set_flag_def clear_flags_def set_owner_def set_request_def bump_def post_history_def)
  have "distinct (own_blocks (lhb_own u v)) \<and> set (own_blocks (lhb_own u v)) \<subseteq> {q. lrq_in_use (lhb_requests u q)
           \<and> lrq_owner (lhb_requests u q) = v \<and> LRQ_blocking \<in> lrq_flags (lhb_requests u q)}" if v: "v \<in> set (lhb_owners t)" for v
  proof -
    have D: "distinct (own_blocks (lhb_own t v))" "set (own_blocks (lhb_own t v)) \<subseteq> {q. lrq_in_use (lhb_requests t q)
           \<and> lrq_owner (lhb_requests t q) = v \<and> LRQ_blocking \<in> lrq_flags (lhb_requests t q)}" using o v by (auto simp: own_ok_def)
    have "set (own_blocks (lhb_own u v)) = set (own_blocks (lhb_own t v)) - {r}" using D r(2,4) b by (cases "v = w") (auto simp: F)
    moreover have "distinct (own_blocks (lhb_own u v))" using D(1) b by (auto simp: F)
    ultimately show ?thesis using D(2) by (auto simp: F)
  qed
  then show ?thesis using o unfolding own_ok_def F(1,2,4,6-9) by blast
qed

subsection \<open>The reachable tables\<close>

lemma owner_step_own: "owner_step t u \<Longrightarrow> table_ok t \<Longrightarrow> own_ok t \<Longrightarrow> own_ok u"
proof (induction rule: owner_step.induct)
  case (enq type prior t w parent_request series val ar aa data lck_wait res u)
  then show ?case using LOCK_enq_own by (simp add: LCK_max_def)
next
  case (convert type lck_wait t r ar aa res u)
  then show ?case using LOCK_convert_own by blast
next
  case (deq r t b u)
  then show ?case using LOCK_deq_own by blast
next
  case (downgrade r t s u)
  then show ?case using LOCK_downgrade_own by blast
next
  case (round r lck_wait woken timed_out t u)
  then show ?case using wait_round_own by blast
next
  case (enq_end t r lck_wait res u)
  then show ?case using grant_or_que_end_own [of t r lck_wait] by simp
next
  case (convert_end t r lck_wait ar aa res u)
  then show ?case using convert_end_own [of t r lck_wait ar aa] by simp
next
  case (blocking w t call u)
  then show ?case using blocking_step_own by blast
next
  case (read_data r t d u)
  then have "oview u = oview t" by (auto simp: LOCK_read_data_def Let_def split: option.splits)
  then show ?case using read_data own_ok_cong by blast
next
  case (read_data2 r series val t d u)
  then have "oview u = oview t" by (auto simp: LOCK_read_data2_def Let_def split: if_splits)
  then show ?case using read_data2 own_ok_cong by blast
next
  case (write_data r data t d u)
  then have "oview u = oview t" by (auto simp: LOCK_write_data_def Let_def split: option.splits)
  then show ?case using write_data own_ok_cong by blast
next
  case (query_data r series aggregate t d u)
  then have "oview u = oview t" by (auto simp: LOCK_query_data_def Let_def split: option.splits if_splits)
  then show ?case using query_data own_ok_cong by blast
qed

text \<open>All steps: those of attached owners, and attaching and leaving. A handle that is passed in belongs to an attached owner.\<close>

inductive lock_step :: "lhb \<Rightarrow> lhb \<Rightarrow> bool" where
  owner: "owner_step t u \<Longrightarrow> lock_step t u"
| init: "owner_handle = 0 \<or> owner_handle \<in> set (lhb_owners t)
    \<Longrightarrow> LOCK_init owner_flag owner_id owner_type owner_handle t = Some (ok, h, u) \<Longrightarrow> lock_step t u"
| fini: "w \<in> set (lhb_owners t) \<Longrightarrow> LOCK_fini w t = Some (h, u) \<Longrightarrow> lock_step t u"

definition initial :: "lhb \<Rightarrow> bool" where
  "initial t \<longleftrightarrow> (\<exists>slots mapped a b c d sz_lrq sz_lbl sz_own alignment lock_order.
     lock_initialize slots mapped a b c d sz_lrq sz_lbl sz_own alignment lock_order = Some t
     \<and> 0 < sz_lrq \<and> 0 < sz_lbl \<and> 0 < sz_own \<and> 0 < alignment)"

definition reachable :: "lhb \<Rightarrow> bool" where
  "reachable t \<longleftrightarrow> (\<exists>s. initial s \<and> lock_step\<^sup>*\<^sup>* s t)"

lemma count_ok:
  assumes "table_ok t" and "own_ok t" and u: "u = set_owner w (\<lambda>v. v\<lparr>own_count := n v\<rparr>) t"
  shows "table_ok u" "own_ok u" "lhb_owners u = lhb_owners t"
proof -
  have "core u = core t" "oview u = oview t" by (simp_all add: u oview_set_owner)
  then show "table_ok u" "own_ok u" using assms(1,2) inv_cong own_ok_cong by blast+
  show "lhb_owners u = lhb_owners t" by (simp add: u set_owner_def)
qed

lemma lock_step_ok: "lock_step t u \<Longrightarrow> table_ok t \<and> own_ok t \<Longrightarrow> table_ok u \<and> own_ok u"
proof (induction rule: lock_step.induct)
  case (owner t u)
  then show ?case using owner_step_inv owner_step_own by blast
next
  case (init h t f owner_id owner_type ok h' u)
  then have i: "table_ok t" "own_ok t" by blast+
  obtain x y where c: "create_owner owner_id owner_type t = Some (x, y)" "table_ok y" "own_ok y" by (rule create_owner_ok [OF i])
  show ?case
    using init.hyps(2) c count_ok(1,2) [OF i refl, of h "\<lambda>v. to_sshort (own_count v + 1)"] i
    by (auto simp: LOCK_init_def split: if_splits option.splits)
next
  case (fini w t h u)
  then have i: "table_ok t" "own_ok t" by blast+
  let ?t = "set_owner w (\<lambda>v. v\<lparr>own_count := to_sshort (own_count v - 1)\<rparr>) t"
  note k = count_ok [OF i refl, of w "\<lambda>v. to_sshort (own_count v - 1)"]
  have w: "w \<in> set (lhb_owners ?t)" using fini.hyps(1) by (simp add: k(3))
  obtain y where y: "purge_owner w w ?t = Some y" "table_ok y" "own_ok y" by (rule purge_owner_ends [OF k(1,2) w])
  show ?case using fini.hyps(2) y k i by (auto simp: LOCK_fini_def Let_def split: if_splits)
qed

lemma initial_table:
  assumes "initial t"
  shows "table_ok t" "own_ok t"
proof -
  obtain slots mapped a b c d sz_lrq sz_lbl sz_own alignment lock_order where
    z: "lock_initialize slots mapped a b c d sz_lrq sz_lbl sz_own alignment lock_order = Some t" "0 < sz_lrq" "0 < sz_lbl" "0 < sz_own" "0 < alignment"
    using assms unfolding initial_def by blast
  show "table_ok t" by (rule initial_ok [OF z(1-3,5)])
  have "lhb_owners t = []" "lhb_free_owners t = []" "sizeof_own t = sz_own"
    using z(1) by (auto simp: lock_initialize_def Let_def dest!: alloc_frame alloc_blocks_frame split: option.splits)
  then show "own_ok t" using z(4) by (simp add: own_ok_def)
qed

interpretation lock_table: step_invariant initial lock_step "\<lambda>t. table_ok t \<and> own_ok t"
  by unfold_locales (use initial_table lock_step_ok in blast)+

lemma reachable_ok: "reachable t \<Longrightarrow> table_ok t" and reachable_own: "reachable t \<Longrightarrow> own_ok t"
  unfolding reachable_def using lock_table.always by blast+

end
