(* ===== verification/FB_LockProps.thy ===== *)
theory FB_LockProps
  imports FB_LockOwner
begin

section \<open>What the lock manager guarantees\<close>

text \<open>
  The properties of the lock table that its clients rely on, from the invariant of the reachable tables and
  from the analysis of the deadlock search, with the tables at which they are applied.
\<close>

subsection \<open>Example tables\<close>

definition held :: "nat \<Rightarrow> nat \<Rightarrow> nat \<Rightarrow> lrq" where
  "held w l s = no_lrq\<lparr>lrq_in_use := True, lrq_requested := s, lrq_state := s, lrq_owner := w, lrq_lock := l\<rparr>"

definition waiting :: "nat \<Rightarrow> nat \<Rightarrow> nat \<Rightarrow> lrq" where
  "waiting w l s = no_lrq\<lparr>lrq_in_use := True, lrq_requested := s, lrq_flags := {LRQ_pending}, lrq_owner := w, lrq_lock := l\<rparr>"

definition lock_with :: "nat list \<Rightarrow> nat \<Rightarrow> nat \<Rightarrow> nat \<Rightarrow> lbl" where
  "lock_with rs s n p = no_lbl\<lparr>lbl_in_use := True, lbl_state := s, lbl_requests := rs, lbl_counts := (\<lambda>_. 0)(s := n), lbl_pending_lrq_count := p\<rparr>"

definition example :: "(nat \<Rightarrow> lrq) \<Rightarrow> (nat \<Rightarrow> lbl) \<Rightarrow> (nat \<Rightarrow> own) \<Rightarrow> nat list \<Rightarrow> lhb" where
  "example requests locks owns ws = \<lparr>lhb_requests = requests, lhb_locks = locks, lhb_own = owns, lhb_owners = ws, lhb_free_owners = [],
     lhb_free_locks = [], lhb_free_requests = [], lhb_hash = (\<lambda>_. []), lhb_hash_slots = 1, lhb_data = (\<lambda>_. []), lhb_used = 40,
     lhb_length = 100, lhb_history = [], shb_history = [], lhb_stats = (\<lambda>_. 0), LOCK_ordering = True, sizeof_lrq = 1, sizeof_lbl = 1, sizeof_own = 1, ALIGNMENT = 1\<rparr>"

text \<open>Two owners share a lock for writing, a third one waits to read.\<close>

definition shared_table :: lhb where
  "shared_table = example ((\<lambda>_. no_lrq)(30 := held 1 20 LCK_SW, 31 := held 2 20 LCK_SW, 32 := waiting 3 20 LCK_PR))
     ((\<lambda>_. no_lbl)(20 := lock_with [30, 31, 32] LCK_SW 2 1))
     ((\<lambda>_. no_own\<lparr>own_count := 1\<rparr>)(3 := no_own\<lparr>own_count := 1, own_pending_request := 32, own_semaphore := True\<rparr>)) [1, 2, 3]"

text \<open>Two owners hold a lock each and wait for the other's.\<close>

definition circle_table :: lhb where
  "circle_table = example ((\<lambda>_. no_lrq)(30 := held 1 20 LCK_EX, 31 := waiting 2 20 LCK_EX, 32 := held 2 21 LCK_EX, 33 := waiting 1 21 LCK_EX))
     ((\<lambda>_. no_lbl)(20 := lock_with [30, 31] LCK_EX 1 1, 21 := lock_with [32, 33] LCK_EX 1 1))
     ((\<lambda>_. no_own\<lparr>own_count := 1\<rparr>)(1 := no_own\<lparr>own_count := 1, own_pending_request := 33\<rparr>, 2 := no_own\<lparr>own_count := 1, own_pending_request := 31\<rparr>)) [1, 2]"

lemmas example_defs = example_def held_def waiting_def lock_with_def no_lrq_def no_lbl_def no_own_def

lemma compatible_SW: "COMPATIBLE 4 4" "COMPATIBLE 6 0" "COMPATIBLE 0 6" "COMPATIBLE 4 0" "COMPATIBLE 0 4" "\<not> COMPATIBLE 6 6"
  by (simp_all add: COMPATIBLE_def compatibility_def LCK_max_def)

lemma lock_state_with: "0 < s \<Longrightarrow> s < 7 \<Longrightarrow> 0 < n \<Longrightarrow> lock_state (lock_with rs s n p) = s"
  using less_7 [of s] by (auto simp: lock_state_def lock_with_def levels)

lemma shared_table_ok: "table_ok shared_table"
proof -
  have "lock_ok shared_table 20"
    unfolding lock_ok_def counted_def agree_def
    using lock_state_with [of 4 2 "[30, 31, 32]" 1]
    by (simp add: shared_table_def pending_def levels compatible_SW) (simp add: example_defs pending_def compatible_SW)
  then show ?thesis
    unfolding table_ok_def by (simp add: shared_table_def example_defs pending_def)
qed

lemma circle_table_ok: "table_ok circle_table"
proof -
  have "lock_ok circle_table 20"
    unfolding lock_ok_def counted_def agree_def
    using lock_state_with [of 6 1 "[30, 31]" 1]
    by (simp add: circle_table_def pending_def levels compatible_SW) (simp add: example_defs pending_def compatible_SW)
  moreover have "lock_ok circle_table 21"
    unfolding lock_ok_def counted_def agree_def
    using lock_state_with [of 6 1 "[32, 33]" 1]
    by (simp add: circle_table_def pending_def levels compatible_SW) (simp add: example_defs pending_def compatible_SW)
  ultimately show ?thesis
    unfolding table_ok_def by (simp add: circle_table_def example_defs pending_def)
qed

subsection \<open>Levels and counters\<close>

lemma lock_state_Max:
  assumes ok: "lock_ok t l"
  shows "lbl_state (lhb_locks t l) = Max (insert 0 (level t ` set (queue t l)))"
proof -
  let ?s = "lock_state (lhb_locks t l)" and ?A = "insert 0 (level t ` set (queue t l))"
  have c: "counted t l (queue t l)" and s: "lbl_state (lhb_locks t l) = ?s" using ok by (simp_all add: lock_ok_def)
  have "Max ?A = ?s"
  proof (rule Max_eqI)
    show "n \<le> ?s" if "n \<in> ?A" for n using that lock_state_ge [OF c] lock_ok_level [OF ok] by auto
    show "?s \<in> ?A"
    proof (cases "?s = 0")
      case False
      then obtain r where "r \<in> set (queue t l)" "level t r = ?s" by (rule lock_state_witness [OF c])
      then show ?thesis by (auto intro: rev_image_eqI)
    qed simp
  qed simp
  then show ?thesis using s by simp
qed

text \<open>
  C35. In every table the lock manager can get to, the levels granted on a lock are pairwise compatible, its
  state is the highest of them, its counters tell how many requests hold each level and how many wait, and
  every request in its queue is in use, for this lock, and of a known owner.
\<close>

theorem lock_table_sound:
  assumes "reachable t" and "lbl_in_use (lhb_locks t l)"
  shows "(\<forall>r \<in> set (lbl_requests (lhb_locks t l)). \<forall>q \<in> set (lbl_requests (lhb_locks t l)). r \<noteq> q \<longrightarrow>
        COMPATIBLE (lrq_state (lhb_requests t r)) (lrq_state (lhb_requests t q)))
    \<and> lbl_state (lhb_locks t l) = Max (insert 0 ((\<lambda>r. lrq_state (lhb_requests t r)) ` set (lbl_requests (lhb_locks t l))))
    \<and> (\<forall>s. LCK_none < s \<and> s < LCK_max \<longrightarrow>
         lbl_counts (lhb_locks t l) s = length (filter (\<lambda>r. lrq_state (lhb_requests t r) = s) (lbl_requests (lhb_locks t l))))
    \<and> lbl_pending_lrq_count (lhb_locks t l) = length (filter (\<lambda>r. LRQ_pending \<in> lrq_flags (lhb_requests t r)) (lbl_requests (lhb_locks t l)))
    \<and> (\<forall>r \<in> set (lbl_requests (lhb_locks t l)). lrq_in_use (lhb_requests t r) \<and> lrq_lock (lhb_requests t r) = l
         \<and> lrq_owner (lhb_requests t r) \<in> set (lhb_owners t))"
proof -
  have i: "table_ok t" using assms(1) by (rule reachable_ok)
  have ok: "lock_ok t l" using i assms(2) by (simp add: table_ok_def)
  have cnt: "count_list (map f xs) s = length (filter (\<lambda>r. f r = s) xs)" for f :: "nat \<Rightarrow> nat" and xs s
    by (induction xs) auto
  have "lrq_in_use (lhb_requests t r) \<and> lrq_lock (lhb_requests t r) = l \<and> lrq_owner (lhb_requests t r) \<in> set (lhb_owners t)"
    if "r \<in> set (queue t l)" for r
    using i ok assms(2) that by (simp add: table_ok_def lock_ok_def)
  moreover have "(\<lambda>r. LRQ_pending \<in> lrq_flags (lhb_requests t r)) = pending t" by (simp add: fun_eq_iff pending_def)
  ultimately show ?thesis
    using ok lock_state_Max [OF ok] by (simp add: lock_ok_def agree_def counted_def cnt LCK_none_def LCK_max_def)
qed

subsection \<open>Who waits\<close>

lemma released_first:
  assumes i: "table_ok t" and r: "lrq_in_use (lhb_requests t r)" and o: "LOCK_ordering t" and l: "l = lrq_lock (lhb_requests t r)"
    and p: "find (pending (release_request r t)) (queue (release_request r t) l) = Some p"
  shows "\<exists>q \<in> set (queue (release_request r t) l). q \<noteq> p
    \<and> \<not> COMPATIBLE (lrq_requested (lhb_requests (release_request r t) p)) (level (release_request r t) q)"
proof (cases "remove1 r (queue t l) = []")
  case True
  then have "queue (release_request r t) l = []"
    using l by (simp add: release_request_settle [OF l] release_lock_def Let_def remove_data_que_def remove_hash_def set_lock_def unlink_locks [OF l])
  then show ?thesis using p by simp
next
  case False
  then have e: "release_request r t = post_pending l (settle r t)" by (simp add: release_request_settle [OF l])
  have ok: "lock_ok (settle r t) l" using settle_ok moves_lock_ok [OF i r] l by blast
  note pp = post_pending_ok [OF ok]
  have "LOCK_ordering (settle r t)" using o settle_locks(4) [OF l] unlink_rest [of r t] by (simp add: rest_def)
  then have "\<not> may_grant (release_request r t) l p" using post_pending_first [OF ok] p pp by (simp add: e)
  moreover have "p \<in> set (queue (release_request r t) l)" using p by (auto simp: find_Some_iff)
  ultimately show ?thesis using blocked_by [of "release_request r t" l p] pp e by simp
qed

text \<open>
  C36. When requests are granted in order and a request is released, nobody is forgotten: the first request of the
  lock that still waits afterwards is blocked by a request that holds an incompatible level.
\<close>

theorem LOCK_deq_grants:
  assumes "table_ok t" and "LOCK_ordering t" and "LOCK_deq r t = Some (True, u)" and "l = lrq_lock (lhb_requests t r)"
    and "find (\<lambda>q. LRQ_pending \<in> lrq_flags (lhb_requests u q)) (lbl_requests (lhb_locks u l)) = Some p"
  shows "\<exists>q \<in> set (lbl_requests (lhb_locks u l)). q \<noteq> p \<and> \<not> COMPATIBLE (lrq_requested (lhb_requests u p)) (lrq_state (lhb_requests u q))"
proof -
  obtain q where g: "get_request r t = Some q" "own_count (lhb_own t (lrq_owner q)) \<noteq> 0"
    "u = dequeue r (bump_operations (lbl_series (lhb_locks t (lrq_lock q))) (bump lhb_deqs t))"
    using assms(3) by (auto simp: LOCK_deq_def split: option.splits if_splits)
  define v where "v = set_request r (\<lambda>q. q\<lparr>lrq_ast_routine := 0\<rparr>) (post_history his_deq (lrq_owner q) (lrq_lock q) r
      (bump_operations (lbl_series (lhb_locks t (lrq_lock q))) (bump lhb_deqs t)))"
  have c: "core v = core t" by (simp add: v_def core_set_request shape_def)
  have q: "q = lhb_requests t r" "lrq_in_use (lhb_requests t r)" using get_request_Some [OF g(1)] by simp_all
  have e: "u = release_request r v" using g(3) q by (simp add: dequeue_def v_def Let_def)
  have f: "(\<lambda>q. LRQ_pending \<in> lrq_flags (lhb_requests u q)) = pending u" by (simp add: fun_eq_iff pending_def)
  show ?thesis
    using released_first [of v r l p] assms(1,2,4,5) q(2) inv_cong [OF c] core_eq_fields(3,5) [OF c] core_eqD(3) [OF c]
    unfolding f e [symmetric] by simp
qed

lemma shared_sel:
  "get_request 30 shared_table = Some (lhb_requests shared_table 30)" "own_count (lhb_own shared_table (lrq_owner (lhb_requests shared_table 30))) = 1"
  "lrq_lock (lhb_requests shared_table 30) = 20" "LOCK_ordering shared_table" "queue shared_table 20 = [30, 31, 32]"
  "level shared_table 30 = 4" "level shared_table 32 = 0" "lrq_requested (lhb_requests shared_table 32) = 3"
  "\<not> pending shared_table 30" "\<not> pending shared_table 31" "pending shared_table 32" "lbl_state (lhb_locks shared_table 20) = 4"
  "lbl_counts (lhb_locks shared_table 20) 4 = 2" "lbl_pending_lrq_count (lhb_locks shared_table 20) = 1"
  by (simp_all add: get_request_def shared_table_def example_defs pending_def levels)

definition after_deq :: lhb where
  "after_deq = snd (the (LOCK_deq 30 shared_table))"

lemma shared_deq: "LOCK_deq 30 shared_table = Some (True, after_deq)"
  by (simp add: after_deq_def LOCK_deq_def shared_sel)

lemma shared_waits: "find (\<lambda>q. LRQ_pending \<in> lrq_flags (lhb_requests after_deq q)) (lbl_requests (lhb_locks after_deq 20)) = Some 32"
proof -
  define v where "v = set_request 30 (\<lambda>q. q\<lparr>lrq_ast_routine := 0\<rparr>) (post_history his_deq (lrq_owner (lhb_requests shared_table 30)) 20 30
      (bump_operations (lbl_series (lhb_locks shared_table 20)) (bump lhb_deqs shared_table)))"
  let ?s = "settle 30 v"
  have c: "core v = core shared_table" by (simp add: v_def core_set_request shape_def)
  note V = core_eq_fields [OF c] core_eqD(3,4) [OF c] shared_sel
  have l: "20 = lrq_lock (lhb_requests v 30)" by (simp add: V)
  note S = settle_locks(2,5-7) [OF l] settle_requests unlink_keeps
  have u: "after_deq = post_pending 20 ?s"
    by (simp add: after_deq_def LOCK_deq_def dequeue_def shared_sel Let_def release_request_settle [OF l] V flip: v_def)
  have s: "queue ?s 20 = [31, 32]" "pending ?s = (\<lambda>q. q \<noteq> 30 \<and> pending shared_table q)" "lbl_state (lhb_locks ?s 20) = 4"
    "lbl_pending_lrq_count (lhb_locks ?s 20) = 1" "level ?s 32 = 0" "lrq_requested (lhb_requests ?s 32) = 3" "LOCK_ordering ?s"
    using settle_locks(4) [OF l] unlink_rest [of 30 v] by (simp_all add: S V pending_settle fun_eq_iff rest_def to_ushort_def)
  have n: "\<not> COMPATIBLE 3 4" by (simp add: COMPATIBLE_def compatibility_def LCK_max_def)
  have o: "LOCK_ordering (post_wakeup w ?s)" for w using s(7) by (simp add: post_wakeup_def set_owner_def bump_def)
  have "pending_loop 20 [31, 32] ?s = post_wakeup (lrq_owner (lhb_requests ?s 32)) ?s"
    using s n o V by (simp add: pending_loop.simps Let_def flip: pending_def)
  then have c: "core after_deq = core ?s" by (simp add: u post_pending_def s Let_def)
  show ?thesis using s V core_eq_fields(6) [OF c] core_eqD(4) [OF c] by (simp add: flip: pending_def)
qed

theorem LOCK_deq_grants_witness:
  "table_ok shared_table \<and> LOCK_deq 30 shared_table = Some (True, after_deq)
   \<and> (\<exists>q \<in> set (lbl_requests (lhb_locks after_deq 20)). q \<noteq> 32
        \<and> \<not> COMPATIBLE (lrq_requested (lhb_requests after_deq 32)) (lrq_state (lhb_requests after_deq q)))"
  using LOCK_deq_grants [OF shared_table_ok shared_sel(4) shared_deq shared_sel(3) [symmetric] shared_waits] shared_table_ok shared_deq
  by blast

subsection \<open>A first request\<close>

lemma alloc_blocks_room:
  "lhb_used t + n * FB_ALIGN bytes (ALIGNMENT t) \<le> lhb_length t \<Longrightarrow>
     alloc_blocks n bytes t = Some (t\<lparr>lhb_used := lhb_used t + n * FB_ALIGN bytes (ALIGNMENT t)\<rparr>)"
  by (induction n arbitrary: t) (simp_all add: alloc_def Let_def add.assoc)

definition empty_table :: lhb where
  "empty_table = the (lock_initialize 1 2000 1 1 1 1 1 1 1 1 True)"

definition new_table :: lhb where
  "new_table = snd (the (create_owner 1 1 empty_table))"

definition first_table :: lhb where
  "first_table = snd (the (LOCK_enq 0 0 0 [] LCK_EX 0 0 0 0 515 new_table))"

lemma empty_table_start:
  "lock_initialize 1 2000 1 1 1 1 1 1 1 1 True = Some empty_table"
  "lhb_used empty_table = 515" "lhb_length empty_table = 2000" "lhb_free_requests empty_table = []" "lhb_free_locks empty_table = []"
  "lhb_hash empty_table = (\<lambda>_. [])" "sizeof_lrq empty_table = 1" "sizeof_lbl empty_table = 1" "sizeof_own empty_table = 1" "ALIGNMENT empty_table = 1"
  "lhb_owners empty_table = []" "lhb_free_owners empty_table = []" "lhb_locks empty_table = (\<lambda>_. no_lbl)" "lhb_hash_slots empty_table = 1"
  unfolding empty_table_def lock_initialize_def
  by (simp_all add: alloc_def alloc_blocks_room FB_ALIGN_def HISTORY_BLOCKS_def Let_def)

lemma new_table_init: "LOCK_init True 1 1 0 empty_table = Some (True, 515, new_table)"
  "new_table = (init_owner_block 515 1 1 (empty_table\<lparr>lhb_used := 516\<rparr>))\<lparr>lhb_owners := [515]\<rparr>"
proof -
  have e: "create_owner 1 1 empty_table = Some (Some 515, (init_owner_block 515 1 1 (empty_table\<lparr>lhb_used := 516\<rparr>))\<lparr>lhb_owners := [515]\<rparr>)"
    by (simp add: create_owner_def alloc_owner_def alloc_def empty_table_start FB_ALIGN_def Let_def init_owner_block_def set_owner_def)
  then show n: "new_table = (init_owner_block 515 1 1 (empty_table\<lparr>lhb_used := 516\<rparr>))\<lparr>lhb_owners := [515]\<rparr>" by (simp add: new_table_def)
  show "LOCK_init True 1 1 0 empty_table = Some (True, 515, new_table)" unfolding LOCK_init_def e n by simp
qed

lemma new_table_start:
  "lhb_used new_table = 516" "lhb_length new_table = 2000" "lhb_free_requests new_table = []" "lhb_free_locks new_table = []"
  "lhb_hash new_table = (\<lambda>_. [])" "sizeof_lrq new_table = 1" "sizeof_lbl new_table = 1" "ALIGNMENT new_table = 1"
  "lhb_owners new_table = [515]" "own_count (lhb_own new_table 515) = 1" "queue new_table l = []"
  "lhb_hash_slots new_table = 1" "lhb_locks new_table l = no_lbl"
  unfolding new_table_init(2) by (simp_all add: init_owner_block_def set_owner_def empty_table_start no_lbl_def)

lemma enq_new:
  assumes "w \<noteq> 0" and "own_count (lhb_own t w) \<noteq> 0" and "alloc_request (bump lhb_enqs t) = Some (r, x)"
    and "y = set_owner w (\<lambda>v. v\<lparr>own_requests := own_requests v @ [r]\<rparr>)
       (set_request r (\<lambda>q. q\<lparr>lrq_in_use := True, lrq_flags := {}, lrq_requested := type, lrq_state := LCK_none,
           lrq_data := 0, lrq_owner := w, lrq_ast_routine := ar, lrq_ast_argument := aa\<rparr>) (post_history his_enq w 0 r x))"
    and "find_lock 0 series val y = None" and "alloc_lock (length val) y = Some (l, v)"
  shows "LOCK_enq 0 0 series val type ar aa data lck_wait w t = Some (Granted r, grant r l (install r l 0 series val type data v))"
  using assms(1-3,5,6) unfolding LOCK_enq_def assms(4) by (simp add: Let_def new_lock_def install_def)

definition first_parts :: lhb where
  "first_parts = set_lock 517 (\<lambda>k. k\<lparr>lbl_size := 0, lbl_in_use := True\<rparr>)
     ((set_owner 515 (\<lambda>v. v\<lparr>own_requests := own_requests v @ [516]\<rparr>)
       (set_request 516 (\<lambda>q. q\<lparr>lrq_in_use := True, lrq_flags := {}, lrq_requested := LCK_EX, lrq_state := LCK_none,
           lrq_data := 0, lrq_owner := 515, lrq_ast_routine := 0, lrq_ast_argument := 0\<rparr>)
         (post_history his_enq 515 0 516 ((bump lhb_enqs new_table)\<lparr>lhb_used := 517\<rparr>))))\<lparr>lhb_used := 518\<rparr>)"

lemma first_table_enq:
  "LOCK_enq 0 0 0 [] LCK_EX 0 0 0 0 515 new_table = Some (Granted 516, first_table)"
  "first_table = grant 516 517 (install 516 517 0 0 [] LCK_EX 0 first_parts)"
proof -
  let ?x = "(bump lhb_enqs new_table)\<lparr>lhb_used := 517\<rparr>"
  let ?y = "set_owner 515 (\<lambda>v. v\<lparr>own_requests := own_requests v @ [516]\<rparr>)
       (set_request 516 (\<lambda>q. q\<lparr>lrq_in_use := True, lrq_flags := {}, lrq_requested := LCK_EX, lrq_state := LCK_none,
           lrq_data := 0, lrq_owner := 515, lrq_ast_routine := 0, lrq_ast_argument := 0\<rparr>) (post_history his_enq 515 0 516 ?x))"
  note N = new_table_start
  have A: "alloc_request (bump lhb_enqs new_table) = Some (516, ?x)"
    by (simp add: alloc_request_def alloc_def bump_def N FB_ALIGN_def Let_def)
  have B: "find_lock 0 0 [] ?y = None"
    by (simp add: find_lock_def set_owner_def set_request_def post_history_def bump_def N)
  have C: "alloc_lock (length ([] :: byte list)) ?y = Some (517, first_parts)"
    by (simp add: first_parts_def alloc_lock_def alloc_def set_owner_def set_request_def post_history_def bump_def N FB_ALIGN_def Let_def)
  have e: "LOCK_enq 0 0 0 [] LCK_EX 0 0 0 0 515 new_table = Some (Granted 516, grant 516 517 (install 516 517 0 0 [] LCK_EX 0 first_parts))"
    by (rule enq_new [OF _ _ A refl B C]) (simp, unfold N(10), simp)
  then show f: "first_table = grant 516 517 (install 516 517 0 0 [] LCK_EX 0 first_parts)" by (simp add: first_table_def)
  show "LOCK_enq 0 0 0 [] LCK_EX 0 0 0 0 515 new_table = Some (Granted 516, first_table)" unfolding f by (rule e)
qed

lemma first_table_use: "lbl_in_use (lhb_locks first_table 517)"
  unfolding first_table_enq(2) core_eq_fields(9) [OF core_grant] by (simp add: grant_core_sel install_sel first_parts_def)

lemma reachable_step: "reachable t \<Longrightarrow> lock_step t u \<Longrightarrow> reachable u"
  unfolding reachable_def using rtranclp.rtrancl_into_rtrancl by fastforce

lemma new_table_reachable: "reachable new_table"
proof (rule reachable_step)
  show "reachable empty_table"
    unfolding reachable_def initial_def using empty_table_start(1) zero_less_one by blast
  show "lock_step empty_table new_table" by (rule lock_step.init [OF _ new_table_init(1)]) simp
qed

lemma first_table_reachable: "reachable first_table"
proof (rule reachable_step [OF new_table_reachable lock_step.owner])
  show "owner_step new_table first_table"
    by (rule owner_step.enq [OF _ _ _ _ first_table_enq(1)]) (simp_all add: new_table_start levels no_lbl_def)
qed

theorem lock_table_sound_witness:
  "reachable first_table \<and> lbl_in_use (lhb_locks first_table 517)
   \<and> lbl_state (lhb_locks first_table 517) = Max (insert 0 ((\<lambda>r. lrq_state (lhb_requests first_table r)) ` set (lbl_requests (lhb_locks first_table 517))))"
  using lock_table_sound [OF first_table_reachable first_table_use] first_table_reachable first_table_use by blast

subsection \<open>Waiting and deadlocks\<close>

text \<open>
  What a round of \<^verbatim>\<open>wait_for_request\<close> does once the search has selected a request; the search itself changes only its
  marks, and the flag the round clears first is not one the graph depends on.
\<close>

lemma scan_skel:
  assumes "owners_known t" and "pending t r" and "deadlock_scan w r t = Some (Some x, u)"
  shows "skel u = skel t"
proof -
  obtain v m u' where w: "deadlock_walk (length (lhb_owners t) + 2) r False (cleared r t) = Some (v, m, u')" "skel u' = skel t"
    using scan_walk [OF assms(1,2)] by metis
  then show ?thesis using deadlock_scan_walk [OF w(1), of w] assms(3) by (auto split: if_splits)
qed

lemma graph_wakeup:
  fixes t w
  defines "s \<equiv> set_owner w (\<lambda>v. v\<lparr>own_flags := own_flags v - {OWN_wakeup}\<rparr>) t"
  shows "pursued s = pursued t" and "waits_for s = waits_for t"
proof -
  have "blocker s p b = blocker t p b" "stuck s b q = stuck t b q" "busy s b = busy t b" for p b q
    by (simp_all add: s_def blocker_def stuck_def busy_def set_owner_def pending_def)
  then show "pursued s = pursued t" "waits_for s = waits_for t"
    by (simp_all add: fun_eq_iff pursued_def waits_for_def)
qed

definition rejected :: "nat \<Rightarrow> nat \<Rightarrow> lhb \<Rightarrow> lhb" where
  "rejected v r u =
     (let bw = lrq_owner (lhb_requests u v);
          y = set_owner bw (\<lambda>x. x\<lparr>own_pending_request := 0, own_flags := own_flags x - {OWN_scanned}\<rparr>)
                (reject v (bump lhb_deadlocks u))
      in if v \<noteq> r then post_wakeup bw y else y)"

lemma rejected_effect:
  fixes v r u
  defines "z \<equiv> rejected v r u" and "bw \<equiv> lrq_owner (lhb_requests u v)"
  shows "LRQ_rejected \<in> lrq_flags (lhb_requests z v)" "LRQ_pending \<notin> lrq_flags (lhb_requests z v)"
    "q \<noteq> v \<Longrightarrow> lrq_flags (lhb_requests z q) = lrq_flags (lhb_requests u q)"
    "own_pending_request (lhb_own z bw) = 0"
    "v \<noteq> r \<Longrightarrow> own_semaphore (lhb_own u bw) \<Longrightarrow> OWN_wakeup \<in> own_flags (lhb_own z bw)"
  by (auto simp: z_def bw_def rejected_def Let_def post_wakeup_def reject_def set_owner_def set_request_def set_lock_def set_flag_def
      clear_flags_def dec_pending_def bump_def)

text \<open>
  C38. A deadlock is broken by the round that finds it. Let a request wait without a time limit, its owner not marked as
  scanned, and let it wait for a circle of requests that wait for each other and whose owners have no notices left to handle.
  When the owner wakes up because its interval is over, the round ends, rejects a request on such a circle, which no
  request waits for any more, leaves all others waiting, and wakes up the owner of the rejected request if that is another
  request and its owner sleeps. The table invariant is kept.
\<close>

theorem wait_round_breaks_deadlock:
  assumes "table_ok t" and "r \<noteq> 0" and "LRQ_pending \<in> lrq_flags (lhb_requests t r)"
    and "own_pending_request (lhb_own t (lrq_owner (lhb_requests t r))) = r"
    and "own_flags (lhb_own t (lrq_owner (lhb_requests t r))) \<inter> {OWN_scanned, OWN_timeout} = {}" and "0 \<le> lck_wait"
    and "(pursued t)\<^sup>*\<^sup>* r x" and "(pursued t)\<^sup>+\<^sup>+ x x"
  shows "\<exists>v u. wait_round r lck_wait False timed_out t = Some u \<and> table_ok u \<and>
    LRQ_pending \<in> lrq_flags (lhb_requests t v) \<and> (waits_for t)\<^sup>*\<^sup>* r v \<and> (waits_for t)\<^sup>+\<^sup>+ v v \<and>
    LRQ_rejected \<in> lrq_flags (lhb_requests u v) \<and> (\<forall>p. \<not> waits_for u p v) \<and>
    (\<forall>q. LRQ_pending \<in> lrq_flags (lhb_requests u q) \<longleftrightarrow> q \<noteq> v \<and> LRQ_pending \<in> lrq_flags (lhb_requests t q)) \<and>
    own_pending_request (lhb_own u (lrq_owner (lhb_requests t v))) = 0 \<and>
    (v \<noteq> r \<and> own_semaphore (lhb_own t (lrq_owner (lhb_requests t v))) \<longrightarrow>
      OWN_wakeup \<in> own_flags (lhb_own u (lrq_owner (lhb_requests t v))))"
proof -
  let ?w = "lrq_owner (lhb_requests t r)"
  define s where "s = set_owner ?w (\<lambda>v. v\<lparr>own_flags := own_flags v - {OWN_wakeup}\<rparr>) t"
  have g: "pursued s = pursued t" "waits_for s = waits_for t" unfolding s_def by (rule graph_wakeup)+
  have f: "lhb_requests s = lhb_requests t" "lhb_owners s = lhb_owners t"
    "own_pending_request (lhb_own s w) = own_pending_request (lhb_own t w)"
    "own_semaphore (lhb_own s w) = own_semaphore (lhb_own t w)"
    "own_flags (lhb_own s ?w) \<inter> {OWN_scanned, OWN_timeout} = {}" for w
    using assms(5) by (auto simp: s_def set_owner_def)
  have ok: "table_ok s" using assms(1) inv_cong [of s t] by (simp add: s_def)
  have k: "owners_known s" by (rule table_owners_known [OF ok])
  have p: "pending s r" using assms(3) f(1) by (simp add: pending_def)
  then have "?w \<in> set (lhb_owners s)" using ok f(1) by (auto simp: table_ok_def)
  then have "r \<in> awaited s" using p assms(2,4) f by (auto simp: awaited_def)
  from scan_exact [OF k this, of ?w] obtain v y where
    d: "deadlock_scan ?w r s = Some (Some v, y)" "pending s v" "(waits_for t)\<^sup>*\<^sup>* r v" "(waits_for t)\<^sup>+\<^sup>+ v v"
    using assms(7,8) g by (auto split: option.splits)
  let ?u = "rejected v r y" and ?bw = "lrq_owner (lhb_requests t v)"
  have u: "wait_round r lck_wait False timed_out t = Some ?u"
    using assms(3,6) f(5) d(1) f(1) by (simp add: wait_round_def s_def [symmetric] rejected_def Let_def)
  have sk: "skel y = skel s" by (rule scan_skel [OF k p d(1)])
  have y: "lrq_owner (lhb_requests y v) = ?bw" "pending y q = pending t q" "lhb_own y = lhb_own s" for q
    using skel_fields [OF sk] f(1) by (simp_all add: pending_def)
  note e = rejected_effect [where v = v and r = r and u = y, unfolded y(1)]
  have pu: "LRQ_pending \<in> lrq_flags (lhb_requests ?u q) \<longleftrightarrow> q \<noteq> v \<and> LRQ_pending \<in> lrq_flags (lhb_requests t q)" for q
    using e(2,3) y(2) [of q] by (cases "q = v") (simp_all add: pending_def)
  have "table_ok ?u" using wait_round_inv [OF assms(1), of r lck_wait False timed_out] u by simp
  moreover have "\<not> waits_for ?u q v" for q using pu [of v] by (simp add: waits_for_def stuck_def pending_def)
  moreover have "LRQ_pending \<in> lrq_flags (lhb_requests t v)" using d(2) f(1) by (simp add: pending_def)
  moreover have "v \<noteq> r \<and> own_semaphore (lhb_own t ?bw) \<longrightarrow> OWN_wakeup \<in> own_flags (lhb_own ?u ?bw)"
    using e(5) y(3) f(4) by simp
  ultimately show ?thesis using u d(3,4) e(1,4) pu by blast
qed

text \<open>
  C39. The search for a deadlock, started for the request its owner waits for, ends and is exact. If it
  selects a request to reject, this request waits, and it lies on a circle of requests that wait for each other and that
  the first one waits for. If it selects none, there is no such circle among the requests whose
  owners have no notices left to handle, and the owner is marked as scanned only if there is no circle at all.
\<close>

theorem deadlock_scan_exact:
  assumes "table_ok t" and "r \<noteq> 0" and "LRQ_pending \<in> lrq_flags (lhb_requests t r)" and "w = lrq_owner (lhb_requests t r)"
    and "own_pending_request (lhb_own t w) = r"
  shows "\<exists>v u. deadlock_scan w r t = Some (v, u) \<and>
    (case v of
       Some x \<Rightarrow> LRQ_pending \<in> lrq_flags (lhb_requests t x) \<and> (waits_for t)\<^sup>*\<^sup>* r x \<and> (waits_for t)\<^sup>+\<^sup>+ x x
     | None \<Rightarrow> (\<forall>x. (pursued t)\<^sup>*\<^sup>* r x \<longrightarrow> \<not> (pursued t)\<^sup>+\<^sup>+ x x)
         \<and> (OWN_scanned \<in> own_flags (lhb_own u w) \<longrightarrow> OWN_scanned \<in> own_flags (lhb_own t w)
              \<or> (\<forall>x. (waits_for t)\<^sup>*\<^sup>* r x \<longrightarrow> \<not> (waits_for t)\<^sup>+\<^sup>+ x x)))"
proof -
  have p: "pending t r" using assms(3) by (simp add: pending_def)
  then have "lrq_owner (lhb_requests t r) \<in> set (lhb_owners t)" using assms(1) by (simp add: table_ok_def)
  then have "r \<in> awaited t" using p assms(2,4,5) by (auto simp: awaited_def)
  from scan_exact [OF table_owners_known [OF assms(1)] this, of w] show ?thesis unfolding pending_def .
qed

lemma circle_waits: "pursued circle_table 31 33" "pursued circle_table 33 31"
  unfolding pursued_iff
  by (rule exI [of _ 30], simp add: blocker_iff visible_def blocks_request_def stuck_def ast_unfinished_def pending_def
        circle_table_def example_defs levels compatible_SW Let_def)
    (rule exI [of _ 32], simp add: blocker_iff visible_def blocks_request_def stuck_def ast_unfinished_def pending_def
        circle_table_def example_defs levels compatible_SW Let_def)

theorem deadlock_scan_exact_witness:
  "table_ok circle_table \<and> (\<exists>x u. deadlock_scan 2 31 circle_table = Some (Some x, u) \<and> (waits_for circle_table)\<^sup>+\<^sup>+ x x)"
proof -
  have "(pursued circle_table)\<^sup>+\<^sup>+ 31 31" using circle_waits by (rule tranclp.trancl_into_trancl [OF tranclp.r_into_trancl])
  then have c: "\<not> (\<forall>x. (pursued circle_table)\<^sup>*\<^sup>* 31 x \<longrightarrow> \<not> (pursued circle_table)\<^sup>+\<^sup>+ x x)" by blast
  have "LRQ_pending \<in> lrq_flags (lhb_requests circle_table 31)" "2 = lrq_owner (lhb_requests circle_table 31)"
    "own_pending_request (lhb_own circle_table 2) = 31"
    by (simp_all add: circle_table_def example_defs)
  from deadlock_scan_exact [OF circle_table_ok _ this] show ?thesis
    using c circle_table_ok by (fastforce split: option.splits)
qed

theorem wait_round_breaks_deadlock_witness:
  "\<exists>v u. wait_round 31 1 False False circle_table = Some u \<and> table_ok u \<and>
    LRQ_pending \<in> lrq_flags (lhb_requests circle_table v) \<and> (waits_for circle_table)\<^sup>+\<^sup>+ v v \<and>
    LRQ_rejected \<in> lrq_flags (lhb_requests u v) \<and> (\<forall>p. \<not> waits_for u p v)"
proof -
  have "(pursued circle_table)\<^sup>+\<^sup>+ 31 31" using circle_waits by (rule tranclp.trancl_into_trancl [OF tranclp.r_into_trancl])
  moreover have "LRQ_pending \<in> lrq_flags (lhb_requests circle_table 31)"
    "own_pending_request (lhb_own circle_table (lrq_owner (lhb_requests circle_table 31))) = 31"
    "own_flags (lhb_own circle_table (lrq_owner (lhb_requests circle_table 31))) \<inter> {OWN_scanned, OWN_timeout} = {}"
    by (simp_all add: circle_table_def example_defs)
  ultimately show ?thesis
    using wait_round_breaks_deadlock [OF circle_table_ok, of 31 1 31 False] by auto
qed

subsection \<open>Downgrading\<close>

lemma compatible_iff:
  assumes ok: "lock_ok t l" and r: "r \<in> set (queue t l)" and n: "n < 7"
  shows "COMPATIBLE n (lock_state (lhb_locks (dec_count l (level t r) t) l)) \<longleftrightarrow> (\<forall>q \<in> set (queue t l). q \<noteq> r \<longrightarrow> COMPATIBLE n (level t q))"
proof -
  let ?t = "dec_count l (level t r) t"
  have op: "counted ?t l (remove1 r (queue t l))" "agree ?t (remove1 r (queue t l))" and d: "distinct (queue t l)"
    using dec_open [OF ok r] ok by (simp_all add: lock_open_def lock_ok_def dec_count_def)
  have lv: "level ?t q = level t q" for q by (simp add: dec_count_def)
  have "COMPATIBLE n (level t q)" if "COMPATIBLE n (lock_state (lhb_locks ?t l))" "q \<in> set (queue t l)" "q \<noteq> r" for q
    using compatible_all [OF op _ n that(1), of q] that d lock_ok_level [OF ok] by (simp add: lv)
  moreover have "COMPATIBLE n (lock_state (lhb_locks ?t l))" if a: "\<forall>q \<in> set (queue t l). q \<noteq> r \<longrightarrow> COMPATIBLE n (level t q)"
  proof (cases "lock_state (lhb_locks ?t l) = 0")
    case False
    then obtain q where "q \<in> set (remove1 r (queue t l))" "level ?t q = lock_state (lhb_locks ?t l)"
      by (rule lock_state_witness [OF op(1)])
    then show ?thesis using a d lv [of q] by auto
  qed (simp add: n)
  ultimately show ?thesis by blast
qed

lemma level_grant: "level (grant p l t) r = (if r = p then lrq_requested (lhb_requests t p) else level t r)"
  unfolding core_eq_fields(1) [OF core_grant] by (simp add: grant_core_sel)

lemma level_ops [simp]:
  "lhb_requests (dec_count l s t) = lhb_requests t" "lhb_requests (inc_count l s t) = lhb_requests t"
  "lhb_requests (post_wakeup w t) = lhb_requests t"
  by (simp_all add: dec_count_def inc_count_def post_wakeup_def)

lemma pending_loop_level: "\<not> pending t r \<Longrightarrow> level (pending_loop l rs t) r = level t r"
proof (induction rs arbitrary: t)
  case (Cons p rs)
  have same: "level (pending_loop l rs u) r = level t r" if "lhb_requests u = lhb_requests t" for u
    using Cons.IH [of u] Cons.prems that by (simp add: pending_def)
  show ?case
  proof (cases "pending t p")
    case True
    then have n: "r \<noteq> p" using Cons.prems by blast
    have "level (pending_loop l rs (grant p l u)) r = level t r" if "lhb_requests u = lhb_requests t" for u
      using Cons.IH [of "grant p l u"] Cons.prems n that by (simp add: pending_grant level_grant) (simp add: pending_def)
    then show ?thesis using True same by (simp add: pending_loop.simps Let_def pending_def)
  qed (simp add: pending_loop_skip same)
qed simp

lemma post_pending_level: "\<not> pending t r \<Longrightarrow> level (post_pending l t) r = level t r"
  using pending_loop_level [of t r l "queue t l"] core_eq_fields(1) [OF core_mark_granted]
  by (simp add: post_pending_def Let_def)

lemma convert_level:
  assumes ok: "lock_ok t l" and r: "r \<in> set (queue t l)" and n: "n < 7"
  shows "level (snd (convert r n 0 ar aa t)) r =
    (if \<forall>q \<in> set (queue t l). q \<noteq> r \<longrightarrow> COMPATIBLE n (level t q) then n else level t r)"
proof -
  have l: "lrq_lock (lhb_requests t r) = l" using ok r by (simp add: lock_ok_def)
  define t1 where "t1 = clear_flags r {LRQ_blocking_seen} (set_request r (\<lambda>q. q\<lparr>lrq_requested := n\<rparr>)
      (post_history his_convert (lrq_owner (lhb_requests t r)) l r t))"
  define t2 where "t2 = set_request r (\<lambda>q. q\<lparr>lrq_ast_routine := ar, lrq_ast_argument := aa\<rparr>) (dec_count l (level t r) t1)"
  have s1: "level t1 r = level t r" by (simp add: t1_def clear_flags_def)
  have k1: "lhb_locks t1 = lhb_locks t" by (simp add: t1_def clear_flags_def post_history_def set_request_def)
  have ls: "lock_state (lhb_locks (dec_count l (level t r) t1) l) = lock_state (lhb_locks (dec_count l (level t r) t) l)"
    by (rule lock_state_cong) (simp add: dec_count_def k1)
  have "snd (convert r n 0 ar aa t) = (if COMPATIBLE n (lock_state (lhb_locks (dec_count l (level t r) t) l))
      then post_pending l (grant r l t2) else snd (convert_denied r 0 (inc_count l (level t r) (dec_count l (level t r) t1))))"
    unfolding convert_def l Let_def t1_def [symmetric] s1 ls t2_def [symmetric] by simp
  moreover have "level (post_pending l (grant r l t2)) r = n"
    by (subst post_pending_level) (simp_all add: pending_grant level_grant t2_def t1_def clear_flags_def)
  moreover have "level (snd (convert_denied r 0 u)) r = level u r" for u
    by (simp add: convert_denied_def Let_def)
  ultimately show ?thesis unfolding compatible_iff [OF ok r n] by (auto simp: s1)
qed

text \<open>
  C37. \<^verbatim>\<open>LOCK_downgrade\<close> returns the level it aims at: the highest one below that of the request at which the requests
  that wait would be served. The request gets this level only if it is compatible with what the others hold; otherwise the
  conversion is denied, the request keeps its level, and the level returned is not the one it has.
\<close>

theorem LOCK_downgrade_level:
  assumes "table_ok t" and "lrq_in_use (lhb_requests t r)" and "own_count (lhb_own t (lrq_owner (lhb_requests t r))) \<noteq> 0"
    and "l = lrq_lock (lhb_requests t r)"
    and "s = lower_state (pending_level t r (lbl_requests (lhb_locks t l)) LCK_none) (lrq_state (lhb_requests t r))" and "LCK_null < s"
  shows "\<exists>u. LOCK_downgrade r t = Some (s, u) \<and> lrq_state (lhb_requests u r) =
    (if \<forall>q \<in> set (lbl_requests (lhb_locks t l)). q \<noteq> r \<longrightarrow> COMPATIBLE s (lrq_state (lhb_requests t q)) then s
     else lrq_state (lhb_requests t r))"
proof -
  let ?t = "bump lhb_downgrades t"
  have c: "core ?t = core t" by simp
  have ok: "lock_ok t l" "r \<in> set (queue t l)" "lbl_in_use (lhb_locks t l)" using moves_lock_ok [OF assms(1,2)] assms(4) by simp_all
  have ok': "lock_ok ?t l" "r \<in> set (queue ?t l)" using ok lock_ok_cong [OF c] by simp_all
  have n: "s < 7" using le_less_trans [OF lower_state_le lock_ok_level [OF ok(1,2)]] assms(5) by simp
  have pl: "pending_level ?t r ps a = pending_level t r ps a" for ps a
    by (induction ps arbitrary: a) (auto simp: Let_def)
  have g: "get_request r t = Some (lhb_requests t r)" using assms(2,4) ok(3) by (simp add: get_request_def)
  have "LOCK_downgrade r t = Some (s, snd (convert r s 0 (lrq_ast_routine (lhb_requests t r)) (lrq_ast_argument (lhb_requests t r)) ?t))"
    using assms(3-6) by (simp add: LOCK_downgrade_def g Let_def pl levels)
  then show ?thesis using convert_level [OF ok' n] by auto
qed

lemma pending_level_shared: "pending_level shared_table 30 [30, 31, 32] 0 = 3"
  by (simp add: shared_table_def example_defs levels)

theorem LOCK_downgrade_level_witness:
  "\<exists>u. LOCK_downgrade 30 shared_table = Some (LCK_PR, u) \<and> lrq_state (lhb_requests u 30) = LCK_SW"
proof -
  have q: "lbl_requests (lhb_locks shared_table 20) = [30, 31, 32]" "lrq_state (lhb_requests shared_table 30) = 4"
    "lrq_state (lhb_requests shared_table 31) = 4" "lrq_lock (lhb_requests shared_table 30) = 20"
    "lrq_in_use (lhb_requests shared_table 30)" "own_count (lhb_own shared_table (lrq_owner (lhb_requests shared_table 30))) = 1"
    by (simp_all add: shared_table_def example_defs levels)
  have l: "lower_state 3 4 = 3" by (simp add: eval_nat_numeral COMPATIBLE_def compatibility_def LCK_max_def)
  have n: "\<not> COMPATIBLE 3 4" by (simp add: COMPATIBLE_def compatibility_def LCK_max_def)
  show ?thesis
    using LOCK_downgrade_level [of shared_table 30 20 3] shared_table_ok q l n pending_level_shared by (auto simp: levels)
qed

end
