(* ===== verification/FB_LockData.thy ===== *)
theory FB_LockData
  imports FB_LockProps
begin

section \<open>The data of locks\<close>

text \<open>
  Locks may carry a number, and the locks of a series under one parent can be asked for the minimum, the sum and so
  on. The locks with data are kept in one queue per series, sorted within each parent. Here: every operation
  keeps the queues right, so that \<^verbatim>\<open>LOCK_query_data\<close> computes what it says.
\<close>

subsection \<open>The queues\<close>

definition with_data :: "lhb \<Rightarrow> nat \<Rightarrow> nat \<Rightarrow> bool" where
  "with_data t s l \<longleftrightarrow> lbl_in_use (lhb_locks t l) \<and> lbl_series (lhb_locks t l) = s \<and> s < LCK_MAX_SERIES
     \<and> lbl_parent (lhb_locks t l) \<noteq> 0 \<and> lbl_data (lhb_locks t l) \<noteq> 0"

definition data_ok :: "lhb \<Rightarrow> bool" where
  "data_ok t \<longleftrightarrow> (\<forall>s. distinct (lhb_data t s) \<and> set (lhb_data t s) = {l. with_data t s l} \<and> (\<forall>p. sorted (family t p s)))"

text \<open>What the queues depend on.\<close>

definition dview :: "lhb \<Rightarrow> (nat \<Rightarrow> nat list) \<times> (nat \<Rightarrow> bool \<times> nat \<times> nat \<times> int)" where
  "dview t = (lhb_data t, \<lambda>l. (lbl_in_use (lhb_locks t l), lbl_series (lhb_locks t l), lbl_parent (lhb_locks t l), lbl_data (lhb_locks t l)))"

lemma dview_cong:
  assumes "dview u = dview t"
  shows "data_ok u = data_ok t"
proof -
  have "lhb_data u = lhb_data t" and "\<And>l. (lbl_in_use (lhb_locks u l), lbl_series (lhb_locks u l), lbl_parent (lhb_locks u l), lbl_data (lhb_locks u l))
      = (lbl_in_use (lhb_locks t l), lbl_series (lhb_locks t l), lbl_parent (lhb_locks t l), lbl_data (lhb_locks t l))"
    using assms by (simp_all add: dview_def fun_eq_iff)
  then show ?thesis by (simp add: data_ok_def with_data_def family_def)
qed

lemma dview_set_lock:
  "lbl_in_use (f (lhb_locks t l)) = lbl_in_use (lhb_locks t l) \<Longrightarrow> lbl_series (f (lhb_locks t l)) = lbl_series (lhb_locks t l)
   \<Longrightarrow> lbl_parent (f (lhb_locks t l)) = lbl_parent (lhb_locks t l) \<Longrightarrow> lbl_data (f (lhb_locks t l)) = lbl_data (lhb_locks t l)
   \<Longrightarrow> dview (set_lock l f t) = dview t"
  by (simp add: dview_def set_lock_def fun_eq_iff)

lemma dview_ops [simp]:
  "dview (set_request r g t) = dview t" "dview (set_owner w h t) = dview t" "dview (bump s t) = dview t"
  "dview (bump_operations n t) = dview t" "dview (post_history a b c d t) = dview t" "dview (set_flag r f t) = dview t"
  "dview (clear_flags r fs t) = dview t" "dview (inc_count l n t) = dview t" "dview (dec_count l n t) = dview t"
  "dview (inc_pending l t) = dview t" "dview (dec_pending l t) = dview t" "dview (post_wakeup w t) = dview t"
  "dview (set_lock l (\<lambda>k. k\<lparr>lbl_state := lock_state k\<rparr>) t) = dview t"
  by (simp_all add: dview_def set_request_def set_owner_def bump_def bump_operations_def post_history_def set_flag_def clear_flags_def
      inc_count_def dec_count_def inc_pending_def dec_pending_def post_wakeup_def set_lock_def fun_eq_iff)

lemma dview_mark [simp]: "dview (mark_granted rs t) = dview t"
  by (induction rs t rule: mark_granted.induct) (simp_all add: Let_def)

lemma dview_blockage_loop: "blockage_loop r w force bs os t = (os', u) \<Longrightarrow> dview u = dview t"
  by (induction r w force bs os t rule: blockage_loop.induct) (auto simp: Let_def split: if_splits)

lemma dview_signals: "dview (fold (\<lambda>w t. if own_count (lhb_own t w) \<noteq> 0 then signal_owner w t else t) ws t) = dview t"
  by (induction ws arbitrary: t) (simp_all add: signal_owner_def)

lemma dview_post_blockage [simp]: "dview (post_blockage r l force t) = dview t"
  by (auto simp: post_blockage_def dview_signals dest: dview_blockage_loop split: prod.splits)

lemma dview_skel: "skel u = skel t \<Longrightarrow> dview u = dview t"
proof -
  have "dview (skel x) = dview x" for x by (simp add: skel_def dview_def)
  then show "skel u = skel t \<Longrightarrow> dview u = dview t" by metis
qed

subsection \<open>Inserting\<close>

lemma set_data_insert [simp]: "set (data_insert locks l ls) = insert l (set ls)"
  by (induction locks l ls rule: data_insert.induct) auto

lemma distinct_data_insert: "distinct ls \<Longrightarrow> l \<notin> set ls \<Longrightarrow> distinct (data_insert locks l ls)"
  by (induction locks l ls rule: data_insert.induct) auto

lemma sorted_data_insert:
  "sorted (map (\<lambda>k. lbl_data (locks k)) (filter (\<lambda>k. lbl_parent (locks k) = p) ls)) \<Longrightarrow>
   sorted (map (\<lambda>k. lbl_data (locks k)) (filter (\<lambda>k. lbl_parent (locks k) = p) (data_insert locks l ls)))"
proof (induction locks l ls rule: data_insert.induct)
  case (2 locks l k ls)
  then show ?case by (cases "lbl_parent (locks k) = p") (auto split: if_splits)
qed simp

text \<open>The steps of \<^verbatim>\<open>LOCK_write_data\<close> and of \<^verbatim>\<open>grant\<close>: out of the queue, the new number, in again.\<close>

definition fam :: "(nat \<Rightarrow> lbl) \<Rightarrow> nat \<Rightarrow> nat list \<Rightarrow> int list" where
  "fam locks p ls = map (\<lambda>k. lbl_data (locks k)) (filter (\<lambda>k. lbl_parent (locks k) = p) ls)"

lemma family_fam: "family t p s = fam (lhb_locks t) p (lhb_data t s)"
  by (simp add: family_def fam_def)

lemma fam_remove:
  assumes "distinct ls" and "sorted (fam locks p ls)" and "\<And>k. k \<noteq> l \<Longrightarrow> locks' k = locks k"
  shows "sorted (fam locks' p (remove1 l ls))"
proof -
  have e: "remove1 l ls = filter (\<lambda>k. k \<noteq> l) ls"
    using assms(1) by (simp add: distinct_remove1_removeAll removeAll_filter_not_eq eq_commute)
  have "fam locks' p (remove1 l ls) = fam locks p (filter (\<lambda>k. k \<noteq> l) ls)"
    unfolding e fam_def using assms(3) by (auto intro!: map_cong filter_cong)
  also have "\<dots> = map (\<lambda>k. lbl_data (locks k)) (filter (\<lambda>k. k \<noteq> l) (filter (\<lambda>k. lbl_parent (locks k) = p) ls))"
    by (simp add: fam_def conj_commute)
  finally show ?thesis using sorted_filter [OF assms(2) [unfolded fam_def], of "\<lambda>k. k \<noteq> l"] by simp
qed

lemma fam_same:
  assumes "l \<notin> set ls" and "\<And>k. k \<noteq> l \<Longrightarrow> locks' k = locks k"
  shows "fam locks' p ls = fam locks p ls"
proof -
  have "locks' k = locks k" if "k \<in> set ls" for k using assms that by metis
  then show ?thesis unfolding fam_def by (auto intro!: map_cong filter_cong)
qed

text \<open>The queue of the lock's series without the lock, and the lock put back if it has data.\<close>

lemma requeue_ok:
  assumes d: "data_ok t" and s: "lbl_series (lhb_locks u l) = s"
    and K: "\<And>k. k \<noteq> l \<Longrightarrow> lhb_locks u k = lhb_locks t k"
    and L: "\<And>n. n \<noteq> s \<Longrightarrow> lhb_data u n = lhb_data t n \<and> l \<notin> set (lhb_data t n)"
    and Q: "lhb_data u s = (if with_data u s l then data_insert (lhb_locks u) l (remove1 l (lhb_data t s)) else remove1 l (lhb_data t s))"
  shows "data_ok u"
proof -
  have "distinct (lhb_data u n) \<and> set (lhb_data u n) = {k. with_data u n k} \<and> (\<forall>p. sorted (fam (lhb_locks u) p (lhb_data u n)))" for n
  proof -
    have D: "distinct (lhb_data t n)" "set (lhb_data t n) = {k. with_data t n k}" "\<And>p. sorted (fam (lhb_locks t) p (lhb_data t n))"
      using d by (simp_all add: data_ok_def family_fam)
    have W: "with_data u n k \<longleftrightarrow> (k = l \<and> with_data u n l) \<or> (k \<noteq> l \<and> with_data t n k)" for k
      using K [of k] by (cases "k = l") (simp_all add: with_data_def)
    show ?thesis
    proof (cases "n = s")
      case False
      have "\<not> with_data u n l" using False s by (simp add: with_data_def)
      moreover have "\<not> with_data t n l" using L [OF False] D(2) by blast
      ultimately have "{k. with_data u n k} = {k. with_data t n k}" using W by blast
      then show ?thesis using L [OF False] D fam_same [of l "lhb_data t n" "lhb_locks u" "lhb_locks t"] K by simp
    next
      case True
      let ?r = "remove1 l (lhb_data t n)"
      have r: "distinct ?r" "set ?r = {k. with_data t n k} - {l}" "\<And>p. sorted (fam (lhb_locks u) p ?r)"
        using D fam_remove [OF D(1,3) K] by simp_all
      have "set (lhb_data u n) = {k. with_data u n k}"
      proof (cases "with_data u n l")
        case w: True
        then have "set (lhb_data u n) = insert l ({k. with_data t n k} - {l})" using Q True r(2) by simp
        then show ?thesis using W w by blast
      next
        case w: False
        then have "set (lhb_data u n) = {k. with_data t n k} - {l}" using Q True r(2) by simp
        then show ?thesis using W w by blast
      qed
      moreover have "distinct (lhb_data u n)" using Q True r(1,2) by (simp add: distinct_data_insert)
      moreover have "sorted (fam (lhb_locks u) p (lhb_data u n))" for p
        using Q True r(3) [of p] sorted_data_insert [of "lhb_locks u" p ?r l] by (simp add: fam_def)
      ultimately show ?thesis by blast
    qed
  qed
  then show ?thesis by (simp add: data_ok_def family_fam)
qed

lemma not_in_other:
  assumes "data_ok t" and "lbl_in_use (lhb_locks t l) \<longrightarrow> n \<noteq> lbl_series (lhb_locks t l)"
  shows "l \<notin> set (lhb_data t n)"
  using assms by (auto simp: data_ok_def with_data_def)

lemma change_data_ok:
  assumes d: "data_ok t" and l: "lbl_in_use (lhb_locks t l)"
  shows "data_ok (insert_data_que l (set_lock l (\<lambda>k. k\<lparr>lbl_data := n\<rparr>) (remove_data_que l t)))"
proof (rule requeue_ok [OF d refl])
  show "lhb_data (insert_data_que l (set_lock l (\<lambda>k. k\<lparr>lbl_data := n\<rparr>) (remove_data_que l t))) m = lhb_data t m \<and> l \<notin> set (lhb_data t m)"
    if "m \<noteq> lbl_series (lhb_locks (insert_data_que l (set_lock l (\<lambda>k. k\<lparr>lbl_data := n\<rparr>) (remove_data_que l t))) l)" for m
    using that not_in_other [OF d, of l m] l by (simp add: insert_data_que_def remove_data_que_def set_lock_def Let_def split: if_splits)
qed (use l in \<open>auto simp: insert_data_que_def remove_data_que_def set_lock_def with_data_def Let_def\<close>)

subsection \<open>The operations\<close>

lemma change_data_use: "lbl_in_use (lhb_locks (insert_data_que l (set_lock l (\<lambda>k. k\<lparr>lbl_data := n\<rparr>) (remove_data_que l t))) k) = lbl_in_use (lhb_locks t k)"
  by (simp add: insert_data_que_def remove_data_que_def set_lock_def Let_def)

lemma dview_use: "dview u = dview t \<Longrightarrow> lbl_in_use (lhb_locks u l) = lbl_in_use (lhb_locks t l)"
  by (simp add: dview_def fun_eq_iff)

definition data_use :: "nat \<Rightarrow> lhb \<Rightarrow> bool" where
  "data_use l t \<longleftrightarrow> data_ok t \<and> lbl_in_use (lhb_locks t l)"

lemma data_use_cong:
  assumes "dview u = dview t"
  shows "data_use l u = data_use l t"
  using dview_cong [OF assms] dview_use [OF assms] by (simp add: data_use_def)

lemma locks_remove_data [simp]: "lhb_locks (remove_data_que l t) = lhb_locks t"
  by (simp add: remove_data_que_def Let_def)

lemma grant_data_use: "data_use l t \<Longrightarrow> data_use l (grant_data r l t)"
proof -
  assume a: "data_use l t"
  let ?u = "insert_data_que l (set_lock l (\<lambda>k. k\<lparr>lbl_data := lrq_data (lhb_requests t r)\<rparr>) (remove_data_que l t))"
  have "data_use l ?u" using a change_data_ok [of t l] by (simp add: data_use_def change_data_use)
  moreover have "data_use l (set_request r (\<lambda>q. q\<lparr>lrq_data := 0\<rparr>) ?u) = data_use l ?u" by (rule data_use_cong) simp
  ultimately show ?thesis using a by (simp add: grant_data_def Let_def)
qed

lemma grant_use:
  assumes a: "data_use l t"
  shows "data_use l (grant r l t)"
proof -
  define v where "v = set_request r (\<lambda>q. q\<lparr>lrq_state := lrq_requested q\<rparr>) (inc_count l (lrq_requested (lhb_requests t r))
      (post_history his_grant (lrq_owner (lhb_requests t r)) (lrq_lock (lhb_requests t r)) r t))"
  have "dview v = dview t" by (simp add: v_def)
  then have "data_use l (grant_data r l v)" using a grant_data_use data_use_cong by blast
  moreover have "dview (grant r l t) = dview (grant_data r l v)"
    by (simp add: grant_def Let_def grant_pending_def flip: v_def)
  ultimately show ?thesis using data_use_cong by blast
qed

lemma pending_loop_use: "data_use l t \<Longrightarrow> data_use l (pending_loop l rs t)"
proof (induction rs arbitrary: t)
  case (Cons r rs)
  have c: "data_use l u" if "dview u = dview t" for u using Cons.prems data_use_cong [OF that] by blast
  show ?case using Cons.IH Cons.prems c grant_use by (simp add: pending_loop.simps Let_def)
qed simp

lemma post_pending_use: "data_use l t \<Longrightarrow> data_use l (post_pending l t)"
proof -
  assume "data_use l t"
  then have a: "data_use l (pending_loop l (queue t l) t)" by (rule pending_loop_use)
  then have "data_use l (mark_granted rs (pending_loop l (queue t l) t))" for rs using data_use_cong [OF dview_mark] by blast
  then show ?thesis using a \<open>data_use l t\<close> by (simp add: post_pending_def Let_def)
qed

lemma dview_unlink [simp]: "dview (unlink_request r t) = dview t"
proof -
  have "lhb_data (unlink_request r t) = lhb_data t"
    by (simp add: unlink_request_def Let_def set_lock_def set_owner_def set_request_def clear_flags_def dec_pending_def)
  then show ?thesis by (simp add: dview_def unlink_locks [OF refl] fun_eq_iff)
qed

lemma dview_settle [simp]: "dview (settle r t) = dview t"
  by (simp add: settle_def Let_def)

lemma release_lock_data:
  assumes d: "data_ok t"
  shows "data_ok (release_lock l t)"
proof (rule requeue_ok [OF d refl])
  show "lhb_data (release_lock l t) n = lhb_data t n \<and> l \<notin> set (lhb_data t n)"
    if "n \<noteq> lbl_series (lhb_locks (release_lock l t) l)" for n
    using that not_in_other [OF d, of l n] by (simp add: release_lock_def remove_data_que_def remove_hash_def set_lock_def Let_def)
qed (simp_all add: release_lock_def remove_data_que_def remove_hash_def set_lock_def with_data_def Let_def)

lemma release_request_data:
  assumes d: "data_ok t" and l: "lbl_in_use (lhb_locks t (lrq_lock (lhb_requests t r)))"
  shows "data_ok (release_request r t)"
proof -
  let ?l = "lrq_lock (lhb_requests t r)"
  have "data_ok (unlink_request r t)" using d dview_cong [OF dview_unlink] by simp
  moreover have "data_use ?l (settle r t)" using d l data_use_cong [OF dview_settle] by (simp add: data_use_def)
  ultimately show ?thesis
    using release_lock_data post_pending_use by (simp add: release_request_settle [OF refl] data_use_def)
qed

lemma dequeue_data:
  assumes "data_ok t" and "lbl_in_use (lhb_locks t (lrq_lock (lhb_requests t r)))"
  shows "data_ok (dequeue r t)"
  unfolding dequeue_def Let_def
  by (rule release_request_data) (use assms dview_cong [OF dview_ops(1)] dview_cong [OF dview_ops(5)] in simp_all)

lemma deny_data:
  assumes d: "data_ok t" and l: "lbl_in_use (lhb_locks t (lrq_lock (lhb_requests t r)))"
  shows "data_ok (snd (deny r lck_wait t))"
proof -
  define u where "u = (let request = lhb_requests t r; t = bump lhb_denies (post_history his_deny (lrq_owner request) (lrq_lock request) r t) in
     if lck_wait < 0 then bump lhb_timeouts t else t)"
  have v: "dview u = dview t" "lhb_requests u = lhb_requests t" by (simp_all add: u_def Let_def)
  have "snd (deny r lck_wait t) = release_request r u" by (simp add: deny_def u_def Let_def)
  then show ?thesis using release_request_data [of u r] d l dview_cong [OF v(1)] dview_use [OF v(1)] v(2) by simp
qed

lemma dview_wait_begin [simp]: "dview (wait_begin r lck_wait t) = dview t"
  by (simp add: wait_begin_def Let_def dview_set_lock)

lemma dview_denied [simp]: "dview (snd (convert_denied r lck_wait t)) = dview t"
  by (simp add: convert_denied_def Let_def)

lemma convert_data:
  assumes a: "data_use (lrq_lock (lhb_requests t r)) t"
  shows "data_ok (snd (convert r type lck_wait ar aa t))"
proof -
  let ?l = "lrq_lock (lhb_requests t r)"
  define t1 where "t1 = clear_flags r {LRQ_blocking_seen} (set_request r (\<lambda>q. q\<lparr>lrq_requested := type\<rparr>)
      (post_history his_convert (lrq_owner (lhb_requests t r)) ?l r t))"
  have c: "data_use ?l u" if "dview u = dview t" for u using a data_use_cong [OF that] by blast
  have "data_use ?l (post_pending ?l (grant r ?l u))" if "dview u = dview t" for u
    using post_pending_use grant_use c [OF that] by blast
  moreover have "dview t1 = dview t" by (simp add: t1_def)
  ultimately show ?thesis
    using c by (simp add: convert_def Let_def data_use_def flip: t1_def)
qed

lemma grant_or_que_data:
  assumes a: "data_use l t"
  shows "data_ok (snd (grant_or_que r l lck_wait t))"
proof -
  define u where "u = set_request r (\<lambda>q. q\<lparr>lrq_lock := l\<rparr>) t"
  have "dview u = dview t" by (simp add: u_def)
  then have u: "data_use l u" using a data_use_cong by blast
  have l: "lrq_lock (lhb_requests u r) = l" by (simp add: u_def)
  have "data_use l (post_pending l (grant r l u))" using post_pending_use grant_use u by blast
  moreover have "data_ok (snd (deny r n u))" for n using deny_data [of u r] u l by (simp add: data_use_def)
  moreover have "data_ok (wait_begin r lck_wait u)" using u dview_cong [OF dview_wait_begin] by (simp add: data_use_def)
  ultimately show ?thesis by (simp add: grant_or_que_def Let_def data_use_def flip: u_def)
qed

lemma data_insert_cong:
  "(\<And>k. lbl_parent (locks' k) = lbl_parent (locks k) \<and> lbl_data (locks' k) = lbl_data (locks k)) \<Longrightarrow> data_insert locks' l ls = data_insert locks l ls"
  by (induction ls) simp_all

lemma alloc_dview: "alloc bytes t = Some (b, u) \<Longrightarrow> lhb_data u = lhb_data t \<and> lhb_locks u = lhb_locks t"
  by (auto simp: alloc_def Let_def split: if_splits)

lemma alloc_request_dview: "alloc_request t = Some (r, u) \<Longrightarrow> dview u = dview t"
  using alloc_dview by (auto simp: alloc_request_def dview_def split: list.splits)

lemma alloc_lock_data: "alloc_lock len t = Some (l, u) \<Longrightarrow> lhb_data u = lhb_data t \<and> (\<forall>k. k \<noteq> l \<longrightarrow> lhb_locks u k = lhb_locks t k)"
  using alloc_dview by (auto simp: alloc_lock_def Let_def set_lock_def split: option.splits)

lemma install_data:
  assumes d: "data_ok t" and l: "\<not> lbl_in_use (lhb_locks t l)" and v: "lhb_data v = lhb_data t" "\<And>k. k \<noteq> l \<Longrightarrow> lhb_locks v k = lhb_locks t k"
      "lbl_in_use (lhb_locks v l)"
  shows "data_ok (install r l parent series val type data v)"
proof -
  let ?k = "(lhb_locks v l)\<lparr>lbl_state := type, lbl_parent := parent, lbl_series := series mod 256, lbl_data := data\<rparr>"
  let ?x = "install r l parent series val type data v"
  have n: "l \<notin> set (lhb_data t s)" for s by (rule not_in_other [OF d]) (simp add: l)
  have K: "lhb_locks ?x k = (if k = l then ?k\<lparr>lbl_pending_lrq_count := 0, lbl_counts := (\<lambda>_. 0), lbl_key := val, lbl_requests := [r]\<rparr>
      else lhb_locks t k)" for k
    using v(2) by (simp add: install_def Let_def)
  have Q: "lhb_data ?x = (if data \<noteq> 0 \<and> series mod 256 < LCK_MAX_SERIES \<and> parent \<noteq> 0
      then (lhb_data t)(series mod 256 := data_insert ((lhb_locks v)(l := ?k)) l (lhb_data t (series mod 256))) else lhb_data t)"
    using v(1) by (simp add: install_def Let_def set_request_def set_lock_def bump_operations_def bump_def insert_data_que_def)
  have I: "data_insert (lhb_locks ?x) l ls = data_insert ((lhb_locks v)(l := ?k)) l ls" for ls
    by (rule data_insert_cong) (simp add: K v(2))
  show ?thesis
  proof (rule requeue_ok [OF d])
    show "lbl_series (lhb_locks ?x l) = series mod 256" by (simp add: K)
    show "lhb_data ?x m = lhb_data t m \<and> l \<notin> set (lhb_data t m)" if "m \<noteq> series mod 256" for m using that n by (simp add: Q)
    have r: "remove1 l (lhb_data t s) = lhb_data t s" for s using n by (simp add: remove1_idem)
    show "lhb_data ?x (series mod 256) = (if with_data ?x (series mod 256) l
        then data_insert (lhb_locks ?x) l (remove1 l (lhb_data t (series mod 256))) else remove1 l (lhb_data t (series mod 256)))"
      unfolding I r with_data_def K Q using v(3) by auto
  qed (simp add: K)
qed

lemma new_lock_data:
  assumes i: "table_ok t" and d: "data_ok t" and f: "fresh r w t u" and v: "dview u = dview t"
  shows "data_ok (snd (new_lock r parent series val type data u))"
proof (cases "alloc_lock (length val) u")
  case None
  then have "dview (snd (new_lock r parent series val type data u)) = dview u"
    by (simp add: new_lock_def Let_def dview_def set_owner_def set_request_def)
  then show ?thesis using d v dview_cong by metis
next
  case (Some p)
  then obtain l x where a: "alloc_lock (length val) u = Some (l, x)" by (cases p) simp
  have du: "data_ok u" using d dview_cong [OF v] by simp
  have F: "lhb_locks u = lhb_locks t" "lhb_free_locks u = lhb_free_locks t" "lhb_used t \<le> lhb_used u" "sizeof_lbl u = sizeof_lbl t"
    "ALIGNMENT u = ALIGNMENT t" using f by (simp_all add: fresh_def)
  have pre: "distinct (lhb_free_locks u)" "0 < sizeof_lbl u" "0 < ALIGNMENT u" using i by (simp_all add: table_ok_def F)
  have free: "\<not> lbl_in_use (lhb_locks u k) \<and> k < lhb_used u" if "k \<in> set (lhb_free_locks u)" for k
    using inv_freeD [OF i, of k] that F by simp
  have below: "k < lhb_used u" if "lbl_in_use (lhb_locks u k)" for k
  proof -
    have "k < lhb_used t" using i that by (simp add: table_ok_def F)
    then show ?thesis using F(3) by (rule less_le_trans)
  qed
  note A = alloc_lock_ok [OF pre(1) free below pre(2,3) a]
  have x: "data_ok (install r l parent series val type data x)"
    by (rule install_data [OF du]) (use A(3-5) alloc_lock_data [OF a] in simp_all)
  moreover have "lbl_in_use (lhb_locks (install r l parent series val type data x) l)" using A(5) by (simp add: install_sel)
  ultimately show ?thesis using grant_use by (simp add: new_lock_room [OF a] data_use_def)
qed

lemma enq_prior_data:
  assumes i: "table_ok t" and d: "data_ok t" and p: "prior = 0 \<or> lrq_in_use (lhb_requests t prior)"
  shows "data_ok (enq_prior prior t)"
proof -
  have "data_ok (bump lhb_enqs t)" using d dview_cong [OF dview_ops(3)] by simp
  moreover have "lbl_in_use (lhb_locks t (lrq_lock (lhb_requests t prior)))" if "lrq_in_use (lhb_requests t prior)"
    using i that by (simp add: table_ok_def)
  ultimately show ?thesis using p dequeue_data [of "bump lhb_enqs t" prior] by (auto simp: enq_prior_def)
qed

lemma LOCK_enq_data:
  assumes i: "table_ok t" and d: "data_ok t" and n: "type < 7" and p: "prior = 0 \<or> lrq_in_use (lhb_requests t prior)"
    and e: "LOCK_enq prior parent_request series val type ar aa data lck_wait w t = Some (res, u)"
  shows "data_ok u"
proof -
  note v = enq_prior_ok(1) [OF i p] enq_prior_data [OF i d p]
  show ?thesis using e
  proof (cases rule: LOCK_enq_cases)
    case (join r x l parent)
    have f: "fresh r w (enq_prior prior t) (enq_request r type ar aa w x)"
      unfolding enq_request_def by (rule enq_fresh [OF v(1) join(1) n])
    have "dview (enq_join r l data series (enq_request r type ar aa w x)) = dview (enq_prior prior t)"
      using alloc_request_dview [OF join(1)] by (simp add: enq_join_def enq_request_def dview_set_lock)
    then have "data_use l (enq_join r l data series (enq_request r type ar aa w x))"
      using data_use_cong found_in_use [OF v(1) f join(2)] v(2) by (simp add: data_use_def)
    then show ?thesis using grant_or_que_data [of l _ r lck_wait] join(3) by (metis snd_conv)
  next
    case (create r x parent)
    have f: "fresh r w (enq_prior prior t) (enq_request r type ar aa w x)"
      unfolding enq_request_def by (rule enq_fresh [OF v(1) create(1) n])
    have "dview (enq_request r type ar aa w x) = dview (enq_prior prior t)"
      using alloc_request_dview [OF create(1)] by (simp add: enq_request_def)
    then show ?thesis using new_lock_data [OF v f] create(2) by (metis snd_conv)
  qed (use d v(2) in simp_all)
qed

lemma use_request: "table_ok t \<Longrightarrow> data_ok t \<Longrightarrow> lrq_in_use (lhb_requests t r) \<Longrightarrow> data_use (lrq_lock (lhb_requests t r)) t"
  by (simp add: data_use_def table_ok_def)

lemma LOCK_convert_data:
  assumes "table_ok t" and "data_ok t" and e: "LOCK_convert r type lck_wait ar aa t = Some (res, u)"
  shows "data_ok u"
proof -
  obtain q where g: "get_request r t = Some q" using e by (auto simp: LOCK_convert_def split: option.splits)
  let ?t = "bump_operations (lbl_series (lhb_locks t (lrq_lock q))) (bump lhb_converts t)"
  have v: "dview ?t = dview t" by simp
  have "data_use (lrq_lock (lhb_requests ?t r)) ?t"
    using use_request [OF assms(1,2)] get_request_Some [OF g] data_use_cong [OF v] by simp
  then show ?thesis using convert_data [of ?t r type lck_wait ar aa] e g assms(2) by (auto simp: LOCK_convert_def split: if_splits)
qed

lemma LOCK_deq_data:
  assumes "table_ok t" and "data_ok t" and e: "LOCK_deq r t = Some (res, u)"
  shows "data_ok u"
proof -
  obtain q where g: "get_request r t = Some q" using e by (auto simp: LOCK_deq_def split: option.splits)
  let ?t = "bump_operations (lbl_series (lhb_locks t (lrq_lock q))) (bump lhb_deqs t)"
  have v: "dview ?t = dview t" by simp
  have "data_use (lrq_lock (lhb_requests ?t r)) ?t"
    using use_request [OF assms(1,2)] get_request_Some [OF g] data_use_cong [OF v] by simp
  then have "data_ok (dequeue r ?t)" using dequeue_data [of ?t r] by (simp only: data_use_def)
  then show ?thesis using e g assms(2) by (auto simp: LOCK_deq_def split: if_splits)
qed

lemma LOCK_downgrade_data:
  assumes "table_ok t" and "data_ok t" and e: "LOCK_downgrade r t = Some (res, u)"
  shows "data_ok u"
proof -
  obtain q where g: "get_request r t = Some q" using e by (auto simp: LOCK_downgrade_def split: option.splits)
  let ?t = "bump lhb_downgrades t"
  have v: "dview ?t = dview t" by simp
  have a: "data_use (lrq_lock (lhb_requests ?t r)) ?t"
    using use_request [OF assms(1,2)] get_request_Some [OF g] data_use_cong [OF v] by simp
  have "data_ok (dequeue r ?t)" using dequeue_data [of ?t r] a by (simp only: data_use_def)
  then show ?thesis using convert_data [OF a] e g assms(2) by (auto simp: LOCK_downgrade_def Let_def split: if_splits)
qed

lemma dview_reject [simp]: "dview (reject r t) = dview t"
  by (simp add: reject_def)

lemma wait_round_dview:
  assumes i: "table_ok t" and e: "wait_round r lck_wait woken timed_out t = Some u"
  shows "dview u = dview t"
proof -
  let ?w = "lrq_owner (lhb_requests t r)"
  define s where "s = set_owner ?w (\<lambda>v. v\<lparr>own_flags := own_flags v - {OWN_wakeup}\<rparr>) t"
  have v: "dview s = dview t" and k: "owners_known s"
    using table_owners_known [OF i] inv_cong [of s t] table_owners_known [of s] i by (simp_all add: s_def)
  have scan: "dview y = dview t" if p: "pending s r" and "deadlock_scan ?w r s = Some (x, y)" for x y
  proof -
    obtain x' m z where z: "deadlock_walk (length (lhb_owners s) + 2) r False (cleared r s) = Some (x', m, z)" "skel z = skel s"
      using scan_walk [OF k p] by metis
    show ?thesis using \<open>deadlock_scan ?w r s = Some (x, y)\<close> deadlock_scan_walk [OF z(1)] dview_skel [OF z(2)] v by (auto split: if_splits)
  qed
  show ?thesis
    using e scan v unfolding wait_round_def Let_def s_def [symmetric] pending_def
    by (auto simp: Let_def split: if_splits option.splits)
qed

lemma dview_wait_end [simp]: "dview (wait_end w t) = dview t"
  by (simp add: wait_end_def)

lemma grant_or_que_end_data:
  assumes "table_ok t" and "data_ok t" and "lrq_in_use (lhb_requests t r)"
  shows "data_ok (snd (grant_or_que_end r lck_wait t))"
proof -
  let ?t = "wait_end (lrq_owner (lhb_requests t r)) t"
  have "data_use (lrq_lock (lhb_requests t r)) ?t" using use_request [OF assms] data_use_cong [OF dview_wait_end] by blast
  then have a: "data_ok ?t" "lbl_in_use (lhb_locks ?t (lrq_lock (lhb_requests ?t r)))" by (simp_all add: data_use_def wait_end_def)
  then show ?thesis using deny_data [OF a] by (simp add: grant_or_que_end_def Let_def)
qed

lemma convert_end_data:
  assumes "table_ok t" and "data_ok t" and "lrq_in_use (lhb_requests t r)"
  shows "data_ok (snd (convert_end r lck_wait ar aa t))"
proof -
  let ?l = "lrq_lock (lhb_requests t r)" and ?t = "wait_end (lrq_owner (lhb_requests t r)) t"
  have a: "data_use ?l ?t" using use_request [OF assms] data_use_cong [OF dview_wait_end] by blast
  have l: "lrq_lock (lhb_requests ?t r) = ?l" by (simp add: wait_end_def)
  have "data_ok (post_pending ?l ?t)" using post_pending_use [OF a] by (simp add: data_use_def)
  then have "data_ok (snd (convert_denied r lck_wait (post_pending ?l ?t)))" using dview_cong [OF dview_denied] by blast
  moreover have "data_ok (set_request r (\<lambda>q. q\<lparr>lrq_ast_routine := ar, lrq_ast_argument := aa\<rparr>) ?t)"
    using a dview_cong [OF dview_ops(1)] by (simp add: data_use_def)
  ultimately show ?thesis using l by (simp add: convert_end_def Let_def)
qed

lemma dview_blocking: "dview (snd (blocking_step w t)) = dview t"
  by (auto simp: blocking_step_def Let_def split: list.splits)

lemma LOCK_write_data_ok:
  assumes "table_ok t" and d: "data_ok t" and e: "LOCK_write_data r data t = Some (n, u)"
  shows "data_ok u"
proof -
  obtain q where g: "get_request r t = Some q" using e by (auto simp: LOCK_write_data_def split: option.splits)
  let ?l = "lrq_lock q" and ?t = "bump lhb_write_data t"
  have v: "dview ?t = dview t" by simp
  have "data_use ?l ?t" using use_request [OF assms(1,2)] get_request_Some [OF g] data_use_cong [OF v] by simp
  then have a: "data_ok (insert_data_que ?l (set_lock ?l (\<lambda>k. k\<lparr>lbl_data := data\<rparr>) (remove_data_que ?l ?t)))"
    using change_data_ok by (simp add: data_use_def)
  have z: "insert_data_que ?l (set_lock ?l (\<lambda>k. k\<lparr>lbl_data := 0\<rparr>) y) = set_lock ?l (\<lambda>k. k\<lparr>lbl_data := 0\<rparr>) y" for y
    by (simp add: insert_data_que_def Let_def set_lock_def)
  have "data_ok (bump_operations m y) = data_ok y" for m y by (rule dview_cong) simp
  then show ?thesis using e g a z by (auto simp: LOCK_write_data_def Let_def split: if_splits)
qed

lemma owner_step_data: "owner_step t u \<Longrightarrow> table_ok t \<Longrightarrow> data_ok t \<Longrightarrow> data_ok u"
proof (induction rule: owner_step.induct)
  case (enq type prior t w parent_request series val ar aa data lck_wait res u)
  then show ?case using LOCK_enq_data by (simp add: LCK_max_def)
next
  case (convert type lck_wait t r ar aa res u)
  then show ?case using LOCK_convert_data by blast
next
  case (deq r t b u)
  then show ?case using LOCK_deq_data by blast
next
  case (downgrade r t s u)
  then show ?case using LOCK_downgrade_data by blast
next
  case (round r lck_wait woken timed_out t u)
  then show ?case using wait_round_dview dview_cong by blast
next
  case (enq_end t r lck_wait res u)
  then show ?case using grant_or_que_end_data [of t r lck_wait] by simp
next
  case (convert_end t r lck_wait ar aa res u)
  then show ?case using convert_end_data [of t r lck_wait ar aa] by simp
next
  case (blocking w t call u)
  then show ?case using dview_cong [OF dview_blocking, of w t] by simp
next
  case (read_data r t d u)
  then have "dview u = dview t" by (auto simp: LOCK_read_data_def Let_def split: option.splits)
  then show ?case using read_data dview_cong by blast
next
  case (read_data2 r series val t d u)
  then have "dview u = dview t" by (auto simp: LOCK_read_data2_def Let_def split: if_splits)
  then show ?case using read_data2 dview_cong by blast
next
  case (write_data r data t d u)
  then show ?case using LOCK_write_data_ok by blast
next
  case (query_data r series aggregate t d u)
  then have "dview u = dview t" by (auto simp: LOCK_query_data_def Let_def split: option.splits if_splits)
  then show ?case using query_data dview_cong by blast
qed

lemma purge_requests_data:
  assumes "table_ok t" and "own_ok t" and "data_ok t" and "w \<in> set (lhb_owners t)" and "purge_requests w t = Some u"
  shows "data_ok u"
  using assms
proof (induction "card {r. lrq_in_use (lhb_requests t r) \<and> lrq_owner (lhb_requests t r) = w}" arbitrary: t rule: less_induct)
  case less
  show ?case
  proof (cases "own_requests (lhb_own t w)")
    case Nil
    then show ?thesis using less.prems by (simp add: purge_requests.simps)
  next
    case (Cons r rs)
    note s = release_step [OF less.prems(1,2,4) Cons]
    have "lbl_in_use (lhb_locks t (lrq_lock (lhb_requests t r)))" using less.prems(1) s(1) by (simp add: table_ok_def)
    then show ?thesis
      using less.hyps [OF s(5,2,3) _ s(4)] release_request_data [OF less.prems(3)] less.prems(5) Cons by (simp add: purge_requests.simps [of w t])
  qed
qed

lemma dview_owners [simp]: "dview (t\<lparr>lhb_owners := ws\<rparr>) = dview t" "dview (t\<lparr>lhb_free_owners := ws\<rparr>) = dview t"
  "dview (t\<lparr>lhb_free_requests := ws\<rparr>) = dview t"
  by (simp_all add: dview_def)

lemma purge_owner_data:
  assumes i: "table_ok t" and o: "own_ok t" and d: "data_ok t" and w: "w \<in> set (lhb_owners t)" and e: "purge_owner p w t = Some u"
  shows "data_ok u"
proof -
  let ?t = "post_secondary his_del_owner p w 0 t"
  obtain v where v: "purge_requests w ?t = Some v" using e by (auto simp: purge_owner_def split: option.splits)
  have t: "dview ?t = dview t" by (simp add: dview_def post_secondary_def)
  have "data_ok v" by (rule purge_requests_data [OF secondary_ok [OF i o] _ _ v]) (use d w dview_cong [OF t] in \<open>simp_all add: post_secondary_def\<close>)
  moreover have "dview (purge_blocks w rs x) = dview x" for rs x
    by (induction w rs x rule: purge_blocks.induct) (simp_all add: Let_def)
  then have "dview u = dview v" using e v by (auto simp: purge_owner_def Let_def)
  ultimately show ?thesis using dview_cong by blast
qed

lemma create_owner_data:
  assumes i: "table_ok t" and o: "own_ok t" and d: "data_ok t" and e: "create_owner ow ty t = Some (h, u)"
  shows "data_ok u"
proof -
  let ?f = "find (\<lambda>w. own_owner_id (lhb_own t w) = ow \<and> own_owner_type (lhb_own t w) = ty) (lhb_owners t)"
  obtain v where v: "(case ?f of None \<Rightarrow> Some t | Some w \<Rightarrow> purge_owner DUMMY_OWNER_CREATE w t) = Some v"
    using e by (auto simp: create_owner_def split: option.splits)
  have "data_ok v"
  proof (cases ?f)
    case (Some w)
    then have "w \<in> set (lhb_owners t)" by (auto simp: find_Some_iff)
    then show ?thesis using v Some purge_owner_data [OF i o d] by simp
  qed (use v d in simp)
  moreover have "dview x = dview v" if "alloc_owner v = Some (w, x)" for w x
    using that alloc_dview by (auto simp: alloc_owner_def split: list.splits) (simp add: dview_def)
  then have "dview u = dview v" using e v
    by (auto simp: create_owner_def init_owner_block_def Let_def split: option.splits)
  ultimately show ?thesis using dview_cong by blast
qed

lemma lock_step_data: "lock_step t u \<Longrightarrow> table_ok t \<Longrightarrow> own_ok t \<Longrightarrow> data_ok t \<Longrightarrow> data_ok u"
proof (induction rule: lock_step.induct)
  case (owner t u)
  then show ?case using owner_step_data by blast
next
  case (init h t f owner_id owner_type ok h' u)
  have "data_ok (set_owner h g t)" for g using dview_cong [OF dview_ops(2)] init.prems(3) by blast
  moreover have "data_ok y" if "create_owner owner_id owner_type t = Some (x, y)" for x y by (rule create_owner_data [OF init.prems that])
  ultimately show ?case using init.hyps(2) init.prems(3) by (auto simp: LOCK_init_def split: if_splits option.splits)
next
  case (fini w t h u)
  let ?t = "set_owner w (\<lambda>v. v\<lparr>own_count := to_sshort (own_count v - 1)\<rparr>) t"
  note k = count_ok [OF fini.prems(1,2) refl, of w "\<lambda>v. to_sshort (own_count v - 1)"]
  have d: "data_ok ?t" using dview_cong [OF dview_ops(2)] fini.prems(3) by blast
  have "data_ok y" if "purge_owner w w ?t = Some y" for y
    by (rule purge_owner_data [OF k(1,2) d _ that]) (use fini.hyps(1) k(3) in simp)
  then show ?case using fini.hyps(2) fini.prems(3) d by (auto simp: LOCK_fini_def Let_def split: if_splits option.splits)
qed

lemma initial_data:
  assumes "initial t"
  shows "data_ok t"
proof -
  obtain slots mapped a b c d sz_lrq sz_lbl sz_own alignment lock_order where
    "lock_initialize slots mapped a b c d sz_lrq sz_lbl sz_own alignment lock_order = Some t" using assms unfolding initial_def by blast
  then have "lhb_data t = (\<lambda>_. [])" "lhb_locks t = (\<lambda>_. no_lbl)"
    by (auto simp: lock_initialize_def Let_def dest!: alloc_frame alloc_blocks_frame split: option.splits)
  then show ?thesis by (simp add: data_ok_def with_data_def family_def no_lbl_def)
qed

interpretation lock_data: step_invariant initial lock_step "\<lambda>t. (table_ok t \<and> own_ok t) \<and> data_ok t"
proof
  show "(table_ok t \<and> own_ok t) \<and> data_ok t" if "initial t" for t
    using lock_table.base [OF that] initial_data [OF that] by blast
  show "(table_ok u \<and> own_ok u) \<and> data_ok u" if "lock_step t u" "(table_ok t \<and> own_ok t) \<and> data_ok t" for t u
    using that lock_table.keep lock_step_data by blast
qed

lemma reachable_data: "reachable t \<Longrightarrow> data_ok t"
  unfolding reachable_def using lock_data.always by blast

subsection \<open>Queries\<close>

text \<open>The locks of a series with data below a parent.\<close>

definition members :: "lhb \<Rightarrow> nat \<Rightarrow> nat \<Rightarrow> nat set" where
  "members t p s = {l. with_data t s l \<and> lbl_parent (lhb_locks t l) = p}"

lemma family_members:
  assumes "data_ok t"
  obtains ls where "distinct ls" "set ls = members t p s" "family t p s = map (\<lambda>l. lbl_data (lhb_locks t l)) ls" "sorted (family t p s)"
proof -
  show ?thesis
    by (rule that [of "filter (\<lambda>l. lbl_parent (lhb_locks t l) = p) (lhb_data t s)"])
      (use assms in \<open>auto simp: data_ok_def members_def family_def\<close>)
qed

lemma sorted_ends:
  fixes ds :: "int list"
  assumes "sorted ds" and "ds \<noteq> []"
  shows "hd ds = Min (set ds)" and "last ds = Max (set ds)"
proof -
  show "hd ds = Min (set ds)" using assms by (cases ds) (auto intro!: Min_eqI [symmetric])
  have "d \<le> last ds" if "d \<in> set ds" for d
    using assms that by (induction ds) auto
  then show "last ds = Max (set ds)" using assms(2) by (auto intro!: Max_eqI [symmetric])
qed

lemma slong_sum_eq: "slong_sum ds = to_slong (sum_list ds)"
proof -
  have "fold (\<lambda>d data. to_slong (data + d)) ds (to_slong s) = to_slong (s + sum_list ds)" for s
    by (induction ds arbitrary: s) (simp_all add: to_slong_add add.assoc)
  from this [of 0] show ?thesis by (simp add: slong_sum_def to_slong_def)
qed

lemma slong_count_eq: "slong_count ds = to_slong (int (length ds))"
proof -
  have "fold (\<lambda>d count. to_slong (count + 1)) ds (to_slong s) = to_slong (s + int (length ds))" for s
    by (induction ds arbitrary: s) (simp_all add: to_slong_add add.assoc)
  from this [of 0] show ?thesis by (simp add: slong_count_def to_slong_def)
qed

text \<open>
  C40. \<^verbatim>\<open>LOCK_query_data\<close> in any table that can arise: the minimum, the maximum, the number, the sum, the average (rounded towards
  zero) of the numbers of all the locks in use that belong to the series, have the given lock as their parent and carry
  a number, or whether there is one; 0 if there is none. The queue it walks has these locks, each one once, in ascending order.
  Sum and number are accumulated in 32 bits: what the code returns is the sum, and the number, reduced to an \<^verbatim>\<open>SLONG\<close>, and
  the average is the quotient of the two; a sum that fits into an \<^verbatim>\<open>SLONG\<close> is returned as it is.
\<close>

theorem LOCK_query_data_exact:
  assumes "reachable t" and "parent_request \<noteq> 0" and "series < LCK_MAX_SERIES" and "get_request parent_request t = Some parent"
  defines "F \<equiv> {l. lbl_in_use (lhb_locks t l) \<and> lbl_series (lhb_locks t l) = series \<and> lbl_parent (lhb_locks t l) = lrq_lock parent
      \<and> lrq_lock parent \<noteq> 0 \<and> lbl_data (lhb_locks t l) \<noteq> 0}"
  shows "LOCK_query_data parent_request series aggregate t = Some (case aggregate of
      LCK_MIN \<Rightarrow> (if F = {} then 0 else Min ((\<lambda>l. lbl_data (lhb_locks t l)) ` F))
    | LCK_MAX \<Rightarrow> (if F = {} then 0 else Max ((\<lambda>l. lbl_data (lhb_locks t l)) ` F))
    | LCK_CNT \<Rightarrow> to_slong (int (card F))
    | LCK_SUM \<Rightarrow> to_slong (\<Sum>l \<in> F. lbl_data (lhb_locks t l))
    | LCK_AVG \<Rightarrow> (if to_slong (int (card F)) = 0 then 0
        else c_div (to_slong (\<Sum>l \<in> F. lbl_data (lhb_locks t l))) (to_slong (int (card F))))
    | LCK_ANY \<Rightarrow> (if F = {} then 0 else 1), bump lhb_query_data t) \<and>
    (- (2 ^ 31) \<le> (\<Sum>l \<in> F. lbl_data (lhb_locks t l)) \<and> (\<Sum>l \<in> F. lbl_data (lhb_locks t l)) < 2 ^ 31 \<longrightarrow>
      LOCK_query_data parent_request series LCK_SUM t = Some (\<Sum>l \<in> F. lbl_data (lhb_locks t l), bump lhb_query_data t))"
proof -
  have F: "F = members t (lrq_lock parent) series" using assms(3) by (auto simp: F_def members_def with_data_def)
  obtain ls where ls: "distinct ls" "set ls = F" "family t (lrq_lock parent) series = map (\<lambda>l. lbl_data (lhb_locks t l)) ls"
      "sorted (family t (lrq_lock parent) series)"
    unfolding F by (rule family_members [OF reachable_data [OF assms(1)]])
  let ?ds = "map (\<lambda>l. lbl_data (lhb_locks t l)) ls"
  have e: "F = {} \<longleftrightarrow> ls = []" "card F = length ls" "(\<Sum>l \<in> F. lbl_data (lhb_locks t l)) = sum_list ?ds"
    "(\<lambda>l. lbl_data (lhb_locks t l)) ` F = set ?ds"
    using ls(1) unfolding ls(2) [symmetric] by (simp_all add: distinct_card sum_list_distinct_conv_sum_set)
  have m: "ls \<noteq> [] \<Longrightarrow> hd ?ds = Min (set ?ds)" "ls \<noteq> [] \<Longrightarrow> last ?ds = Max (set ?ds)" using sorted_ends [of ?ds] ls(3,4) by simp_all
  have c: "(case ds of [] \<Rightarrow> 0 | d # _ \<Rightarrow> d) = (if ds = [] then 0 else hd ds)" for ds :: "int list" by (cases ds) simp_all
  show ?thesis
    using assms(2-4) m unfolding LOCK_query_data_def Let_def c e
    by (cases aggregate) (simp_all add: hd_rev ls(3) slong_sum_eq slong_count_eq to_slong_small)
qed

text \<open>A lock below the first one, with a number.\<close>

definition second_table :: lhb where
  "second_table = snd (the (LOCK_enq 0 516 1 [] LCK_PR 0 0 5 0 515 first_table))"

definition second_parts :: lhb where
  "second_parts = set_lock 519 (\<lambda>k. k\<lparr>lbl_size := 0, lbl_in_use := True\<rparr>)
     ((set_owner 515 (\<lambda>v. v\<lparr>own_requests := own_requests v @ [518]\<rparr>)
       (set_request 518 (\<lambda>q. q\<lparr>lrq_in_use := True, lrq_flags := {}, lrq_requested := LCK_PR, lrq_state := LCK_none,
           lrq_data := 0, lrq_owner := 515, lrq_ast_routine := 0, lrq_ast_argument := 0\<rparr>)
         (post_history his_enq 515 0 518 ((bump lhb_enqs first_table)\<lparr>lhb_used := 519\<rparr>))))\<lparr>lhb_used := 520\<rparr>)"

lemma grant_no_data:
  assumes "lrq_data (lhb_requests t r) = 0"
  shows "dview (grant r l t) = dview t"
proof -
  define v where "v = set_request r (\<lambda>q. q\<lparr>lrq_state := lrq_requested q\<rparr>) (inc_count l (lrq_requested (lhb_requests t r))
      (post_history his_grant (lrq_owner (lhb_requests t r)) (lrq_lock (lhb_requests t r)) r t))"
  have "grant_data r l v = v" using assms by (simp add: v_def grant_data_def inc_count_def Let_def)
  then show ?thesis by (simp add: grant_def Let_def grant_pending_def flip: v_def) (simp add: v_def)
qed

lemma grant_length: "lhb_length (grant r l t) = lhb_length t"
  using arg_cong [OF core_grant [of r l t], of lhb_length]
  by (simp add: core_def grant_core_def grant_pending_def set_lock_def set_request_def inc_count_def clear_flags_def dec_pending_def)

lemma own_ops:
  "lhb_own (set_request r g t) = lhb_own t" "lhb_own (set_lock l f t) = lhb_own t" "lhb_own (post_history h a b c t) = lhb_own t"
  "lhb_own (inc_count l n t) = lhb_own t" "lhb_own (clear_flags r fs t) = lhb_own t" "lhb_own (dec_pending l t) = lhb_own t"
  "lhb_own (insert_data_que l t) = lhb_own t" "lhb_own (remove_data_que l t) = lhb_own t"
  "lhb_own (grant_data r l t) = lhb_own t" "lhb_own (grant_pending r l t) = lhb_own t"
  "own_count (lhb_own (post_wakeup v t) w) = own_count (lhb_own t w)"
  by (simp_all add: set_request_def set_lock_def post_history_def inc_count_def clear_flags_def dec_pending_def insert_data_que_def
      remove_data_que_def grant_data_def grant_pending_def post_wakeup_def set_owner_def bump_def Let_def)

lemma grant_own: "own_count (lhb_own (grant r l t) w) = own_count (lhb_own t w)"
  unfolding grant_def Let_def own_ops ..

lemma install_fields:
  "lhb_length (install r l parent series val type data v) = lhb_length v" "lhb_own (install r l parent series val type data v) = lhb_own v"
  "lhb_hash_slots v = 1 \<Longrightarrow> lhb_hash (install r l parent series val type data v) = (lhb_hash v)(0 := lhb_hash v 0 @ [l])"
  "lbl_series (lhb_locks (install r l parent series val type data v) l) = series mod 256"
  "lbl_parent (lhb_locks (install r l parent series val type data v) l) = parent"
  "lbl_data (lhb_locks (install r l parent series val type data v) l) = data"
  by (simp_all add: install_def Let_def set_lock_def set_request_def bump_operations_def bump_def insert_data_que_def hash_slot_def)

lemmas parts_defs = set_lock_def set_request_def set_owner_def bump_def post_history_def

lemma first_table_sel:
  "lhb_used first_table = 518" "lhb_length first_table = 2000" "lhb_free_requests first_table = []" "lhb_free_locks first_table = []"
  "lhb_hash first_table = (\<lambda>_. [])(0 := [517])" "sizeof_lrq first_table = 1" "sizeof_lbl first_table = 1" "ALIGNMENT first_table = 1"
  "lhb_owners first_table = [515]" "own_count (lhb_own first_table 515) = 1" "lrq_in_use (lhb_requests first_table 516)"
  "lrq_lock (lhb_requests first_table 516) = 517" "lbl_series (lhb_locks first_table 517) = 0" "lbl_in_use (lhb_locks first_table 517)"
  "queue first_table l = (if l = 517 then [516] else [])"
proof -
  let ?i = "install 516 517 0 0 [] LCK_EX 0 first_parts"
  have f: "first_table = grant 516 517 ?i" by (rule first_table_enq)
  have v: "dview first_table = dview ?i" unfolding f by (rule grant_no_data) (simp add: install_sel first_parts_def)
  note R = rest_eqD [OF rest_grant [of 516 517 ?i]] and C = core_eq_fields [OF core_grant [of 516 517 ?i]] and N = new_table_start
  show "lhb_used first_table = 518" "lhb_free_requests first_table = []" "lhb_free_locks first_table = []"
    "sizeof_lrq first_table = 1" "sizeof_lbl first_table = 1" "ALIGNMENT first_table = 1" "lhb_owners first_table = [515]"
    unfolding f R install_rest(1-7) by (simp_all add: first_parts_def parts_defs N)
  show "lhb_hash first_table = (\<lambda>_. [])(0 := [517])"
    unfolding f R by (subst install_fields(3)) (simp_all add: first_parts_def parts_defs N)
  show "lhb_length first_table = 2000" unfolding f grant_length install_fields by (simp add: first_parts_def parts_defs N)
  have "own_count (lhb_own first_parts 515) = own_count (lhb_own new_table 515)" by (simp add: first_parts_def parts_defs)
  then show "own_count (lhb_own first_table 515) = 1" unfolding f grant_own install_fields N .
  show "lrq_in_use (lhb_requests first_table 516)" "lrq_lock (lhb_requests first_table 516) = 517"
    unfolding f C by (simp_all add: grant_core_sel install_sel first_parts_def)
  show "lbl_series (lhb_locks first_table 517) = 0" "lbl_in_use (lhb_locks first_table 517)"
    using v first_table_use install_fields(4) [of 516 517 0 0 "[]" LCK_EX 0 first_parts] by (simp_all add: dview_def fun_eq_iff)
  show "queue first_table l = (if l = 517 then [516] else [])"
    unfolding f C by (cases "l = 517") (simp_all add: grant_core_sel install_sel first_parts_def N, simp add: no_lbl_def)
qed

lemma enq_child:
  assumes "w \<noteq> 0" and "own_count (lhb_own t w) \<noteq> 0" and "p \<noteq> 0" and "get_request p (bump lhb_enqs t) = Some q"
    and "parent = lrq_lock (lhb_requests t p)" and "alloc_request (bump lhb_enqs t) = Some (r, x)"
    and "y = set_owner w (\<lambda>v. v\<lparr>own_requests := own_requests v @ [r]\<rparr>)
       (set_request r (\<lambda>q. q\<lparr>lrq_in_use := True, lrq_flags := {}, lrq_requested := type, lrq_state := LCK_none,
           lrq_data := 0, lrq_owner := w, lrq_ast_routine := ar, lrq_ast_argument := aa\<rparr>) (post_history his_enq w 0 r x))"
    and "find_lock parent series val y = None" and "alloc_lock (length val) y = Some (l, v)"
  shows "LOCK_enq 0 p series val type ar aa data lck_wait w t = Some (Granted r, grant r l (install r l parent series val type data v))"
  using assms(1-4,6,8,9) unfolding LOCK_enq_def assms(7) assms(5) by (simp add: Let_def new_lock_def install_def)

lemma second_table_enq:
  "LOCK_enq 0 516 1 [] LCK_PR 0 0 5 0 515 first_table = Some (Granted 518, second_table)"
  "second_table = grant 518 519 (install 518 519 517 1 [] LCK_PR 5 second_parts)"
proof -
  let ?x = "(bump lhb_enqs first_table)\<lparr>lhb_used := 519\<rparr>"
  let ?y = "set_owner 515 (\<lambda>v. v\<lparr>own_requests := own_requests v @ [518]\<rparr>)
       (set_request 518 (\<lambda>q. q\<lparr>lrq_in_use := True, lrq_flags := {}, lrq_requested := LCK_PR, lrq_state := LCK_none,
           lrq_data := 0, lrq_owner := 515, lrq_ast_routine := 0, lrq_ast_argument := 0\<rparr>) (post_history his_enq 515 0 518 ?x))"
  note N = first_table_sel
  have P: "get_request 516 (bump lhb_enqs first_table) = Some (lhb_requests first_table 516)"
    by (simp add: get_request_def bump_def N)
  have A: "alloc_request (bump lhb_enqs first_table) = Some (518, ?x)"
    by (simp add: alloc_request_def alloc_def bump_def N FB_ALIGN_def Let_def)
  have B: "find_lock 517 1 [] ?y = None"
    by (simp add: find_lock_def set_owner_def set_request_def post_history_def bump_def N Let_def)
  have C: "alloc_lock (length ([] :: byte list)) ?y = Some (519, second_parts)"
    by (simp add: second_parts_def alloc_lock_def alloc_def set_owner_def set_request_def post_history_def bump_def N FB_ALIGN_def Let_def)
  have e: "LOCK_enq 0 516 1 [] LCK_PR 0 0 5 0 515 first_table = Some (Granted 518, grant 518 519 (install 518 519 517 1 [] LCK_PR 5 second_parts))"
    by (rule enq_child [OF _ _ _ P N(12) [symmetric] A refl B C]) (simp, unfold N(10), simp_all)
  then show f: "second_table = grant 518 519 (install 518 519 517 1 [] LCK_PR 5 second_parts)" by (simp add: second_table_def)
  show "LOCK_enq 0 516 1 [] LCK_PR 0 0 5 0 515 first_table = Some (Granted 518, second_table)" unfolding f by (rule e)
qed

lemma second_table_reachable: "reachable second_table"
proof (rule reachable_step [OF first_table_reachable lock_step.owner])
  show "owner_step first_table second_table"
    by (rule owner_step.enq [OF _ _ _ _ second_table_enq(1)]) (simp_all add: first_table_sel levels)
qed

lemma second_table_sel:
  "lrq_in_use (lhb_requests second_table 516)" "lrq_lock (lhb_requests second_table 516) = 517" "lbl_in_use (lhb_locks second_table 517)"
  "lbl_in_use (lhb_locks second_table 519)" "lbl_series (lhb_locks second_table 519) = 1" "lbl_parent (lhb_locks second_table 519) = 517"
  "lbl_data (lhb_locks second_table 519) = 5"
proof -
  let ?i = "install 518 519 517 1 [] LCK_PR 5 second_parts"
  have f: "second_table = grant 518 519 ?i" by (rule second_table_enq)
  have v: "dview second_table = dview ?i" unfolding f by (rule grant_no_data) (simp add: install_sel second_parts_def)
  note C = core_eq_fields [OF core_grant [of 518 519 ?i]]
  show "lrq_in_use (lhb_requests second_table 516)" "lrq_lock (lhb_requests second_table 516) = 517" "lbl_in_use (lhb_locks second_table 517)"
    "lbl_in_use (lhb_locks second_table 519)"
    unfolding f C by (simp_all add: grant_core_sel install_sel second_parts_def first_table_sel)
  show "lbl_series (lhb_locks second_table 519) = 1" "lbl_parent (lhb_locks second_table 519) = 517" "lbl_data (lhb_locks second_table 519) = 5"
    using v install_fields(4-6) [of 518 519 517 1 "[]" LCK_PR 5 second_parts] by (simp_all add: dview_def fun_eq_iff)
qed

theorem LOCK_query_data_exact_witness:
  "reachable second_table \<and> LOCK_query_data 516 1 LCK_ANY second_table = Some (1, bump lhb_query_data second_table)"
proof -
  let ?F = "{l. lbl_in_use (lhb_locks second_table l) \<and> lbl_series (lhb_locks second_table l) = 1
      \<and> lbl_parent (lhb_locks second_table l) = lrq_lock (lhb_requests second_table 516)
      \<and> lrq_lock (lhb_requests second_table 516) \<noteq> 0 \<and> lbl_data (lhb_locks second_table l) \<noteq> 0}"
  have g: "get_request 516 second_table = Some (lhb_requests second_table 516)" by (simp add: get_request_def second_table_sel)
  have s: "1 < LCK_MAX_SERIES" by (simp add: LCK_MAX_SERIES_def)
  have "519 \<in> ?F" by (simp add: second_table_sel)
  then have "?F \<noteq> {}" by blast
  then show ?thesis
    using LOCK_query_data_exact [OF second_table_reachable _ s g, of LCK_ANY, THEN conjunct1] second_table_reachable by simp
qed

subsection \<open>Leaving\<close>

text \<open>
  C5. When an owner leaves for good, \<^verbatim>\<open>LOCK_fini\<close> ends, the owner is gone, its requests are released,
  whatever their state, and the requests of all other owners are still there; the table is one that can arise, so that what
  is known of these holds for it.
\<close>

theorem LOCK_fini_releases:
  assumes "reachable t" and "w \<in> set (lhb_owners t)" and "w \<noteq> 0" and "own_count (lhb_own t w) = 1"
  shows "\<exists>u. LOCK_fini w t = Some (0, u) \<and> reachable u \<and> w \<notin> set (lhb_owners u)
    \<and> {r. lrq_in_use (lhb_requests u r)} = {r. lrq_in_use (lhb_requests t r) \<and> lrq_owner (lhb_requests t r) \<noteq> w}"
proof -
  let ?t = "set_owner w (\<lambda>v. v\<lparr>own_count := to_sshort (own_count v - 1)\<rparr>) t"
  note k = count_ok [OF reachable_ok [OF assms(1)] reachable_own [OF assms(1)] refl, of w "\<lambda>v. to_sshort (own_count v - 1)"]
  have w: "w \<in> set (lhb_owners ?t)" using assms(2) by (simp add: k(3))
  obtain u where u: "purge_owner w w ?t = Some u" "purged w ?t u" by (rule purge_owner_ends [OF k(1,2) w])
  have e: "LOCK_fini w t = Some (0, u)" using assms(3,4) u(1) by (simp add: LOCK_fini_def Let_def set_owner_def to_sshort_def)
  have "reachable u" by (rule reachable_step [OF assms(1) lock_step.fini [OF assms(2) e]])
  moreover have "w \<notin> set (lhb_owners u)" using u(2) k(2) by (simp add: purged_def own_ok_def)
  moreover have "lhb_requests ?t = lhb_requests t" by (simp add: set_owner_def)
  ultimately show ?thesis using e u(2) by (simp add: purged_def)
qed

theorem LOCK_fini_releases_witness:
  "\<exists>u. LOCK_fini 515 first_table = Some (0, u) \<and> 515 \<notin> set (lhb_owners u) \<and> \<not> lrq_in_use (lhb_requests u 516)"
proof -
  have o: "lrq_owner (lhb_requests first_table 516) = 515"
    unfolding first_table_enq(2) core_eq_fields(4) [OF core_grant] by (simp add: grant_core_sel install_sel first_parts_def)
  show ?thesis using LOCK_fini_releases [OF first_table_reachable, of 515] o by (auto simp: first_table_sel)
qed

end
