(* ===== verification/Spec2Isabelle.thy ===== *)
theory Spec2Isabelle
  imports FB_Prelude FB_Sqz FB_Vector FB_Timestamp FB_Clumplet FB_EvlString FB_Btn FB_Like FB_SortProps FB_LockProps FB_LockData
begin

text \<open>
  \<^bold>\<open>Firebird 2.1: a verification of parts of the engine and of its support classes.\<close>

  \<^bold>\<open>The program.\<close> The repository is the source of the Firebird database server. Its engine
  (\<^verbatim>\<open>src/src/jrd\<close>) keeps records compressed on data pages, indexes as B-trees of prefix compressed
  keys, and evaluates requests over them; the support library (\<^verbatim>\<open>src/src/common/classes\<close>) has the
  containers, the date arithmetic and the parameter blocks with which clients and engine talk. Around
  them are the SQL compiler (\<^verbatim>\<open>dsql\<close>), the lock manager (\<^verbatim>\<open>lock\<close>), the network layer (\<^verbatim>\<open>remote\<close>),
  backup, utilities, preprocessors and character set tables.

  \<^bold>\<open>The theories.\<close>

  \<^item> \<^verbatim>\<open>FB_Prelude\<close>: bytes, results with errors, unsigned truncations, insertion and removal by index,
    little endian numbers, and the lemmas about them that the components share.
  \<^item> \<^verbatim>\<open>FB_Sqz\<close> (\<^verbatim>\<open>jrd/sqz.cpp\<close>): run length compression of records in its three
    implementations (\<^verbatim>\<open>SQZ_length\<close> with \<^verbatim>\<open>SQZ_compress\<close>, \<^verbatim>\<open>SQZ_fast\<close>, \<^verbatim>\<open>SQZ_compress_length\<close>),
    decompression, and the difference records that undo an update (\<^verbatim>\<open>SQZ_differences\<close>,
    \<^verbatim>\<open>SQZ_apply_differences\<close>). The code scans with pointers; the model consumes lists of bytes and
    makes a read or write beyond the end an error. C1 to C4 and C6: compressing and decompressing restores the record,
    the announced length is the one produced, decompression never leaves its buffers, differences applied to the
    new record give the old one, and where the checks of the code are incomplete.
  \<^item> \<^verbatim>\<open>FB_Vector\<close> (\<^verbatim>\<open>common/classes/vector.h\<close>, \<^verbatim>\<open>array.h\<close>): vectors of fixed capacity, growing
    arrays, their sorted variants with binary search. C7 to C9: sortedness is kept and the search
    is right, arrays refine lists of cells under all their operations, and what one overload of
    \<^verbatim>\<open>insert\<close> does wrong, byte by byte.
  \<^item> \<^verbatim>\<open>FB_Timestamp\<close> (\<^verbatim>\<open>common/classes/timestamp.cpp\<close>): day numbers, ticks and calendar
    fields. C10 to C13 and C15: encoding and decoding are inverse over the whole supported range, consecutive
    days decode to consecutive dates, the range check is exact.
  \<^item> \<^verbatim>\<open>FB_Clumplet\<close> (\<^verbatim>\<open>common/classes/ClumpletReader.cpp\<close>, \<^verbatim>\<open>ClumpletWriter.cpp\<close>): parameter
    blocks. The locales \<^verbatim>\<open>tag_cursor\<close> and \<^verbatim>\<open>item_cursor\<close> state what the search and deletion loops
    need of a cursor; they are interpreted on the reader. C17 to C25: what is written is read back, insertion,
    search and deletion do what the list of items says, no reading operation leaves the buffer, what the limit bounds,
    how a failed search and a reset go wrong; C28: the dump of the error handlers, which may leave the buffer.
  \<^item> \<^verbatim>\<open>FB_EvlString\<close> (\<^verbatim>\<open>jrd/evl_string.h\<close>): the evaluators of \<^verbatim>\<open>STARTING WITH\<close> and
    \<^verbatim>\<open>CONTAINING\<close>, fed with chunks of a blob, the latter by the algorithm of Knuth, Morris and
    Pratt. The locale \<^verbatim>\<open>chunk_evaluator\<close> lifts a fact about one character to chunks. C26 and C27: both decide what they are
    named after, for any chunking.
  \<^item> \<^verbatim>\<open>FB_Btn\<close> (\<^verbatim>\<open>jrd/btn.cpp\<close>, \<^verbatim>\<open>btn.h\<close>): index nodes, jump nodes and jump
    information on index pages, in the old and the new page format. A page is its list of bytes, a
    pointer an offset into it. C29 to C33: what is written is read back from the announced
    space and the rest of the page is untouched, key prefixes are the longest possible, and the search among
    duplicates finds the right page.

  \<^item> \<^verbatim>\<open>FB_Like\<close> (\<^verbatim>\<open>jrd/evl_string.h\<close>): the evaluator of \<^verbatim>\<open>LIKE\<close>: the pattern is parsed into
    items, strings get their tables, and a set of branches follows the subject chunk by chunk. C34: it
    refuses exactly the patterns with a wrong escape and otherwise decides the relation between
    pattern and subject that the standard defines.
  \<^item> The sort (\<^verbatim>\<open>jrd/sort.cpp\<close>, \<^verbatim>\<open>sort.h\<close>) as far as it works in memory, in five theories. \<^verbatim>\<open>FB_SortKey\<close> has
    \<^verbatim>\<open>diddle_key\<close> on the bytes of a record, \<^verbatim>\<open>FB_Sort\<close> the array of pointers with back pointers, \<^verbatim>\<open>quick\<close> with
    its two stacks, the passes over pairs and duplicates, and \<^verbatim>\<open>SORT_init\<close>, \<^verbatim>\<open>SORT_put\<close>, \<^verbatim>\<open>SORT_sort\<close>, \<^verbatim>\<open>SORT_get\<close>;
    a read outside the memory or a push on a full stack fails. \<^verbatim>\<open>FB_SortMem\<close> shows that \<^verbatim>\<open>quick\<close> leaves only
    neighbours out of order, that its stacks hold at most 31 intervals, and that the pass over the pairs completes the
    order; \<^verbatim>\<open>FB_SortOrder\<close> that converted fields compare like their values; its locale \<^verbatim>\<open>coded_order\<close> is what the sort
    needs of the conversion, and is interpreted on it. \<^verbatim>\<open>FB_SortProps\<close>, C14: what is put is
    given back, in the order of the keys; C16: the conversion can be undone and represents the order of the values, with an exception for quads; and
    that equal records are compared beyond their end, and which of two duplicates is dropped.
  \<^item> The lock manager (\<^verbatim>\<open>lock/lock.cpp\<close>, \<^verbatim>\<open>lock.h\<close>) in eight theories. \<^verbatim>\<open>FB_Lock\<close> has the
    table and its operations: one record for the header with all blocks, one function per routine
    of the code; \<^verbatim>\<open>wait_for_request\<close> is cut where it releases the table (\<^verbatim>\<open>wait_begin\<close>,
    \<^verbatim>\<open>wait_round\<close>, \<^verbatim>\<open>wait_end\<close>). \<^verbatim>\<open>FB_LockInv\<close> says when one lock with its requests is right and
    what granting keeps of it; \<^verbatim>\<open>FB_LockSteps\<close> lifts this to the table (\<^verbatim>\<open>table_ok\<close>) and to releasing and
    waiting. \<^verbatim>\<open>FB_LockReach\<close> has the step relation \<^verbatim>\<open>owner_step\<close> of what attached owners do, interleaved in any order, and the
    initial table. \<^verbatim>\<open>FB_LockOwner\<close> adds \<^verbatim>\<open>LOCK_init\<close> and \<^verbatim>\<open>LOCK_fini\<close> to it (\<^verbatim>\<open>lock_step\<close>), with the queues
    of requests that an owner has, and defines the reachable tables; the locale \<^verbatim>\<open>step_invariant\<close> of the prelude is interpreted on
    the steps. \<^verbatim>\<open>FB_LockDeadlock\<close> analyses the deadlock search as a depth first search in the graph of
    requests that wait for each other. \<^verbatim>\<open>FB_LockProps\<close>, C35 to C39: levels granted together are
    compatible and the counters right in every reachable table, a dequeue serves the waiting requests,
    \<^verbatim>\<open>LOCK_downgrade\<close> may return a level the request does not have, a round of a wait breaks the deadlock it finds, and
    the deadlock search is exact. \<^verbatim>\<open>FB_LockData\<close>, C40: the queues of locks with data stay sorted and complete, so that
    \<^verbatim>\<open>LOCK_query_data\<close> computes the aggregates of the set of locks it is about; and C5: an owner that leaves
    takes exactly its requests with it.

  \<^bold>\<open>Bounds and fuel.\<close> The loops are total functions, by structural recursion or with a termination
  measure (bytes left on a page, characters left in a string), but for four. The fallback loop \<^verbatim>\<open>kmp_fall\<close> of the
  string searches is a partial function in the option monad; C27 and C34 show that it returns. So is the loop of \<^verbatim>\<open>purge_owner\<close>, for which C5 shows it, and the loop of \<^verbatim>\<open>quick\<close> over its intervals, for which C14 does. The recursion of
  \<^verbatim>\<open>deadlock_walk\<close> has fuel, the number of owners plus two; C39 shows that it is always enough, since every request on
  the path is the one some owner waits for.
  Integers that the code truncates are truncated in the model (\<^verbatim>\<open>to_ushort\<close>, \<^verbatim>\<open>to_slong\<close>); bytes are words.
  The byte order is little endian.

  \<^bold>\<open>Not modelled.\<close> Of the lock manager: \<^verbatim>\<open>LOCK_re_post\<close> with its branch of \<^verbatim>\<open>blocking_action2\<close>, \<^verbatim>\<open>LOCK_set_owner_handle\<close>, the mutex and the mapping of the table, and the variants
  of other platforms; a signal to an owner is recorded and handled in later steps, where the super server handles it at once. Of the sort: the runs on scratch files and their merging, which are needed when the records do not fit into
  memory. The engine's page cache, transactions, optimizer and request execution, the SQL
  compiler, network layer, utilities and character sets: they are built
  on operating system services, on generated parsers and on mutable object graphs of thousands of lines;
  the manifest lists them one by one.
\<close>

end
